(* ===== verification/Prelude.thy ===== *)
theory Prelude
  imports Main "HOL-Library.Word"
begin

unbundle bit_operations_syntax

text \<open>
  Shared vocabulary of the development.

  Machine integers. \<open>unsigned long\<close> values (addresses, byte counts, file offsets) are
  natural numbers with the wrap-around of the 64-bit type written out in \<open>ul_add\<close>,
  \<open>ul_sub\<close> and \<open>ul_mul\<close>; flag words are \<open>32 word\<close> values; counters that the code
  bounds are \<open>nat\<close>; C \<open>int\<close> results are \<open>int\<close>.

  Aborts. \<open>BUG()\<close> and \<open>BUG_ON()\<close> kill the process; a function that can hit one
  returns a value of type \<open>outcome\<close>, with \<open>Bug\<close> for the abort.

  Byte buffers. Memory that the code fills through a pointer is a function from
  addresses to bytes, written by \<open>mem_write\<close>.
\<close>

type_synonym u32 = "32 word"
type_synonym u64 = "64 word"
type_synonym byte = "8 word"
type_synonym ulong = nat

named_theorems c_arith \<open>unsigned arithmetic without wrap-around\<close>
named_theorems flag_simps \<open>tests of flag bits\<close>

subsection \<open>Unsigned 64-bit arithmetic\<close>

definition ULONG_MOD :: nat where
  "ULONG_MOD = 2 ^ 64"

definition ul_add :: "ulong \<Rightarrow> ulong \<Rightarrow> ulong" where
  "ul_add a b = (a + b) mod ULONG_MOD"

definition ul_sub :: "ulong \<Rightarrow> ulong \<Rightarrow> ulong" where
  "ul_sub a b = (a + (ULONG_MOD - b mod ULONG_MOD)) mod ULONG_MOD"

definition ul_mul :: "ulong \<Rightarrow> ulong \<Rightarrow> ulong" where
  "ul_mul a b = (a * b) mod ULONG_MOD"

lemma ULONG_MOD_pos [simp]: "0 < ULONG_MOD"
  by (simp add: ULONG_MOD_def)

lemma ul_add_less [simp]: "ul_add a b < ULONG_MOD"
  by (simp add: ul_add_def)

lemma ul_sub_less [simp]: "ul_sub a b < ULONG_MOD"
  by (simp add: ul_sub_def)

lemma ul_add_exact [c_arith]: "a + b < ULONG_MOD \<Longrightarrow> ul_add a b = a + b"
  by (simp add: ul_add_def)

lemma ul_mul_exact [c_arith]: "a * b < ULONG_MOD \<Longrightarrow> ul_mul a b = a * b"
  by (simp add: ul_mul_def)

lemma ul_sub_exact [c_arith]: "b \<le> a \<Longrightarrow> a < ULONG_MOD \<Longrightarrow> ul_sub a b = a - b"
proof -
  assume le: "b \<le> a" and lt: "a < ULONG_MOD"
  then have "b < ULONG_MOD" by simp
  then have "a + (ULONG_MOD - b mod ULONG_MOD) = (a - b) + ULONG_MOD"
    using le by simp
  then show ?thesis using lt by (simp add: ul_sub_def)
qed

lemma ul_add_0 [simp]: "a < ULONG_MOD \<Longrightarrow> ul_add a 0 = a"
  by (simp add: ul_add_def)

text \<open>The operations as arithmetic modulo \<open>2 ^ 64\<close>, where the \<open>mod\<close> rules apply.\<close>

lemma int_ul_add: "int (ul_add a b) = (int a + int b) mod int ULONG_MOD"
  by (simp add: ul_add_def zmod_int)

lemma int_ul_sub: "int (ul_sub a b) = (int a - int b) mod int ULONG_MOD"
proof -
  have "int (ULONG_MOD - b mod ULONG_MOD) = int ULONG_MOD - int b mod int ULONG_MOD"
    by (simp add: of_nat_diff zmod_int less_imp_le)
  then have "int (ul_sub a b) = (int a + (int ULONG_MOD - int b mod int ULONG_MOD)) mod int ULONG_MOD"
    unfolding ul_sub_def by (simp only: zmod_int of_nat_add)
  also have "\<dots> = ((int a - int b mod int ULONG_MOD) + int ULONG_MOD) mod int ULONG_MOD"
    by (rule arg_cong [of _ _ "\<lambda>x. x mod int ULONG_MOD"]) simp
  finally show ?thesis by (simp only: mod_add_self2 mod_diff_right_eq)
qed

subsection \<open>Rounding\<close>

definition round_up :: "ulong \<Rightarrow> ulong \<Rightarrow> ulong" where
  "round_up x y = ul_add ((ul_sub x 1) OR (ul_sub y 1)) 1"

definition DIV_ROUND_UP :: "ulong \<Rightarrow> ulong \<Rightarrow> nat" where
  "DIV_ROUND_UP n d = ul_sub (ul_add n d) 1 div d"

subsection \<open>Pages\<close>

definition PAGE_SIZE :: nat where
  "PAGE_SIZE = 4096"

lemma PAGE_SIZE_pos [simp]: "0 < PAGE_SIZE"
  by (simp add: PAGE_SIZE_def)

lemma PAGE_SIZE_neq_0 [simp]: "PAGE_SIZE \<noteq> 0"
  by (simp add: PAGE_SIZE_def)

lemma PAGE_SIZE_dvd_ULONG_MOD: "PAGE_SIZE dvd ULONG_MOD"
proof -
  have "ULONG_MOD = PAGE_SIZE * 2 ^ 52"
    by (simp add: PAGE_SIZE_def ULONG_MOD_def)
  then show ?thesis by (rule dvdI)
qed

lemma page_gap: "PAGE_SIZE dvd a \<Longrightarrow> PAGE_SIZE dvd b \<Longrightarrow> a < b \<Longrightarrow> a + PAGE_SIZE \<le> b"
proof -
  assume "PAGE_SIZE dvd a" "PAGE_SIZE dvd b" "a < b"
  then obtain j k where e: "a = j * PAGE_SIZE" "b = k * PAGE_SIZE" by (metis dvd_div_mult_self)
  with \<open>a < b\<close> have "Suc j \<le> k" by simp
  then have "Suc j * PAGE_SIZE \<le> k * PAGE_SIZE" by (rule mult_le_mono1)
  then show ?thesis using e by simp
qed

subsection \<open>Aborts\<close>

datatype 'a outcome = Ret 'a | Bug

fun bind_outcome :: "'a outcome \<Rightarrow> ('a \<Rightarrow> 'b outcome) \<Rightarrow> 'b outcome" where
  "bind_outcome (Ret x) f = f x"
| "bind_outcome Bug f = Bug"

lemma bind_outcome_eq_Ret:
  "bind_outcome m f = Ret y \<longleftrightarrow> (\<exists>x. m = Ret x \<and> f x = Ret y)"
  by (cases m) auto

subsection \<open>Scatter/gather entries\<close>

record iovec =
  iov_base :: ulong
  iov_len :: ulong

definition iov_end :: "iovec \<Rightarrow> nat" where
  "iov_end iov = iov_base iov + iov_len iov"

definition iov_bytes :: "iovec list \<Rightarrow> nat" where
  "iov_bytes iovs = sum_list (map iov_len iovs)"

lemma iov_bytes_simps [simp]:
  "iov_bytes [] = 0"
  "iov_bytes (v # vs) = iov_len v + iov_bytes vs"
  "iov_bytes (us @ vs) = iov_bytes us + iov_bytes vs"
  by (simp_all add: iov_bytes_def)

subsection \<open>Byte-addressed memory\<close>

definition mem_write :: "(nat \<Rightarrow> byte) \<Rightarrow> nat \<Rightarrow> byte list \<Rightarrow> (nat \<Rightarrow> byte)" where
  "mem_write m a bs = (\<lambda>x. if a \<le> x \<and> x < a + length bs then bs ! (x - a) else m x)"

definition mem_read :: "(nat \<Rightarrow> byte) \<Rightarrow> nat \<Rightarrow> nat \<Rightarrow> byte list" where
  "mem_read m a n = map (\<lambda>i. m (a + i)) [0..<n]"

lemma mem_write_Nil [simp]: "mem_write m a [] = m"
  by (auto simp: mem_write_def fun_eq_iff)

lemma length_mem_read [simp]: "length (mem_read m a n) = n"
  by (simp add: mem_read_def)

lemma mem_read_write_same: "mem_read (mem_write m a bs) a (length bs) = bs"
  by (rule nth_equalityI) (simp_all add: mem_read_def mem_write_def)

lemma mem_read_write_other:
  "b + n \<le> a \<or> a + length bs \<le> b \<Longrightarrow> mem_read (mem_write m a bs) b n = mem_read m b n"
  by (rule nth_equalityI) (auto simp: mem_read_def mem_write_def)

lemma mem_write_append:
  "mem_write (mem_write m a bs) (a + length bs) cs = mem_write m a (bs @ cs)"
  by (auto simp: mem_write_def fun_eq_iff nth_append)

lemma mem_read_add: "mem_read m a (n + k) = mem_read m a n @ mem_read m (a + n) k"
  by (rule nth_equalityI) (auto simp: mem_read_def nth_append)

subsection \<open>Lists\<close>

lemma take_drop_split:
  "take (n + k) xs = take n xs @ take k (drop n xs)"
  by (rule take_add)

lemma nth_drop_take:
  "i < k \<Longrightarrow> n + i < length xs \<Longrightarrow> take k (drop n xs) ! i = xs ! (n + i)"
  by simp

lemma sum_list_take_Suc:
  "i < length xs \<Longrightarrow> sum_list (take (Suc i) (xs :: nat list)) = sum_list (take i xs) + xs ! i"
  by (simp add: take_Suc_conv_app_nth)

end
