(* ===== verification/KList.thy ===== *)
theory KList
  imports Prelude
begin

text \<open>
  Intrusive doubly linked lists, \<open>include/common/list.h\<close>.

  A \<open>struct list_head\<close> is an address; the two pointer fields of every node live in a
  heap of two functions. Each inline function of the header is translated store by
  store, in the order of the source. The predicate \<open>dlist h l xs\<close> says that the
  nodes \<open>xs\<close>, in this order, hang off the head \<open>l\<close> in the heap \<open>h\<close>; the lemmas
  show that every operation implements the list operation that its name promises and
  leaves disjoint lists alone. The rest of the development uses plain lists for the
  \<open>list_head\<close> fields of the program; the locale at the end states the laws that
  justify it.
\<close>

type_synonym node = nat

record lheap =
  nxt :: "node \<Rightarrow> node"
  prv :: "node \<Rightarrow> node"

definition set_nxt :: "lheap \<Rightarrow> node \<Rightarrow> node \<Rightarrow> lheap" where
  "set_nxt h a b = h\<lparr>nxt := (nxt h)(a := b)\<rparr>"

definition set_prv :: "lheap \<Rightarrow> node \<Rightarrow> node \<Rightarrow> lheap" where
  "set_prv h a b = h\<lparr>prv := (prv h)(a := b)\<rparr>"

definition LIST_POISON1 :: node where
  "LIST_POISON1 = 0x00100100"

definition LIST_POISON2 :: node where
  "LIST_POISON2 = 0x00200200"

subsection \<open>The operations\<close>

definition INIT_LIST_HEAD :: "node \<Rightarrow> lheap \<Rightarrow> lheap" where
  "INIT_LIST_HEAD l h =
     (let h = set_nxt h l l;
          h = set_prv h l l
      in h)"

definition list_add_between :: "node \<Rightarrow> node \<Rightarrow> node \<Rightarrow> lheap \<Rightarrow> lheap" where
  "list_add_between new prev next h =
     (let h = set_prv h next new;
          h = set_nxt h new next;
          h = set_prv h new prev;
          h = set_nxt h prev new
      in h)"

definition list_add :: "node \<Rightarrow> node \<Rightarrow> lheap \<Rightarrow> lheap" where
  "list_add new head h = list_add_between new head (nxt h head) h"

definition list_add_tail :: "node \<Rightarrow> node \<Rightarrow> lheap \<Rightarrow> lheap" where
  "list_add_tail new head h = list_add_between new (prv h head) head h"

definition list_del_between :: "node \<Rightarrow> node \<Rightarrow> lheap \<Rightarrow> lheap" where
  "list_del_between prev next h =
     (let h = set_prv h next prev;
          h = set_nxt h prev next
      in h)"

definition list_del_entry :: "node \<Rightarrow> lheap \<Rightarrow> lheap" where
  "list_del_entry entry h = list_del_between (prv h entry) (nxt h entry) h"

definition list_del :: "node \<Rightarrow> lheap \<Rightarrow> lheap" where
  "list_del entry h =
     (let h = list_del_between (prv h entry) (nxt h entry) h;
          h = set_nxt h entry LIST_POISON1;
          h = set_prv h entry LIST_POISON2
      in h)"

definition list_replace :: "node \<Rightarrow> node \<Rightarrow> lheap \<Rightarrow> lheap" where
  "list_replace old new h =
     (let h = set_nxt h new (nxt h old);
          h = set_prv h (nxt h new) new;
          h = set_prv h new (prv h old);
          h = set_nxt h (prv h new) new
      in h)"

definition list_replace_init :: "node \<Rightarrow> node \<Rightarrow> lheap \<Rightarrow> lheap" where
  "list_replace_init old new h = INIT_LIST_HEAD old (list_replace old new h)"

definition list_del_init :: "node \<Rightarrow> lheap \<Rightarrow> lheap" where
  "list_del_init entry h = INIT_LIST_HEAD entry (list_del_entry entry h)"

definition list_move :: "node \<Rightarrow> node \<Rightarrow> lheap \<Rightarrow> lheap" where
  "list_move l head h = list_add l head (list_del_entry l h)"

definition list_move_tail :: "node \<Rightarrow> node \<Rightarrow> lheap \<Rightarrow> lheap" where
  "list_move_tail l head h = list_add_tail l head (list_del_entry l h)"

definition list_is_last :: "node \<Rightarrow> node \<Rightarrow> lheap \<Rightarrow> bool" where
  "list_is_last l head h \<longleftrightarrow> nxt h l = head"

definition list_is_first :: "node \<Rightarrow> node \<Rightarrow> lheap \<Rightarrow> bool" where
  "list_is_first l head h \<longleftrightarrow> prv h l = head"

definition list_empty :: "node \<Rightarrow> lheap \<Rightarrow> bool" where
  "list_empty head h \<longleftrightarrow> nxt h head = head"

definition list_empty_careful :: "node \<Rightarrow> lheap \<Rightarrow> bool" where
  "list_empty_careful head h \<longleftrightarrow>
     (let next = nxt h head in next = head \<and> next = prv h head)"

definition list_rotate_left :: "node \<Rightarrow> lheap \<Rightarrow> lheap" where
  "list_rotate_left head h =
     (if \<not> list_empty head h
      then (let first = nxt h head in list_move_tail first head h)
      else h)"

definition list_is_singular :: "node \<Rightarrow> lheap \<Rightarrow> bool" where
  "list_is_singular head h \<longleftrightarrow> \<not> list_empty head h \<and> nxt h head = prv h head"

definition list_cut_position_do :: "node \<Rightarrow> node \<Rightarrow> node \<Rightarrow> lheap \<Rightarrow> lheap" where
  "list_cut_position_do l head entry h =
     (let new_first = nxt h entry;
          h = set_nxt h l (nxt h head);
          h = set_prv h (nxt h l) l;
          h = set_prv h l entry;
          h = set_nxt h entry l;
          h = set_nxt h head new_first;
          h = set_prv h new_first head
      in h)"

definition list_cut_position :: "node \<Rightarrow> node \<Rightarrow> node \<Rightarrow> lheap \<Rightarrow> lheap" where
  "list_cut_position l head entry h =
     (if list_empty head h then h
      else if list_is_singular head h \<and> (nxt h head \<noteq> entry \<and> head \<noteq> entry) then h
      else if entry = head then INIT_LIST_HEAD l h
      else list_cut_position_do l head entry h)"

definition list_splice_between :: "node \<Rightarrow> node \<Rightarrow> node \<Rightarrow> lheap \<Rightarrow> lheap" where
  "list_splice_between l prev next h =
     (let first = nxt h l;
          last = prv h l;
          h = set_prv h first prev;
          h = set_nxt h prev first;
          h = set_nxt h last next;
          h = set_prv h next last
      in h)"

definition list_splice :: "node \<Rightarrow> node \<Rightarrow> lheap \<Rightarrow> lheap" where
  "list_splice l head h =
     (if \<not> list_empty l h then list_splice_between l head (nxt h head) h else h)"

definition list_splice_tail :: "node \<Rightarrow> node \<Rightarrow> lheap \<Rightarrow> lheap" where
  "list_splice_tail l head h =
     (if \<not> list_empty l h then list_splice_between l (prv h head) head h else h)"

definition list_splice_init :: "node \<Rightarrow> node \<Rightarrow> lheap \<Rightarrow> lheap" where
  "list_splice_init l head h =
     (if \<not> list_empty l h
      then INIT_LIST_HEAD l (list_splice_between l head (nxt h head) h) else h)"

definition list_splice_tail_init :: "node \<Rightarrow> node \<Rightarrow> lheap \<Rightarrow> lheap" where
  "list_splice_tail_init l head h =
     (if \<not> list_empty l h
      then INIT_LIST_HEAD l (list_splice_between l (prv h head) head h) else h)"

text \<open>
  The traversal macros. Following \<open>next\<close> pointers need not come back to the head in an
  arbitrary heap, so the loops take fuel; \<open>None\<close> is a loop that has not ended.
\<close>

fun list_for_each_from :: "nat \<Rightarrow> node \<Rightarrow> node \<Rightarrow> lheap \<Rightarrow> node list option" where
  "list_for_each_from 0 pos head h = None"
| "list_for_each_from (Suc n) pos head h =
     (if pos \<noteq> head
      then map_option ((#) pos) (list_for_each_from n (nxt h pos) head h)
      else Some [])"

definition list_for_each :: "nat \<Rightarrow> node \<Rightarrow> lheap \<Rightarrow> node list option" where
  "list_for_each n head h = list_for_each_from n (nxt h head) head h"

fun list_for_each_prev_from :: "nat \<Rightarrow> node \<Rightarrow> node \<Rightarrow> lheap \<Rightarrow> node list option" where
  "list_for_each_prev_from 0 pos head h = None"
| "list_for_each_prev_from (Suc n) pos head h =
     (if pos \<noteq> head
      then map_option ((#) pos) (list_for_each_prev_from n (prv h pos) head h)
      else Some [])"

definition list_for_each_prev :: "nat \<Rightarrow> node \<Rightarrow> lheap \<Rightarrow> node list option" where
  "list_for_each_prev n head h = list_for_each_prev_from n (prv h head) head h"

text \<open>
  The safe iteration reads the successor before it runs the body, so that the body may
  unlink or free the current node.
\<close>

fun list_for_each_safe_from ::
  "nat \<Rightarrow> (node \<Rightarrow> lheap \<Rightarrow> lheap) \<Rightarrow> node \<Rightarrow> node \<Rightarrow> node \<Rightarrow> lheap \<Rightarrow> lheap option" where
  "list_for_each_safe_from 0 body pos n head h = None"
| "list_for_each_safe_from (Suc k) body pos n head h =
     (if pos \<noteq> head
      then (let h' = body pos h in list_for_each_safe_from k body n (nxt h' n) head h')
      else Some h)"

definition list_for_each_safe ::
  "nat \<Rightarrow> (node \<Rightarrow> lheap \<Rightarrow> lheap) \<Rightarrow> node \<Rightarrow> lheap \<Rightarrow> lheap option" where
  "list_for_each_safe k body head h =
     list_for_each_safe_from k body (nxt h head) (nxt h (nxt h head)) head h"

subsection \<open>What a list in the heap is\<close>

fun seg :: "lheap \<Rightarrow> node \<Rightarrow> node list \<Rightarrow> node \<Rightarrow> bool" where
  "seg h a [] b \<longleftrightarrow> nxt h a = b \<and> prv h b = a"
| "seg h a (x # xs) b \<longleftrightarrow> nxt h a = x \<and> prv h x = a \<and> seg h x xs b"

definition dlist :: "lheap \<Rightarrow> node \<Rightarrow> node list \<Rightarrow> bool" where
  "dlist h l xs \<longleftrightarrow> distinct (l # xs) \<and> seg h l xs l"

named_theorems list_defs \<open>the operations as sequences of stores\<close>

lemmas [list_defs] =
  INIT_LIST_HEAD_def list_add_between_def list_add_def list_add_tail_def
  list_del_between_def list_del_entry_def list_del_def list_replace_def list_replace_init_def
  list_del_init_def list_move_def list_move_tail_def list_cut_position_do_def
  list_splice_between_def Let_def

lemma heap_stores [simp]:
  "nxt (set_nxt h u v) x = (if x = u then v else nxt h x)"
  "prv (set_prv h u v) x = (if x = u then v else prv h x)"
  "nxt (set_prv h u v) = nxt h"
  "prv (set_nxt h u v) = prv h"
  by (simp_all add: set_nxt_def set_prv_def)

lemma seg_append [simp]:
  "seg h a (xs @ y # ys) b \<longleftrightarrow> seg h a xs y \<and> seg h y ys b"
  by (induction xs arbitrary: a) auto

lemma seg_set_nxt [simp]: "u \<notin> set (a # xs) \<Longrightarrow> seg (set_nxt h u v) a xs b \<longleftrightarrow> seg h a xs b"
  by (induction xs arbitrary: a) auto

lemma seg_set_prv [simp]: "u \<notin> set (xs @ [b]) \<Longrightarrow> seg (set_prv h u v) a xs b \<longleftrightarrow> seg h a xs b"
  by (induction xs arbitrary: a) auto

text \<open>The node before the end and the node after the start of a segment.\<close>

lemma seg_nxt: "seg h a xs b \<Longrightarrow> nxt h a = hd (xs @ [b])"
  by (cases xs) auto

lemma seg_prv: "seg h a xs b \<Longrightarrow> prv h b = last (a # xs)"
  by (induction xs arbitrary: a) auto

lemma dlist_distinct: "dlist h l xs \<Longrightarrow> distinct (l # xs)"
  by (simp add: dlist_def)

lemma dlist_set_nxt [simp]: "u \<notin> set (l # xs) \<Longrightarrow> dlist (set_nxt h u v) l xs \<longleftrightarrow> dlist h l xs"
  by (simp add: dlist_def)

lemma dlist_set_prv [simp]: "u \<notin> set (l # xs) \<Longrightarrow> dlist (set_prv h u v) l xs \<longleftrightarrow> dlist h l xs"
  by (auto simp: dlist_def)

lemma dlist_prv_head: "dlist h l xs \<Longrightarrow> prv h l = last (l # xs)"
  unfolding dlist_def using seg_prv by blast

lemma dlist_nxt_head: "dlist h l xs \<Longrightarrow> nxt h l = hd (xs @ [l])"
  unfolding dlist_def using seg_nxt by blast

lemma dlist_neighbours:
  assumes "dlist h l (xs @ e # ys)"
  shows "prv h e = last (l # xs)" and "nxt h e = hd (ys @ [l])"
  using assms seg_prv [of h l xs e] seg_nxt [of h e ys l] by (auto simp: dlist_def)

lemma hd_append_singleton_in: "hd (ys @ [l]) \<in> insert l (set ys)"
  by (cases ys) auto

subsection \<open>Linking and unlinking\<close>

text \<open>
  The two primitives: linking a fresh node between two neighbours, and closing the gap
  around a run of nodes.
\<close>

lemma dlist_add_between:
  assumes "dlist h l (xs @ ys)" and "new \<notin> set (l # xs @ ys)"
  shows "dlist (list_add_between new (last (l # xs)) (hd (ys @ [l])) h) l (xs @ new # ys)"
  using assms
  by (cases xs rule: rev_cases; cases ys) (auto simp: dlist_def list_add_between_def Let_def)

lemma dlist_del_between:
  assumes "dlist h l (xs @ e # ys)"
  shows "dlist (list_del_between (last (l # xs)) (hd (ys @ [l])) h) l (xs @ ys)"
  using assms
  by (cases xs rule: rev_cases; cases ys) (auto simp: dlist_def list_del_between_def Let_def)

lemma dlist_INIT: "dlist (INIT_LIST_HEAD l h) l []"
  by (simp add: dlist_def INIT_LIST_HEAD_def)

lemma dlist_list_add:
  "dlist h l xs \<Longrightarrow> new \<notin> set (l # xs) \<Longrightarrow> dlist (list_add new l h) l (new # xs)"
  using dlist_add_between [of h l "[]" xs new] by (simp add: list_add_def dlist_nxt_head)

lemma dlist_list_add_tail:
  "dlist h l xs \<Longrightarrow> new \<notin> set (l # xs) \<Longrightarrow> dlist (list_add_tail new l h) l (xs @ [new])"
  using dlist_add_between [of h l xs "[]" new] by (simp add: list_add_tail_def dlist_prv_head)

text \<open>
  \<open>list_add(new, pos)\<close> and \<open>list_add_tail(new, pos)\<close> are also called with a node of the
  list in place of its head: they insert after and before that node.
\<close>

lemma dlist_list_add_after:
  "dlist h l (xs @ e # ys) \<Longrightarrow> new \<notin> set (l # xs @ e # ys) \<Longrightarrow>
   dlist (list_add new e h) l (xs @ e # new # ys)"
  using dlist_add_between [of h l "xs @ [e]" ys new] dlist_neighbours(2) [of h l xs e ys]
  by (simp add: list_add_def)

lemma dlist_list_add_before:
  "dlist h l (xs @ e # ys) \<Longrightarrow> new \<notin> set (l # xs @ e # ys) \<Longrightarrow>
   dlist (list_add_tail new e h) l (xs @ new # e # ys)"
  using dlist_add_between [of h l xs "e # ys" new] dlist_neighbours(1) [of h l xs e ys]
  by (simp add: list_add_tail_def)

lemma dlist_list_del_entry:
  "dlist h l (xs @ e # ys) \<Longrightarrow> dlist (list_del_entry e h) l (xs @ ys)"
  using dlist_del_between [of h l xs e ys] dlist_neighbours [of h l xs e ys]
  by (simp add: list_del_entry_def)

lemma dlist_list_del:
  assumes "dlist h l (xs @ e # ys)"
  shows "dlist (list_del e h) l (xs @ ys)"
proof -
  have "dlist (list_del_entry e h) l (xs @ ys)"
    using assms by (rule dlist_list_del_entry)
  moreover have "e \<notin> set (l # xs @ ys)"
    using dlist_distinct [OF assms] by auto
  ultimately show ?thesis
    by (simp add: list_del_def list_del_entry_def Let_def)
qed

text \<open>A deleted entry holds the poison values, so a stale traversal from it faults.\<close>

lemma list_del_poisons:
  "nxt (list_del e h) e = LIST_POISON1 \<and> prv (list_del e h) e = LIST_POISON2"
  by (simp add: list_del_def Let_def)

lemma dlist_list_del_init:
  assumes "dlist h l (xs @ e # ys)"
  shows "dlist (list_del_init e h) l (xs @ ys)" and "dlist (list_del_init e h) e []"
proof -
  have "dlist (list_del_entry e h) l (xs @ ys)"
    using assms by (rule dlist_list_del_entry)
  moreover have "e \<notin> set (l # xs @ ys)"
    using dlist_distinct [OF assms] by auto
  ultimately show "dlist (list_del_init e h) l (xs @ ys)"
    by (simp add: list_del_init_def INIT_LIST_HEAD_def)
  show "dlist (list_del_init e h) e []"
    by (simp add: list_del_init_def dlist_INIT)
qed

subsection \<open>Frames: lists that share no node\<close>

lemma dlist_disjoint_add:
  assumes "dlist h m zs" and "dlist h l (xs @ ys)"
    and "set (m # zs) \<inter> set (l # xs @ ys) = {}" and "new \<notin> set (m # zs)"
  shows "dlist (list_add_between new (last (l # xs)) (hd (ys @ [l])) h) m zs"
proof -
  have "last (l # xs) \<in> set (l # xs)" by (rule last_in_set) simp
  moreover have "hd (ys @ [l]) \<in> insert l (set ys)" by (rule hd_append_singleton_in)
  ultimately have "last (l # xs) \<notin> set (m # zs)" and "hd (ys @ [l]) \<notin> set (m # zs)"
    using assms(3) by (auto simp del: last.simps)
  with assms(1,4) show ?thesis
    by (simp add: list_add_between_def Let_def del: last.simps)
qed

lemma dlist_disjoint_del_entry:
  assumes "dlist h m zs" and "dlist h l (xs @ e # ys)"
    and "set (m # zs) \<inter> set (l # xs @ ys) = {}"
  shows "dlist (list_del_entry e h) m zs"
proof -
  have "last (l # xs) \<in> set (l # xs)" by (rule last_in_set) simp
  moreover have "hd (ys @ [l]) \<in> insert l (set ys)" by (rule hd_append_singleton_in)
  ultimately have "last (l # xs) \<notin> set (m # zs)" and "hd (ys @ [l]) \<notin> set (m # zs)"
    using assms(3) by (auto simp del: last.simps)
  with assms(1) dlist_neighbours [OF assms(2)] show ?thesis
    by (simp add: list_del_entry_def list_del_between_def Let_def del: last.simps)
qed

subsection \<open>Moving\<close>

text \<open>Within one list, and from one list to another.\<close>

lemma dlist_list_move_same:
  assumes "dlist h l (xs @ e # ys)"
  shows "dlist (list_move e l h) l (e # xs @ ys)"
  using dlist_list_add [OF dlist_list_del_entry [OF assms], of e] dlist_distinct [OF assms]
  by (auto simp: list_move_def)

lemma dlist_list_move_tail_same:
  assumes "dlist h l (xs @ e # ys)"
  shows "dlist (list_move_tail e l h) l (xs @ ys @ [e])"
  using dlist_list_add_tail [OF dlist_list_del_entry [OF assms], of e] dlist_distinct [OF assms]
  by (auto simp: list_move_tail_def)

lemma dlist_list_move:
  assumes src: "dlist h l (xs @ e # ys)" and dst: "dlist h m zs"
    and disj: "set (m # zs) \<inter> set (l # xs @ e # ys) = {}"
  shows "dlist (list_move e m h) m (e # zs)" and "dlist (list_move e m h) l (xs @ ys)"
proof -
  let ?h = "list_del_entry e h"
  have l: "dlist ?h l (xs @ ys)" using src by (rule dlist_list_del_entry)
  have m: "dlist ?h m zs" using dlist_disjoint_del_entry [OF dst src] disj by auto
  have e: "e \<notin> set (m # zs)" "e \<notin> set (l # xs @ ys)"
    using disj dlist_distinct [OF src] by auto
  have disj': "set (l # xs @ ys) \<inter> set (m # zs) = {}"
    using disj by auto
  show "dlist (list_move e m h) m (e # zs)"
    using dlist_list_add [OF m e(1)] by (simp add: list_move_def)
  show "dlist (list_move e m h) l (xs @ ys)"
    using dlist_disjoint_add [OF l, of m "[]" zs e] m e disj'
    by (simp add: list_move_def list_add_def dlist_nxt_head)
qed

lemma dlist_list_move_tail:
  assumes src: "dlist h l (xs @ e # ys)" and dst: "dlist h m zs"
    and disj: "set (m # zs) \<inter> set (l # xs @ e # ys) = {}"
  shows "dlist (list_move_tail e m h) m (zs @ [e])" and "dlist (list_move_tail e m h) l (xs @ ys)"
proof -
  let ?h = "list_del_entry e h"
  have l: "dlist ?h l (xs @ ys)" using src by (rule dlist_list_del_entry)
  have m: "dlist ?h m zs" using dlist_disjoint_del_entry [OF dst src] disj by auto
  have e: "e \<notin> set (m # zs)" "e \<notin> set (l # xs @ ys)"
    using disj dlist_distinct [OF src] by auto
  have disj': "set (l # xs @ ys) \<inter> set (m # zs) = {}"
    using disj by auto
  show "dlist (list_move_tail e m h) m (zs @ [e])"
    using dlist_list_add_tail [OF m e(1)] by (simp add: list_move_tail_def)
  show "dlist (list_move_tail e m h) l (xs @ ys)"
    using dlist_disjoint_add [OF l, of m zs "[]" e] m e disj'
    by (simp add: list_move_tail_def list_add_tail_def dlist_prv_head)
qed

lemma dlist_rotate_left:
  "dlist h l (x # xs) \<Longrightarrow> dlist (list_rotate_left l h) l (xs @ [x])"
  using dlist_list_move_tail_same [of h l "[]" x xs]
  by (auto simp: list_rotate_left_def list_empty_def dlist_nxt_head dest: dlist_distinct)

subsection \<open>Tests\<close>

lemma list_empty_iff: "dlist h l xs \<Longrightarrow> list_empty l h \<longleftrightarrow> xs = []"
  by (cases xs) (auto simp: list_empty_def dlist_def)

lemma list_empty_careful_iff: "dlist h l xs \<Longrightarrow> list_empty_careful l h \<longleftrightarrow> xs = []"
  by (cases xs) (auto simp: list_empty_careful_def Let_def dlist_def)

lemma list_is_last_iff: "dlist h l (xs @ e # ys) \<Longrightarrow> list_is_last e l h \<longleftrightarrow> ys = []"
  by (cases ys) (auto simp: list_is_last_def dlist_def)

lemma list_is_first_iff: "dlist h l (xs @ e # ys) \<Longrightarrow> list_is_first e l h \<longleftrightarrow> xs = []"
  by (cases xs rule: rev_cases) (auto simp: list_is_first_def dlist_def)

lemma list_is_singular_iff: "dlist h l xs \<Longrightarrow> list_is_singular l h \<longleftrightarrow> length xs = 1"
proof -
  assume d: "dlist h l xs"
  show ?thesis
  proof (cases xs)
    case Nil
    with d show ?thesis by (simp add: list_is_singular_def list_empty_iff)
  next
    case (Cons x ys)
    with d show ?thesis
      by (cases ys rule: rev_cases)
        (auto simp: list_is_singular_def list_empty_iff dlist_nxt_head dlist_prv_head
          dest: dlist_distinct)
  qed
qed

subsection \<open>Replacing, cutting, splicing\<close>

lemma dlist_list_replace:
  assumes "dlist h l (xs @ old # ys)" and "new \<notin> set (l # xs @ old # ys)"
  shows "dlist (list_replace old new h) l (xs @ new # ys)"
  using assms
  by (cases xs rule: rev_cases; cases ys)
    (auto simp: dlist_def list_replace_def Let_def)

lemma dlist_list_cut_position:
  assumes "dlist h l (xs @ e # ys)" and "m \<notin> set (l # xs @ e # ys)"
  shows "dlist (list_cut_position m l e h) m (xs @ [e])"
    and "dlist (list_cut_position m l e h) l ys"
proof -
  have do: "list_cut_position m l e h = list_cut_position_do m l e h"
    using assms(1) dlist_distinct [OF assms(1)]
    by (auto simp: list_cut_position_def list_empty_iff list_is_singular_iff dlist_nxt_head)
  show "dlist (list_cut_position m l e h) m (xs @ [e])"
    using assms unfolding do
    by (cases xs; cases ys) (auto simp: dlist_def list_cut_position_do_def Let_def)
  show "dlist (list_cut_position m l e h) l ys"
    using assms unfolding do
    by (cases xs; cases ys) (auto simp: dlist_def list_cut_position_do_def Let_def)
qed

lemma dlist_splice_between:
  assumes "dlist h m (z # zs)" and "dlist h l (xs @ ys)"
    and "set (m # z # zs) \<inter> set (l # xs @ ys) = {}"
  shows "dlist (list_splice_between m (last (l # xs)) (hd (ys @ [l])) h) l (xs @ z # zs @ ys)"
proof -
  have "distinct (l # xs @ z # zs @ ys)"
    using assms dlist_distinct [OF assms(1)] dlist_distinct [OF assms(2)] by auto
  moreover have "distinct (ys @ zs @ z # xs @ [l])"
    using assms dlist_distinct [OF assms(1)] dlist_distinct [OF assms(2)] by auto
  moreover have "seg h m (z # zs) m" and "seg h l (xs @ ys) l"
    using assms by (simp_all add: dlist_def)
  ultimately show ?thesis
    unfolding dlist_def list_splice_between_def Let_def
    by (cases xs rule: rev_cases; cases ys; cases zs rule: rev_cases) simp_all
qed

lemma dlist_list_splice:
  assumes "dlist h m zs" and "dlist h l xs" and "set (m # zs) \<inter> set (l # xs) = {}"
  shows "dlist (list_splice m l h) l (zs @ xs)"
  using assms dlist_splice_between [of h m "hd zs" "tl zs" l "[]" xs]
  by (cases zs) (auto simp: list_splice_def list_empty_iff dlist_nxt_head)

lemma dlist_list_splice_tail:
  assumes "dlist h m zs" and "dlist h l xs" and "set (m # zs) \<inter> set (l # xs) = {}"
  shows "dlist (list_splice_tail m l h) l (xs @ zs)"
proof (cases zs)
  case Nil
  with assms show ?thesis by (simp add: list_splice_tail_def list_empty_iff)
next
  case (Cons z zs')
  with assms dlist_splice_between [of h m z zs' l xs "[]"] show ?thesis
    by (simp add: list_splice_tail_def list_empty_iff dlist_prv_head del: last.simps)
qed

lemma dlist_list_splice_init:
  assumes "dlist h m zs" and "dlist h l xs" and "set (m # zs) \<inter> set (l # xs) = {}"
  shows "dlist (list_splice_init m l h) l (zs @ xs)" and "dlist (list_splice_init m l h) m []"
proof -
  have s: "dlist (list_splice m l h) l (zs @ xs)" using assms by (rule dlist_list_splice)
  have m: "m \<notin> set (l # zs @ xs)" using assms dlist_distinct [OF assms(1)] by auto
  have eq: "list_splice_init m l h =
    (if zs = [] then h else INIT_LIST_HEAD m (list_splice m l h))"
    using assms(1) by (simp add: list_splice_init_def list_splice_def list_empty_iff)
  show "dlist (list_splice_init m l h) l (zs @ xs)"
    using s m assms(2) by (simp add: eq INIT_LIST_HEAD_def)
  show "dlist (list_splice_init m l h) m []"
    using assms(1) by (auto simp: eq dlist_INIT)
qed

lemma dlist_list_splice_tail_init:
  assumes "dlist h m zs" and "dlist h l xs" and "set (m # zs) \<inter> set (l # xs) = {}"
  shows "dlist (list_splice_tail_init m l h) l (xs @ zs)"
    and "dlist (list_splice_tail_init m l h) m []"
proof -
  have s: "dlist (list_splice_tail m l h) l (xs @ zs)" using assms by (rule dlist_list_splice_tail)
  have m: "m \<notin> set (l # xs @ zs)" using assms dlist_distinct [OF assms(1)] by auto
  have eq: "list_splice_tail_init m l h =
    (if zs = [] then h else INIT_LIST_HEAD m (list_splice_tail m l h))"
    using assms(1) by (simp add: list_splice_tail_init_def list_splice_tail_def list_empty_iff)
  show "dlist (list_splice_tail_init m l h) l (xs @ zs)"
    using s m assms(2) by (simp add: eq INIT_LIST_HEAD_def)
  show "dlist (list_splice_tail_init m l h) m []"
    using assms(1) by (auto simp: eq dlist_INIT)
qed

subsection \<open>Traversal\<close>

lemma list_for_each_seg:
  "seg h a xs l \<Longrightarrow> l \<notin> set xs \<Longrightarrow> length xs < n \<Longrightarrow>
   list_for_each_from n (nxt h a) l h = Some xs"
proof (induction xs arbitrary: a n)
  case Nil
  then show ?case by (cases n) auto
next
  case (Cons x xs)
  then show ?case by (cases n) auto
qed

lemma list_for_each_complete:
  "dlist h l xs \<Longrightarrow> length xs < n \<Longrightarrow> list_for_each n l h = Some xs"
  unfolding list_for_each_def dlist_def by (rule list_for_each_seg) auto

lemma list_for_each_prev_seg:
  "seg h l xs a \<Longrightarrow> l \<notin> set xs \<Longrightarrow> length xs < n \<Longrightarrow>
   list_for_each_prev_from n (prv h a) l h = Some (rev xs)"
proof (induction xs arbitrary: a n rule: rev_induct)
  case Nil
  then show ?case by (cases n) auto
next
  case (snoc x xs)
  then show ?case by (cases n) auto
qed

lemma list_for_each_prev_complete:
  "dlist h l xs \<Longrightarrow> length xs < n \<Longrightarrow> list_for_each_prev n l h = Some (rev xs)"
  unfolding list_for_each_prev_def dlist_def by (rule list_for_each_prev_seg) auto

text \<open>
  The safe iteration whose body moves the current node to the front of another list, as
  \<open>page_pipe_reinit\<close> does, empties the list and reverses it onto the other one.
\<close>

lemma list_for_each_safe_move:
  assumes "dlist h l xs" and "dlist h m zs" and "set (m # zs) \<inter> set (l # xs) = {}"
    and "length xs < n"
  shows "\<exists>h'. list_for_each_safe n (\<lambda>p. list_move p m) l h = Some h' \<and>
    dlist h' l [] \<and> dlist h' m (rev xs @ zs)"
proof -
  have "\<exists>h'. list_for_each_safe_from n (\<lambda>p. list_move p m) (hd (xs @ [l]))
      (nxt h (hd (xs @ [l]))) l h = Some h' \<and> dlist h' l [] \<and> dlist h' m (rev xs @ zs)"
    using assms
  proof (induction xs arbitrary: h zs n)
    case Nil
    then show ?case by (cases n) auto
  next
    case (Cons x xs)
    then obtain k where k: "n = Suc k" and lt: "length xs < k" by (cases n) auto
    let ?h = "list_move x m h"
    have l: "dlist ?h l xs" and m: "dlist ?h m (x # zs)"
      using dlist_list_move [of h l "[]" x xs m zs] Cons.prems by auto
    have disj: "set (m # x # zs) \<inter> set (l # xs) = {}"
      using Cons.prems dlist_distinct [OF Cons.prems(1)] by auto
    have n: "nxt h x = hd (xs @ [l])"
      using dlist_neighbours(2) [of h l "[]" x xs] Cons.prems(1) by simp
    have "x \<noteq> l" using dlist_distinct [OF Cons.prems(1)] by auto
    with Cons.IH [OF l m disj lt] show ?case by (simp add: k n Let_def)
  qed
  then show ?thesis
    using assms(1) by (simp add: list_for_each_safe_def dlist_nxt_head)
qed

subsection \<open>The interface\<close>

text \<open>
  What the users of \<open>list.h\<close> rely on: a heap of linked lists is a family of sequences.
  The parameters are the operations a component calls; the laws say how each changes the
  sequence that a head stands for.
\<close>

locale intrusive_list =
  fixes repr :: "'h \<Rightarrow> 'n \<Rightarrow> 'n list \<Rightarrow> bool"
    and init :: "'n \<Rightarrow> 'h \<Rightarrow> 'h"
    and add_head :: "'n \<Rightarrow> 'n \<Rightarrow> 'h \<Rightarrow> 'h"
    and add_last :: "'n \<Rightarrow> 'n \<Rightarrow> 'h \<Rightarrow> 'h"
    and del :: "'n \<Rightarrow> 'h \<Rightarrow> 'h"
    and is_empty :: "'n \<Rightarrow> 'h \<Rightarrow> bool"
    and first :: "'n \<Rightarrow> 'h \<Rightarrow> 'n"
  assumes repr_init: "repr (init l h) l []"
    and repr_add_head: "repr h l xs \<Longrightarrow> x \<notin> set (l # xs) \<Longrightarrow> repr (add_head x l h) l (x # xs)"
    and repr_add_last: "repr h l xs \<Longrightarrow> x \<notin> set (l # xs) \<Longrightarrow> repr (add_last x l h) l (xs @ [x])"
    and repr_del: "repr h l (xs @ x # ys) \<Longrightarrow> repr (del x h) l (xs @ ys)"
    and repr_is_empty: "repr h l xs \<Longrightarrow> is_empty l h \<longleftrightarrow> xs = []"
    and repr_first: "repr h l (x # xs) \<Longrightarrow> first l h = x"
begin

lemma queue_fill:
  "repr h l xs \<Longrightarrow> distinct (l # xs @ ns) \<Longrightarrow>
   repr (fold (\<lambda>n. add_last n l) ns h) l (xs @ ns)"
proof (induction ns arbitrary: h xs)
  case Nil
  then show ?case by simp
next
  case (Cons n ns)
  then have "repr (add_last n l h) l (xs @ [n])"
    by (intro repr_add_last) auto
  with Cons.IH [of "add_last n l h" "xs @ [n]"] Cons.prems(2) show ?case by simp
qed

lemma queue_take:
  "repr h l (x # xs) \<Longrightarrow>
   \<not> is_empty l h \<and> first l h = x \<and> repr (del (first l h) h) l xs"
  using repr_is_empty [of h l "x # xs"] repr_first [of h l x xs] repr_del [of h l "[]" x xs]
  by simp

lemma stack_push_pop:
  "repr h l xs \<Longrightarrow> x \<notin> set (l # xs) \<Longrightarrow>
   first l (add_head x l h) = x \<and> repr (del x (add_head x l h)) l xs"
  using repr_first [OF repr_add_head] repr_del [of "add_head x l h" l "[]" x xs] repr_add_head
  by auto

end

interpretation kl: intrusive_list dlist INIT_LIST_HEAD list_add list_add_tail list_del list_empty
  "\<lambda>l h. nxt h l"
proof unfold_locales
  fix h l xs x ys
  show "dlist (INIT_LIST_HEAD l h) l []" by (rule dlist_INIT)
  show "dlist h l xs \<Longrightarrow> x \<notin> set (l # xs) \<Longrightarrow> dlist (list_add x l h) l (x # xs)"
    by (rule dlist_list_add)
  show "dlist h l xs \<Longrightarrow> x \<notin> set (l # xs) \<Longrightarrow> dlist (list_add_tail x l h) l (xs @ [x])"
    by (rule dlist_list_add_tail)
  show "dlist h l (xs @ x # ys) \<Longrightarrow> dlist (list_del x h) l (xs @ ys)"
    by (rule dlist_list_del)
  show "dlist h l xs \<Longrightarrow> list_empty l h \<longleftrightarrow> xs = []"
    by (rule list_empty_iff)
  show "dlist h l (x # xs) \<Longrightarrow> nxt h l = x"
    by (simp add: dlist_nxt_head)
qed

end
