(* ===== verification/Bitmap.thy ===== *)
theory Bitmap
  imports Prelude
begin

unbundle bit_operations_syntax

text \<open>
  Bit arrays: \<open>criu/bitmap.c\<close> and \<open>include/common/asm-generic/bitops.h\<close>.

  A bitmap is the list of its \<open>unsigned long\<close> words. An index past the last word is
  outside the array the caller declared; the model leaves such a store without effect,
  and every lemma about a store has the hypothesis that the index is inside. The lemmas
  show that the word-at-a-time loops do to the bits what the names say.
\<close>

definition BITS_PER_LONG :: nat where
  "BITS_PER_LONG = 64"

definition BITS_TO_LONGS :: "nat \<Rightarrow> nat" where
  "BITS_TO_LONGS nr = (nr + BITS_PER_LONG - 1) div BITS_PER_LONG"

type_synonym bitmap = "u64 list"

definition DECLARE_BITMAP :: "nat \<Rightarrow> bitmap" where
  "DECLARE_BITMAP bits = replicate (BITS_TO_LONGS bits) 0"

subsection \<open>Single bits\<close>

definition set_bit_map :: "nat \<Rightarrow> bitmap \<Rightarrow> bitmap" where
  "set_bit_map nr addr =
     (let i = nr div BITS_PER_LONG
      in addr[i := addr ! i OR push_bit (nr mod BITS_PER_LONG) 1])"

definition change_bit :: "nat \<Rightarrow> bitmap \<Rightarrow> bitmap" where
  "change_bit nr addr =
     (let i = nr div BITS_PER_LONG
      in addr[i := addr ! i XOR push_bit (nr mod BITS_PER_LONG) 1])"

definition test_bit :: "nat \<Rightarrow> bitmap \<Rightarrow> bool" where
  "test_bit nr addr \<longleftrightarrow>
     (let i = nr div BITS_PER_LONG
      in addr ! i AND push_bit (nr mod BITS_PER_LONG) 1 \<noteq> 0)"

definition clear_bit :: "nat \<Rightarrow> bitmap \<Rightarrow> bitmap" where
  "clear_bit nr addr =
     (let i = nr div BITS_PER_LONG
      in addr[i := addr ! i AND NOT (push_bit (nr mod BITS_PER_LONG) 1)])"

subsection \<open>Ranges of bits\<close>

definition BITMAP_FIRST_WORD_MASK :: "nat \<Rightarrow> u64" where
  "BITMAP_FIRST_WORD_MASK start = push_bit (start mod BITS_PER_LONG) (NOT 0)"

definition BITMAP_LAST_WORD_MASK :: "nat \<Rightarrow> u64" where
  "BITMAP_LAST_WORD_MASK nbits =
     (if nbits mod BITS_PER_LONG \<noteq> 0
      then push_bit (nbits mod BITS_PER_LONG) 1 - 1 else NOT 0)"

text \<open>
  The loop of \<open>bitmap_set\<close> and \<open>bitmap_clear\<close>: \<open>p\<close> is the word index, \<open>nr\<close> the bits
  left, \<open>bits\<close> how many of them the current word takes (at least one, always).
\<close>

function bitmap_set_loop :: "bitmap \<Rightarrow> nat \<Rightarrow> nat \<Rightarrow> nat \<Rightarrow> nat \<Rightarrow> u64 \<Rightarrow> bitmap" where
  "bitmap_set_loop m p sz nr bits msk =
     (if 0 < bits \<and> bits \<le> nr
      then bitmap_set_loop (m[p := m ! p OR msk]) (Suc p) sz (nr - bits) BITS_PER_LONG (NOT 0)
      else if nr \<noteq> 0
      then m[p := m ! p OR (msk AND BITMAP_LAST_WORD_MASK sz)]
      else m)"
  by pat_completeness auto
termination
  by (relation "measure (\<lambda>(m, p, sz, nr, bits, msk). nr)") auto

declare bitmap_set_loop.simps [simp del]

definition bitmap_set :: "bitmap \<Rightarrow> nat \<Rightarrow> nat \<Rightarrow> bitmap" where
  "bitmap_set m start nr =
     bitmap_set_loop m (start div BITS_PER_LONG) (start + nr) nr
       (BITS_PER_LONG - start mod BITS_PER_LONG) (BITMAP_FIRST_WORD_MASK start)"

function bitmap_clear_loop :: "bitmap \<Rightarrow> nat \<Rightarrow> nat \<Rightarrow> nat \<Rightarrow> nat \<Rightarrow> u64 \<Rightarrow> bitmap" where
  "bitmap_clear_loop m p sz nr bits msk =
     (if 0 < bits \<and> bits \<le> nr
      then bitmap_clear_loop (m[p := m ! p AND NOT msk]) (Suc p) sz (nr - bits) BITS_PER_LONG (NOT 0)
      else if nr \<noteq> 0
      then m[p := m ! p AND NOT (msk AND BITMAP_LAST_WORD_MASK sz)]
      else m)"
  by pat_completeness auto
termination
  by (relation "measure (\<lambda>(m, p, sz, nr, bits, msk). nr)") auto

declare bitmap_clear_loop.simps [simp del]

definition bitmap_clear :: "bitmap \<Rightarrow> nat \<Rightarrow> nat \<Rightarrow> bitmap" where
  "bitmap_clear m start nr =
     bitmap_clear_loop m (start div BITS_PER_LONG) (start + nr) nr
       (BITS_PER_LONG - start mod BITS_PER_LONG) (BITMAP_FIRST_WORD_MASK start)"

subsection \<open>Searching\<close>

text \<open>
  \<open>__ffs\<close> is \<open>__builtin_ffsl(word) - 1\<close>: the position of the lowest set bit. On 0 the
  builtin gives 0 and the result wraps; the callers test for 0 first.
\<close>

fun ffs_from :: "nat \<Rightarrow> nat \<Rightarrow> u64 \<Rightarrow> nat" where
  "ffs_from 0 i w = i"
| "ffs_from (Suc n) i w = (if bit w i then i else ffs_from n (Suc i) w)"

definition ffs :: "u64 \<Rightarrow> nat" where
  "ffs w = ffs_from BITS_PER_LONG 0 w"

text \<open>
  \<open>find_next_bit\<close>. The tail of the function, from the label \<open>found_first\<close> on, is
  \<open>find_first_tail\<close>; the loop over whole words is \<open>find_words\<close>.
\<close>

definition find_first_tail :: "u64 \<Rightarrow> nat \<Rightarrow> nat \<Rightarrow> nat" where
  "find_first_tail tmp result sz =
     (let tmp = tmp AND drop_bit (BITS_PER_LONG - sz) (NOT 0)
      in if tmp = 0 then result + sz else result + ffs tmp)"

function find_words :: "bitmap \<Rightarrow> nat \<Rightarrow> nat \<Rightarrow> nat \<Rightarrow> nat" where
  "find_words addr p result sz =
     (if BITS_PER_LONG \<le> sz
      then (if addr ! p \<noteq> 0 then result + ffs (addr ! p)
            else find_words addr (Suc p) (result + BITS_PER_LONG) (sz - BITS_PER_LONG))
      else if sz = 0 then result
      else find_first_tail (addr ! p) result sz)"
  by pat_completeness auto
termination
  by (relation "measure (\<lambda>(addr, p, result, sz). sz)") (auto simp: BITS_PER_LONG_def)

declare find_words.simps [simp del]

definition find_next_bit :: "bitmap \<Rightarrow> nat \<Rightarrow> nat \<Rightarrow> nat" where
  "find_next_bit addr bits offset =
     (let p = offset div BITS_PER_LONG;
          result = offset - offset mod BITS_PER_LONG
      in if bits \<le> offset then bits
         else (let sz = bits - result; off = offset mod BITS_PER_LONG
               in if off \<noteq> 0
                  then (let tmp = addr ! p AND push_bit off (NOT 0)
                        in if sz < BITS_PER_LONG then find_first_tail tmp result sz
                           else if tmp \<noteq> 0 then result + ffs tmp
                           else find_words addr (Suc p) (result + BITS_PER_LONG) (sz - BITS_PER_LONG))
                  else find_words addr p result sz))"

subsection \<open>The bits of a bitmap\<close>

definition bm_bit :: "bitmap \<Rightarrow> nat \<Rightarrow> bool" where
  "bm_bit m i \<longleftrightarrow> bit (m ! (i div 64)) (i mod 64)"

definition bm_size :: "bitmap \<Rightarrow> nat" where
  "bm_size m = 64 * length m"

lemma bm_index: "i < bm_size m \<Longrightarrow> i div 64 < length m"
  by (simp add: bm_size_def less_mult_imp_div_less mult.commute)

lemma bit_push_1: "bit (push_bit k (1 :: u64)) j \<longleftrightarrow> j < 64 \<and> j = k"
  by (auto simp: bit_exp_iff)

lemma bit_first_mask: "bit (push_bit k (NOT (0 :: u64))) j \<longleftrightarrow> k \<le> j \<and> j < 64"
  by (auto simp: bit_not_iff bit_mask_iff)

lemma bit_last_mask: "bit (BITMAP_LAST_WORD_MASK n) j \<longleftrightarrow> j < 64 \<and> (n mod 64 \<noteq> 0 \<longrightarrow> j < n mod 64)"
proof -
  have "push_bit k 1 - 1 = (mask k :: u64)" for k
    by (simp add: mask_eq_exp_minus_1 push_bit_eq_mult)
  then show ?thesis
    by (auto simp: BITMAP_LAST_WORD_MASK_def BITS_PER_LONG_def bit_mask_iff bit_not_iff)
qed

lemma test_bit_bm: "test_bit i m \<longleftrightarrow> bm_bit m i"
proof -
  have "w AND push_bit k 1 \<noteq> 0 \<longleftrightarrow> bit w k" if "k < 64" for w :: u64 and k
    using that by (auto simp: bit_eq_iff [of "w AND 2 ^ k"] bit_and_iff bit_exp_iff)
  then show ?thesis
    by (simp add: test_bit_def bm_bit_def Let_def BITS_PER_LONG_def)
qed

lemma length_bit_ops [simp]:
  "length (set_bit_map i m) = length m"
  "length (clear_bit i m) = length m"
  "length (change_bit i m) = length m"
  by (simp_all add: set_bit_map_def clear_bit_def change_bit_def Let_def)

lemma div_mod_64_eq: "i div 64 = j div 64 \<Longrightarrow> i mod 64 = j mod 64 \<Longrightarrow> i = (j :: nat)"
  by (metis div_mult_mod_eq)

lemma bm_bit_update:
  "i < bm_size m \<Longrightarrow> bm_bit (m[i div 64 := w]) j =
     (if j div 64 = i div 64 then bit w (j mod 64) else bm_bit m j)"
  by (auto simp: bm_bit_def bm_index)

lemma bm_bit_set: "i < bm_size m \<Longrightarrow> bm_bit (set_bit_map i m) j \<longleftrightarrow> j = i \<or> bm_bit m j"
  unfolding set_bit_map_def BITS_PER_LONG_def Let_def
  by (auto simp: bm_bit_update bit_or_iff bit_exp_iff dest: div_mod_64_eq)
    (auto simp: bm_bit_def)

lemma bm_bit_clear: "i < bm_size m \<Longrightarrow> bm_bit (clear_bit i m) j \<longleftrightarrow> j \<noteq> i \<and> bm_bit m j"
  unfolding clear_bit_def BITS_PER_LONG_def Let_def
  by (auto simp: bm_bit_update bit_and_iff bit_not_iff bit_exp_iff dest: div_mod_64_eq)
    (auto simp: bm_bit_def)

lemma bm_bit_change: "i < bm_size m \<Longrightarrow> bm_bit (change_bit i m) j \<longleftrightarrow> (if j = i then \<not> bm_bit m j else bm_bit m j)"
  unfolding change_bit_def BITS_PER_LONG_def Let_def
  by (auto simp: bm_bit_update bit_xor_iff bit_exp_iff dest: div_mod_64_eq)
    (auto simp: bm_bit_def)

lemma bm_bit_DECLARE: "i < bits \<Longrightarrow> \<not> bm_bit (DECLARE_BITMAP bits) i"
proof -
  assume "i < bits"
  then have "i div 64 < BITS_TO_LONGS bits"
    by (simp add: BITS_TO_LONGS_def BITS_PER_LONG_def)
  then show ?thesis by (simp add: bm_bit_def DECLARE_BITMAP_def)
qed

lemma DECLARE_size: "bits \<le> bm_size (DECLARE_BITMAP bits)"
  by (simp add: bm_size_def DECLARE_BITMAP_def BITS_TO_LONGS_def BITS_PER_LONG_def)

subsection \<open>Ranges\<close>

lemma word_index_cases:
  obtains (same) r where "i = 64 * p + r" and "r < 64" and "i div 64 = p" and "i mod 64 = r"
  | (before) "i < 64 * p" and "i div 64 \<noteq> p"
  | (after) "64 * Suc p \<le> i" and "i div 64 \<noteq> (p :: nat)"
proof -
  have "i = 64 * (i div 64) + i mod 64" and "i mod 64 < 64" by simp_all
  then consider "i div 64 = p" | "i div 64 < p" | "p < i div 64" by linarith
  then show ?thesis
  proof cases
    case 1
    then show ?thesis using same [of "i mod 64"] \<open>i = 64 * (i div 64) + i mod 64\<close> by simp
  next
    case 2
    then show ?thesis using before \<open>i = _\<close> \<open>i mod 64 < 64\<close> by linarith
  next
    case 3
    then have "64 * Suc p \<le> 64 * (i div 64)" by simp
    with 3 show ?thesis using after \<open>i = _\<close> by linarith
  qed
qed

lemma bitmap_set_loop_correct:
  assumes "0 < bits" and "bits \<le> 64" and "\<And>j. bit msk j \<longleftrightarrow> 64 - bits \<le> j \<and> j < 64"
    and "sz = 64 * p + (64 - bits) + nr" and "sz \<le> bm_size m"
  shows "bm_bit (bitmap_set_loop m p sz nr bits msk) i \<longleftrightarrow>
    bm_bit m i \<or> (64 * p + (64 - bits) \<le> i \<and> i < sz)"
  using assms
proof (induction m p sz nr bits msk rule: bitmap_set_loop.induct)
  case (1 m p sz nr bits msk)
  have upd: "bm_bit (m[p := w]) i = (if i div 64 = p then bit w (i mod 64) else bm_bit m i)"
    if "0 < nr" for w
  proof -
    have "p < length m" using "1.prems"(2,4,5) that "1.prems"(1) by (simp add: bm_size_def)
    then show ?thesis by (auto simp: bm_bit_def)
  qed
  show ?case
  proof (cases "bits \<le> nr")
    case True
    let ?m = "m[p := m ! p OR msk]"
    have "bm_bit (bitmap_set_loop ?m (Suc p) sz (nr - bits) BITS_PER_LONG (NOT 0)) i \<longleftrightarrow>
        bm_bit ?m i \<or> (64 * Suc p + (64 - BITS_PER_LONG) \<le> i \<and> i < sz)"
      using True "1.prems"
      by (intro "1.IH") (auto simp: BITS_PER_LONG_def bm_size_def bit_not_iff)
    moreover have "bitmap_set_loop m p sz nr bits msk =
        bitmap_set_loop ?m (Suc p) sz (nr - bits) BITS_PER_LONG (NOT 0)"
      using True "1.prems"(1) by (simp add: bitmap_set_loop.simps [of m p sz nr bits msk])
    moreover have "bm_bit ?m i \<longleftrightarrow>
        bm_bit m i \<or> (64 * p + (64 - bits) \<le> i \<and> i < 64 * Suc p)"
    proof (cases rule: word_index_cases [of i p])
      case (same r)
      have "bit (m ! p OR msk) r \<longleftrightarrow> bit (m ! p) r \<or> 64 - bits \<le> r"
        using "1.prems"(3) [of r] same(2) by (simp add: bit_or_iff)
      moreover have "bm_bit ?m i = bit (m ! p OR msk) r" and "bm_bit m i = bit (m ! p) r"
        using same(3,4) True "1.prems"(1) by (simp add: upd, simp add: bm_bit_def)
      ultimately show ?thesis using same(1,2) by simp
    qed (use True "1.prems"(1) in \<open>simp_all add: upd\<close>)
    moreover have "64 * Suc p \<le> sz" using True "1.prems"(2,4) by simp
    ultimately show ?thesis using "1.prems"(2) by (auto simp: BITS_PER_LONG_def)
  next
    case False
    show ?thesis
    proof (cases "nr = 0")
      case True
      then have "bitmap_set_loop m p sz nr bits msk = m"
        using "1.prems"(1) by (simp add: bitmap_set_loop.simps [of m p sz 0 bits msk])
      then show ?thesis using True "1.prems"(4) by auto
    next
      case nz: False
      have lt: "64 - bits + nr < 64" using False "1.prems"(2) by simp
      have "sz = 64 * p + (64 - bits + nr)" using "1.prems"(4) by simp
      with lt have "sz mod 64 = 64 - bits + nr" and "sz \<le> 64 * Suc p" by simp_all
      have res: "bitmap_set_loop m p sz nr bits msk =
          m[p := m ! p OR (msk AND BITMAP_LAST_WORD_MASK sz)]"
        using False nz by (simp add: bitmap_set_loop.simps [of m p sz nr bits msk])
      show ?thesis
      proof (cases rule: word_index_cases [of i p])
        case (same r)
        have "bit (m ! p OR (msk AND BITMAP_LAST_WORD_MASK sz)) r \<longleftrightarrow>
            bit (m ! p) r \<or> (64 - bits \<le> r \<and> r < 64 - bits + nr)"
          using "1.prems"(3) [of r] same(2) nz \<open>sz mod 64 = _\<close>
          by (auto simp: bit_or_iff bit_and_iff bit_last_mask)
        moreover have "bm_bit (bitmap_set_loop m p sz nr bits msk) i =
            bit (m ! p OR (msk AND BITMAP_LAST_WORD_MASK sz)) r" and "bm_bit m i = bit (m ! p) r"
          using same(3,4) nz by (simp add: upd res, simp add: bm_bit_def)
        ultimately show ?thesis using same(1,2) "1.prems"(4) by simp
      qed (use nz \<open>sz \<le> 64 * Suc p\<close> in \<open>simp_all add: upd res\<close>)
    qed
  qed
qed

lemma bm_bit_bitmap_set:
  assumes "start + nr \<le> bm_size m"
  shows "bm_bit (bitmap_set m start nr) i \<longleftrightarrow> bm_bit m i \<or> (start \<le> i \<and> i < start + nr)"
proof -
  have "bm_bit (bitmap_set m start nr) i \<longleftrightarrow>
    bm_bit m i \<or> (64 * (start div 64) + (64 - (64 - start mod 64)) \<le> i \<and> i < start + nr)"
    unfolding bitmap_set_def BITS_PER_LONG_def
    by (rule bitmap_set_loop_correct)
      (use assms in \<open>auto simp: BITMAP_FIRST_WORD_MASK_def BITS_PER_LONG_def bit_not_iff bit_mask_iff\<close>)
  moreover have "64 * (start div 64) + (64 - (64 - start mod 64)) = start"
    by (simp add: less_imp_le)
  ultimately show ?thesis by simp
qed

text \<open>Clearing is setting on the complement.\<close>

lemma update_NOT:
  "map NOT ((m :: bitmap)[p := m ! p AND NOT w]) = (map NOT m)[p := map NOT m ! p OR w]"
  by (cases "p < length m") (auto simp: map_update list_update_beyond bit_eq_iff bit_simps)

lemma update_NOT_AND:
  "map NOT ((m :: bitmap)[p := m ! p AND (NOT v OR NOT w)]) =
   (map NOT m)[p := map NOT m ! p OR (v AND w)]"
  using update_NOT [of m p "v AND w"] by simp

lemma bitmap_clear_loop_NOT:
  "map NOT (bitmap_clear_loop m p sz nr bits msk) = bitmap_set_loop (map NOT m) p sz nr bits msk"
proof (induction m p sz nr bits msk rule: bitmap_clear_loop.induct)
  case (1 m p sz nr bits msk)
  then show ?case
    by (subst bitmap_clear_loop.simps, subst bitmap_set_loop.simps)
      (simp add: update_NOT update_NOT_AND)
qed

lemma length_bitmap_set_loop [simp]: "length (bitmap_set_loop m p sz nr bits msk) = length m"
proof (induction m p sz nr bits msk rule: bitmap_set_loop.induct)
  case (1 m p sz nr bits msk)
  then show ?case by (subst bitmap_set_loop.simps) simp
qed

lemma length_bitmap_set [simp]: "length (bitmap_set m start nr) = length m"
  by (simp add: bitmap_set_def)

lemma length_bitmap_clear [simp]: "length (bitmap_clear m start nr) = length m"
  by (metis bitmap_clear_def bitmap_clear_loop_NOT length_bitmap_set_loop length_map)

lemma bm_bit_NOT: "i < bm_size m \<Longrightarrow> bm_bit (map NOT m) i \<longleftrightarrow> \<not> bm_bit m i"
  by (simp add: bm_bit_def bm_index bit_not_iff)

lemma bm_bit_bitmap_clear:
  assumes "start + nr \<le> bm_size m" and "i < bm_size m"
  shows "bm_bit (bitmap_clear m start nr) i \<longleftrightarrow> bm_bit m i \<and> \<not> (start \<le> i \<and> i < start + nr)"
proof -
  have "map NOT (bitmap_clear m start nr) = bitmap_set (map NOT m) start nr"
    by (simp add: bitmap_clear_def bitmap_set_def bitmap_clear_loop_NOT)
  moreover have "i < bm_size (bitmap_clear m start nr)"
    using assms(2) by (simp add: bm_size_def)
  ultimately have "bm_bit (bitmap_clear m start nr) i \<longleftrightarrow> \<not> bm_bit (bitmap_set (map NOT m) start nr) i"
    by (metis bm_bit_NOT)
  with assms show ?thesis
    by (simp add: bm_bit_bitmap_set bm_size_def) (simp add: bm_bit_NOT bm_size_def)
qed

subsection \<open>Search\<close>

lemma ffs_from_least:
  assumes "bit w k" and "i \<le> k" and "k < i + n"
  shows "bit w (ffs_from n i w) \<and> i \<le> ffs_from n i w \<and> ffs_from n i w \<le> k \<and>
    (\<forall>j. i \<le> j \<and> j < ffs_from n i w \<longrightarrow> \<not> bit w j)"
  using assms
proof (induction n arbitrary: i)
  case 0
  then show ?case by simp
next
  case (Suc n)
  show ?case
  proof (cases "bit w i")
    case True
    with Suc.prems show ?thesis by auto
  next
    case False
    with Suc.prems have "Suc i \<le> k" by (metis le_antisym not_less_eq_eq)
    with Suc.IH [of "Suc i"] Suc.prems False show ?thesis
      by simp (metis le_antisym not_less_eq_eq Suc_leD)
  qed
qed

lemma ffs_least:
  assumes "w \<noteq> 0"
  shows "bit w (ffs w)" and "ffs w < 64" and "j < ffs w \<Longrightarrow> \<not> bit w j"
proof -
  from assms obtain k where k: "bit w k" by (auto simp: bit_eq_iff)
  then have "k < 64" using bit_imp_le_length by fastforce
  with ffs_from_least [OF k, of 0 64] show "bit w (ffs w)" and "ffs w < 64"
    and "j < ffs w \<Longrightarrow> \<not> bit w j"
    by (auto simp: ffs_def BITS_PER_LONG_def)
qed

text \<open>
  \<open>next_bit m lo hi r\<close>: \<open>r\<close> is the first set bit of \<open>[lo, hi)\<close>, or \<open>hi\<close> if there is none.
\<close>

definition next_bit :: "bitmap \<Rightarrow> nat \<Rightarrow> nat \<Rightarrow> nat \<Rightarrow> bool" where
  "next_bit m lo hi r \<longleftrightarrow>
     lo \<le> r \<and> r \<le> hi \<and> (\<forall>j. lo \<le> j \<and> j < r \<longrightarrow> \<not> bm_bit m j) \<and> (r < hi \<longrightarrow> bm_bit m r)"

lemma next_bit_skip:
  "next_bit m mid hi r \<Longrightarrow> lo \<le> mid \<Longrightarrow> (\<And>j. lo \<le> j \<Longrightarrow> j < mid \<Longrightarrow> \<not> bm_bit m j) \<Longrightarrow>
   next_bit m lo hi r"
  unfolding next_bit_def by (metis le_trans not_le)

lemma bm_bit_word: "j < 64 \<Longrightarrow> bm_bit m (64 * p + j) \<longleftrightarrow> bit (m ! p) j"
  by (simp add: bm_bit_def)

text \<open>One word, with the bits below \<open>k\<close> and those from \<open>n\<close> on masked out.\<close>

lemma next_bit_word:
  assumes tmp: "\<And>j. j < 64 \<Longrightarrow> bit tmp j \<longleftrightarrow> bit (m ! p) j \<and> k \<le> j \<and> j < n"
    and "tmp \<noteq> 0" and "k \<le> 64" and "64 * p + n \<le> hi" and "n \<le> 64"
  shows "next_bit m (64 * p + k) hi (64 * p + ffs tmp)"
proof -
  note f = ffs_least [OF assms(2)]
  have "k \<le> ffs tmp \<and> ffs tmp < n \<and> bit (m ! p) (ffs tmp)" using f(1,2) tmp by auto
  moreover have "\<not> bm_bit m j" if "64 * p + k \<le> j" and "j < 64 * p + ffs tmp" for j
  proof -
    obtain r where r: "j = 64 * p + r" using \<open>64 * p + k \<le> j\<close> by (metis le_iff_add add.assoc)
    with that f(2) f(3) [of r] tmp [of r] calculation show ?thesis by (simp add: bm_bit_word)
  qed
  ultimately show ?thesis
    using assms(4) f(2) by (auto simp: next_bit_def bm_bit_word)
qed

lemma no_bit_word:
  assumes "\<And>j. j < 64 \<Longrightarrow> bit (0 :: u64) j \<longleftrightarrow> bit (m ! p) j \<and> k \<le> j \<and> j < n" and "n \<le> 64"
  shows "64 * p + k \<le> j \<Longrightarrow> j < 64 * p + n \<Longrightarrow> \<not> bm_bit m j"
proof -
  assume le: "64 * p + k \<le> j" and lt: "j < 64 * p + n"
  then obtain r where r: "j = 64 * p + r" by (metis le_iff_add add.assoc)
  with le lt assms(2) have "r < 64" and "k \<le> r" and "r < n" by simp_all
  with assms(1) [of r] show ?thesis by (simp add: r bm_bit_word)
qed

lemma find_first_tail_correct:
  assumes "sz < 64" and "\<And>j. j < 64 \<Longrightarrow> bit w j \<longleftrightarrow> bit (m ! p) j \<and> k \<le> j" and "k \<le> sz"
  shows "next_bit m (64 * p + k) (64 * p + sz) (find_first_tail w (64 * p) sz)"
proof -
  let ?t = "w AND drop_bit (64 - sz) (NOT (0 :: u64))"
  have t: "bit ?t j \<longleftrightarrow> bit (m ! p) j \<and> k \<le> j \<and> j < sz" if "j < 64" for j
    using that assms(1,2) by (auto simp: bit_and_iff bit_drop_bit_eq bit_not_iff bit_mask_iff)
  show ?thesis
  proof (cases "?t = 0")
    case True
    have "\<not> bm_bit m j" if "64 * p + k \<le> j" and "j < 64 * p + sz" for j
      using no_bit_word [of m p k sz j] t True that assms(1) by simp
    then show ?thesis
      using True assms(3) by (simp add: find_first_tail_def BITS_PER_LONG_def next_bit_def)
  next
    case False
    with next_bit_word [of ?t m p k sz "64 * p + sz"] t assms show ?thesis
      by (simp add: find_first_tail_def BITS_PER_LONG_def Let_def)
  qed
qed

lemma find_words_correct:
  "next_bit m (64 * p) (64 * p + sz) (find_words m p (64 * p) sz)"
proof (induction sz arbitrary: p rule: less_induct)
  case (less sz)
  show ?case
  proof (cases "64 \<le> sz")
    case True
    show ?thesis
    proof (cases "m ! p = 0")
      case z: True
      have "next_bit m (64 * Suc p) (64 * Suc p + (sz - 64)) (find_words m (Suc p) (64 * Suc p) (sz - 64))"
        by (rule less.IH) (use True in simp)
      then have "next_bit m (64 * p) (64 * Suc p + (sz - 64)) (find_words m (Suc p) (64 * Suc p) (sz - 64))"
        by (rule next_bit_skip) (use no_bit_word [of m p 0 64] z in auto)
      then show ?thesis
        using True z by (simp add: find_words.simps [of m p "64 * p" sz] BITS_PER_LONG_def add.commute)
    next
      case False
      with next_bit_word [of "m ! p" m p 0 64 "64 * p + sz"] True show ?thesis
        by (simp add: find_words.simps [of m p "64 * p" sz] BITS_PER_LONG_def)
    qed
  next
    case False
    with find_first_tail_correct [of sz "m ! p" m p 0] show ?thesis
      by (auto simp: find_words.simps [of m p "64 * p" sz] BITS_PER_LONG_def next_bit_def)
  qed
qed

lemma find_next_bit_correct:
  assumes "offset \<le> bits"
  shows "next_bit m offset bits (find_next_bit m bits offset)"
proof (cases "offset = bits")
  case True
  then show ?thesis by (auto simp: find_next_bit_def next_bit_def)
next
  case False
  define p k where "p = offset div 64" and "k = offset mod 64"
  have off: "offset = 64 * p + k" and k: "k < 64" by (simp_all add: p_def k_def)
  let ?sz = "bits - 64 * p"
  have sz: "k < ?sz" and bits: "bits = 64 * p + ?sz" using False assms off by simp_all
  let ?t = "m ! p AND push_bit k (NOT 0)"
  have t: "bit ?t j \<longleftrightarrow> bit (m ! p) j \<and> k \<le> j" if "j < 64" for j
    using that by (auto simp: bit_and_iff bit_not_iff bit_mask_iff)
  have fnb: "find_next_bit m bits offset =
      (if k \<noteq> 0
       then if ?sz < 64 then find_first_tail ?t (64 * p) ?sz
            else if ?t \<noteq> 0 then 64 * p + ffs ?t
            else find_words m (Suc p) (64 * Suc p) (?sz - 64)
       else find_words m p (64 * p) ?sz)"
    using False assms off k
    by (simp add: find_next_bit_def Let_def BITS_PER_LONG_def add.commute [of 64] flip: p_def k_def)
  show ?thesis
  proof (cases "k = 0")
    case True
    then show ?thesis using find_words_correct [of m p ?sz] off bits fnb by simp
  next
    case nz: False
    consider (tail) "?sz < 64" | (hit) "64 \<le> ?sz" "?t \<noteq> 0" | (miss) "64 \<le> ?sz" "?t = 0"
      by linarith
    then show ?thesis
    proof cases
      case tail
      with find_first_tail_correct [of ?sz ?t m p k] t sz nz show ?thesis
        unfolding fnb by (simp add: off flip: bits)
    next
      case hit
      with next_bit_word [of ?t m p k 64 bits] t k nz bits show ?thesis
        unfolding fnb by (simp add: off)
    next
      case miss
      have "next_bit m (64 * Suc p) (64 * Suc p + (?sz - 64)) (find_words m (Suc p) (64 * Suc p) (?sz - 64))"
        by (rule find_words_correct)
      then have nb: "next_bit m offset (64 * Suc p + (?sz - 64)) (find_words m (Suc p) (64 * Suc p) (?sz - 64))"
        by (rule next_bit_skip) (use no_bit_word [of m p k 64] t miss off k in auto)
      have eq: "64 * Suc p + (?sz - 64) = bits" using miss(1) by auto
      have "find_next_bit m bits offset = find_words m (Suc p) (64 * Suc p) (?sz - 64)"
        unfolding fnb using miss nz by (simp only: if_True if_False not_less [symmetric] simp_thms)
      with nb show ?thesis unfolding eq by (simp only:)
    qed
  qed
qed

lemma find_next_bit_ge: "offset < bits \<Longrightarrow> offset \<le> find_next_bit m bits offset"
  using find_next_bit_correct [of offset bits m] by (simp add: next_bit_def)

text \<open>
  \<open>for_each_bit\<close>: the macro bounds the search by \<open>sizeof(bitmask)\<close>, which is a number of
  bytes.
\<close>

definition sizeof_bitmap :: "bitmap \<Rightarrow> nat" where
  "sizeof_bitmap m = 8 * length m"

function for_each_bit_from :: "bitmap \<Rightarrow> nat \<Rightarrow> nat list" where
  "for_each_bit_from m i =
     (if i < sizeof_bitmap m
      then i # for_each_bit_from m (find_next_bit m (sizeof_bitmap m) (i + 1))
      else [])"
  by pat_completeness auto
termination
proof (relation "measure (\<lambda>(m, i). sizeof_bitmap m - i)")
  fix m :: bitmap and i
  assume "i < sizeof_bitmap m"
  moreover have "i < find_next_bit m (sizeof_bitmap m) (i + 1)"
    using calculation find_next_bit_correct [of "i + 1" "sizeof_bitmap m" m]
    by (simp add: next_bit_def)
  ultimately show "((m, find_next_bit m (sizeof_bitmap m) (i + 1)), m, i)
      \<in> measure (\<lambda>(m, i). sizeof_bitmap m - i)"
    by simp
qed simp

declare for_each_bit_from.simps [simp del]

definition for_each_bit :: "bitmap \<Rightarrow> nat list" where
  "for_each_bit m = for_each_bit_from m (find_next_bit m (sizeof_bitmap m) 0)"

text \<open>The indices a \<open>for_each_bit\<close> loop visits: the set bits below the size in bytes.\<close>

lemma for_each_bit_from_set:
  assumes "next_bit m lo (sizeof_bitmap m) i"
  shows "set (for_each_bit_from m i) = {j. lo \<le> j \<and> j < sizeof_bitmap m \<and> bm_bit m j}"
  using assms
proof (induction m i arbitrary: lo rule: for_each_bit_from.induct)
  case (1 m i)
  show ?case
  proof (cases "i < sizeof_bitmap m")
    case True
    let ?n = "find_next_bit m (sizeof_bitmap m) (i + 1)"
    have "next_bit m (i + 1) (sizeof_bitmap m) ?n"
      using True by (intro find_next_bit_correct) simp
    then have "set (for_each_bit_from m ?n) = {j. i + 1 \<le> j \<and> j < sizeof_bitmap m \<and> bm_bit m j}"
      by (rule "1.IH" [OF True])
    then show ?thesis
      using True "1.prems"
      by (auto simp: for_each_bit_from.simps [of m i] next_bit_def)
  next
    case False
    then have "for_each_bit_from m i = []" by (simp add: for_each_bit_from.simps [of m i])
    with False "1.prems" show ?thesis by (auto simp: next_bit_def)
  qed
qed

lemma for_each_bit_set:
  "set (for_each_bit m) = {j. j < sizeof_bitmap m \<and> bm_bit m j}"
  using for_each_bit_from_set [OF find_next_bit_correct [of 0 "sizeof_bitmap m" m]]
  by (simp add: for_each_bit_def)

subsection \<open>The interface\<close>

text \<open>What the users of the single-bit operations rely on: a bitmap is a set of indices.\<close>

locale bit_set =
  fixes member :: "nat \<Rightarrow> 'm \<Rightarrow> bool"
    and insert_bit :: "nat \<Rightarrow> 'm \<Rightarrow> 'm"
    and remove_bit :: "nat \<Rightarrow> 'm \<Rightarrow> 'm"
    and room :: "'m \<Rightarrow> nat"
  assumes member_insert: "i < room m \<Longrightarrow> member j (insert_bit i m) \<longleftrightarrow> j = i \<or> member j m"
    and member_remove: "i < room m \<Longrightarrow> member j (remove_bit i m) \<longleftrightarrow> j \<noteq> i \<and> member j m"
    and room_insert: "room (insert_bit i m) = room m"
    and room_remove: "room (remove_bit i m) = room m"
begin

lemma insert_remove: "i < room m \<Longrightarrow> \<not> member i m \<Longrightarrow> member j (remove_bit i (insert_bit i m)) \<longleftrightarrow> member j m"
  by (auto simp: member_insert member_remove room_insert)

lemma member_fold_insert:
  "(\<And>i. i \<in> set is \<Longrightarrow> i < room m) \<Longrightarrow>
   member j (fold insert_bit is m) \<longleftrightarrow> j \<in> set is \<or> member j m"
proof (induction "is" arbitrary: m)
  case Nil
  then show ?case by simp
next
  case (Cons i "is")
  then have "member j (fold insert_bit is (insert_bit i m)) \<longleftrightarrow>
      j \<in> set is \<or> member j (insert_bit i m)"
    by (intro Cons.IH) (simp add: room_insert)
  with Cons.prems [of i] show ?case by (auto simp: member_insert)
qed

end

interpretation bm: bit_set test_bit set_bit_map clear_bit bm_size
  by unfold_locales (simp_all add: test_bit_bm bm_bit_set bm_bit_clear, simp_all add: bm_size_def)

end
