(* ===== verification/RstMalloc.thy ===== *)
theory RstMalloc
  imports Prelude
begin

unbundle bit_operations_syntax

text \<open>
  The restorer's arena allocator, \<open>criu/rst-malloc.c\<close>.

  Three linear arenas (shared, shared-remapable, private) hand out memory from a free
  pointer; the remapable ones grow in place by \<open>mremap\<close> and are moved into the restorer
  blob at the end. The memory-mapping system calls are the record \<open>mm_sys\<close>: their answers
  are arguments of the operations, with the documented contract (page-aligned, non-null,
  inside the address space) as the predicate \<open>mm_sys_ok\<close>.
\<close>

datatype rm_type = RM_SHARED | RM_SHREMAP | RM_PRIVATE

datatype grow_fn = Grow_shared | Grow_shremap | Grow_private

record rst_mem_type_s =
  remapable :: bool
  enabled :: bool
  free_bytes :: ulong
  free_mem :: ulong
  grow :: grow_fn
  last_sz :: ulong
  buf :: ulong
  mem_size :: ulong

type_synonym rst_mems = "rm_type \<Rightarrow> rst_mem_type_s"

record mm_sys =
  sys_mmap :: "ulong \<Rightarrow> ulong option"
  sys_mremap :: "ulong \<Rightarrow> ulong \<Rightarrow> ulong \<Rightarrow> ulong option"
  sys_mremap_fixed :: "ulong \<Rightarrow> ulong \<Rightarrow> ulong \<Rightarrow> ulong option"

subsection \<open>Rounding\<close>

definition round_down :: "ulong \<Rightarrow> ulong \<Rightarrow> ulong" where
  "round_down x y = x AND (ULONG_MOD - 1 - ul_sub y 1)"

definition rst_mem_grow :: "ulong \<Rightarrow> ulong" where
  "rst_mem_grow need_size =
     (let rst_mem_batch = 2 * PAGE_SIZE;
          need_size = round_up need_size PAGE_SIZE
      in if need_size < rst_mem_batch then rst_mem_batch else need_size)"

subsection \<open>Growing an arena\<close>

definition grow_shared :: "mm_sys \<Rightarrow> rst_mem_type_s \<Rightarrow> ulong \<Rightarrow> int \<times> rst_mem_type_s" where
  "grow_shared sys t sz =
     (let sz = rst_mem_grow sz
      in case sys_mmap sys sz of
           None \<Rightarrow> (-1, t)
         | Some aux \<Rightarrow> (0, t\<lparr>free_mem := aux, free_bytes := sz, last_sz := 0\<rparr>))"

definition grow_remap :: "mm_sys \<Rightarrow> rst_mem_type_s \<Rightarrow> bool \<Rightarrow> ulong \<Rightarrow> int \<times> rst_mem_type_s" where
  "grow_remap sys t map_shared sz =
     (let sz = rst_mem_grow sz
      in if buf t \<noteq> 0 \<and> map_shared then (-1, t)
         else (case (if buf t = 0 then sys_mmap sys sz
                     else sys_mremap sys (buf t) (mem_size t) (ul_add (mem_size t) sz)) of
                 None \<Rightarrow> (-1, t)
               | Some aux \<Rightarrow>
                   (0, t\<lparr>free_mem := ul_add (free_mem t) (ul_sub aux (buf t)),
                         free_bytes := ul_add (free_bytes t) sz,
                         mem_size := ul_add (mem_size t) sz,
                         buf := aux\<rparr>)))"

definition grow_shremap :: "mm_sys \<Rightarrow> rst_mem_type_s \<Rightarrow> ulong \<Rightarrow> int \<times> rst_mem_type_s" where
  "grow_shremap sys t sz = grow_remap sys t True sz"

definition grow_private :: "mm_sys \<Rightarrow> rst_mem_type_s \<Rightarrow> ulong \<Rightarrow> int \<times> rst_mem_type_s" where
  "grow_private sys t sz = grow_remap sys t False sz"

fun call_grow :: "grow_fn \<Rightarrow> mm_sys \<Rightarrow> rst_mem_type_s \<Rightarrow> ulong \<Rightarrow> int \<times> rst_mem_type_s" where
  "call_grow Grow_shared = grow_shared"
| "call_grow Grow_shremap = grow_shremap"
| "call_grow Grow_private = grow_private"

subsection \<open>The arenas and their operations\<close>

fun rst_mems_init :: rst_mems where
  "rst_mems_init RM_SHARED =
     \<lparr>remapable = False, enabled = True, free_bytes = 0, free_mem = 0, grow = Grow_shared,
      last_sz = 0, buf = 0, mem_size = 0\<rparr>"
| "rst_mems_init RM_SHREMAP =
     \<lparr>remapable = True, enabled = True, free_bytes = 0, free_mem = 0, grow = Grow_shremap,
      last_sz = 0, buf = 0, mem_size = 0\<rparr>"
| "rst_mems_init RM_PRIVATE =
     \<lparr>remapable = True, enabled = False, free_bytes = 0, free_mem = 0, grow = Grow_private,
      last_sz = 0, buf = 0, mem_size = 0\<rparr>"

definition rst_mem_switch_to_private :: "rst_mems \<Rightarrow> rst_mems" where
  "rst_mem_switch_to_private ms =
     (let ms = ms(RM_SHARED := (ms RM_SHARED)\<lparr>enabled := False\<rparr>);
          ms = ms(RM_SHREMAP := (ms RM_SHREMAP)\<lparr>enabled := False\<rparr>)
      in ms(RM_PRIVATE := (ms RM_PRIVATE)\<lparr>enabled := True\<rparr>))"

definition align_t :: "rst_mem_type_s \<Rightarrow> rst_mem_type_s" where
  "align_t t =
     (let ptr = round_up (free_mem t) 8
      in t\<lparr>free_bytes := ul_sub (free_bytes t) (ul_sub ptr (free_mem t)), free_mem := ptr\<rparr>)"

definition rst_mem_align :: "rm_type \<Rightarrow> rst_mems \<Rightarrow> rst_mems" where
  "rst_mem_align ty ms = ms(ty := align_t (ms ty))"

definition rst_mem_align_cpos :: "rm_type \<Rightarrow> rst_mems \<Rightarrow> (ulong \<times> rst_mems) outcome" where
  "rst_mem_align_cpos ty ms =
     (if \<not> remapable (ms ty) \<or> \<not> enabled (ms ty) then Bug
      else (let ms = rst_mem_align ty ms
            in Ret (ul_sub (free_mem (ms ty)) (buf (ms ty)), ms)))"

definition rst_mem_remap_ptr :: "ulong \<Rightarrow> rm_type \<Rightarrow> rst_mems \<Rightarrow> ulong outcome" where
  "rst_mem_remap_ptr pos ty ms =
     (if \<not> remapable (ms ty) then Bug else Ret (ul_add (buf (ms ty)) pos))"

definition alloc_t :: "mm_sys \<Rightarrow> ulong \<Rightarrow> rst_mem_type_s \<Rightarrow> ulong option \<times> rst_mem_type_s" where
  "alloc_t sys sz t =
     (let (ret, t) = (if free_bytes t < sz then call_grow (grow t) sys t sz else (0, t))
      in if ret \<noteq> 0 then (None, t)
         else (Some (free_mem t),
               t\<lparr>free_mem := ul_add (free_mem t) sz,
                 free_bytes := ul_sub (free_bytes t) sz, last_sz := sz\<rparr>))"

definition rst_mem_alloc :: "mm_sys \<Rightarrow> ulong \<Rightarrow> rm_type \<Rightarrow> rst_mems \<Rightarrow> (ulong option \<times> rst_mems) outcome" where
  "rst_mem_alloc sys sz ty ms =
     (if \<not> enabled (ms ty) then Bug
      else (let (ret, t) = alloc_t sys sz (ms ty) in Ret (ret, ms(ty := t))))"

definition free_last_t :: "rst_mem_type_s \<Rightarrow> rst_mem_type_s" where
  "free_last_t t =
     t\<lparr>free_mem := ul_sub (free_mem t) (last_sz t),
       free_bytes := ul_add (free_bytes t) (last_sz t), last_sz := 0\<rparr>"

definition rst_mem_free_last :: "rm_type \<Rightarrow> rst_mems \<Rightarrow> rst_mems outcome" where
  "rst_mem_free_last ty ms =
     (if \<not> enabled (ms ty) then Bug else Ret (ms(ty := free_last_t (ms ty))))"

definition rst_mem_lock :: "rst_mems \<Rightarrow> ulong \<times> rst_mems" where
  "rst_mem_lock ms =
     (let ms = ms(RM_PRIVATE := (ms RM_PRIVATE)\<lparr>enabled := False\<rparr>)
      in (ul_add (mem_size (ms RM_PRIVATE)) (mem_size (ms RM_SHREMAP)), ms))"

definition rst_mem_remap_one :: "mm_sys \<Rightarrow> rst_mem_type_s \<Rightarrow> ulong \<Rightarrow> (int \<times> rst_mem_type_s) outcome" where
  "rst_mem_remap_one sys t dst =
     (if \<not> remapable t \<or> enabled t then Bug
      else if buf t = 0 then Ret (0, t)
      else (case sys_mremap_fixed sys (buf t) (mem_size t) dst of
              None \<Rightarrow> Ret (-1, t)
            | Some aux \<Rightarrow> Ret (0, t\<lparr>buf := aux\<rparr>)))"

definition rst_mem_remap :: "mm_sys \<Rightarrow> ulong \<Rightarrow> rst_mems \<Rightarrow> (int \<times> rst_mems) outcome" where
  "rst_mem_remap sys dst ms =
     bind_outcome (rst_mem_remap_one sys (ms RM_PRIVATE) dst) (\<lambda>(ret, t).
       let ms = ms(RM_PRIVATE := t)
       in if ret = 0
          then bind_outcome
                 (rst_mem_remap_one sys (ms RM_SHREMAP) (ul_add dst (mem_size (ms RM_PRIVATE))))
                 (\<lambda>(ret, t). Ret (ret, ms(RM_SHREMAP := t)))
          else Ret (ret, ms))"

definition shmalloc :: "mm_sys \<Rightarrow> ulong \<Rightarrow> rst_mems \<Rightarrow> (ulong option \<times> rst_mems) outcome" where
  "shmalloc sys bytes ms = rst_mem_alloc sys bytes RM_SHARED (rst_mem_align RM_SHARED ms)"

definition shfree_last :: "rst_mems \<Rightarrow> rst_mems outcome" where
  "shfree_last ms = rst_mem_free_last RM_SHARED ms"

subsection \<open>Rounding up is exact below the wrap\<close>

lemma or_mask_nat: "(a :: nat) OR mask k = 2 ^ k * (a div 2 ^ k) + mask k"
proof -
  have "drop_bit k (a OR mask k) = drop_bit k a"
    by (rule bit_eqI) (auto simp: bit_drop_bit_eq bit_or_iff bit_mask_iff)
  moreover have "take_bit k (a OR mask k) = mask k"
    by (rule bit_eqI) (auto simp: bit_take_bit_iff bit_or_iff bit_mask_iff)
  ultimately have "a OR mask k = push_bit k (drop_bit k a) + mask k"
    using bits_ident [of k "a OR mask k"] by simp
  then show ?thesis by (simp add: push_bit_eq_mult drop_bit_eq_div mult.commute)
qed

lemma pow2_less_ULONG_MOD: "k < 64 \<Longrightarrow> 2 ^ k < ULONG_MOD"
  unfolding ULONG_MOD_def by (rule power_strict_increasing) auto

lemma round_up_zero: "y = 2 ^ k \<Longrightarrow> k < 64 \<Longrightarrow> round_up 0 y = 0"
proof -
  assume y: "y = 2 ^ k" and k: "k < 64"
  have "y < ULONG_MOD" using y k by (simp add: pow2_less_ULONG_MOD)
  then have "ul_sub y 1 = mask k" using y by (simp add: c_arith mask_eq_exp_minus_1)
  moreover have "ul_sub 0 1 = mask 64"
    by (simp add: ul_sub_def ULONG_MOD_def mask_eq_exp_minus_1)
  moreover have "(mask 64 :: nat) OR mask k = mask 64"
    by (rule bit_eqI) (use k in \<open>auto simp: bit_or_iff bit_mask_iff\<close>)
  ultimately show ?thesis
    by (simp add: round_up_def ul_add_def ULONG_MOD_def mask_eq_exp_minus_1)
qed

lemma round_up_pos:
  assumes y: "y = 2 ^ k" and k: "k < 64" and x: "0 < x" "x + y \<le> ULONG_MOD"
  shows "round_up x y = y * ((x - 1) div y + 1)"
proof -
  have "y < ULONG_MOD" using y k by (simp add: pow2_less_ULONG_MOD)
  then have "ul_sub y 1 = mask k" using y by (simp add: c_arith mask_eq_exp_minus_1)
  moreover have "x < ULONG_MOD" using x(2) y by (metis add_0 less_add_same_cancel1 order_less_le_trans zero_less_numeral zero_less_power)
  then have "ul_sub x 1 = x - 1" using x(1) by (simp add: c_arith)
  moreover have "y * ((x - 1) div y) \<le> x - 1" by simp
  then have "y * ((x - 1) div y) + y < ULONG_MOD" using x by linarith
  ultimately show ?thesis
    by (simp add: round_up_def or_mask_nat flip: y)
      (simp add: y mask_eq_exp_minus_1 ul_add_exact)
qed

lemma round_up_bounds:
  assumes y: "y = 2 ^ k" and k: "k < 64" and x: "x + y \<le> ULONG_MOD"
  shows "y dvd round_up x y" "x \<le> round_up x y" "round_up x y < x + y"
proof -
  have "y dvd round_up x y \<and> x \<le> round_up x y \<and> round_up x y < x + y"
  proof (cases "x = 0")
    case True
    then show ?thesis using y k by (simp add: round_up_zero)
  next
    case False
    have "y * ((x - 1) div y) + (x - 1) mod y = x - 1" by simp
    moreover have "(x - 1) mod y < y" using y by simp
    ultimately have "x \<le> y * ((x - 1) div y) + y" "y * ((x - 1) div y) + y < x + y"
      using False by linarith+
    then show ?thesis using round_up_pos [OF y k _ x] False by simp
  qed
  then show "y dvd round_up x y" "x \<le> round_up x y" "round_up x y < x + y" by auto
qed

lemma round_up_le:
  assumes "y = 2 ^ k" "k < 64" "x + y \<le> ULONG_MOD" "x \<le> z" "y dvd z"
  shows "round_up x y \<le> z"
proof (rule ccontr)
  assume "\<not> round_up x y \<le> z"
  moreover from assms round_up_bounds [OF assms(1-3)] have "y dvd round_up x y - z"
    by (simp add: dvd_diff_nat)
  ultimately have "y \<le> round_up x y - z" by (simp add: dvd_imp_le)
  moreover have "0 < y" using assms(1) by simp
  ultimately show False using round_up_bounds(3) [OF assms(1-3)] assms(4) by linarith
qed

subsection \<open>What the allocator relies on\<close>

text \<open>
  User addresses end at \<open>VA_MAX\<close>; a successful mapping call returns a non-null page-aligned
  address whose whole range is below it, and a fixed \<open>mremap\<close> returns its target.
\<close>

definition VA_MAX :: nat where
  "VA_MAX = 2 ^ 47"

definition va_range :: "nat \<Rightarrow> nat \<Rightarrow> bool" where
  "va_range a len \<longleftrightarrow> 0 < a \<and> PAGE_SIZE dvd a \<and> a + len \<le> VA_MAX"

definition mm_sys_ok :: "mm_sys \<Rightarrow> bool" where
  "mm_sys_ok sys \<longleftrightarrow>
     (\<forall>len a. sys_mmap sys len = Some a \<longrightarrow> va_range a len) \<and>
     (\<forall>p old new a. sys_mremap sys p old new = Some a \<longrightarrow> va_range a new) \<and>
     (\<forall>p old dst a. sys_mremap_fixed sys p old dst = Some a \<longrightarrow> a = dst)"

lemma VA_MAX_less: "VA_MAX + PAGE_SIZE \<le> ULONG_MOD"
  by (simp add: VA_MAX_def PAGE_SIZE_def ULONG_MOD_def)

lemma eight_dvd_PAGE_SIZE: "8 dvd PAGE_SIZE"
proof -
  have "PAGE_SIZE = 8 * 512" by (simp add: PAGE_SIZE_def)
  then show ?thesis by (rule dvdI)
qed

lemma rst_mem_grow_bounds:
  assumes "sz \<le> VA_MAX"
  shows "sz \<le> rst_mem_grow sz" "PAGE_SIZE dvd rst_mem_grow sz"
    "rst_mem_grow sz \<le> VA_MAX + 2 * PAGE_SIZE" "0 < rst_mem_grow sz"
proof -
  have r: "PAGE_SIZE dvd round_up sz PAGE_SIZE" "sz \<le> round_up sz PAGE_SIZE"
    "round_up sz PAGE_SIZE < sz + PAGE_SIZE"
    using round_up_bounds [of PAGE_SIZE 12 sz] assms VA_MAX_less
    by (auto simp: PAGE_SIZE_def)
  with assms show "sz \<le> rst_mem_grow sz" "PAGE_SIZE dvd rst_mem_grow sz"
    "rst_mem_grow sz \<le> VA_MAX + 2 * PAGE_SIZE"
    by (auto simp: rst_mem_grow_def Let_def)
  show "0 < rst_mem_grow sz"
    by (simp add: rst_mem_grow_def Let_def) (use PAGE_SIZE_pos in linarith)
qed

subsection \<open>The bump-pointer invariant\<close>

text \<open>
  \<open>bump_inv base t\<close>: the arena's current chunk starts at \<open>base\<close>; what is used lies between
  \<open>base\<close> and the free pointer, the free bytes end at a page boundary, and the size that
  \<open>rst_mem_free_last\<close> would give back is part of what is used.
\<close>

definition bump_inv :: "nat \<Rightarrow> rst_mem_type_s \<Rightarrow> bool" where
  "bump_inv base t \<longleftrightarrow>
     base + last_sz t \<le> free_mem t \<and> PAGE_SIZE dvd free_mem t + free_bytes t
     \<and> free_mem t + free_bytes t \<le> VA_MAX"

lemma bump_inv_align:
  assumes "bump_inv base t"
  shows "bump_inv base (align_t t)"
    and "free_mem t \<le> free_mem (align_t t)" "8 dvd free_mem (align_t t)"
    and "free_mem (align_t t) + free_bytes (align_t t) = free_mem t + free_bytes t"
proof -
  let ?p = "round_up (free_mem t) 8"
  have le: "free_mem t + 8 \<le> ULONG_MOD"
    using assms VA_MAX_less by (simp add: bump_inv_def PAGE_SIZE_def)
  have b: "8 dvd ?p" "free_mem t \<le> ?p"
    using round_up_bounds [of 8 3 "free_mem t"] le by simp_all
  have "8 dvd free_mem t + free_bytes t"
    using assms eight_dvd_PAGE_SIZE dvd_trans by (auto simp: bump_inv_def)
  then have top: "?p \<le> free_mem t + free_bytes t"
    using round_up_le [of 8 3 "free_mem t"] le by simp
  have "?p < ULONG_MOD" "free_bytes t < ULONG_MOD"
    using top assms VA_MAX_less PAGE_SIZE_pos unfolding bump_inv_def by linarith+
  then have "free_bytes (align_t t) = free_bytes t - (?p - free_mem t)"
    and fm: "free_mem (align_t t) = ?p"
    using b top by (simp_all add: align_t_def Let_def ul_sub_exact)
  moreover have "last_sz (align_t t) = last_sz t" by (simp add: align_t_def Let_def)
  ultimately show "bump_inv base (align_t t)"
    "free_mem (align_t t) + free_bytes (align_t t) = free_mem t + free_bytes t"
    using b top assms by (auto simp: bump_inv_def add.commute)
  show "free_mem t \<le> free_mem (align_t t)" "8 dvd free_mem (align_t t)"
    using b fm by simp_all
qed

lemma align_t_fields [simp]:
  "buf (align_t t) = buf t" "mem_size (align_t t) = mem_size t"
  "last_sz (align_t t) = last_sz t" "enabled (align_t t) = enabled t"
  "remapable (align_t t) = remapable t" "grow (align_t t) = grow t"
  by (simp_all add: align_t_def Let_def)

lemma bump_inv_free_last:
  assumes "bump_inv base t"
  shows "bump_inv base (free_last_t t)" "free_mem (free_last_t t) = free_mem t - last_sz t"
    "free_mem (free_last_t t) + free_bytes (free_last_t t) = free_mem t + free_bytes t"
proof -
  have "free_mem t < ULONG_MOD" "free_bytes t + last_sz t < ULONG_MOD" "last_sz t \<le> free_mem t"
    using assms VA_MAX_less PAGE_SIZE_pos unfolding bump_inv_def by linarith+
  then have "free_mem (free_last_t t) = free_mem t - last_sz t"
    "free_bytes (free_last_t t) = free_bytes t + last_sz t"
    by (simp_all add: free_last_t_def c_arith)
  then show "bump_inv base (free_last_t t)" "free_mem (free_last_t t) = free_mem t - last_sz t"
    "free_mem (free_last_t t) + free_bytes (free_last_t t) = free_mem t + free_bytes t"
    using assms \<open>last_sz t \<le> free_mem t\<close>
    by (auto simp: bump_inv_def free_last_t_def)
qed

lemma free_last_t_fields [simp]:
  "buf (free_last_t t) = buf t" "mem_size (free_last_t t) = mem_size t"
  "last_sz (free_last_t t) = 0" "enabled (free_last_t t) = enabled t"
  "remapable (free_last_t t) = remapable t" "grow (free_last_t t) = grow t"
  by (simp_all add: free_last_t_def)

text \<open>Carving a block that fits from the free bytes.\<close>

definition carve :: "ulong \<Rightarrow> rst_mem_type_s \<Rightarrow> rst_mem_type_s" where
  "carve sz t = t\<lparr>free_mem := ul_add (free_mem t) sz,
                  free_bytes := ul_sub (free_bytes t) sz, last_sz := sz\<rparr>"

lemma bump_inv_carve:
  assumes "bump_inv base t" "sz \<le> free_bytes t"
  shows "bump_inv base (carve sz t)" "free_mem (carve sz t) = free_mem t + sz"
    "free_mem (carve sz t) + free_bytes (carve sz t) = free_mem t + free_bytes t"
proof -
  have "free_mem t + sz < ULONG_MOD" "free_bytes t < ULONG_MOD"
    using assms VA_MAX_less PAGE_SIZE_pos unfolding bump_inv_def by linarith+
  then have "free_mem (carve sz t) = free_mem t + sz" "free_bytes (carve sz t) = free_bytes t - sz"
    using assms by (simp_all add: carve_def c_arith)
  then show "bump_inv base (carve sz t)" "free_mem (carve sz t) = free_mem t + sz"
    "free_mem (carve sz t) + free_bytes (carve sz t) = free_mem t + free_bytes t"
    using assms by (auto simp: bump_inv_def carve_def)
qed

lemma carve_fields [simp]:
  "buf (carve sz t) = buf t" "mem_size (carve sz t) = mem_size t" "last_sz (carve sz t) = sz"
  "enabled (carve sz t) = enabled t" "remapable (carve sz t) = remapable t"
  "grow (carve sz t) = grow t"
  by (simp_all add: carve_def)

lemma alloc_t_cases:
  obtains (fits) "sz \<le> free_bytes t" "alloc_t sys sz t = (Some (free_mem t), carve sz t)"
  | (grown) t' where "free_bytes t < sz" "call_grow (grow t) sys t sz = (0, t')"
      "alloc_t sys sz t = (Some (free_mem t'), carve sz t')"
  | (failed) r t' where "free_bytes t < sz" "call_grow (grow t) sys t sz = (r, t')" "r \<noteq> 0"
      "alloc_t sys sz t = (None, t')"
proof (cases "free_bytes t < sz")
  case True
  obtain r t' where "call_grow (grow t) sys t sz = (r, t')" by fastforce
  with True that show thesis
    by (cases "r = 0") (auto simp: alloc_t_def carve_def)
next
  case False
  then show thesis using that(1) by (simp add: alloc_t_def carve_def)
qed

subsection \<open>The remapable arenas\<close>

definition arena_inv :: "rst_mem_type_s \<Rightarrow> bool" where
  "arena_inv t \<longleftrightarrow>
     remapable t \<and> grow t \<noteq> Grow_shared \<and> bump_inv (buf t) t
     \<and> buf t + mem_size t = free_mem t + free_bytes t \<and> PAGE_SIZE dvd buf t
     \<and> (buf t = 0 \<longrightarrow> mem_size t = 0)"

text \<open>The used part of an arena, as an offset from its start; cookies are such offsets.\<close>

definition used :: "rst_mem_type_s \<Rightarrow> nat" where
  "used t = free_mem t - buf t"

lemma ul_relocate:
  assumes "b \<le> f" "f < ULONG_MOD" "a + (f - b) < ULONG_MOD"
  shows "ul_add f (ul_sub a b) = a + (f - b)"
proof -
  have eq: "f + (a + (ULONG_MOD - b)) = (a + (f - b)) + ULONG_MOD" using assms by linarith
  have "ul_add f (ul_sub a b) = (f + (a + (ULONG_MOD - b))) mod ULONG_MOD"
    using assms by (simp add: ul_add_def ul_sub_def mod_add_right_eq)
  also have "\<dots> = a + (f - b)" unfolding eq using assms(3) by (simp only: mod_add_self2 mod_less)
  finally show ?thesis .
qed

lemma grow_remap_ok:
  assumes inv: "arena_inv t" and sys: "mm_sys_ok sys" and sz: "sz \<le> VA_MAX"
    and g: "grow_remap sys t sh sz = (0, t')"
  shows "arena_inv t'" "sz \<le> free_bytes t'" "used t' = used t" "mem_size t \<le> mem_size t'"
    "remapable t' = remapable t" "grow t' = grow t" "enabled t' = enabled t" "buf t' \<noteq> 0"
    "last_sz t' = last_sz t"
proof -
  let ?g = "rst_mem_grow sz"
  note gb = rst_mem_grow_bounds [OF sz]
  have bounds: "buf t \<le> free_mem t" "free_mem t + free_bytes t \<le> VA_MAX"
    "buf t + mem_size t = free_mem t + free_bytes t" "PAGE_SIZE dvd buf t"
    "PAGE_SIZE dvd free_mem t + free_bytes t" "buf t + last_sz t \<le> free_mem t"
    "buf t = 0 \<longrightarrow> mem_size t = 0"
    using inv by (auto simp: arena_inv_def bump_inv_def)
  have big: "3 * VA_MAX + 3 * PAGE_SIZE < ULONG_MOD"
    by (simp add: VA_MAX_def PAGE_SIZE_def ULONG_MOD_def)
  have exact: "ul_add (mem_size t) ?g = mem_size t + ?g" "ul_add (free_bytes t) ?g = free_bytes t + ?g"
    using bounds gb big by (auto intro!: ul_add_exact)
  obtain aux where aux: "va_range aux (mem_size t + ?g)"
    and t': "t' = t\<lparr>free_mem := ul_add (free_mem t) (ul_sub aux (buf t)),
                   free_bytes := free_bytes t + ?g, mem_size := mem_size t + ?g, buf := aux\<rparr>"
    using g sys bounds exact unfolding grow_remap_def mm_sys_ok_def
    by (auto simp: Let_def split: if_splits option.splits) metis+
  have ab: "0 < aux" "PAGE_SIZE dvd aux" "aux + mem_size t + ?g \<le> VA_MAX"
    using aux by (auto simp: va_range_def)
  have "aux + (free_mem t - buf t) < ULONG_MOD" "free_mem t < ULONG_MOD"
    using bounds ab big by linarith+
  then have fm: "free_mem t' = aux + (free_mem t - buf t)"
    using bounds(1) by (simp add: t' ul_relocate del: diff_is_0_eq)
  have "PAGE_SIZE dvd mem_size t"
    using bounds by (metis dvd_add_right_iff)
  moreover have "free_mem t' + free_bytes t' = aux + (mem_size t + ?g)"
    using bounds(1,3) fm by (simp add: t')
  moreover have "aux + last_sz t \<le> free_mem t'" using fm bounds by simp
  ultimately show "arena_inv t'"
    using ab gb inv by (simp add: arena_inv_def bump_inv_def) (simp add: t' add.assoc)
  show "sz \<le> free_bytes t'" "used t' = used t" "mem_size t \<le> mem_size t'" "buf t' \<noteq> 0"
    "remapable t' = remapable t" "grow t' = grow t" "enabled t' = enabled t" "last_sz t' = last_sz t"
    using gb fm ab by (simp_all add: used_def t')
qed

lemma call_grow_remap:
  "grow t \<noteq> Grow_shared \<Longrightarrow>
   \<exists>sh. call_grow (grow t) sys t sz = grow_remap sys t sh sz"
  by (cases "grow t") (auto simp: grow_shremap_def grow_private_def)

lemma grow_remap_fail: "grow_remap sys t sh sz = (r, t') \<Longrightarrow> r \<noteq> 0 \<Longrightarrow> t' = t"
  by (auto simp: grow_remap_def Let_def split: if_splits option.splits)

lemma grow_shared_fail: "grow_shared sys t sz = (r, t') \<Longrightarrow> r \<noteq> 0 \<Longrightarrow> t' = t"
  by (auto simp: grow_shared_def Let_def split: option.splits)

lemma call_grow_fail: "call_grow g sys t sz = (r, t') \<Longrightarrow> r \<noteq> 0 \<Longrightarrow> t' = t"
  by (cases g) (auto simp: grow_shremap_def grow_private_def dest: grow_remap_fail grow_shared_fail)

lemma alloc_t_fail: "alloc_t sys sz t = (None, t') \<Longrightarrow> t' = t"
  by (cases rule: alloc_t_cases [of sz t sys]) (auto dest: call_grow_fail)

lemma arena_inv_carve:
  assumes "arena_inv t" "sz \<le> free_bytes t"
  shows "arena_inv (carve sz t)" "used (carve sz t) = used t + sz"
  using assms bump_inv_carve [of "buf t" t sz]
  by (auto simp: arena_inv_def used_def bump_inv_def)

lemma arena_alloc:
  assumes inv: "arena_inv t" and sys: "mm_sys_ok sys" and sz: "sz \<le> VA_MAX"
    and a: "alloc_t sys sz t = (Some p, t')"
  shows "arena_inv t'" "p = buf t' + used t" "used t' = used t + sz" "mem_size t \<le> mem_size t'"
    "last_sz t' = sz"
proof -
  have "arena_inv t' \<and> p = buf t' + used t \<and> used t' = used t + sz \<and> mem_size t \<le> mem_size t'
      \<and> last_sz t' = sz"
  proof (cases rule: alloc_t_cases [of sz t sys])
    case fits
    with inv a show ?thesis
      by (auto simp: arena_inv_carve) (auto simp: used_def arena_inv_def bump_inv_def)
  next
    case (grown t1)
    obtain sh where "grow_remap sys t sh sz = (0, t1)"
      using call_grow_remap [of t sys sz] grown inv by (auto simp: arena_inv_def)
    note g = grow_remap_ok [OF inv sys sz this]
    from g(1) have "buf t1 \<le> free_mem t1" by (simp add: arena_inv_def bump_inv_def)
    then have "free_mem t1 = buf t1 + used t" using g(3) by (simp add: used_def)
    with g grown a show ?thesis by (auto simp: arena_inv_carve)
  next
    case failed
    with a show ?thesis by simp
  qed
  then show "arena_inv t'" "p = buf t' + used t" "used t' = used t + sz" "mem_size t \<le> mem_size t'"
    "last_sz t' = sz" by auto
qed

lemma arena_inv_align:
  assumes "arena_inv t"
  shows "arena_inv (align_t t)" "used t \<le> used (align_t t)"
  using assms bump_inv_align [of "buf t" t] by (auto simp: arena_inv_def used_def)

lemma arena_inv_free_last:
  assumes "arena_inv t"
  shows "arena_inv (free_last_t t)" "used (free_last_t t) = used t - last_sz t"
  using assms bump_inv_free_last [of "buf t" t] by (auto simp: arena_inv_def used_def)

lemma arena_used_le: "arena_inv t \<Longrightarrow> used t \<le> mem_size t"
  by (auto simp: arena_inv_def bump_inv_def used_def)

subsection \<open>Live blocks\<close>

text \<open>
  \<open>stacked lo hi bs\<close>: the blocks \<open>bs\<close> (newest first, as start and size) lie one above the
  other between \<open>lo\<close> and \<open>hi\<close>.
\<close>

type_synonym block = "nat \<times> nat"

fun stacked :: "nat \<Rightarrow> nat \<Rightarrow> block list \<Rightarrow> bool" where
  "stacked lo hi [] \<longleftrightarrow> lo \<le> hi"
| "stacked lo hi ((a, sz) # bs) \<longleftrightarrow> a + sz \<le> hi \<and> stacked lo a bs"

fun disjoint_blocks :: "block list \<Rightarrow> bool" where
  "disjoint_blocks [] \<longleftrightarrow> True"
| "disjoint_blocks (b # bs) \<longleftrightarrow>
     (\<forall>c\<in>set bs. fst b + snd b \<le> fst c \<or> fst c + snd c \<le> fst b) \<and> disjoint_blocks bs"

lemma stacked_lo_le: "stacked lo hi bs \<Longrightarrow> lo \<le> hi"
  by (induction bs arbitrary: hi) force+

lemma stacked_mono: "stacked lo hi bs \<Longrightarrow> hi \<le> hi' \<Longrightarrow> stacked lo hi' bs"
  by (cases bs) auto

lemma stacked_mem: "stacked lo hi bs \<Longrightarrow> (a, sz) \<in> set bs \<Longrightarrow> lo \<le> a \<and> a + sz \<le> hi"
proof (induction bs arbitrary: hi)
  case (Cons b bs)
  obtain c s where b: "b = (c, s)" by fastforce
  then have "stacked lo c bs" "c + s \<le> hi" using Cons.prems by simp_all
  then show ?case using Cons.IH [of c] Cons.prems b stacked_lo_le by fastforce
qed simp

lemma stacked_disjoint: "stacked lo hi bs \<Longrightarrow> disjoint_blocks bs"
proof (induction bs arbitrary: hi)
  case (Cons b bs)
  obtain c s where b: "b = (c, s)" by fastforce
  then have st: "stacked lo c bs" using Cons.prems by simp
  have "fst x + snd x \<le> c" if "x \<in> set bs" for x
    using stacked_mem [OF st, of "fst x" "snd x"] that by simp
  with Cons.IH [OF st] show ?case by (auto simp: b)
qed simp

lemma disjoint_blocks_append:
  "disjoint_blocks (bs @ cs) \<longleftrightarrow>
     disjoint_blocks bs \<and> disjoint_blocks cs \<and>
     (\<forall>b\<in>set bs. \<forall>c\<in>set cs. fst b + snd b \<le> fst c \<or> fst c + snd c \<le> fst b)"
  by (induction bs) auto

definition blocks_ok :: "nat \<Rightarrow> nat \<Rightarrow> nat \<Rightarrow> block list \<Rightarrow> bool" where
  "blocks_ok lo hi ls bs \<longleftrightarrow>
     stacked lo hi bs \<and> (ls \<noteq> 0 \<longrightarrow> bs \<noteq> [] \<and> snd (hd bs) = ls)"

definition pop_last :: "nat \<Rightarrow> block list \<Rightarrow> block list" where
  "pop_last ls bs = (if ls = 0 then bs else tl bs)"

lemma blocks_ok_push:
  "blocks_ok lo hi ls bs \<Longrightarrow> hi \<le> p \<Longrightarrow> p + sz \<le> hi' \<Longrightarrow> blocks_ok lo hi' sz ((p, sz) # bs)"
  by (auto simp: blocks_ok_def intro: stacked_mono)

lemma blocks_ok_mono: "blocks_ok lo hi ls bs \<Longrightarrow> hi \<le> hi' \<Longrightarrow> blocks_ok lo hi' ls bs"
  by (auto simp: blocks_ok_def intro: stacked_mono)

lemma blocks_ok_pop:
  assumes "blocks_ok lo hi ls bs"
  shows "blocks_ok lo (hi - ls) 0 (pop_last ls bs)"
proof (cases "ls = 0")
  case True
  then show ?thesis using assms by (simp add: pop_last_def blocks_ok_def)
next
  case False
  then obtain a bs' where "bs = (a, ls) # bs'"
    using assms by (cases bs) (auto simp: blocks_ok_def)
  then show ?thesis using assms False
    by (auto simp: pop_last_def blocks_ok_def elim!: stacked_mono)
qed

subsection \<open>The shared arena\<close>

text \<open>
  Chunks of the shared arena that have been mapped, newest first: start, length, and the
  blocks handed out from it. The arena allocates from the newest one only.
\<close>

type_synonym chunk = "nat \<times> nat \<times> block list"

definition chunks_apart :: "nat \<Rightarrow> nat \<Rightarrow> chunk list \<Rightarrow> bool" where
  "chunks_apart a len cs \<longleftrightarrow> (\<forall>(c, l, bs)\<in>set cs. a + len \<le> c \<or> c + l \<le> a)"

fun old_chunks_ok :: "chunk list \<Rightarrow> bool" where
  "old_chunks_ok [] \<longleftrightarrow> True"
| "old_chunks_ok ((c, l, bs) # cs) \<longleftrightarrow>
     stacked c (c + l) bs \<and> chunks_apart c l cs \<and> old_chunks_ok cs"

fun shared_inv :: "rst_mem_type_s \<Rightarrow> chunk list \<Rightarrow> bool" where
  "shared_inv t [] \<longleftrightarrow>
     grow t = Grow_shared \<and> free_mem t = 0 \<and> free_bytes t = 0 \<and> last_sz t = 0"
| "shared_inv t ((c, l, bs) # cs) \<longleftrightarrow>
     grow t = Grow_shared \<and> bump_inv c t \<and> c + l = free_mem t + free_bytes t
     \<and> blocks_ok c (free_mem t) (last_sz t) bs \<and> chunks_apart c l cs \<and> old_chunks_ok cs"

definition all_blocks :: "chunk list \<Rightarrow> block list" where
  "all_blocks cs = concat (map (snd \<circ> snd) cs)"

lemma shared_inv_old: "shared_inv t cs \<Longrightarrow> old_chunks_ok cs"
  by (cases "(t, cs)" rule: shared_inv.cases) (auto simp: blocks_ok_def elim!: stacked_mono)

lemma old_chunks_mem:
  "old_chunks_ok cs \<Longrightarrow> (c, l, bs) \<in> set cs \<Longrightarrow> stacked c (c + l) bs"
  by (induction cs rule: old_chunks_ok.induct) auto

lemma all_blocks_disjoint: "old_chunks_ok cs \<Longrightarrow> disjoint_blocks (all_blocks cs)"
proof (induction cs rule: old_chunks_ok.induct)
  case (2 c l bs cs)
  have "fst b + snd b \<le> fst d \<or> fst d + snd d \<le> fst b"
    if b: "b \<in> set bs" and d: "d \<in> set (all_blocks cs)" for b d
  proof -
    obtain c' l' bs' where c': "(c', l', bs') \<in> set cs" "d \<in> set bs'"
      using d by (auto simp: all_blocks_def)
    have "c + l \<le> c' \<or> c' + l' \<le> c"
      using "2.prems" c'(1) by (auto simp: chunks_apart_def)
    moreover have "c \<le> fst b" "fst b + snd b \<le> c + l"
      using "2.prems" b stacked_mem [of c "c + l" bs "fst b" "snd b"] by auto
    moreover have "c' \<le> fst d" "fst d + snd d \<le> c' + l'"
      using old_chunks_mem [of cs c' l' bs'] "2.prems" c' stacked_mem [of c' "c' + l'" bs' "fst d" "snd d"]
      by auto
    ultimately show ?thesis by linarith
  qed
  moreover have "disjoint_blocks bs" using "2.prems" by (auto intro: stacked_disjoint)
  ultimately show ?case using 2 by (simp add: all_blocks_def disjoint_blocks_append)
qed (simp add: all_blocks_def)

text \<open>The chunk list after an allocation and after a \<open>rst_mem_free_last\<close>.\<close>

fun push_shared :: "block \<Rightarrow> chunk list \<Rightarrow> chunk list" where
  "push_shared b [] = []"
| "push_shared b ((c, l, bs) # cs) = (c, l, b # bs) # cs"

fun pop_shared :: "nat \<Rightarrow> chunk list \<Rightarrow> chunk list" where
  "pop_shared ls [] = []"
| "pop_shared ls ((c, l, bs) # cs) = (c, l, pop_last ls bs) # cs"

lemma shared_inv_align: "shared_inv t cs \<Longrightarrow> shared_inv (align_t t) cs"
proof (cases "(t, cs)" rule: shared_inv.cases)
  case (1 t')
  moreover assume "shared_inv t cs"
  ultimately show ?thesis
    using round_up_zero [of 8 3] by (auto simp: align_t_def Let_def ul_sub_def)
next
  case (2 t' c l bs cs')
  moreover assume "shared_inv t cs"
  ultimately show ?thesis
    using bump_inv_align [of c t] by (auto intro: blocks_ok_mono)
qed

lemma shared_inv_free_last: "shared_inv t cs \<Longrightarrow> shared_inv (free_last_t t) (pop_shared (last_sz t) cs)"
proof (cases "(t, cs)" rule: shared_inv.cases)
  case (1 t')
  moreover assume "shared_inv t cs"
  ultimately show ?thesis by (auto simp: free_last_t_def ul_sub_def ul_add_def)
next
  case (2 t' c l bs cs')
  moreover assume "shared_inv t cs"
  ultimately show ?thesis
    using bump_inv_free_last [of c t] by (auto intro: blocks_ok_pop)
qed

lemma shared_alloc_fits:
  assumes "shared_inv t cs" "sz \<le> free_bytes t"
  shows "shared_inv (carve sz t) (push_shared (free_mem t, sz) cs)"
proof (cases "(t, cs)" rule: shared_inv.cases)
  case (1 t')
  with assms show ?thesis by (auto simp: carve_def ul_sub_def ul_add_def)
next
  case (2 t' c l bs cs')
  with assms show ?thesis
    using bump_inv_carve [of c t sz] by (auto intro: blocks_ok_push)
qed

lemma shared_alloc_grown:
  assumes "shared_inv t cs" "mm_sys_ok sys" "sz \<le> VA_MAX" "grow_shared sys t sz = (0, t')"
    and fresh: "\<And>a. sys_mmap sys (rst_mem_grow sz) = Some a \<Longrightarrow> chunks_apart a (rst_mem_grow sz) cs"
  shows "shared_inv (carve sz t') ((free_mem t', rst_mem_grow sz, [(free_mem t', sz)]) # cs)"
proof -
  note gb = rst_mem_grow_bounds [OF assms(3)]
  obtain a where a: "sys_mmap sys (rst_mem_grow sz) = Some a"
    and t': "t' = t\<lparr>free_mem := a, free_bytes := rst_mem_grow sz, last_sz := 0\<rparr>"
    using assms(4) by (auto simp: grow_shared_def Let_def split: option.splits)
  have "va_range a (rst_mem_grow sz)" using a assms(2) by (auto simp: mm_sys_ok_def)
  then have "bump_inv a t'" using gb by (auto simp: t' bump_inv_def va_range_def)
  then have "bump_inv a (carve sz t')" "free_mem (carve sz t') = a + sz"
    "free_mem (carve sz t') + free_bytes (carve sz t') = a + rst_mem_grow sz"
    using bump_inv_carve [of a t' sz] gb by (simp_all add: t')
  moreover have "grow t' = Grow_shared"
    using assms(1) by (cases "(t, cs)" rule: shared_inv.cases) (auto simp: t')
  ultimately show ?thesis
    using fresh [OF a] shared_inv_old [OF assms(1)] by (auto simp: t' blocks_ok_def)
qed

subsection \<open>Reachable states\<close>

text \<open>
  The states reached from the initial table by any sequence of calls, with the live blocks
  as ghost state: for the remapable arenas as offsets from the arena's start, for the shared
  arena as addresses by chunk. A call may see another answer of the kernel each time. The
  mapping that a growing shared arena gets overlaps none of its earlier mappings, which are
  never unmapped. A call whose \<open>BUG_ON\<close> fires has no successor state.
\<close>

inductive rst_reach :: "rst_mems \<Rightarrow> (rm_type \<Rightarrow> block list) \<Rightarrow> chunk list \<Rightarrow> bool" where
  init: "rst_reach rst_mems_init (\<lambda>_. []) []"
| align: "rst_reach ms lv cs \<Longrightarrow> rst_reach (rst_mem_align ty ms) lv cs"
| alloc: "rst_reach ms lv cs \<Longrightarrow> ty \<noteq> RM_SHARED \<Longrightarrow> mm_sys_ok sys \<Longrightarrow> sz \<le> VA_MAX \<Longrightarrow>
     rst_mem_alloc sys sz ty ms = Ret (Some p, ms') \<Longrightarrow>
     rst_reach ms' (lv(ty := (p - buf (ms' ty), sz) # lv ty)) cs"
| alloc_fail: "rst_reach ms lv cs \<Longrightarrow> rst_mem_alloc sys sz ty ms = Ret (None, ms') \<Longrightarrow>
     rst_reach ms' lv cs"
| shared_fits: "rst_reach ms lv cs \<Longrightarrow> sz \<le> free_bytes (ms RM_SHARED) \<Longrightarrow>
     rst_mem_alloc sys sz RM_SHARED ms = Ret (Some p, ms') \<Longrightarrow>
     rst_reach ms' lv (push_shared (p, sz) cs)"
| shared_grows: "rst_reach ms lv cs \<Longrightarrow> free_bytes (ms RM_SHARED) < sz \<Longrightarrow> sz \<le> VA_MAX \<Longrightarrow>
     mm_sys_ok sys \<Longrightarrow>
     (\<And>a. sys_mmap sys (rst_mem_grow sz) = Some a \<Longrightarrow> chunks_apart a (rst_mem_grow sz) cs) \<Longrightarrow>
     rst_mem_alloc sys sz RM_SHARED ms = Ret (Some p, ms') \<Longrightarrow>
     rst_reach ms' lv ((p, rst_mem_grow sz, [(p, sz)]) # cs)"
| free_last: "rst_reach ms lv cs \<Longrightarrow> ty \<noteq> RM_SHARED \<Longrightarrow> rst_mem_free_last ty ms = Ret ms' \<Longrightarrow>
     rst_reach ms' (lv(ty := pop_last (last_sz (ms ty)) (lv ty))) cs"
| shared_free_last: "rst_reach ms lv cs \<Longrightarrow> rst_mem_free_last RM_SHARED ms = Ret ms' \<Longrightarrow>
     rst_reach ms' lv (pop_shared (last_sz (ms RM_SHARED)) cs)"
| switch: "rst_reach ms lv cs \<Longrightarrow> rst_reach (rst_mem_switch_to_private ms) lv cs"
| lock: "rst_reach ms lv cs \<Longrightarrow> rst_mem_lock ms = (len, ms') \<Longrightarrow> rst_reach ms' lv cs"

definition rst_inv :: "rst_mems \<Rightarrow> (rm_type \<Rightarrow> block list) \<Rightarrow> chunk list \<Rightarrow> bool" where
  "rst_inv ms lv cs \<longleftrightarrow>
     shared_inv (ms RM_SHARED) cs \<and>
     (\<forall>ty. ty \<noteq> RM_SHARED \<longrightarrow>
        arena_inv (ms ty) \<and> blocks_ok 0 (used (ms ty)) (last_sz (ms ty)) (lv ty))"

lemma shared_inv_enabled [simp]: "shared_inv (t\<lparr>enabled := b\<rparr>) cs = shared_inv t cs"
  by (cases "(t, cs)" rule: shared_inv.cases) (auto simp: bump_inv_def)

lemma arena_inv_enabled [simp]:
  "arena_inv (t\<lparr>enabled := b\<rparr>) = arena_inv t" "used (t\<lparr>enabled := b\<rparr>) = used t"
  by (auto simp: arena_inv_def bump_inv_def used_def)

lemma rst_mem_alloc_Ret:
  "rst_mem_alloc sys sz ty ms = Ret (r, ms') \<longleftrightarrow>
     enabled (ms ty) \<and> (\<exists>t. alloc_t sys sz (ms ty) = (r, t) \<and> ms' = ms(ty := t))"
  by (auto simp: rst_mem_alloc_def split: prod.splits)

lemma rst_mem_free_last_Ret:
  "rst_mem_free_last ty ms = Ret ms' \<longleftrightarrow> enabled (ms ty) \<and> ms' = ms(ty := free_last_t (ms ty))"
  by (auto simp: rst_mem_free_last_def)

lemma rst_inv_init: "rst_inv rst_mems_init (\<lambda>_. []) []"
proof -
  have "arena_inv (rst_mems_init ty) \<and> last_sz (rst_mems_init ty) = 0" if "ty \<noteq> RM_SHARED" for ty
    using that by (cases ty) (auto simp: arena_inv_def bump_inv_def)
  then show ?thesis by (auto simp: rst_inv_def blocks_ok_def)
qed

lemma rst_inv_align: "rst_inv ms lv cs \<Longrightarrow> rst_inv (rst_mem_align ty ms) lv cs"
  by (auto simp: rst_inv_def rst_mem_align_def shared_inv_align arena_inv_align
      intro: blocks_ok_mono [OF _ arena_inv_align(2)])

lemma rst_inv_alloc:
  assumes inv: "rst_inv ms lv cs" and ty: "ty \<noteq> RM_SHARED" and sys: "mm_sys_ok sys" "sz \<le> VA_MAX"
    and a: "rst_mem_alloc sys sz ty ms = Ret (Some p, ms')"
  shows "rst_inv ms' (lv(ty := (p - buf (ms' ty), sz) # lv ty)) cs"
proof -
  obtain t where t: "alloc_t sys sz (ms ty) = (Some p, t)" "ms' = ms(ty := t)"
    using a by (auto simp: rst_mem_alloc_Ret)
  have old: "arena_inv (ms ty)" "blocks_ok 0 (used (ms ty)) (last_sz (ms ty)) (lv ty)"
    using inv ty by (auto simp: rst_inv_def)
  note al = arena_alloc [OF old(1) sys t(1)]
  have "blocks_ok 0 (used t) (last_sz t) ((p - buf t, sz) # lv ty)"
    unfolding al(5) by (rule blocks_ok_push [OF old(2)]) (use al in auto)
  with inv al(1) ty t show ?thesis by (auto simp: rst_inv_def)
qed

lemma rst_inv_shared_fits:
  assumes "rst_inv ms lv cs" "sz \<le> free_bytes (ms RM_SHARED)"
    "rst_mem_alloc sys sz RM_SHARED ms = Ret (Some p, ms')"
  shows "rst_inv ms' lv (push_shared (p, sz) cs)"
proof -
  have "p = free_mem (ms RM_SHARED)" "ms' = ms(RM_SHARED := carve sz (ms RM_SHARED))"
    using assms(2,3) by (auto simp: rst_mem_alloc_Ret alloc_t_def carve_def)
  with assms(1,2) show ?thesis by (auto simp: rst_inv_def shared_alloc_fits)
qed

lemma rst_inv_shared_grows:
  assumes "rst_inv ms lv cs" "free_bytes (ms RM_SHARED) < sz" "sz \<le> VA_MAX" "mm_sys_ok sys"
    and fresh: "\<And>a. sys_mmap sys (rst_mem_grow sz) = Some a \<Longrightarrow> chunks_apart a (rst_mem_grow sz) cs"
    and a: "rst_mem_alloc sys sz RM_SHARED ms = Ret (Some p, ms')"
  shows "rst_inv ms' lv ((p, rst_mem_grow sz, [(p, sz)]) # cs)"
proof -
  let ?t = "ms RM_SHARED"
  have inv: "shared_inv ?t cs" using assms(1) by (simp add: rst_inv_def)
  then have "grow ?t = Grow_shared" by (cases "(?t, cs)" rule: shared_inv.cases) auto
  then obtain t' where t': "grow_shared sys ?t sz = (0, t')" "p = free_mem t'"
    "ms' = ms(RM_SHARED := carve sz t')"
    using a assms(2) by (cases rule: alloc_t_cases [of sz ?t sys]) (auto simp: rst_mem_alloc_Ret)
  show ?thesis
    using shared_alloc_grown [OF inv assms(4,3) t'(1) fresh] assms(1) t'(2,3)
    by (simp add: rst_inv_def)
qed

lemma rst_inv_free_last:
  assumes "rst_inv ms lv cs" "ty \<noteq> RM_SHARED"
  shows "rst_inv (ms(ty := free_last_t (ms ty))) (lv(ty := pop_last (last_sz (ms ty)) (lv ty))) cs"
  using assms by (auto simp: rst_inv_def arena_inv_free_last intro: blocks_ok_pop)

lemma rst_inv_shared_free_last:
  assumes "rst_inv ms lv cs"
  shows "rst_inv (ms(RM_SHARED := free_last_t (ms RM_SHARED))) lv
     (pop_shared (last_sz (ms RM_SHARED)) cs)"
  using assms by (auto simp: rst_inv_def shared_inv_free_last)

lemma rst_reach_inv: "rst_reach ms lv cs \<Longrightarrow> rst_inv ms lv cs"
proof (induction rule: rst_reach.induct)
  case init
  show ?case by (rule rst_inv_init)
next
  case (align ms lv cs ty)
  then show ?case by (intro rst_inv_align)
next
  case (alloc ms lv cs ty sys sz p ms')
  then show ?case by (intro rst_inv_alloc) auto
next
  case (alloc_fail ms lv cs sys sz ty ms')
  then show ?case by (auto simp: rst_mem_alloc_Ret dest: alloc_t_fail)
next
  case (shared_fits ms lv cs sz sys p ms')
  then show ?case by (intro rst_inv_shared_fits) auto
next
  case (shared_grows ms lv cs sz sys p ms')
  then show ?case by (intro rst_inv_shared_grows) auto
next
  case (free_last ms lv cs ty ms')
  then show ?case using rst_inv_free_last [of ms lv cs ty] by (simp add: rst_mem_free_last_Ret fun_upd_def)
next
  case (shared_free_last ms lv cs ms')
  then show ?case using rst_inv_shared_free_last [of ms lv cs] by (simp add: rst_mem_free_last_Ret fun_upd_def)
next
  case (switch ms lv cs)
  then show ?case by (auto simp: rst_inv_def rst_mem_switch_to_private_def)
next
  case (lock ms lv cs len ms')
  then show ?case by (auto simp: rst_inv_def rst_mem_lock_def)
qed

subsection \<open>Properties\<close>

text \<open>
  (C6) In every state reached by any sequence of allocator calls, the
  blocks that are live in an arena are pairwise disjoint; those of the remapable arenas lie
  inside the arena's buffer, and those of the shared arena inside its mapped chunks.
\<close>

theorem rst_mem_blocks_disjoint:
  assumes "rst_reach ms lv cs"
  shows "disjoint_blocks (lv RM_PRIVATE) \<and> disjoint_blocks (lv RM_SHREMAP)
    \<and> disjoint_blocks (all_blocks cs)
    \<and> (\<forall>(a, sz)\<in>set (lv RM_PRIVATE). a + sz \<le> mem_size (ms RM_PRIVATE))
    \<and> (\<forall>(a, sz)\<in>set (lv RM_SHREMAP). a + sz \<le> mem_size (ms RM_SHREMAP))
    \<and> (\<forall>(c, l, bs)\<in>set cs. \<forall>(a, sz)\<in>set bs. c \<le> a \<and> a + sz \<le> c + l)"
proof -
  have inv: "rst_inv ms lv cs" by (rule rst_reach_inv [OF assms])
  have old: "old_chunks_ok cs" using inv by (auto simp: rst_inv_def intro: shared_inv_old)
  have st: "stacked 0 (mem_size (ms ty)) (lv ty)" if "ty \<noteq> RM_SHARED" for ty
    using inv that arena_used_le [of "ms ty"]
    by (auto simp: rst_inv_def blocks_ok_def intro: stacked_mono)
  have "\<forall>(c, l, bs)\<in>set cs. \<forall>(a, sz)\<in>set bs. c \<le> a \<and> a + sz \<le> c + l"
    using old_chunks_mem [OF old] stacked_mem by blast
  then show ?thesis
    using st [of RM_PRIVATE] st [of RM_SHREMAP] all_blocks_disjoint [OF old]
    by (auto intro: stacked_disjoint dest: stacked_mem)
qed

text \<open>A concrete kernel: one place for a two-page mapping, growth in place.\<close>

definition demo_sys :: mm_sys where
  "demo_sys = \<lparr>sys_mmap = (\<lambda>len. if len = 8192 then Some 65536 else None),
               sys_mremap = (\<lambda>p old new. if p = 65536 \<and> new \<le> 65536 then Some p else None),
               sys_mremap_fixed = (\<lambda>p old dst. Some dst)\<rparr>"

lemma demo_sys_ok: "mm_sys_ok demo_sys"
  by (auto simp: mm_sys_ok_def demo_sys_def va_range_def PAGE_SIZE_def VA_MAX_def split: if_splits)

lemma rst_mem_grow_small: "0 < sz \<Longrightarrow> sz \<le> PAGE_SIZE \<Longrightarrow> rst_mem_grow sz = 2 * PAGE_SIZE"
  using round_up_le [of PAGE_SIZE 12 sz PAGE_SIZE] VA_MAX_less
  by (simp add: rst_mem_grow_def Let_def PAGE_SIZE_def VA_MAX_def)

definition demo_shremap :: rst_mem_type_s where
  "demo_shremap = \<lparr>remapable = True, enabled = True, free_bytes = 8158, free_mem = 65570,
     grow = Grow_shremap, last_sz = 10, buf = 65536, mem_size = 8192\<rparr>"

lemma demo_alloc:
  "rst_mem_alloc demo_sys 24 RM_SHREMAP rst_mems_init =
     Ret (Some 65536, rst_mems_init(RM_SHREMAP :=
       demo_shremap\<lparr>free_bytes := 8168, free_mem := 65560, last_sz := 24\<rparr>))"
  "rst_mem_alloc demo_sys 10 RM_SHREMAP (rst_mems_init(RM_SHREMAP :=
       demo_shremap\<lparr>free_bytes := 8168, free_mem := 65560, last_sz := 24\<rparr>)) =
     Ret (Some 65560, rst_mems_init(RM_SHREMAP := demo_shremap))"
  by (simp_all add: rst_mem_alloc_def alloc_t_def grow_shremap_def grow_remap_def
      rst_mem_grow_small demo_sys_def demo_shremap_def PAGE_SIZE_def ul_add_def ul_sub_def
      ULONG_MOD_def Let_def)

lemma demo_reach:
  "rst_reach (rst_mems_init(RM_SHREMAP := demo_shremap))
     ((\<lambda>_. [])(RM_SHREMAP := [(24, 10), (0, 24)])) []"
proof -
  have 1: "rst_reach (rst_mems_init(RM_SHREMAP :=
       demo_shremap\<lparr>free_bytes := 8168, free_mem := 65560, last_sz := 24\<rparr>))
     ((\<lambda>_. [])(RM_SHREMAP := [(0, 24)])) []"
    using rst_reach.alloc [OF rst_reach.init _ demo_sys_ok _ demo_alloc(1)]
    by (simp add: VA_MAX_def demo_shremap_def)
  show ?thesis
    using rst_reach.alloc [OF 1 _ demo_sys_ok _ demo_alloc(2)]
    by (simp add: VA_MAX_def demo_shremap_def)
qed

theorem rst_mem_blocks_disjoint_witness:
  "disjoint_blocks [(24, 10), (0, 24)] \<and> 24 + 10 \<le> mem_size demo_shremap"
  using rst_mem_blocks_disjoint [OF demo_reach] by simp

lemma remap_one_ok:
  assumes "arena_inv t" "\<not> enabled t" "mm_sys_ok sys"
  obtains r t' where "rst_mem_remap_one sys t dst = Ret (r, t')" "mem_size t' = mem_size t"
    "remapable t'" "r = 0 \<Longrightarrow> buf t \<noteq> 0 \<Longrightarrow> buf t' = dst"
proof (cases "buf t = 0")
  case True
  with assms that [of 0 t] show thesis by (simp add: rst_mem_remap_one_def arena_inv_def)
next
  case False
  note r = assms False
  show thesis
  proof (cases "sys_mremap_fixed sys (buf t) (mem_size t) dst")
    case None
    with r that [of "-1" t] show thesis by (simp add: rst_mem_remap_one_def arena_inv_def)
  next
    case (Some a)
    with r that [of 0 "t\<lparr>buf := a\<rparr>"] show thesis
      by (simp add: rst_mem_remap_one_def arena_inv_def mm_sys_ok_def)
  qed
qed

lemma live_block_buf:
  assumes "rst_inv ms lv cs" "ty \<noteq> RM_SHARED" "(a, sz) \<in> set (lv ty)"
  shows "a + sz \<le> mem_size (ms ty)" "0 < sz \<Longrightarrow> buf (ms ty) \<noteq> 0"
proof -
  have "stacked 0 (used (ms ty)) (lv ty)" "arena_inv (ms ty)"
    using assms by (auto simp: rst_inv_def blocks_ok_def)
  then show le: "a + sz \<le> mem_size (ms ty)"
    using stacked_mem [OF _ assms(3)] arena_used_le [of "ms ty"] by force
  show "buf (ms ty) \<noteq> 0" if "0 < sz"
    using le that \<open>arena_inv (ms ty)\<close> by (auto simp: arena_inv_def)
qed

lemma rst_mem_remap_result:
  assumes inv: "rst_inv ms lv cs" and dis: "\<not> enabled (ms RM_SHREMAP)" "\<not> enabled (ms RM_PRIVATE)"
    and sys: "mm_sys_ok sys"
  obtains r ms' where "rst_mem_remap sys dst ms = Ret (r, ms')"
    "remapable (ms' RM_PRIVATE)" "remapable (ms' RM_SHREMAP)"
    "r = 0 \<Longrightarrow> buf (ms RM_PRIVATE) \<noteq> 0 \<Longrightarrow> buf (ms' RM_PRIVATE) = dst"
    "r = 0 \<Longrightarrow> buf (ms RM_SHREMAP) \<noteq> 0 \<Longrightarrow>
       buf (ms' RM_SHREMAP) = ul_add dst (mem_size (ms RM_PRIVATE))"
proof -
  have ai: "arena_inv (ms RM_PRIVATE)" "arena_inv (ms RM_SHREMAP)" using inv by (auto simp: rst_inv_def)
  obtain r1 t1 where 1: "rst_mem_remap_one sys (ms RM_PRIVATE) dst = Ret (r1, t1)"
    "mem_size t1 = mem_size (ms RM_PRIVATE)" "remapable t1"
    "r1 = 0 \<Longrightarrow> buf (ms RM_PRIVATE) \<noteq> 0 \<Longrightarrow> buf t1 = dst"
    by (rule remap_one_ok [OF ai(1) dis(2) sys, where dst = dst]) blast
  obtain r2 t2 where 2:
    "rst_mem_remap_one sys (ms RM_SHREMAP) (ul_add dst (mem_size (ms RM_PRIVATE))) = Ret (r2, t2)"
    "mem_size t2 = mem_size (ms RM_SHREMAP)" "remapable t2"
    "r2 = 0 \<Longrightarrow> buf (ms RM_SHREMAP) \<noteq> 0 \<Longrightarrow> buf t2 = ul_add dst (mem_size (ms RM_PRIVATE))"
    by (rule remap_one_ok [OF ai(2) dis(1) sys, where dst = "ul_add dst (mem_size (ms RM_PRIVATE))"]) blast
  show thesis
  proof (cases "r1 = 0")
    case True
    with 1 2 that [of r2 "ms(RM_PRIVATE := t1, RM_SHREMAP := t2)"] show thesis
      by (simp add: rst_mem_remap_def)
  next
    case False
    with 1 ai that [of r1 "ms(RM_PRIVATE := t1)"] show thesis
      by (simp add: rst_mem_remap_def arena_inv_def)
  qed
qed

text \<open>
  (C22) Moving the remapable arenas into the bootstrap area: once
  \<open>rst_mem_switch_to_private\<close> and \<open>rst_mem_lock\<close> have run, \<open>rst_mem_remap\<close> never hits its
  \<open>BUG_ON\<close>, and when it succeeds every non-empty live block, found again by
  \<open>rst_mem_remap_ptr\<close> from its offset, lies in the area of the length that \<open>rst_mem_lock\<close>
  announced: the private blocks in its first part, the SHREMAP ones in the rest.
\<close>

theorem rst_mem_remap_layout:
  assumes reach: "rst_reach ms lv cs" and sys: "mm_sys_ok sys"
    and locked: "rst_mem_lock (rst_mem_switch_to_private ms) = (len, ms1)"
    and dst: "dst + len \<le> VA_MAX"
  shows "\<exists>r ms2. rst_mem_remap sys dst ms1 = Ret (r, ms2) \<and>
    (r = 0 \<longrightarrow>
      (\<forall>(a, sz)\<in>set (lv RM_PRIVATE). 0 < sz \<longrightarrow>
         rst_mem_remap_ptr a RM_PRIVATE ms2 = Ret (dst + a) \<and>
         dst + a + sz \<le> dst + mem_size (ms RM_PRIVATE)) \<and>
      (\<forall>(a, sz)\<in>set (lv RM_SHREMAP). 0 < sz \<longrightarrow>
         rst_mem_remap_ptr a RM_SHREMAP ms2 = Ret (dst + mem_size (ms RM_PRIVATE) + a) \<and>
         dst + mem_size (ms RM_PRIVATE) + a + sz \<le> dst + len))"
proof -
  let ?psz = "mem_size (ms RM_PRIVATE)" and ?ssz = "mem_size (ms RM_SHREMAP)"
  have inv: "rst_inv ms lv cs" by (rule rst_reach_inv [OF reach])
  have "?psz \<le> VA_MAX" "?ssz \<le> VA_MAX"
    using inv by (auto simp: rst_inv_def arena_inv_def bump_inv_def)
  then have len: "len = ?psz + ?ssz"
    using locked by (auto simp: rst_mem_lock_def rst_mem_switch_to_private_def Let_def
        VA_MAX_def ULONG_MOD_def intro!: ul_add_exact)
  have big: "dst + len < ULONG_MOD" using dst VA_MAX_less PAGE_SIZE_pos by linarith
  have ms1: "rst_inv ms1 lv cs" "\<not> enabled (ms1 RM_SHREMAP)" "\<not> enabled (ms1 RM_PRIVATE)"
    "buf (ms1 RM_PRIVATE) = buf (ms RM_PRIVATE)" "buf (ms1 RM_SHREMAP) = buf (ms RM_SHREMAP)"
    "mem_size (ms1 RM_PRIVATE) = ?psz"
    using inv locked by (auto simp: rst_inv_def rst_mem_lock_def rst_mem_switch_to_private_def Let_def)
  obtain r ms2 where r: "rst_mem_remap sys dst ms1 = Ret (r, ms2)"
    "remapable (ms2 RM_PRIVATE)" "remapable (ms2 RM_SHREMAP)"
    "r = 0 \<Longrightarrow> buf (ms RM_PRIVATE) \<noteq> 0 \<Longrightarrow> buf (ms2 RM_PRIVATE) = dst"
    "r = 0 \<Longrightarrow> buf (ms RM_SHREMAP) \<noteq> 0 \<Longrightarrow> buf (ms2 RM_SHREMAP) = ul_add dst ?psz"
    by (rule rst_mem_remap_result [OF ms1(1-3) sys, where dst = dst, unfolded ms1(4-6)]) blast
  have "rst_mem_remap_ptr a RM_PRIVATE ms2 = Ret (dst + a) \<and> dst + a + sz \<le> dst + ?psz"
    if "r = 0" "(a, sz) \<in> set (lv RM_PRIVATE)" "0 < sz" for a sz
    using live_block_buf [OF inv _ that(2)] that r(2,4) big len
    by (simp add: rst_mem_remap_ptr_def ul_add_exact)
  moreover have "rst_mem_remap_ptr a RM_SHREMAP ms2 = Ret (dst + ?psz + a) \<and>
      dst + ?psz + a + sz \<le> dst + len"
    if "r = 0" "(a, sz) \<in> set (lv RM_SHREMAP)" "0 < sz" for a sz
    using live_block_buf [OF inv _ that(2)] that r(3,5) big len
    by (simp add: rst_mem_remap_ptr_def ul_add_exact)
  ultimately show ?thesis using r(1) by auto
qed

theorem rst_mem_remap_layout_witness:
  "\<exists>r ms2. rst_mem_remap demo_sys 1048576
      (snd (rst_mem_lock (rst_mem_switch_to_private (rst_mems_init(RM_SHREMAP := demo_shremap)))))
      = Ret (r, ms2) \<and> (r = 0 \<longrightarrow> rst_mem_remap_ptr 24 RM_SHREMAP ms2 = Ret (1048576 + 24))"
proof -
  have l: "rst_mem_lock (rst_mem_switch_to_private (rst_mems_init(RM_SHREMAP := demo_shremap))) =
      (8192, snd (rst_mem_lock (rst_mem_switch_to_private (rst_mems_init(RM_SHREMAP := demo_shremap)))))"
    by (simp add: rst_mem_lock_def rst_mem_switch_to_private_def demo_shremap_def ul_add_def
        ULONG_MOD_def Let_def)
  show ?thesis
    using rst_mem_remap_layout [OF demo_reach demo_sys_ok l, of 1048576]
    by (fastforce simp: VA_MAX_def)
qed

text \<open>
  (C23) The cookie protocol of the callers: a cookie from
  \<open>rst_mem_align_cpos\<close> followed by an allocation, which may move the whole arena, names
  through \<open>rst_mem_remap_ptr\<close> exactly the block that was returned, and the block is
  aligned for a pointer and lies inside the arena's buffer.
\<close>

theorem rst_mem_cpos_alloc:
  assumes reach: "rst_reach ms lv cs" and ty: "ty \<noteq> RM_SHARED" and sys: "mm_sys_ok sys" "sz \<le> VA_MAX"
    and pos: "rst_mem_align_cpos ty ms = Ret (pos, ms1)"
    and al: "rst_mem_alloc sys sz ty ms1 = Ret (Some p, ms2)"
  shows "rst_mem_remap_ptr pos ty ms2 = Ret p \<and> 8 dvd p
    \<and> p + sz \<le> buf (ms2 ty) + mem_size (ms2 ty)"
proof -
  have ai: "arena_inv (ms ty)" using rst_reach_inv [OF reach] ty by (simp add: rst_inv_def)
  let ?t = "align_t (ms ty)"
  have ms1: "ms1 = ms(ty := ?t)" "pos = ul_sub (free_mem ?t) (buf ?t)"
    using pos by (auto simp: rst_mem_align_cpos_def rst_mem_align_def Let_def split: if_splits)
  have ait: "arena_inv ?t" by (rule arena_inv_align(1) [OF ai])
  then have b: "buf ?t \<le> free_mem ?t" "free_mem ?t \<le> VA_MAX" "PAGE_SIZE dvd buf ?t"
    by (auto simp: arena_inv_def bump_inv_def)
  have "free_mem ?t < ULONG_MOD" using b(2) VA_MAX_less PAGE_SIZE_pos by linarith
  then have pu: "pos = used ?t" using b(1) unfolding ms1(2) used_def by (simp only: ul_sub_exact)
  obtain t' where t': "alloc_t sys sz ?t = (Some p, t')" "ms2 = ms1(ty := t')"
    using al ms1(1) by (auto simp: rst_mem_alloc_Ret)
  note a = arena_alloc [OF ait sys t'(1)]
  have a8: "8 dvd buf ?t" "8 dvd free_mem ?t"
    using b(3) eight_dvd_PAGE_SIZE dvd_trans bump_inv_align(3) [of "buf (ms ty)" "ms ty"] ai
    by (auto simp: arena_inv_def)
  have b': "PAGE_SIZE dvd buf t'" "buf t' + used t' \<le> VA_MAX" "remapable t'"
    using a(1) by (auto simp: arena_inv_def bump_inv_def used_def)
  have "8 dvd p" unfolding a(2) using a8 b'(1) eight_dvd_PAGE_SIZE dvd_trans
    by (auto simp: used_def intro!: dvd_add dvd_diff_nat)
  moreover have "p + sz \<le> buf t' + mem_size t'" using a arena_used_le [OF a(1)] by simp
  moreover have "ul_add (buf t') pos = p"
    unfolding a(2) pu by (rule ul_add_exact) (use b'(2) a(3) VA_MAX_less PAGE_SIZE_pos in linarith)
  ultimately show ?thesis using b'(3) by (simp add: rst_mem_remap_ptr_def t'(2))
qed

theorem rst_mem_cpos_alloc_witness:
  "rst_mem_remap_ptr 0 RM_SHREMAP (rst_mems_init(RM_SHREMAP :=
       demo_shremap\<lparr>free_bytes := 8168, free_mem := 65560, last_sz := 24\<rparr>)) = Ret 65536"
proof -
  have "align_t (rst_mems_init RM_SHREMAP) = rst_mems_init RM_SHREMAP"
    using round_up_zero [of 8 3] by (simp add: align_t_def ul_sub_def)
  then have "rst_mem_align RM_SHREMAP rst_mems_init = rst_mems_init"
    by (simp only: rst_mem_align_def fun_upd_triv)
  then have "rst_mem_align_cpos RM_SHREMAP rst_mems_init = Ret (0, rst_mems_init)"
    by (simp add: rst_mem_align_cpos_def ul_sub_def)
  with rst_mem_cpos_alloc [OF rst_reach.init _ demo_sys_ok _ _ demo_alloc(1), of 0]
  show ?thesis by (simp add: VA_MAX_def)
qed

end
