(* ===== verification/Bfd.thy ===== *)
theory Bfd
  imports Prelude
begin

text \<open>
  Buffered file descriptors, \<open>criu/bfd.c\<close>.

  A \<open>bfd\<close> wraps a descriptor with one page of buffer. Readers get bytes (\<open>bread\<close>) or
  separator-terminated strings (\<open>breadchr\<close>) whose pointers point into the buffer; writers
  collect small writes (\<open>bwrite\<close>, \<open>bwritev\<close>) until a flush. The buffer pages come from a
  pool of sixteen at a time. The process memory is part of the state, because \<open>breadchr\<close>
  writes its terminator into the buffer; the files behind the descriptors are the type
  variable \<open>'w\<close> with the system calls as the record \<open>file_sys\<close>.
\<close>

definition BUFSIZE :: nat where
  "BUFSIZE = PAGE_SIZE"

definition BUFBATCH :: nat where
  "BUFBATCH = 16"

record xbuf =
  xb_mem :: ulong
  xb_data :: ulong
  xb_sz :: nat
  xb_buf :: "ulong option"

record bfd =
  bfd_fd :: int
  writable :: bool
  bfd_b :: xbuf

record 'w file_sys =
  sys_read :: "'w \<Rightarrow> int \<Rightarrow> nat \<Rightarrow> byte list option \<times> 'w"
  sys_write :: "'w \<Rightarrow> int \<Rightarrow> byte list \<Rightarrow> int \<times> 'w"
  sys_close :: "'w \<Rightarrow> int \<Rightarrow> int \<times> 'w"

text \<open>The free buffers of the pool are named by the address of their page.\<close>

record 'w bstate =
  bs_mem :: "nat \<Rightarrow> byte"
  bufs :: "ulong list"
  flush_failed :: bool
  files :: 'w

definition bfd_buffered :: "bfd \<Rightarrow> bool" where
  "bfd_buffered f \<longleftrightarrow> xb_mem (bfd_b f) \<noteq> 0"

definition bfd_setraw :: "bfd \<Rightarrow> bfd" where
  "bfd_setraw f = f\<lparr>bfd_b := (bfd_b f)\<lparr>xb_mem := 0\<rparr>\<rparr>"

subsection \<open>The buffer pool\<close>

text \<open>\<open>xmalloc_ok i\<close>: the answer of the \<open>i\<close>-th \<open>xmalloc\<close> of the refill loop.\<close>

fun buf_refill :: "(nat \<Rightarrow> bool) \<Rightarrow> ulong \<Rightarrow> nat \<Rightarrow> nat \<Rightarrow> ulong list \<Rightarrow> (ulong list) option" where
  "buf_refill xmalloc_ok mem i 0 bs = Some bs"
| "buf_refill xmalloc_ok mem i (Suc n) bs =
     (if \<not> xmalloc_ok i then (if i = 0 then None else Some bs)
      else buf_refill xmalloc_ok mem (i + 1) n (bs @ [mem + i * BUFSIZE]))"

definition buf_get :: "ulong option \<Rightarrow> (nat \<Rightarrow> bool) \<Rightarrow> 'w bstate \<Rightarrow> xbuf \<Rightarrow> int \<times> 'w bstate \<times> xbuf" where
  "buf_get mmap_ret xmalloc_ok s xb =
     (let filled = (if bufs s = []
                    then (case mmap_ret of
                            None \<Rightarrow> None
                          | Some mem \<Rightarrow> buf_refill xmalloc_ok mem 0 BUFBATCH [])
                    else Some (bufs s))
      in case filled of
           None \<Rightarrow> (-1, s, xb)
         | Some bs \<Rightarrow>
             (0, s\<lparr>bufs := tl bs\<rparr>,
              xb\<lparr>xb_mem := hd bs, xb_data := hd bs, xb_sz := 0, xb_buf := Some (hd bs)\<rparr>))"

definition buf_put :: "'w bstate \<Rightarrow> xbuf \<Rightarrow> 'w bstate \<times> xbuf" where
  "buf_put s xb =
     (s\<lparr>bufs := (case xb_buf xb of Some b \<Rightarrow> b # bufs s | None \<Rightarrow> bufs s)\<rparr>,
      xb\<lparr>xb_buf := None, xb_mem := 0, xb_data := 0\<rparr>)"

definition close_safe :: "'w file_sys \<Rightarrow> 'w bstate \<Rightarrow> int \<Rightarrow> 'w bstate \<times> int" where
  "close_safe fs s fd =
     (if fd > -1
      then (let (ret, w) = sys_close fs (files s) fd
            in (s\<lparr>files := w\<rparr>, if ret = 0 then -1 else fd))
      else (s, fd))"

definition bfdopen :: "'w file_sys \<Rightarrow> ulong option \<Rightarrow> (nat \<Rightarrow> bool) \<Rightarrow> 'w bstate \<Rightarrow> bfd \<Rightarrow> bool \<Rightarrow>
    int \<times> 'w bstate \<times> bfd" where
  "bfdopen fs mmap_ret xmalloc_ok s f wr =
     (let (ret, s, xb) = buf_get mmap_ret xmalloc_ok s (bfd_b f)
      in if ret \<noteq> 0
         then (let (s, fd) = close_safe fs s (bfd_fd f) in (-1, s, f\<lparr>bfd_fd := fd\<rparr>))
         else (0, s, f\<lparr>bfd_b := xb, writable := wr\<rparr>))"

definition bfdopenr :: "'w file_sys \<Rightarrow> ulong option \<Rightarrow> (nat \<Rightarrow> bool) \<Rightarrow> 'w bstate \<Rightarrow> bfd \<Rightarrow>
    int \<times> 'w bstate \<times> bfd" where
  "bfdopenr fs mmap_ret xmalloc_ok s f = bfdopen fs mmap_ret xmalloc_ok s f False"

definition bfdopenw :: "'w file_sys \<Rightarrow> ulong option \<Rightarrow> (nat \<Rightarrow> bool) \<Rightarrow> 'w bstate \<Rightarrow> bfd \<Rightarrow>
    int \<times> 'w bstate \<times> bfd" where
  "bfdopenw fs mmap_ret xmalloc_ok s f = bfdopen fs mmap_ret xmalloc_ok s f True"

definition bfd_flush_images :: "'w bstate \<Rightarrow> int" where
  "bfd_flush_images s = (if flush_failed s then -1 else 0)"

subsection \<open>Writing\<close>

definition bflush :: "'w file_sys \<Rightarrow> 'w bstate \<Rightarrow> bfd \<Rightarrow> int \<times> 'w bstate \<times> bfd" where
  "bflush fs s f =
     (let b = bfd_b f
      in if xb_sz b = 0 then (0, s, f)
         else (let (ret, w) = sys_write fs (files s) (bfd_fd f) (mem_read (bs_mem s) (xb_data b) (xb_sz b));
                   s = s\<lparr>files := w\<rparr>
               in if ret \<noteq> int (xb_sz b) then (-1, s, f)
                  else (0, s, f\<lparr>bfd_b := b\<lparr>xb_sz := 0\<rparr>\<rparr>)))"

definition bclose :: "'w file_sys \<Rightarrow> 'w bstate \<Rightarrow> bfd \<Rightarrow> 'w bstate \<times> bfd" where
  "bclose fs s f =
     (let (s, f) =
        (if bfd_buffered f
         then (let (s, f) =
                 (if writable f
                  then (let (ret, s, f) = bflush fs s f
                        in (if ret < 0 then s\<lparr>flush_failed := True\<rparr> else s, f))
                  else (s, f));
                (s, xb) = buf_put s (bfd_b f)
               in (s, f\<lparr>bfd_b := xb\<rparr>))
         else (s, f));
       (s, fd) = close_safe fs s (bfd_fd f)
      in (s, f\<lparr>bfd_fd := fd\<rparr>))"

definition bwrite_buffered :: "'w file_sys \<Rightarrow> 'w bstate \<Rightarrow> bfd \<Rightarrow> byte list \<Rightarrow> int \<times> 'w bstate \<times> bfd" where
  "bwrite_buffered fs s f bs =
     (let (ret, s, f) = (if xb_sz (bfd_b f) + length bs > BUFSIZE then bflush fs s f else (0, s, f))
      in if ret < 0 then (ret, s, f)
         else if length bs > BUFSIZE
         then (let (ret, w) = sys_write fs (files s) (bfd_fd f) bs in (ret, s\<lparr>files := w\<rparr>, f))
         else (let b = bfd_b f
               in (int (length bs),
                   s\<lparr>bs_mem := mem_write (bs_mem s) (xb_data b + xb_sz b) bs\<rparr>,
                   f\<lparr>bfd_b := b\<lparr>xb_sz := xb_sz b + length bs\<rparr>\<rparr>)))"

definition bwrite :: "'w file_sys \<Rightarrow> 'w bstate \<Rightarrow> bfd \<Rightarrow> byte list \<Rightarrow> int \<times> 'w bstate \<times> bfd" where
  "bwrite fs s f bs =
     (if \<not> bfd_buffered f
      then (let (ret, w) = sys_write fs (files s) (bfd_fd f) bs in (ret, s\<lparr>files := w\<rparr>, f))
      else bwrite_buffered fs s f bs)"

text \<open>\<open>writev\<close> on a raw descriptor writes the concatenation of the vector.\<close>

fun bwritev_loop :: "'w file_sys \<Rightarrow> 'w bstate \<Rightarrow> bfd \<Rightarrow> byte list list \<Rightarrow> int \<Rightarrow> int \<times> 'w bstate \<times> bfd" where
  "bwritev_loop fs s f [] written = (written, s, f)"
| "bwritev_loop fs s f (v # vs) written =
     (let (ret, s, f) = bwrite_buffered fs s f v
      in if ret < 0 then (ret, s, f)
         else if ret < int (length v) then (written + ret, s, f)
         else bwritev_loop fs s f vs (written + ret))"

definition bwritev :: "'w file_sys \<Rightarrow> 'w bstate \<Rightarrow> bfd \<Rightarrow> byte list list \<Rightarrow> int \<times> 'w bstate \<times> bfd" where
  "bwritev fs s f iov =
     (if \<not> bfd_buffered f
      then (let (ret, w) = sys_write fs (files s) (bfd_fd f) (concat iov) in (ret, s\<lparr>files := w\<rparr>, f))
      else bwritev_loop fs s f iov 0)"

subsection \<open>Reading\<close>

definition brefill :: "'w file_sys \<Rightarrow> 'w bstate \<Rightarrow> bfd \<Rightarrow> int \<times> 'w bstate \<times> bfd" where
  "brefill fs s f =
     (let b = bfd_b f;
          m = mem_write (bs_mem s) (xb_mem b) (mem_read (bs_mem s) (xb_data b) (xb_sz b));
          b = b\<lparr>xb_data := xb_mem b\<rparr>;
          (ret, w) = sys_read fs (files s) (bfd_fd f) (BUFSIZE - xb_sz b)
      in case ret of
           None \<Rightarrow> (-1, s\<lparr>bs_mem := m, files := w\<rparr>, f\<lparr>bfd_b := b\<rparr>)
         | Some bs \<Rightarrow>
             if bs = [] then (0, s\<lparr>bs_mem := m, files := w\<rparr>, f\<lparr>bfd_b := b\<rparr>)
             else (1, s\<lparr>bs_mem := mem_write m (xb_mem b + xb_sz b) bs, files := w\<rparr>,
                   f\<lparr>bfd_b := b\<lparr>xb_sz := xb_sz b + length bs\<rparr>\<rparr>))"

fun strnchr :: "(nat \<Rightarrow> byte) \<Rightarrow> ulong \<Rightarrow> nat \<Rightarrow> byte \<Rightarrow> ulong option" where
  "strnchr m str 0 c = None"
| "strnchr m str (Suc len) c = (if m str \<noteq> c then strnchr m (str + 1) len c else Some str)"

text \<open>What \<open>breadchr\<close> returns: \<open>NULL\<close>, an \<open>ERR_PTR\<close>, or a pointer into the buffer.\<close>

datatype char_ptr = Null_ptr | Err_ptr | Char_ptr ulong

function breadchr_again :: "'w file_sys \<Rightarrow> byte \<Rightarrow> bool \<Rightarrow> nat \<Rightarrow> 'w bstate \<Rightarrow> bfd \<Rightarrow>
    char_ptr \<times> 'w bstate \<times> bfd" where
  "breadchr_again fs c refilled ss s f =
     (let b = bfd_b f
      in case strnchr (bs_mem s) (xb_data b + ss) (xb_sz b - ss) c of
           Some n \<Rightarrow>
             (Char_ptr (xb_data b), s\<lparr>bs_mem := (bs_mem s)(n := 0)\<rparr>,
              f\<lparr>bfd_b := b\<lparr>xb_data := n + 1, xb_sz := xb_sz b - (n + 1 - xb_data b)\<rparr>\<rparr>)
         | None \<Rightarrow>
             if refilled
             then (if xb_sz b = 0 then (Null_ptr, s, f)
                   else if xb_sz b = BUFSIZE then (Null_ptr, s, f)
                   else (Char_ptr (xb_data b),
                         s\<lparr>bs_mem := (bs_mem s)(xb_data b + xb_sz b := 0)\<rparr>,
                         f\<lparr>bfd_b := b\<lparr>xb_sz := 0\<rparr>\<rparr>))
             else (let ss = xb_sz b; (ret, s, f) = brefill fs s f
                   in if ret < 0 then (Err_ptr, s, f) else breadchr_again fs c True ss s f))"
  by pat_completeness auto
termination
  by (relation "measure (\<lambda>(fs, c, refilled, ss, s, f). if refilled then 0 else 1)") auto

declare breadchr_again.simps [simp del]

definition breadchr :: "'w file_sys \<Rightarrow> 'w bstate \<Rightarrow> bfd \<Rightarrow> byte \<Rightarrow> char_ptr \<times> 'w bstate \<times> bfd" where
  "breadchr fs s f c = breadchr_again fs c False 0 s f"

definition newline :: byte where
  "newline = 10"

definition breadline :: "'w file_sys \<Rightarrow> 'w bstate \<Rightarrow> bfd \<Rightarrow> char_ptr \<times> 'w bstate \<times> bfd" where
  "breadline fs s f = breadchr fs s f newline"

lemma brefill_more:
  "brefill fs s f = (r, s', f') \<Longrightarrow> 0 < r \<Longrightarrow> xb_sz (bfd_b f) < xb_sz (bfd_b f')"
  by (auto simp: brefill_def Let_def split: prod.splits option.splits if_splits)

text \<open>
  The loop of \<open>bread\<close>; \<open>out\<close> is what the caller's buffer holds so far, and its length the
  variable \<open>filled\<close>. The copy takes at most what is missing, so \<open>filled\<close> never passes the size
  asked for, which is the \<open>BUG_ON\<close> of the loop.
\<close>

definition bread_copy :: "nat \<Rightarrow> byte list \<Rightarrow> 'w bstate \<Rightarrow> bfd \<Rightarrow> byte list \<times> bfd" where
  "bread_copy sz out s f =
     (let b = bfd_b f;
          chunk = sz - length out;
          chunk = (if chunk > xb_sz b then xb_sz b else chunk)
      in if chunk \<noteq> 0
         then (out @ mem_read (bs_mem s) (xb_data b) chunk,
               f\<lparr>bfd_b := b\<lparr>xb_data := xb_data b + chunk, xb_sz := xb_sz b - chunk\<rparr>\<rparr>)
         else (out, f))"

function bread_loop :: "'w file_sys \<Rightarrow> nat \<Rightarrow> byte list \<Rightarrow> 'w bstate \<Rightarrow> bfd \<Rightarrow>
    (int \<times> byte list \<times> 'w bstate \<times> bfd) outcome" where
  "bread_loop fs sz out s f =
     (let (out, f) = bread_copy sz out s f
      in if length out < sz
         then (case brefill fs s f of
                 (mr, s, f) \<Rightarrow>
                   if mr > 0 then bread_loop fs sz out s f
                   else Ret (if mr < 0 then mr else int (length out), out, s, f))
         else if length out > sz then Bug
         else Ret (int (length out), out, s, f))"
  by pat_completeness auto
termination
proof (relation "measures [\<lambda>(fs, sz, out, s, f). sz - length out,
    \<lambda>(fs, sz, out, s, f). if xb_sz (bfd_b f) = 0 then 1 else 0]", goal_cases)
  case 1
  then show ?case by simp
next
  case (2 fs sz out s f x out' f' mr z s' f'')
  then have "xb_sz (bfd_b f') < xb_sz (bfd_b f'')" using brefill_more by metis
  with 2 show ?case by (auto simp: bread_copy_def Let_def split: if_splits)
qed

declare bread_loop.simps [simp del]

definition bread :: "'w file_sys \<Rightarrow> 'w bstate \<Rightarrow> bfd \<Rightarrow> nat \<Rightarrow>
    (int \<times> byte list \<times> 'w bstate \<times> bfd) outcome" where
  "bread fs s f sz =
     (if \<not> bfd_buffered f
      then (case sys_read fs (files s) (bfd_fd f) sz of
              (None, w) \<Rightarrow> Ret (-1, [], s\<lparr>files := w\<rparr>, f)
            | (Some bs, w) \<Rightarrow> Ret (int (length bs), bs, s\<lparr>files := w\<rparr>, f))
      else bread_loop fs sz [] s f)"

subsection \<open>Reader invariant and abstraction\<close>

definition rd_ok :: "bfd \<Rightarrow> bool" where
  "rd_ok f \<longleftrightarrow>
     bfd_buffered f \<and> xb_mem (bfd_b f) \<le> xb_data (bfd_b f) \<and>
     xb_data (bfd_b f) + xb_sz (bfd_b f) \<le> xb_mem (bfd_b f) + BUFSIZE"

definition buffered :: "'w bstate \<Rightarrow> bfd \<Rightarrow> byte list" where
  "buffered s f = mem_read (bs_mem s) (xb_data (bfd_b f)) (xb_sz (bfd_b f))"

text \<open>The bytes a reader has still to deliver: the buffer, then the rest of the file.\<close>

definition pending :: "('w \<Rightarrow> int \<Rightarrow> byte list) \<Rightarrow> 'w bstate \<Rightarrow> bfd \<Rightarrow> byte list" where
  "pending rest s f = buffered s f @ rest (files s) (bfd_fd f)"

text \<open>
  \<open>read\<close>: a successful call takes bytes from the front of what the file has left, at most as many as
  asked for, and none only at the end of the file.
\<close>

definition read_law :: "'w file_sys \<Rightarrow> ('w \<Rightarrow> int \<Rightarrow> byte list) \<Rightarrow> bool" where
  "read_law fs rest \<longleftrightarrow>
     (\<forall>w fd n bs w'. sys_read fs w fd n = (Some bs, w') \<longrightarrow>
        length bs \<le> n \<and> rest w fd = bs @ rest w' fd \<and> (bs = [] \<longrightarrow> n = 0 \<or> rest w fd = []))"

lemma length_buffered [simp]: "length (buffered s f) = xb_sz (bfd_b f)"
  by (simp add: buffered_def)

lemma mem_read_two_writes:
  "n = length xs \<Longrightarrow> mem_read (mem_write (mem_write m a xs) (a + n) ys) a (n + length ys) = xs @ ys"
  using mem_read_write_same [of m a "xs @ ys"] by (simp add: mem_write_append)

lemma brefill_ok:
  assumes law: "read_law fs rest" and ok: "rd_ok f" and r: "brefill fs s f = (r, s', f')" "0 \<le> r"
  shows "rd_ok f'" "bfd_fd f' = bfd_fd f" "pending rest s' f' = pending rest s f"
    "xb_mem (bfd_b f') = xb_mem (bfd_b f)" "xb_data (bfd_b f') = xb_mem (bfd_b f)"
    "\<exists>bs. buffered s' f' = buffered s f @ bs"
    "r = 0 \<Longrightarrow> rest (files s') (bfd_fd f) = [] \<or> xb_sz (bfd_b f) = BUFSIZE"
    "r = 0 \<Longrightarrow> xb_sz (bfd_b f') = xb_sz (bfd_b f)"
proof -
  obtain bs w where rd: "sys_read fs (files s) (bfd_fd f) (BUFSIZE - xb_sz (bfd_b f)) = (Some bs, w)"
    using r by (auto simp: brefill_def Let_def split: prod.splits option.splits)
  have law': "length bs \<le> BUFSIZE - xb_sz (bfd_b f)" "rest (files s) (bfd_fd f) = bs @ rest w (bfd_fd f)"
    "bs = [] \<Longrightarrow> BUFSIZE - xb_sz (bfd_b f) = 0 \<or> rest (files s) (bfd_fd f) = []"
    using law [unfolded read_law_def, rule_format, OF rd] by auto
  have szle: "xb_sz (bfd_b f) \<le> BUFSIZE" using ok by (auto simp: rd_ok_def)
  have s': "bs_mem s' = mem_write (mem_write (bs_mem s) (xb_mem (bfd_b f)) (buffered s f))
        (xb_mem (bfd_b f) + xb_sz (bfd_b f)) bs"
    "files s' = w" and f': "f' = f\<lparr>bfd_b := (bfd_b f)\<lparr>xb_data := xb_mem (bfd_b f),
        xb_sz := xb_sz (bfd_b f) + length bs\<rparr>\<rparr>" and r0: "r = 0 \<longleftrightarrow> bs = []"
    using r rd by (auto simp: brefill_def Let_def buffered_def split: if_splits)
  have "buffered s' f' = buffered s f @ bs"
    using mem_read_two_writes [of "xb_sz (bfd_b f)" "buffered s f" "bs_mem s" "xb_mem (bfd_b f)" bs]
    by (simp add: buffered_def [of s'] s' f')
  then show "\<exists>bs. buffered s' f' = buffered s f @ bs" "pending rest s' f' = pending rest s f"
    using law'(2) by (auto simp: pending_def f' s')
  show "rd_ok f'" "bfd_fd f' = bfd_fd f" "xb_mem (bfd_b f') = xb_mem (bfd_b f)"
    "xb_data (bfd_b f') = xb_mem (bfd_b f)"
    using ok law'(1) szle by (auto simp: f' rd_ok_def bfd_buffered_def)
  show "rest (files s') (bfd_fd f) = [] \<or> xb_sz (bfd_b f) = BUFSIZE" if "r = 0"
    using that r0 law' szle by (auto simp: s')
  show "xb_sz (bfd_b f') = xb_sz (bfd_b f)" if "r = 0" using that r0 by (simp add: f')
qed

subsection \<open>Reading a number of bytes\<close>

lemma bread_copy_spec:
  assumes "rd_ok f" "length out \<le> sz" "bread_copy sz out s f = (out1, f1)"
  obtains k where "k \<le> sz - length out" "k \<le> length (pending rest s f)"
    "out1 = out @ take k (pending rest s f)" "pending rest s f1 = drop k (pending rest s f)"
    "rd_ok f1" "bfd_fd f1 = bfd_fd f" "xb_sz (bfd_b f1) = xb_sz (bfd_b f) - k"
    "length out1 < sz \<Longrightarrow> xb_sz (bfd_b f1) = 0"
proof -
  let ?b = "bfd_b f"
  define k where "k = min (sz - length out) (xb_sz ?b)"
  have kle: "k \<le> xb_sz ?b" by (simp add: k_def)
  have rdk: "buffered s f =
      mem_read (bs_mem s) (xb_data ?b) k @ mem_read (bs_mem s) (xb_data ?b + k) (xb_sz ?b - k)"
    using mem_read_add [of "bs_mem s" "xb_data ?b" k "xb_sz ?b - k"] kle by (simp add: buffered_def)
  have out1: "out1 = out @ mem_read (bs_mem s) (xb_data ?b) k"
    using assms(3) by (auto simp: bread_copy_def Let_def k_def mem_read_def split: if_splits)
  have f1: "f1 = f\<lparr>bfd_b := ?b\<lparr>xb_data := xb_data ?b + k, xb_sz := xb_sz ?b - k\<rparr>\<rparr>"
    using assms(3) by (auto simp: bread_copy_def Let_def k_def split: if_splits)
  have "buffered s f1 = drop k (buffered s f)"
    using rdk by (simp add: buffered_def [of s f1]) (simp add: f1)
  then have "pending rest s f1 = drop k (pending rest s f)"
    using kle by (simp add: pending_def) (simp add: f1)
  moreover have "take k (pending rest s f) = mem_read (bs_mem s) (xb_data ?b) k"
    using rdk kle by (simp add: pending_def)
  ultimately show thesis
    using that [of k] kle assms(1) out1
    by (auto simp: f1 k_def pending_def rd_ok_def bfd_buffered_def)
qed

text \<open>One statement for the three exits of the loop.\<close>

definition bread_result :: "'w file_sys \<Rightarrow> ('w \<Rightarrow> int \<Rightarrow> byte list) \<Rightarrow> int \<Rightarrow> nat \<Rightarrow> byte list \<Rightarrow> byte list \<Rightarrow>
    int \<times> byte list \<times> 'w bstate \<times> bfd \<Rightarrow> bool" where
  "bread_result fs rest fd n out p res \<longleftrightarrow>
     (case res of (r, out', s', f') \<Rightarrow>
        (\<exists>q w. r = -1 \<and> out' = out @ q \<and> p = q @ rest w fd \<and> length q < n \<and> sys_read fs w fd BUFSIZE = (None, files s')) \<or>
        (out' = out @ take n p \<and> r = int (length out') \<and> pending rest s' f' = drop n p \<and> rd_ok f'))"

lemma bread_result_shift:
  assumes "bread_result fs rest fd (n - k) (out @ take k p) (drop k p) res" "k \<le> n" "k \<le> length p"
  shows "bread_result fs rest fd n out p res"
proof -
  obtain r out' s' f' where res: "res = (r, out', s', f')" by (metis prod_cases4)
  have tk: "take k p @ take (n - k) (drop k p) = take n p"
    using take_add [of k "n - k" p] assms(2) by simp
  from assms(1) consider q w where "r = -1" "out' = (out @ take k p) @ q" "drop k p = q @ rest w fd" "length q < n - k" "sys_read fs w fd BUFSIZE = (None, files s')"
    | "out' = (out @ take k p) @ take (n - k) (drop k p)" "r = int (length out')" "pending rest s' f' = drop (n - k) (drop k p)" "rd_ok f'"
    unfolding bread_result_def res by auto
  then show ?thesis
  proof cases
    case 1
    have "p = (take k p @ q) @ rest w fd" using 1(3) append_take_drop_id [of k p] by simp
    moreover have "length (take k p @ q) < n" using 1(4) assms(3) by simp
    ultimately show ?thesis unfolding bread_result_def res using 1 by (auto intro!: exI [of _ "take k p @ q"] exI [of _ w])
  next
    case 2
    then show ?thesis unfolding bread_result_def res using tk assms(2) by auto
  qed
qed

text \<open>A refill fails only when its \<open>read\<close> does.\<close>

lemma brefill_fails:
  assumes "brefill fs s f = (r, s', f')" "r < 0"
  shows "r = -1" "sys_read fs (files s) (bfd_fd f) (BUFSIZE - xb_sz (bfd_b f)) = (None, files s')"
  using assms by (auto simp: brefill_def Let_def split: prod.splits option.splits if_splits)

lemma bread_loop_spec:
  assumes "read_law fs rest" "rd_ok f" "length out \<le> sz"
  shows "\<exists>res. bread_loop fs sz out s f = Ret res \<and>
    bread_result fs rest (bfd_fd f) (sz - length out) out (pending rest s f) res"
  using assms
proof (induction fs sz out s f rule: bread_loop.induct)
  case (1 fs sz out s f)
  obtain out1 f1 where c: "bread_copy sz out s f = (out1, f1)" by fastforce
  obtain k where k: "k \<le> sz - length out" "k \<le> length (pending rest s f)"
    "out1 = out @ take k (pending rest s f)" "pending rest s f1 = drop k (pending rest s f)"
    "rd_ok f1" "bfd_fd f1 = bfd_fd f" "xb_sz (bfd_b f1) = xb_sz (bfd_b f) - k"
    "length out1 < sz \<Longrightarrow> xb_sz (bfd_b f1) = 0"
    by (rule bread_copy_spec [OF "1.prems"(2,3) c, where rest = rest]) blast
  have len: "length out1 = length out + k" using k(2,3) by simp
  have le1: "length out1 \<le> sz" using len k(1) "1.prems"(3) by linarith
  have goal: "\<exists>res. bread_loop fs sz out s f = Ret res \<and>
      bread_result fs rest (bfd_fd f) (sz - length out) out (pending rest s f) res"
    if "bread_loop fs sz out s f = Ret res"
      "bread_result fs rest (bfd_fd f) (sz - length out1) out1 (pending rest s f1) res" for res
    using that bread_result_shift [of fs rest "bfd_fd f" "sz - length out" k out "pending rest s f" res] k len
    by auto
  show ?case
  proof (cases "length out1 < sz")
    case True
    obtain mr s2 f2 where m: "brefill fs s f1 = (mr, s2, f2)" by (metis prod_cases3)
    consider "mr < 0" | "mr = 0" | "mr > 0" by linarith
    then show ?thesis
    proof cases
      case 1
      note fl = brefill_fails [OF m 1]
      have "xb_sz (bfd_b f1) = 0" using k(8) True by simp
      then have "pending rest s f1 = rest (files s) (bfd_fd f)" "sys_read fs (files s) (bfd_fd f) BUFSIZE = (None, files s2)"
        using fl(2) k(6) by (simp_all add: pending_def buffered_def mem_read_def)
      then have "bread_result fs rest (bfd_fd f) (sz - length out1) out1 (pending rest s f1) (mr, out1, s2, f2)"
        using fl(1) True unfolding bread_result_def by (intro case_prodI disjI1 exI [of _ "[]"] exI [of _ "files s"]) simp
      then show ?thesis
        using 1 by (intro goal [of "(mr, out1, s2, f2)"]) (simp_all add: bread_loop.simps [of fs sz out] c m True)
    next
      case 2
      note re = brefill_ok [OF "1.prems"(1) k(5) m]
      have "xb_sz (bfd_b f1) = 0" using k(8) True by simp
      then have "pending rest s2 f2 = []"
        using re(2,7,8) 2 by (auto simp: pending_def BUFSIZE_def simp flip: length_0_conv)
      then show ?thesis
        using re(1,3) 2 by (intro goal [of "(int (length out1), out1, s2, f2)"])
          (simp_all add: bread_loop.simps [of fs sz out] c m True bread_result_def)
    next
      case 3
      note re = brefill_ok [OF "1.prems"(1) k(5) m]
      obtain res where "bread_loop fs sz out1 s2 f2 = Ret res"
        "bread_result fs rest (bfd_fd f) (sz - length out1) out1 (pending rest s2 f2) res"
        using re(2) k(6) "1.IH" [OF c [symmetric] refl True m [symmetric] refl 3 "1.prems"(1) re(1) le1] 3 by auto
      then show ?thesis using re(3) 3
        by (intro goal [of res]) (simp_all add: bread_loop.simps [of fs sz out] c m True)
    qed
  next
    case False
    then show ?thesis
      using le1 k(5) by (intro goal [of "(int (length out1), out1, s, f1)"])
        (simp_all add: bread_loop.simps [of fs sz out] c bread_result_def)
  qed
qed

subsection \<open>Reading a separated string\<close>

lemma mem_read_0 [simp]: "mem_read m a 0 = []"
  by (simp add: mem_read_def)

lemma mem_read_Suc: "mem_read m a (Suc n) = m a # mem_read m (Suc a) n"
  using mem_read_add [of m a 1 n] by (simp add: mem_read_def)

lemma mem_read_drop: "k \<le> n \<Longrightarrow> mem_read m (a + k) (n - k) = drop k (mem_read m a n)"
  using mem_read_add [of m a k "n - k"] by simp

lemma BUFSIZE_pos [simp]: "0 < BUFSIZE"
  by (simp add: BUFSIZE_def)

lemma mem_read_upd_other:
  "x < a \<or> a + n \<le> x \<Longrightarrow> mem_read (m(x := v)) a n = mem_read m a n"
  by (auto simp: mem_read_def)

lemma strnchr_None: "strnchr m a n c = None \<longleftrightarrow> c \<notin> set (mem_read m a n)"
  by (induction m a n c rule: strnchr.induct) (auto simp: mem_read_Suc)

lemma strnchr_Some:
  "mem_read m a n = xs @ c # ys \<Longrightarrow> c \<notin> set xs \<Longrightarrow> strnchr m a n c = Some (a + length xs)"
proof (induction m a n c arbitrary: xs rule: strnchr.induct)
  case (2 m a n c)
  then show ?case by (cases xs) (auto simp: mem_read_Suc)
qed simp

text \<open>
  A hit: the buffer holds \<open>xs\<close>, then the separator. The scan may skip a prefix that is known
  not to hold the separator.
\<close>

lemma breadchr_hit:
  assumes buf: "buffered s f = xs @ c # ys" "c \<notin> set xs" and ss: "ss \<le> length xs" and ok: "rd_ok f"
  obtains s' f' where
    "breadchr_again fs c refilled ss s f = (Char_ptr (xb_data (bfd_b f)), s', f')"
    "mem_read (bs_mem s') (xb_data (bfd_b f)) (length xs) = xs"
    "bs_mem s' (xb_data (bfd_b f) + length xs) = 0"
    "buffered s' f' = ys" "files s' = files s" "bfd_fd f' = bfd_fd f" "rd_ok f'"
proof -
  let ?a = "xb_data (bfd_b f)" and ?z = "xb_sz (bfd_b f)" and ?n = "length xs"
  have z: "?z = ?n + (1 + length ys)" using buf(1) length_buffered [of s f] by simp
  have split: "mem_read (bs_mem s) ?a ?n = xs" "mem_read (bs_mem s) (?a + ?n + 1) (length ys) = ys"
    using buf(1) mem_read_add [of "bs_mem s" ?a ?n "1 + length ys"]
      mem_read_Suc [of "bs_mem s" "?a + ?n" "length ys"]
    by (simp_all add: buffered_def z)
  have "mem_read (bs_mem s) (?a + ss) (?z - ss) = drop ss xs @ c # ys"
    using buf(1) mem_read_drop [of ss ?z "bs_mem s" ?a] ss z by (simp add: buffered_def)
  then have hit: "strnchr (bs_mem s) (?a + ss) (?z - ss) c = Some (?a + ?n)"
    using strnchr_Some [of "bs_mem s" "?a + ss" "?z - ss" "drop ss xs" c ys] buf(2) ss
    by (auto dest: in_set_dropD)
  let ?s = "s\<lparr>bs_mem := (bs_mem s)(?a + ?n := 0)\<rparr>"
  let ?f = "f\<lparr>bfd_b := (bfd_b f)\<lparr>xb_data := ?a + ?n + 1, xb_sz := ?z - (?n + 1)\<rparr>\<rparr>"
  have "breadchr_again fs c refilled ss s f = (Char_ptr ?a, ?s, ?f)"
    by (simp add: breadchr_again.simps [of fs c refilled] hit Let_def)
  moreover have "mem_read (bs_mem ?s) ?a ?n = xs" using split(1) by (simp add: mem_read_upd_other)
  moreover have "buffered ?s ?f = ys"
    using split(2) z by (simp add: buffered_def mem_read_upd_other)
  moreover have "rd_ok ?f" using ok z by (auto simp: rd_ok_def bfd_buffered_def)
  ultimately show thesis using that [of ?s ?f] by simp
qed

lemma breadchr_miss:
  assumes "c \<notin> set (buffered s f)" "ss \<le> xb_sz (bfd_b f)"
  shows "strnchr (bs_mem s) (xb_data (bfd_b f) + ss) (xb_sz (bfd_b f) - ss) c = None"
  using assms mem_read_add [of "bs_mem s" "xb_data (bfd_b f)" ss "xb_sz (bfd_b f) - ss"]
  by (auto simp: strnchr_None buffered_def)

text \<open>
  What a call of \<open>breadchr\<close> gives, as a function of the bytes \<open>p\<close> that it can see, those in the buffer and, when these
  lack the separator, those of one more \<open>read\<close>: the string (None for \<open>NULL\<close>) and what is left in the buffer.
\<close>

definition chr_spec :: "byte \<Rightarrow> byte list \<Rightarrow> byte list option \<times> byte list" where
  "chr_spec c p =
     (if c \<in> set p then (Some (takeWhile (\<lambda>x. x \<noteq> c) p), tl (dropWhile (\<lambda>x. x \<noteq> c) p))
      else if p = [] \<or> length p = BUFSIZE then (None, p)
      else (Some p, []))"

definition chr_result :: "byte list option \<times> byte list \<Rightarrow> 'w \<Rightarrow> int \<Rightarrow> char_ptr \<times> 'w bstate \<times> bfd \<Rightarrow> bool" where
  "chr_result sp w fd res \<longleftrightarrow>
     (case res of (ptr, s', f') \<Rightarrow>
        buffered s' f' = snd sp \<and> files s' = w \<and> bfd_fd f' = fd \<and> rd_ok f' \<and>
        (case fst sp of
           None \<Rightarrow> ptr = Null_ptr
         | Some str \<Rightarrow>
             (\<exists>a. ptr = Char_ptr a \<and> mem_read (bs_mem s') a (length str) = str
                \<and> bs_mem s' (a + length str) = 0)))"

lemma chr_spec_hit:
  assumes "p = xs @ c # ys" "c \<notin> set xs"
  shows "chr_spec c p = (Some xs, ys)"
proof -
  have "takeWhile (\<lambda>x. x \<noteq> c) p = xs" "dropWhile (\<lambda>x. x \<noteq> c) p = c # ys"
    using assms by (auto simp: takeWhile_append dropWhile_append)
  then show ?thesis using assms(1) by (simp add: chr_spec_def)
qed

lemma breadchr_hit_result:
  assumes "c \<in> set (buffered s f)" "c \<notin> set (take ss (buffered s f))" "rd_ok f"
  shows "chr_result (chr_spec c (buffered s f)) (files s) (bfd_fd f) (breadchr_again fs c refilled ss s f)"
proof -
  obtain xs ys where b: "buffered s f = xs @ c # ys" "c \<notin> set xs"
    using split_list_first [OF assms(1)] by blast
  then have ss: "ss \<le> length xs" using assms(2) by (cases "ss - length xs") auto
  obtain s' f' where "breadchr_again fs c refilled ss s f = (Char_ptr (xb_data (bfd_b f)), s', f')"
    "mem_read (bs_mem s') (xb_data (bfd_b f)) (length xs) = xs"
    "bs_mem s' (xb_data (bfd_b f) + length xs) = 0"
    "buffered s' f' = ys" "files s' = files s" "bfd_fd f' = bfd_fd f" "rd_ok f'"
    by (rule breadchr_hit [OF b ss assms(3), where fs = fs and refilled = refilled]) blast
  then show ?thesis using chr_spec_hit [OF b] by (simp add: chr_result_def)
qed

lemma breadchr_refilled_miss:
  assumes miss: "c \<notin> set (buffered s f)" "ss \<le> xb_sz (bfd_b f)" and ok: "rd_ok f"
  shows "chr_result (chr_spec c (buffered s f)) (files s) (bfd_fd f) (breadchr_again fs c True ss s f)"
proof -
  let ?a = "xb_data (bfd_b f)" and ?z = "xb_sz (bfd_b f)"
  have step: "breadchr_again fs c True ss s f =
      (if ?z = 0 \<or> ?z = BUFSIZE then (Null_ptr, s, f)
       else (Char_ptr ?a, s\<lparr>bs_mem := (bs_mem s)(?a + ?z := 0)\<rparr>, f\<lparr>bfd_b := (bfd_b f)\<lparr>xb_sz := 0\<rparr>\<rparr>))"
    by (simp add: breadchr_again.simps [of fs c True ss s f] breadchr_miss [OF miss] Let_def)
  have len: "buffered s f = [] \<longleftrightarrow> ?z = 0" "length (buffered s f) = ?z" by (simp_all flip: length_0_conv)
  show ?thesis
  proof (cases "?z = 0 \<or> ?z = BUFSIZE")
    case True
    then show ?thesis using miss(1) ok len by (auto simp: step chr_result_def chr_spec_def)
  next
    case False
    have "mem_read ((bs_mem s)(?a + ?z := 0)) ?a ?z = buffered s f" by (simp add: mem_read_upd_other buffered_def)
    moreover have "buffered (s\<lparr>bs_mem := (bs_mem s)(?a + ?z := 0)\<rparr>) (f\<lparr>bfd_b := (bfd_b f)\<lparr>xb_sz := 0\<rparr>\<rparr>) = []" by (simp add: buffered_def)
    moreover have "rd_ok (f\<lparr>bfd_b := (bfd_b f)\<lparr>xb_sz := 0\<rparr>\<rparr>)" using ok by (simp add: rd_ok_def bfd_buffered_def)
    ultimately show ?thesis using False miss(1) len by (simp add: step chr_result_def chr_spec_def)
  qed
qed

text \<open>The bytes a refill adds are those of its \<open>read\<close>.\<close>

lemma brefill_read:
  assumes law: "read_law fs rest" and ok: "rd_ok f" and rd: "sys_read fs (files s) (bfd_fd f) (BUFSIZE - xb_sz (bfd_b f)) = (Some bs, w)"
    and r: "brefill fs s f = (r, s', f')"
  shows "0 \<le> r" "buffered s' f' = buffered s f @ bs" "files s' = w" "bfd_fd f' = bfd_fd f" "rd_ok f'"
proof -
  show r0: "0 \<le> r" using r rd by (auto simp: brefill_def Let_def split: if_splits)
  note re = brefill_ok [OF law ok r r0]
  show "files s' = w" using r rd by (auto simp: brefill_def Let_def split: if_splits)
  have "xb_sz (bfd_b f') = xb_sz (bfd_b f) + length bs" using r rd by (auto simp: brefill_def Let_def split: if_splits)
  moreover obtain q where q: "buffered s' f' = buffered s f @ q" using re(6) by blast
  moreover have "q @ rest w (bfd_fd f) = bs @ rest w (bfd_fd f)"
    using re(3) q law rd \<open>files s' = w\<close> re(2) by (auto simp: pending_def read_law_def)
  ultimately show "buffered s' f' = buffered s f @ bs" by simp
  show "bfd_fd f' = bfd_fd f" "rd_ok f'" using re by simp_all
qed

lemma breadchr_seen:
  assumes ok: "rd_ok f" and hit: "c \<in> set (buffered s f)"
  shows "chr_result (chr_spec c (buffered s f)) (files s) (bfd_fd f) (breadchr fs s f c)"
  using breadchr_hit_result [OF hit, of 0 fs False] ok by (simp add: breadchr_def)

lemma breadchr_refill:
  assumes law: "read_law fs rest" and ok: "rd_ok f" and miss: "c \<notin> set (buffered s f)"
    and rd: "sys_read fs (files s) (bfd_fd f) (BUFSIZE - xb_sz (bfd_b f)) = (Some bs, w)"
  shows "chr_result (chr_spec c (buffered s f @ bs)) w (bfd_fd f) (breadchr fs s f c)"
proof -
  let ?ss = "xb_sz (bfd_b f)"
  obtain r s1 f1 where r: "brefill fs s f = (r, s1, f1)" by (metis prod_cases3)
  note re = brefill_read [OF law ok rd r]
  have step: "breadchr fs s f c = breadchr_again fs c True ?ss s1 f1"
    using breadchr_miss [OF miss, of 0] r re(1)
    by (simp add: breadchr_def breadchr_again.simps [of fs c False 0])
  show ?thesis
  proof (cases "c \<in> set (buffered s1 f1)")
    case True
    then show ?thesis
      using breadchr_hit_result [OF True, of ?ss fs True] miss re by (simp add: step)
  next
    case False
    have "?ss \<le> xb_sz (bfd_b f1)" using re(2) length_buffered [of s1 f1] by simp
    then show ?thesis
      using breadchr_refilled_miss [OF False _ re(5), of ?ss fs] re by (simp add: step)
  qed
qed

lemma breadchr_fails:
  assumes miss: "c \<notin> set (buffered s f)" and rd: "sys_read fs (files s) (bfd_fd f) (BUFSIZE - xb_sz (bfd_b f)) = (None, w)"
  shows "\<exists>s' f'. breadchr fs s f c = (Err_ptr, s', f') \<and> files s' = w \<and> buffered s' f' = buffered s f"
proof -
  have "\<exists>s' f'. brefill fs s f = (-1, s', f') \<and> files s' = w \<and> buffered s' f' = buffered s f"
    using rd mem_read_write_same [of "bs_mem s" "xb_mem (bfd_b f)" "buffered s f"] by (simp add: brefill_def buffered_def Let_def)
  then show ?thesis using breadchr_miss [OF miss, of 0] by (auto simp: breadchr_def breadchr_again.simps [of fs c False 0])
qed

text \<open>
  The loop that every reader of a text file runs: take lines until \<open>NULL\<close>; an error pointer
  ends it as a failure. A line is the C string the returned pointer designates.
\<close>

definition cstring :: "(nat \<Rightarrow> byte) \<Rightarrow> ulong \<Rightarrow> byte list" where
  "cstring m a = takeWhile (\<lambda>x. x \<noteq> 0) (mem_read m a BUFSIZE)"

fun read_lines :: "nat \<Rightarrow> 'w file_sys \<Rightarrow> 'w bstate \<Rightarrow> bfd \<Rightarrow> byte list list option" where
  "read_lines 0 fs s f = None"
| "read_lines (Suc fuel) fs s f =
     (case breadline fs s f of
        (Null_ptr, s, f) \<Rightarrow> Some []
      | (Err_ptr, s, f) \<Rightarrow> None
      | (Char_ptr a, s, f) \<Rightarrow> map_option (Cons (cstring (bs_mem s) a)) (read_lines fuel fs s f))"

fun split_lines :: "byte list \<Rightarrow> byte list \<Rightarrow> byte list list" where
  "split_lines cur [] = (if cur = [] then [] else [cur])"
| "split_lines cur (x # xs) =
     (if x = newline then cur # split_lines [] xs else split_lines (cur @ [x]) xs)"

lemma split_lines_hit:
  "newline \<notin> set xs \<Longrightarrow> split_lines cur (xs @ newline # ys) = (cur @ xs) # split_lines [] ys"
  by (induction xs arbitrary: cur) auto

lemma split_lines_tail: "newline \<notin> set xs \<Longrightarrow> xs \<noteq> [] \<Longrightarrow> split_lines [] xs = [xs]"
proof -
  have "newline \<notin> set xs \<Longrightarrow> cur @ xs \<noteq> [] \<Longrightarrow> split_lines cur xs = [cur @ xs]" for cur
    by (induction xs arbitrary: cur) auto
  then show "newline \<notin> set xs \<Longrightarrow> xs \<noteq> [] \<Longrightarrow> split_lines [] xs = [xs]" by simp
qed

text \<open>Every line of the file fits the buffer, and no line holds a NUL byte.\<close>

definition text_file :: "byte list \<Rightarrow> bool" where
  "text_file p \<longleftrightarrow> 0 \<notin> set p \<and> (\<forall>l\<in>set (split_lines [] p). length l < BUFSIZE)"

lemma cstring_read:
  assumes "mem_read m a (length str) = str" "m (a + length str) = 0" "0 \<notin> set str" "length str < BUFSIZE"
  shows "cstring m a = str"
proof -
  obtain k where k: "BUFSIZE = length str + Suc k" using assms(4) less_imp_Suc_add by fastforce
  have "mem_read m a BUFSIZE = str @ 0 # mem_read m (Suc (a + length str)) k"
    unfolding k mem_read_add [of m a "length str" "Suc k"] mem_read_Suc
    using assms(1,2) by simp
  moreover have "takeWhile (\<lambda>x. x \<noteq> 0) str = str" using assms(3) by (auto simp: takeWhile_eq_all_conv)
  moreover have "\<forall>x\<in>set str. x \<noteq> 0" using assms(3) by auto
  ultimately show ?thesis unfolding cstring_def by (simp only: takeWhile_append2 takeWhile.simps) simp
qed

lemma text_file_line: "newline \<notin> set xs \<Longrightarrow> xs \<noteq> [] \<Longrightarrow> text_file (xs @ r) \<Longrightarrow> length xs < BUFSIZE"
proof (cases "newline \<in> set r")
  case True
  assume a: "newline \<notin> set xs" "text_file (xs @ r)"
  obtain ys zs where r: "r = ys @ newline # zs" "newline \<notin> set ys" using split_list_first [OF True] by blast
  then have "split_lines [] (xs @ r) = (xs @ ys) # split_lines [] zs" using a(1) split_lines_hit [of "xs @ ys" "[]" zs] by simp
  then show ?thesis using a(2) by (simp add: text_file_def)
next
  case False
  assume a: "newline \<notin> set xs" "xs \<noteq> []" "text_file (xs @ r)"
  then have "split_lines [] (xs @ r) = [xs @ r]" using False by (intro split_lines_tail) auto
  then show ?thesis using a(3) by (simp add: text_file_def)
qed

text \<open>One line, when the bytes seen \<open>p\<close> have a newline, are all that is left, or fill the buffer.\<close>

lemma chr_spec_newline:
  assumes tx: "text_file (p @ r)" and seen: "newline \<in> set p \<or> r = [] \<or> length p = BUFSIZE"
  shows "p @ r = [] \<and> chr_spec newline p = (None, []) \<or>
    (\<exists>l q. chr_spec newline p = (Some l, q) \<and> split_lines [] (p @ r) = l # split_lines [] (q @ r)
       \<and> length q < length p \<and> text_file (q @ r) \<and> 0 \<notin> set l \<and> length l < BUFSIZE)"
proof (cases "newline \<in> set p")
  case True
  then obtain xs ys where p: "p = xs @ newline # ys" "newline \<notin> set xs"
    using split_list_first by fastforce
  then have sl: "split_lines [] (p @ r) = xs # split_lines [] (ys @ r)" using split_lines_hit [of xs "[]" "ys @ r"] by simp
  then have "length xs < BUFSIZE" using tx by (simp add: text_file_def)
  then show ?thesis using sl p tx chr_spec_hit [OF p] by (auto simp: text_file_def)
next
  case miss: False
  show ?thesis
  proof (cases "p = []")
    case True
    then show ?thesis using seen by (auto simp: chr_spec_def BUFSIZE_def)
  next
    case ne: False
    then have len: "length p < BUFSIZE" using text_file_line [OF miss ne tx] by simp
    then have r: "r = []" using seen miss by simp
    have "split_lines [] p = [p]" "chr_spec newline p = (Some p, [])"
      using split_lines_tail [OF miss ne] miss ne len by (simp_all add: chr_spec_def)
    then show ?thesis using r ne tx len by (auto simp: text_file_def)
  qed
qed

text \<open>
  Of the files that are read line by line: a \<open>read\<close> does not fail, and when it returns less than was asked for it has reached the end
  of the file or the end of a line. Regular files are like this, and the files of \<open>/proc\<close> that are made of whole records.
\<close>

definition line_reads :: "'w file_sys \<Rightarrow> ('w \<Rightarrow> int \<Rightarrow> byte list) \<Rightarrow> bool" where
  "line_reads fs rest \<longleftrightarrow>
     (\<forall>w fd n. \<exists>bs w'. sys_read fs w fd n = (Some bs, w') \<and> length bs \<le> n \<and> rest w fd = bs @ rest w' fd \<and>
        (length bs < n \<longrightarrow> rest w' fd = [] \<or> bs \<noteq> [] \<and> last bs = newline))"

lemma line_reads_law: "line_reads fs rest \<Longrightarrow> read_law fs rest"
  unfolding line_reads_def read_law_def
  by (metis Pair_inject append_Nil length_greater_0_conv list.size(3) not_gr_zero option.inject)

lemma breadline_seen:
  assumes law: "line_reads fs rest" and ok: "rd_ok f"
  obtains p w where "chr_result (chr_spec newline p) w (bfd_fd f) (breadline fs s f)" "pending rest s f = p @ rest w (bfd_fd f)"
    "newline \<in> set p \<or> rest w (bfd_fd f) = [] \<or> length p = BUFSIZE"
proof (cases "newline \<in> set (buffered s f)")
  case True
  then show thesis using breadchr_seen [OF ok True, of fs] that [of "buffered s f" "files s"] by (simp add: breadline_def pending_def)
next
  case False
  let ?n = "BUFSIZE - xb_sz (bfd_b f)"
  obtain bs w where rd: "sys_read fs (files s) (bfd_fd f) ?n = (Some bs, w)" "length bs \<le> ?n" "rest (files s) (bfd_fd f) = bs @ rest w (bfd_fd f)"
    "length bs < ?n \<longrightarrow> rest w (bfd_fd f) = [] \<or> bs \<noteq> [] \<and> last bs = newline"
    using law unfolding line_reads_def by blast
  have "xb_sz (bfd_b f) \<le> BUFSIZE" using ok by (auto simp: rd_ok_def)
  then have "newline \<in> set (buffered s f @ bs) \<or> rest w (bfd_fd f) = [] \<or> length (buffered s f @ bs) = BUFSIZE"
    using rd(2,4) by (cases "length bs = ?n") (auto dest: last_in_set)
  then show thesis
    using breadchr_refill [OF line_reads_law [OF law] ok False rd(1)] rd(3) that [of "buffered s f @ bs" w] by (simp add: breadline_def pending_def)
qed

lemma read_lines_spec:
  assumes "line_reads fs rest" "rd_ok f" "text_file (pending rest s f)"
    "length (pending rest s f) < fuel"
  shows "read_lines fuel fs s f = Some (split_lines [] (pending rest s f))"
  using assms
proof (induction fuel arbitrary: s f)
  case (Suc fuel)
  obtain ptr s' f' where b: "breadline fs s f = (ptr, s', f')" by (metis prod_cases3)
  obtain p w where res: "chr_result (chr_spec newline p) w (bfd_fd f) (ptr, s', f')" and pn: "pending rest s f = p @ rest w (bfd_fd f)"
    and seen: "newline \<in> set p \<or> rest w (bfd_fd f) = [] \<or> length p = BUFSIZE"
    by (rule breadline_seen [OF Suc.prems(1,2), of s, unfolded b])
  let ?r = "rest w (bfd_fd f)"
  consider "p @ ?r = []" "chr_spec newline p = (None, [])"
    | l q where "chr_spec newline p = (Some l, q)" "split_lines [] (p @ ?r) = l # split_lines [] (q @ ?r)" "length q < length p"
      "text_file (q @ ?r)" "0 \<notin> set l" "length l < BUFSIZE"
    using chr_spec_newline [of p ?r] Suc.prems(3) seen pn by auto
  then show ?case
  proof cases
    case 1
    then show ?thesis using res b pn by (simp add: chr_result_def)
  next
    case 2
    then obtain a where a: "ptr = Char_ptr a" "mem_read (bs_mem s') a (length l) = l"
      "bs_mem s' (a + length l) = 0" "pending rest s' f' = q @ ?r" "rd_ok f'"
      using res by (auto simp: chr_result_def pending_def)
    have "read_lines fuel fs s' f' = Some (split_lines [] (q @ ?r))"
      using Suc.IH [OF Suc.prems(1) a(5)] 2 a(4) Suc.prems(4) pn by simp
    then show ?thesis using 2 a(1) b pn cstring_read [OF a(2,3) 2(5,6)] by simp
  qed
qed simp

subsection \<open>Writer invariant and abstraction\<close>

definition wr_ok :: "bfd \<Rightarrow> bool" where
  "wr_ok f \<longleftrightarrow>
     bfd_buffered f \<and> xb_data (bfd_b f) = xb_mem (bfd_b f) \<and> xb_sz (bfd_b f) \<le> BUFSIZE"

text \<open>
  \<open>write\<close>: a call that does not fail appends a prefix of its buffer to the file, as long as
  its result says; \<open>close\<close> leaves the contents alone.
\<close>

definition write_law :: "'w file_sys \<Rightarrow> ('w \<Rightarrow> int \<Rightarrow> byte list) \<Rightarrow> bool" where
  "write_law fs out \<longleftrightarrow>
     (\<forall>w fd bs n w'. sys_write fs w fd bs = (n, w') \<longrightarrow> 0 \<le> n \<longrightarrow>
        n \<le> int (length bs) \<and> out w' fd = out w fd @ take (nat n) bs) \<and>
     (\<forall>w fd n w' fd'. sys_close fs w fd = (n, w') \<longrightarrow> out w' fd' = out w fd')"

text \<open>What the file will hold once the buffer is flushed.\<close>

definition accepted :: "('w \<Rightarrow> int \<Rightarrow> byte list) \<Rightarrow> 'w bstate \<Rightarrow> bfd \<Rightarrow> byte list" where
  "accepted out s f = out (files s) (bfd_fd f) @ buffered s f"

lemma bflush_ok:
  assumes law: "write_law fs out" and ok: "wr_ok f" and r: "bflush fs s f = (r, s', f')" "0 \<le> r"
  shows "wr_ok f'" "accepted out s' f' = accepted out s f" "xb_sz (bfd_b f') = 0"
    "bfd_fd f' = bfd_fd f" "out (files s') (bfd_fd f) = accepted out s f"
    "flush_failed s' = flush_failed s"
proof -
  let ?z = "xb_sz (bfd_b f)"
  have "wr_ok f' \<and> accepted out s' f' = accepted out s f \<and> xb_sz (bfd_b f') = 0
      \<and> bfd_fd f' = bfd_fd f \<and> out (files s') (bfd_fd f) = accepted out s f
      \<and> flush_failed s' = flush_failed s"
  proof (cases "?z = 0")
    case True
    then have "buffered s f = []" by (simp add: buffered_def)
    then show ?thesis using r True ok by (auto simp: bflush_def accepted_def)
  next
    case False
    obtain n w where w: "sys_write fs (files s) (bfd_fd f) (buffered s f) = (n, w)" by fastforce
    have n: "n = int ?z" "s' = s\<lparr>files := w\<rparr>" "f' = f\<lparr>bfd_b := (bfd_b f)\<lparr>xb_sz := 0\<rparr>\<rparr>"
      using r w False by (auto simp: bflush_def Let_def buffered_def split: if_splits)
    have "out w (bfd_fd f) = out (files s) (bfd_fd f) @ buffered s f"
      using law [unfolded write_law_def] w n(1) length_buffered [of s f]
      by (metis int_nat_eq nat_int of_nat_0_le_iff take_all_iff order_refl)
    then show ?thesis
      using ok n by (simp add: wr_ok_def bfd_buffered_def accepted_def) (simp add: buffered_def)
  qed
  then show "wr_ok f'" "accepted out s' f' = accepted out s f" "xb_sz (bfd_b f') = 0"
    "bfd_fd f' = bfd_fd f" "out (files s') (bfd_fd f) = accepted out s f"
    "flush_failed s' = flush_failed s" by auto
qed

lemma bwrite_small:
  assumes ok: "wr_ok f" and fits: "xb_sz (bfd_b f) + length bs \<le> BUFSIZE"
  shows "accepted out (s\<lparr>bs_mem := mem_write (bs_mem s) (xb_data (bfd_b f) + xb_sz (bfd_b f)) bs\<rparr>)
      (f\<lparr>bfd_b := (bfd_b f)\<lparr>xb_sz := xb_sz (bfd_b f) + length bs\<rparr>\<rparr>) = accepted out s f @ bs"
    "wr_ok (f\<lparr>bfd_b := (bfd_b f)\<lparr>xb_sz := xb_sz (bfd_b f) + length bs\<rparr>\<rparr>)"
proof -
  let ?a = "xb_data (bfd_b f)" and ?z = "xb_sz (bfd_b f)"
  have "mem_read (mem_write (bs_mem s) (?a + ?z) bs) ?a (?z + length bs) =
      mem_read (bs_mem s) ?a ?z @ bs"
    unfolding mem_read_add by (simp add: mem_read_write_other mem_read_write_same)
  then show "accepted out (s\<lparr>bs_mem := mem_write (bs_mem s) (?a + ?z) bs\<rparr>)
      (f\<lparr>bfd_b := (bfd_b f)\<lparr>xb_sz := ?z + length bs\<rparr>\<rparr>) = accepted out s f @ bs"
    by (simp add: accepted_def buffered_def)
  show "wr_ok (f\<lparr>bfd_b := (bfd_b f)\<lparr>xb_sz := ?z + length bs\<rparr>\<rparr>)"
    using ok fits by (simp add: wr_ok_def bfd_buffered_def)
qed

lemma bwrite_buffered_ok:
  assumes law: "write_law fs out" and ok: "wr_ok f"
    and r: "bwrite_buffered fs s f bs = (r, s', f')" "r = int (length bs)"
  shows "wr_ok f' \<and> accepted out s' f' = accepted out s f @ bs \<and> bfd_fd f' = bfd_fd f
    \<and> flush_failed s' = flush_failed s"
proof -
  obtain r1 s1 f1 where 1:
    "(if xb_sz (bfd_b f) + length bs > BUFSIZE then bflush fs s f else (0, s, f)) = (r1, s1, f1)"
    by (metis prod_cases3)
  have nn: "0 \<le> r1" using r 1 by (auto simp: bwrite_buffered_def split: if_splits)
  have f1: "wr_ok f1" "accepted out s1 f1 = accepted out s f" "bfd_fd f1 = bfd_fd f"
    "flush_failed s1 = flush_failed s"
    "xb_sz (bfd_b f1) = 0 \<or> xb_sz (bfd_b f1) + length bs \<le> BUFSIZE"
    using 1 ok nn bflush_ok [OF law ok, of s r1 s1 f1] by (auto split: if_splits)
  show ?thesis
  proof (cases "length bs > BUFSIZE")
    case True
    obtain n w where w: "sys_write fs (files s1) (bfd_fd f1) bs = (n, w)" by fastforce
    have eq: "r = n" "s' = s1\<lparr>files := w\<rparr>" "f' = f1"
      using r 1 nn True w by (auto simp: bwrite_buffered_def)
    have "xb_sz (bfd_b f1) = 0" using f1(5) True by linarith
    then have "buffered s1 f1 = []" "buffered s' f1 = []" by (simp_all add: buffered_def)
    moreover have "out w (bfd_fd f1) = out (files s1) (bfd_fd f1) @ bs"
      using law [unfolded write_law_def] w eq(1) r(2) by (metis nat_int of_nat_0_le_iff order_refl take_all)
    ultimately show ?thesis using f1 eq by (simp add: accepted_def)
  next
    case False
    then have "xb_sz (bfd_b f1) + length bs \<le> BUFSIZE" using f1(5) by linarith
    note small = bwrite_small [OF f1(1) this]
    have "s' = s1\<lparr>bs_mem := mem_write (bs_mem s1) (xb_data (bfd_b f1) + xb_sz (bfd_b f1)) bs\<rparr>"
      "f' = f1\<lparr>bfd_b := (bfd_b f1)\<lparr>xb_sz := xb_sz (bfd_b f1) + length bs\<rparr>\<rparr>"
      using r 1 nn False by (auto simp: bwrite_buffered_def Let_def)
    then show ?thesis using small(1) [of out s1] small(2) f1 by simp
  qed
qed

lemma bwrite_buffered_le:
  assumes "write_law fs out" "bwrite_buffered fs s f bs = (r, s', f')"
  shows "r \<le> int (length bs)"
proof -
  obtain r1 s1 f1 where 1:
    "(if xb_sz (bfd_b f) + length bs > BUFSIZE then bflush fs s f else (0, s, f)) = (r1, s1, f1)"
    by (metis prod_cases3)
  obtain n w where w: "sys_write fs (files s1) (bfd_fd f1) bs = (n, w)" by fastforce
  have "n \<le> int (length bs)" using assms(1) [unfolded write_law_def] w by (metis linorder_le_cases of_nat_0_le_iff order_trans)
  then show ?thesis using assms(2) 1 w
    by (auto simp: bwrite_buffered_def Let_def split: if_splits)
qed

lemma bwritev_loop_ok:
  assumes "write_law fs out" "wr_ok f" "bwritev_loop fs s f vs n = (r, s', f')"
    "r = n + int (length (concat vs))" "0 \<le> n"
  shows "wr_ok f' \<and> accepted out s' f' = accepted out s f @ concat vs"
  using assms
proof (induction vs arbitrary: s f n)
  case (Cons v vs)
  obtain r1 s1 f1 where 1: "bwrite_buffered fs s f v = (r1, s1, f1)" by (metis prod_cases3)
  have "r1 \<le> int (length v)" by (rule bwrite_buffered_le [OF Cons.prems(1) 1])
  then have r1: "r1 = int (length v)"
    using Cons.prems(3-5) 1 by (auto split: if_splits)
  then have "bwritev_loop fs s1 f1 vs (n + r1) = (r, s', f')" using Cons.prems(3) 1 by simp
  moreover have "wr_ok f1" "accepted out s1 f1 = accepted out s f @ v"
    using bwrite_buffered_ok [OF Cons.prems(1,2) 1 r1] by auto
  ultimately show ?case using Cons.IH [of f1 s1 "n + r1"] Cons.prems r1 by simp
qed simp

text \<open>A writer of an image: a sequence of \<open>bwrite\<close> calls that stops at the first short one.\<close>

fun bwrite_all :: "'w file_sys \<Rightarrow> 'w bstate \<Rightarrow> bfd \<Rightarrow> byte list list \<Rightarrow> bool \<times> 'w bstate \<times> bfd" where
  "bwrite_all fs s f [] = (True, s, f)"
| "bwrite_all fs s f (v # vs) =
     (case bwrite fs s f v of
        (ret, s, f) \<Rightarrow> if ret = int (length v) then bwrite_all fs s f vs else (False, s, f))"

lemma bwrite_all_ok:
  assumes "write_law fs out" "wr_ok f" "bwrite_all fs s f vs = (True, s', f')"
  shows "wr_ok f' \<and> accepted out s' f' = accepted out s f @ concat vs \<and> bfd_fd f' = bfd_fd f
    \<and> writable f' = writable f"
  using assms
proof (induction vs arbitrary: s f)
  case (Cons v vs)
  obtain r1 s1 f1 where 1: "bwrite fs s f v = (r1, s1, f1)" by (metis prod_cases3)
  then have r1: "r1 = int (length v)" "bwrite_all fs s1 f1 vs = (True, s', f')"
    using Cons.prems(3) by (auto split: if_splits)
  have w: "bwrite_buffered fs s f v = (r1, s1, f1)"
    using 1 Cons.prems(2) by (simp add: bwrite_def wr_ok_def)
  then have "writable f1 = writable f"
    by (auto simp: bwrite_buffered_def bflush_def Let_def split: if_splits prod.splits)
  then show ?case
    using bwrite_buffered_ok [OF Cons.prems(1,2) w r1(1)] Cons.IH [OF Cons.prems(1) _ r1(2)] by simp
qed simp

lemma close_safe_ok:
  "write_law fs out \<Longrightarrow> close_safe fs s fd = (s', fd') \<Longrightarrow>
   out (files s') x = out (files s) x \<and> flush_failed s' = flush_failed s"
  by (auto simp: close_safe_def write_law_def split: prod.splits if_splits)

lemma bclose_ok:
  assumes law: "write_law fs out" and ok: "wr_ok f" "writable f"
    and c: "bclose fs s f = (s', f')" and good: "bfd_flush_images s' = 0"
  shows "out (files s') (bfd_fd f) = accepted out s f"
proof -
  obtain r s1 f1 where r: "bflush fs s f = (r, s1, f1)" by (metis prod_cases3)
  have nn: "0 \<le> r"
    using c good ok r by (auto simp: bclose_def wr_ok_def bfd_flush_images_def buf_put_def close_safe_def
        split: prod.splits if_splits)
  note fl = bflush_ok [OF law ok(1) r nn]
  obtain s2 xb where p: "buf_put s1 (bfd_b f1) = (s2, xb)" by fastforce
  then have "files s2 = files s1" by (auto simp: buf_put_def)
  moreover have "close_safe fs s2 (bfd_fd f1) = (s', bfd_fd f')"
    using c ok r nn p by (auto simp: bclose_def wr_ok_def split: prod.splits)
  ultimately show ?thesis using close_safe_ok [OF law] fl(5) by metis
qed

subsection \<open>Buffers of open files never overlap\<close>

definition apart :: "ulong list \<Rightarrow> bool" where
  "apart bs \<longleftrightarrow>
     distinct bs \<and> (\<forall>a\<in>set bs. \<forall>b\<in>set bs. a \<noteq> b \<longrightarrow> a + BUFSIZE \<le> b \<or> b + BUFSIZE \<le> a)"

text \<open>
  The pool with the pages that open files hold: any sequence of \<open>buf_get\<close> and \<open>buf_put\<close>, where
  a fresh batch that \<open>mmap\<close> returns overlaps no page in use.
\<close>

inductive pool_reach :: "'w bstate \<Rightarrow> ulong list \<Rightarrow> bool" where
  init: "bufs s = [] \<Longrightarrow> pool_reach s []"
| get: "pool_reach s live \<Longrightarrow> buf_get mmap_ret xmalloc_ok s xb = (0, s', xb') \<Longrightarrow>
     (\<And>mem b. mmap_ret = Some mem \<Longrightarrow> b \<in> set live \<Longrightarrow>
        mem + BUFBATCH * BUFSIZE \<le> b \<or> b + BUFSIZE \<le> mem) \<Longrightarrow>
     pool_reach s' (xb_mem xb' # live)"
| put: "pool_reach s live \<Longrightarrow> xb_buf xb = Some b \<Longrightarrow> b \<in> set live \<Longrightarrow> buf_put s xb = (s', xb') \<Longrightarrow>
     pool_reach s' (remove1 b live)"
| other: "pool_reach s live \<Longrightarrow> bufs s' = bufs s \<Longrightarrow> pool_reach s' live"

lemma buf_refill_map:
  "buf_refill ok mem i n bs = Some cs \<Longrightarrow>
   \<exists>k\<le>n. cs = bs @ map (\<lambda>j. mem + j * BUFSIZE) [i..<i + k] \<and> (i = 0 \<and> 0 < n \<longrightarrow> 0 < k)"
proof (induction ok mem i n bs rule: buf_refill.induct)
  case (2 ok mem i n bs)
  show ?case
  proof (cases "ok i")
    case True
    then obtain k where "k \<le> n" "cs = (bs @ [mem + i * BUFSIZE]) @ map (\<lambda>j. mem + j * BUFSIZE) [i + 1..<i + 1 + k]"
      using 2 by auto
    then show ?thesis by (intro exI [of _ "Suc k"]) (simp add: upt_rec [of i])
  next
    case False
    then show ?thesis using "2.prems" by (intro exI [of _ 0]) (auto split: if_splits)
  qed
qed simp

lemma mult_BUFSIZE_less: "i < j \<Longrightarrow> i * BUFSIZE + BUFSIZE \<le> j * BUFSIZE"
  using mult_le_mono1 [of "Suc i" j BUFSIZE] by simp

lemma batch_apart: "apart (map (\<lambda>j. mem + j * BUFSIZE) [0..<k])"
proof -
  have "mem + i * BUFSIZE + BUFSIZE \<le> mem + j * BUFSIZE \<or> mem + j * BUFSIZE + BUFSIZE \<le> mem + i * BUFSIZE"
    if "mem + i * BUFSIZE \<noteq> mem + j * BUFSIZE" for i j
    using that mult_BUFSIZE_less [of i j] mult_BUFSIZE_less [of j i] by (cases i j rule: linorder_cases) auto
  moreover have "inj_on (\<lambda>j. mem + j * BUFSIZE) X" for X
    using BUFSIZE_pos by (auto simp: inj_on_def simp del: BUFSIZE_pos)
  ultimately show ?thesis by (simp add: apart_def distinct_map)
qed

lemma apart_subset: "apart xs \<Longrightarrow> distinct ys \<Longrightarrow> set ys \<subseteq> set xs \<Longrightarrow> apart ys"
  by (auto simp: apart_def)

lemma apart_append:
  assumes "apart xs" "apart ys" "\<And>a b. a \<in> set xs \<Longrightarrow> b \<in> set ys \<Longrightarrow> a + BUFSIZE \<le> b \<or> b + BUFSIZE \<le> a"
  shows "apart (xs @ ys)"
proof -
  have "a \<noteq> b" if "a \<in> set xs" "b \<in> set ys" for a b
    using assms(3) [OF that] BUFSIZE_pos by linarith
  then have "set xs \<inter> set ys = {}" by blast
  then show ?thesis using assms unfolding apart_def by (auto dest: assms(3))
qed

lemma batch_apart_live:
  assumes "k \<le> BUFBATCH" "\<And>b. b \<in> set live \<Longrightarrow> mem + BUFBATCH * BUFSIZE \<le> b \<or> b + BUFSIZE \<le> mem"
    "apart live"
  shows "apart (map (\<lambda>j. mem + j * BUFSIZE) [0..<k] @ live)"
proof -
  have "mem + j * BUFSIZE + BUFSIZE \<le> b \<or> b + BUFSIZE \<le> mem + j * BUFSIZE"
    if "j < k" "b \<in> set live" for j b
    using mult_le_mono1 [of "Suc j" BUFBATCH BUFSIZE] assms(1) assms(2) [OF that(2)] that(1) by auto
  then show ?thesis by (intro apart_append batch_apart assms(3)) fastforce
qed

lemma pool_reach_apart: "pool_reach s live \<Longrightarrow> apart (bufs s @ live)"
proof (induction rule: pool_reach.induct)
  case (get s live mmap_ret xmalloc_ok xb s' xb')
  obtain bs where bs: "bs \<noteq> []" "apart (bs @ live)" "bufs s' = tl bs" "xb_mem xb' = hd bs"
  proof (cases "bufs s = []")
    case True
    then obtain mem bs where m: "mmap_ret = Some mem" "buf_refill xmalloc_ok mem 0 BUFBATCH [] = Some bs"
      "bufs s' = tl bs" "xb_mem xb' = hd bs"
      using get.hyps(2) by (auto simp: buf_get_def split: option.splits)
    then obtain k where "k \<le> BUFBATCH" "0 < k" "bs = map (\<lambda>j. mem + j * BUFSIZE) [0..<k]"
      using buf_refill_map [OF m(2)] by (auto simp: BUFBATCH_def)
    moreover have "apart live" using get.IH True by simp
    ultimately show ?thesis
      using m get.hyps(3) [OF m(1)] that [of bs] batch_apart_live [of k live mem] by simp
  next
    case False
    with get that [of "bufs s"] show ?thesis by (auto simp: buf_get_def)
  qed
  then show ?case by (cases bs) (auto intro: apart_subset [OF bs(2)] simp: apart_def)
next
  case (put s live xb b s' xb')
  then have d: "distinct (bufs s @ live)" "bufs s' = b # bufs s" by (auto simp: apart_def buf_put_def)
  show ?case
    by (rule apart_subset [OF put.IH]) (use d put.hyps(3) in \<open>auto simp: set_remove1_eq\<close>)
qed (auto simp: apart_def)

subsection \<open>Properties\<close>

text \<open>
  (C19) \<open>bread\<close> on a buffered descriptor never hits its \<open>BUG_ON\<close> and always returns. Unless a \<open>read\<close> fails
  it delivers exactly the next \<open>sz\<close> bytes of the stream (fewer only at the end of the file), for every way in which \<open>read\<close>
  splits the file into chunks, returns their number and leaves the rest of the stream in place. It returns -1 only when
  the last \<open>read\<close> it made failed: the caller's buffer then has the bytes in front of the place where that \<open>read\<close> started.
\<close>

theorem bread_correct:
  assumes "read_law fs rest" "rd_ok f"
  shows "\<exists>r bs s' f'. bread fs s f sz = Ret (r, bs, s', f') \<and>
    (bs = take sz (pending rest s f) \<and> r = int (length bs) \<and> pending rest s' f' = drop sz (pending rest s f) \<and> rd_ok f' \<or>
     (\<exists>w. sys_read fs w (bfd_fd f) BUFSIZE = (None, files s') \<and> pending rest s f = bs @ rest w (bfd_fd f) \<and> length bs < sz \<and> r = -1))"
proof -
  obtain res where "bread_loop fs sz [] s f = Ret res" "bread_result fs rest (bfd_fd f) sz [] (pending rest s f) res"
    using bread_loop_spec [OF assms, of "[]" sz s] by auto
  moreover obtain r bs s' f' where "res = (r, bs, s', f')" by (metis prod_cases4)
  ultimately show ?thesis using assms(2) by (auto simp: bread_def rd_ok_def bread_result_def)
qed

text \<open>A file system with one file, read from its front; and an open buffered reader of it.\<close>

definition demo_fs :: "(byte list) file_sys" where
  "demo_fs = \<lparr>sys_read = (\<lambda>w fd n. (Some (take n w), drop n w)),
              sys_write = (\<lambda>w fd bs. (int (length bs), w @ bs)),
              sys_close = (\<lambda>w fd. (0, w))\<rparr>"

definition demo_bs :: "byte list \<Rightarrow> (byte list) bstate" where
  "demo_bs w = \<lparr>bs_mem = (\<lambda>_. 0), bufs = [], flush_failed = False, files = w\<rparr>"

definition demo_bfd :: "bool \<Rightarrow> bfd" where
  "demo_bfd wr = \<lparr>bfd_fd = 3, writable = wr,
     bfd_b = \<lparr>xb_mem = 4096, xb_data = 4096, xb_sz = 0, xb_buf = Some 4096\<rparr>\<rparr>"

lemma demo_bfd_ok:
  "line_reads demo_fs (\<lambda>w fd. w)" "read_law demo_fs (\<lambda>w fd. w)" "write_law demo_fs (\<lambda>w fd. w)"
  "rd_ok (demo_bfd wr)" "wr_ok (demo_bfd wr)" "pending (\<lambda>w fd. w) (demo_bs w) (demo_bfd wr) = w"
  "accepted (\<lambda>w fd. w) (demo_bs w) (demo_bfd wr) = w"
  by (auto simp: line_reads_def read_law_def write_law_def demo_fs_def rd_ok_def wr_ok_def demo_bfd_def
      demo_bs_def pending_def accepted_def buffered_def bfd_buffered_def)

theorem bread_correct_witness:
  "\<exists>s' f'. bread demo_fs (demo_bs [1, 2, 3]) (demo_bfd False) 2 = Ret (2, [1, 2], s', f') \<and> pending (\<lambda>w fd. w) s' f' = [3]"
proof -
  have "fst (sys_read demo_fs w fd n) \<noteq> None" for w fd n by (simp add: demo_fs_def)
  then have no: "sys_read demo_fs w fd n \<noteq> (None, w')" for w fd n w' by (metis fst_conv)
  obtain r bs s' f' where b: "bread demo_fs (demo_bs [1, 2, 3]) (demo_bfd False) 2 = Ret (r, bs, s', f')"
    "bs = take 2 [1, 2, 3] \<and> r = int (length bs) \<and> pending (\<lambda>w fd. w) s' f' = drop 2 [1, 2, 3]"
    using bread_correct [OF demo_bfd_ok(2,4), of "demo_bs [1, 2, 3]" False 2] unfolding demo_bfd_ok(6) by (elim exE conjE disjE) (simp_all add: no)
  then show ?thesis by simp
qed

text \<open>
  (C21) \<open>breadchr\<close>, whatever \<open>read\<close> does. When the buffer has the separator, the result is the NUL-terminated string in front
  of it, without a \<open>read\<close>. Otherwise there is one \<open>read\<close>. When it fails, the result is an error pointer and the buffer keeps its bytes. When it
  succeeds, in full or short, the bytes that were in the buffer followed by those that were read decide: the result is the string up to the separator,
  and what follows it stays in the buffer; without a separator all of them are the string; there is \<open>NULL\<close>
  when there are none, and also when they fill the buffer, which then keeps them.
\<close>

theorem breadchr_correct:
  assumes "read_law fs rest" "rd_ok f"
  shows "if c \<in> set (buffered s f) then chr_result (chr_spec c (buffered s f)) (files s) (bfd_fd f) (breadchr fs s f c)
    else (case sys_read fs (files s) (bfd_fd f) (BUFSIZE - length (buffered s f)) of
            (None, w) \<Rightarrow> \<exists>s' f'. breadchr fs s f c = (Err_ptr, s', f') \<and> files s' = w \<and> buffered s' f' = buffered s f
          | (Some bs, w) \<Rightarrow> chr_result (chr_spec c (buffered s f @ bs)) w (bfd_fd f) (breadchr fs s f c))"
proof (cases "c \<in> set (buffered s f)")
  case True
  then show ?thesis using breadchr_seen [OF assms(2) True] by simp
next
  case miss: False
  obtain r w where rd: "sys_read fs (files s) (bfd_fd f) (BUFSIZE - xb_sz (bfd_b f)) = (r, w)" by fastforce
  show ?thesis
  proof (cases r)
    case None
    then show ?thesis using breadchr_fails [OF miss] rd miss by simp
  next
    case (Some bs)
    then show ?thesis using breadchr_refill [OF assms miss] rd miss by simp
  qed
qed

theorem breadchr_correct_witness:
  "chr_result (Some [97], [98, 10]) [] 3 (breadchr demo_fs (demo_bs [97, 10, 98, 10]) (demo_bfd False) 10)"
proof -
  have "buffered (demo_bs w) (demo_bfd False) = []" "bfd_fd (demo_bfd False) = 3" for w by (simp_all add: buffered_def demo_bfd_def)
  moreover have "sys_read demo_fs (files (demo_bs [97, 10, 98, 10])) 3 BUFSIZE = (Some [97, 10, 98, 10], [])"
    by (simp add: demo_fs_def demo_bs_def BUFSIZE_def PAGE_SIZE_def)
  moreover have "chr_spec 10 [97, 10, 98, 10] = (Some [97], [98, 10])" by (simp add: chr_spec_def)
  ultimately show ?thesis
    using breadchr_correct [OF demo_bfd_ok(2,4), of 10 "demo_bs [97, 10, 98, 10]" False] by simp
qed

text \<open>
  (C20) Reading a text file line by line until \<open>NULL\<close> ends and gives exactly the lines of the file, in order, the last one also when it
  lacks its newline. The conditions: no \<open>read\<close> fails, a \<open>read\<close> comes short only at the end of a line or of the file, every line is shorter
  than the buffer of one page, and there are no NUL bytes.
\<close>

theorem read_lines_complete:
  assumes "line_reads fs rest" "rd_ok f" "text_file (pending rest s f)"
  shows "\<exists>fuel. read_lines fuel fs s f = Some (split_lines [] (pending rest s f))"
  using read_lines_spec [OF assms] by blast

theorem read_lines_complete_witness:
  "\<exists>fuel. read_lines fuel demo_fs (demo_bs [97, 10, 98]) (demo_bfd False) = Some [[97], [98]]"
  using read_lines_complete [OF demo_bfd_ok(1,4), of "demo_bs [97, 10, 98]" False]
  by (simp add: demo_bfd_ok text_file_def newline_def BUFSIZE_def PAGE_SIZE_def)

text \<open>
  (C11) Writing an image: when every \<open>bwrite\<close> reported all its bytes and, after
  \<open>bclose\<close>, \<open>bfd_flush_images\<close> reports no failure, the file holds its former contents followed
  by all the bytes written, in order, whatever mixture of buffered and direct writes took
  place.
\<close>

theorem bwrite_close_durable:
  assumes "write_law fs out" "wr_ok f" "writable f"
    and "bwrite_all fs s f vs = (True, s1, f1)" "bclose fs s1 f1 = (s2, f2)" "bfd_flush_images s2 = 0"
  shows "out (files s2) (bfd_fd f) = accepted out s f @ concat vs"
  using bwrite_all_ok [OF assms(1,2,4)] bclose_ok [OF assms(1) _ _ assms(5,6)] assms(3) by metis

theorem bwrite_close_durable_witness:
  "files (fst (bclose demo_fs (fst (snd (bwrite_all demo_fs (demo_bs [7]) (demo_bfd True) [[1, 2], [3]])))
     (snd (snd (bwrite_all demo_fs (demo_bs [7]) (demo_bfd True) [[1, 2], [3]]))))) = [7, 1, 2, 3]"
proof -
  have 1: "\<exists>s1 f1. bwrite_all demo_fs (demo_bs [7]) (demo_bfd True) [[1, 2], [3]] = (True, s1, f1)
      \<and> \<not> flush_failed s1 \<and> wr_ok f1 \<and> writable f1 \<and> bfd_fd f1 = 3"
    by (simp add: bwrite_def bwrite_buffered_def demo_bfd_def demo_bs_def bfd_buffered_def BUFSIZE_def
        PAGE_SIZE_def wr_ok_def Let_def)
  then obtain s1 f1 where 2: "bwrite_all demo_fs (demo_bs [7]) (demo_bfd True) [[1, 2], [3]] = (True, s1, f1)"
    "\<not> flush_failed s1" "wr_ok f1" "writable f1" "bfd_fd f1 = 3" by blast
  obtain s2 f2 where 3: "bclose demo_fs s1 f1 = (s2, f2)" by fastforce
  have "bfd_flush_images s2 = 0"
    using 2 3 by (auto simp: bclose_def bflush_def demo_fs_def wr_ok_def bfd_flush_images_def buf_put_def
        close_safe_def Let_def split: if_splits)
  from bwrite_close_durable [OF demo_bfd_ok(3,5) _ 2(1) 3 this] 2(1) 3 show ?thesis
    by (simp add: demo_bfd_ok) (simp add: demo_bfd_def)
qed

text \<open>
  (C27) The pages that open buffered files hold, and the pages in the free pool, are
  pairwise disjoint: no two open files ever share buffer memory, in whatever order files are
  opened and closed, also when a refill of the pool is only partial.
\<close>

theorem bfd_buffers_apart:
  assumes "pool_reach s live"
  shows "apart (bufs s @ live)"
  by (rule pool_reach_apart [OF assms])

theorem bfd_buffers_apart_witness:
  "apart (bufs (fst (snd (buf_get (Some 65536) (\<lambda>i. i < 2) (demo_bs []) (bfd_b (demo_bfd False)))))
     @ [65536]) \<and>
   bufs (fst (snd (buf_get (Some 65536) (\<lambda>i. i < 2) (demo_bs []) (bfd_b (demo_bfd False))))) = [69632]"
proof -
  have b: "BUFBATCH = Suc (Suc (Suc 13))" by (simp add: BUFBATCH_def)
  have r: "buf_refill (\<lambda>i. i < 2) 65536 0 BUFBATCH [] = Some [65536, 69632]"
    unfolding b buf_refill.simps by (simp add: BUFSIZE_def PAGE_SIZE_def)
  have g: "\<exists>s xb. buf_get (Some 65536) (\<lambda>i. i < 2) (demo_bs []) (bfd_b (demo_bfd False)) = (0, s, xb)
      \<and> xb_mem xb = 65536 \<and> bufs s = [69632]"
    by (simp add: buf_get_def demo_bs_def r)
  then obtain s xb where g: "buf_get (Some 65536) (\<lambda>i. i < 2) (demo_bs []) (bfd_b (demo_bfd False)) = (0, s, xb)"
    "xb_mem xb = 65536" "bufs s = [69632]" by blast
  have "pool_reach s [xb_mem xb]"
    by (rule pool_reach.get [OF pool_reach.init g(1)]) (simp_all add: demo_bs_def)
  from bfd_buffers_apart [OF this] g show ?thesis by simp
qed

end
