(* ===== verification/ServiceFd.thy ===== *)
theory ServiceFd
  imports Bitmap
begin

unbundle bit_operations_syntax

text \<open>
  Service file descriptors, \<open>criu/servicefd.c\<close>.

  Descriptors that the tool itself needs (log, images, proc, sockets) live at numbers above
  those of the task being restored: type \<open>t\<close> of the process with id \<open>k\<close> in a shared table is at
  \<open>base - t - SERVICE_FD_MAX * k\<close>. The theory models how the base is chosen, how a descriptor
  is installed and closed, and how the whole set is moved when a task is forked. The
  descriptor table of the process is a map from numbers to open files; the system calls on
  it are the record \<open>fd_sys\<close> with their documented contract as \<open>fd_sys_ok\<close>.
\<close>

subsection \<open>Types and state\<close>

definition SERVICE_FD_MIN :: nat where "SERVICE_FD_MIN = 0"

definition LOG_FD_OFF :: nat where "LOG_FD_OFF = 1"

definition SERVICE_FD_MAX :: nat where "SERVICE_FD_MAX = 16"

text \<open>The names table; a type without an entry has the null pointer, here None.\<close>

definition sfd_names :: "(nat \<times> string) list" where
  "sfd_names =
     [(0, ''SERVICE_FD_MIN''), (1, ''LOG_FD_OFF''), (2, ''IMG_FD_OFF''), (4, ''PROC_FD_OFF''),
      (5, ''PROC_PID_FD_OFF''), (6, ''PROC_SELF_FD_OFF''), (7, ''CR_PROC_FD_OFF''),
      (8, ''ROOT_FD_OFF''), (9, ''CGROUP_YARD''), (10, ''USERNSD_SK''), (11, ''NS_FD_OFF''),
      (12, ''TRANSPORT_FD_OFF''), (13, ''RPC_SK_OFF''), (14, ''FDSTORE_SK_OFF''),
      (16, ''SERVICE_FD_MAX'')]"

definition sfd_type_name :: "nat \<Rightarrow> string option" where
  "sfd_type_name ty = (if ty < SERVICE_FD_MAX + 1 then map_of sfd_names ty else Some ''UNKNOWN'')"

type_synonym fdtab = "int \<Rightarrow> nat option"

record fd_sys =
  sys_close :: "fdtab \<Rightarrow> int \<Rightarrow> int \<times> fdtab"
  sys_dup2 :: "fdtab \<Rightarrow> int \<Rightarrow> int \<Rightarrow> int \<times> fdtab"
  sys_dup3 :: "fdtab \<Rightarrow> int \<Rightarrow> int \<Rightarrow> int \<times> fdtab"
  sys_dupfd :: "fdtab \<Rightarrow> int \<Rightarrow> int \<Rightarrow> int \<times> fdtab"

record sfd_state =
  service_fd_rlim_cur :: int
  service_fd_base :: int
  service_fd_id :: int
  sfd_map :: bitmap
  sfd_arr :: "int list"
  sfds_protected :: bool
  inh_fd_max :: int
  fd_table :: fdtab

text \<open>What the code reads of a task: its descriptors in ascending order, and its fdt.\<close>

record rst_task =
  fds :: "int list"
  clone_files :: bool
  rst_service_fd_id :: int
  fdt_nr :: "int option"

subsection \<open>Operations\<close>

definition get_service_fd_id :: "sfd_state \<Rightarrow> nat \<Rightarrow> int \<Rightarrow> int" where
  "get_service_fd_id s ty k = service_fd_base s - int ty - int SERVICE_FD_MAX * k"

definition init_service_fd :: "int option \<Rightarrow> sfd_state \<Rightarrow> int \<times> sfd_state" where
  "init_service_fd rlim s =
     (case rlim of None \<Rightarrow> (-1, s) | Some cur \<Rightarrow> (0, s\<lparr>service_fd_rlim_cur := signed_take_bit 31 cur\<rparr>))"

definition get_service_fd :: "sfd_state \<Rightarrow> nat \<Rightarrow> int outcome" where
  "get_service_fd s ty =
     (if ty \<le> SERVICE_FD_MIN \<or> SERVICE_FD_MAX \<le> ty then Bug
      else if \<not> test_bit ty (sfd_map s) then Ret (-1)
      else if service_fd_base s = 0 then Ret (sfd_arr s ! ty)
      else Ret (get_service_fd_id s ty (service_fd_id s)))"

definition is_any_service_fd :: "sfd_state \<Rightarrow> int \<Rightarrow> bool" where
  "is_any_service_fd s fd =
     (let sfd_min_fd = get_service_fd_id s SERVICE_FD_MAX (service_fd_id s);
          sfd_max_fd = get_service_fd_id s SERVICE_FD_MIN (service_fd_id s)
      in if fd > sfd_min_fd \<and> fd < sfd_max_fd
         then (let ty = int SERVICE_FD_MAX - (fd - sfd_min_fd)
               in if ty > int SERVICE_FD_MIN \<and> ty < int SERVICE_FD_MAX
                  then test_bit (nat ty) (sfd_map s) else False)
         else False)"

definition is_service_fd :: "sfd_state \<Rightarrow> int \<Rightarrow> nat \<Rightarrow> bool outcome" where
  "is_service_fd s fd ty = bind_outcome (get_service_fd s ty) (\<lambda>sfd. Ret (fd = sfd))"

definition service_fd_min_fd :: "sfd_state \<Rightarrow> rst_task \<Rightarrow> int" where
  "service_fd_min_fd s item =
     (let k = (case fdt_nr item of None \<Rightarrow> 0 | Some nr \<Rightarrow> nr - 1)
      in service_fd_rlim_cur s - (int SERVICE_FD_MAX - 1) - int SERVICE_FD_MAX * k)"

definition install_service_fd :: "fd_sys \<Rightarrow> sfd_state \<Rightarrow> nat \<Rightarrow> int \<Rightarrow> (int \<times> sfd_state) outcome" where
  "install_service_fd sys s ty fd =
     (let sfd = get_service_fd_id s ty (service_fd_id s)
      in if ty \<le> SERVICE_FD_MIN \<or> SERVICE_FD_MAX \<le> ty then Bug
         else if sfds_protected s \<and> \<not> test_bit ty (sfd_map s) then Bug
         else if service_fd_base s = 0
         then (let tab = (if test_bit ty (sfd_map s)
                          then snd (sys_close sys (fd_table s) (sfd_arr s ! ty)) else fd_table s)
               in Ret (fd, s\<lparr>fd_table := tab, sfd_arr := (sfd_arr s)[ty := fd],
                             sfd_map := set_bit_map ty (sfd_map s)\<rparr>))
         else (let (tmp, tab) = (if \<not> test_bit ty (sfd_map s)
                                 then sys_dupfd sys (fd_table s) fd sfd
                                 else sys_dup3 sys (fd_table s) fd sfd)
               in if tmp < 0
                  then Ret (-1, s\<lparr>fd_table := snd (sys_close sys tab fd)\<rparr>)
                  else if tmp \<noteq> sfd
                  then Ret (-1, s\<lparr>fd_table := snd (sys_close sys (snd (sys_close sys tab tmp)) fd)\<rparr>)
                  else Ret (sfd, s\<lparr>sfd_map := set_bit_map ty (sfd_map s),
                                   fd_table := snd (sys_close sys tab fd)\<rparr>)))"

definition close_service_fd :: "fd_sys \<Rightarrow> sfd_state \<Rightarrow> nat \<Rightarrow> (int \<times> sfd_state) outcome" where
  "close_service_fd sys s ty =
     (if sfds_protected s then Bug
      else bind_outcome (get_service_fd s ty) (\<lambda>fd.
        if fd < 0 then Ret (0, s)
        else (case sys_close sys (fd_table s) fd of
                (ret, tab) \<Rightarrow>
                  if ret \<noteq> 0 then Ret (-1, s\<lparr>fd_table := tab\<rparr>)
                  else Ret (0, s\<lparr>fd_table := tab, sfd_map := clear_bit ty (sfd_map s)\<rparr>))))"

text \<open>The number that a type gets under a new base and id.\<close>

definition new_sfd :: "int \<Rightarrow> int \<Rightarrow> nat \<Rightarrow> int" where
  "new_sfd new_base k ty = new_base - int ty - int SERVICE_FD_MAX * k"

definition move_service_fd :: "fd_sys \<Rightarrow> rst_task \<Rightarrow> nat \<Rightarrow> int \<Rightarrow> int \<Rightarrow> bool \<Rightarrow> sfd_state \<Rightarrow>
    (int \<times> sfd_state) outcome" where
  "move_service_fd sys me ty new_id new_base cleanup_parent_sfdt s =
     bind_outcome (get_service_fd s ty) (\<lambda>old.
       let new = new_sfd new_base new_id ty;
           tab = (if cleanup_parent_sfdt \<and> new \<noteq> old then snd (sys_close sys (fd_table s) new)
                  else fd_table s)
       in if old < 0 then Ret (0, s\<lparr>fd_table := tab\<rparr>)
          else (let (ret, tab) = (if \<not> test_bit ty (sfd_map s) then sys_dupfd sys tab old new
                                  else sys_dup2 sys tab old new)
                in if ret = -1 then Ret (-1, s\<lparr>fd_table := tab\<rparr>)
                   else if ret \<noteq> new then Ret (-1, s\<lparr>fd_table := tab\<rparr>)
                   else if \<not> clone_files me
                   then Ret (0, s\<lparr>fd_table := snd (sys_close sys tab old)\<rparr>)
                   else Ret (0, s\<lparr>fd_table := tab\<rparr>)))"

text \<open>\<open>32 - __builtin_clz(n)\<close>, the number of significant bits of a positive \<open>n\<close>.\<close>

fun bit_len :: "nat \<Rightarrow> nat" where
  "bit_len n = (if n = 0 then 0 else Suc (bit_len (n div 2)))"

declare bit_len.simps [simp del]

definition FDT_ALIGN :: int where
  "FDT_ALIGN = 128"

text \<open>The power of two above the number of whole chunks.\<close>

definition fdt_chunks :: "int \<Rightarrow> int" where
  "fdt_chunks nr = (if nr \<noteq> 0 then 2 ^ bit_len (nat nr) else 1)"

text \<open>The highest descriptor that the task has open.\<close>

definition max_fd :: "sfd_state \<Rightarrow> rst_task \<Rightarrow> int" where
  "max_fd s me = max (if fds me \<noteq> [] then last (fds me) else -1) (inh_fd_max s)"

definition fdt_users :: "rst_task \<Rightarrow> int" where
  "fdt_users me = (case fdt_nr me of None \<Rightarrow> 1 | Some nr \<Rightarrow> nr)"

definition choose_service_fd_base :: "sfd_state \<Rightarrow> rst_task \<Rightarrow> int" where
  "choose_service_fd_base s me =
     (if fdt_nr me \<noteq> None \<and> rst_service_fd_id me \<noteq> 0 then service_fd_base s
      else (let nr = max_fd s me;
                nr = nr + (int SERVICE_FD_MAX - int SERVICE_FD_MIN) * fdt_users me;
                nr = nr + 16;
                real_nr = nr;
                nr = nr div FDT_ALIGN;
                nr = fdt_chunks nr;
                nr = signed_take_bit 31 (nr * FDT_ALIGN)
            in if nr > service_fd_rlim_cur s
               then (let nr = service_fd_rlim_cur s AND NOT (FDT_ALIGN - 1)
                     in if nr < real_nr then -1 else nr)
               else nr))"

text \<open>The loop of \<open>clone_service_fd\<close> over the types, whose results it drops.\<close>

fun move_service_fds :: "fd_sys \<Rightarrow> rst_task \<Rightarrow> nat list \<Rightarrow> int \<Rightarrow> int \<Rightarrow> bool \<Rightarrow> sfd_state \<Rightarrow> sfd_state outcome" where
  "move_service_fds sys me [] k new_base cleanup s = Ret s"
| "move_service_fds sys me (ty # tys) k new_base cleanup s =
     bind_outcome (move_service_fd sys me ty k new_base cleanup s)
       (\<lambda>(_, s). move_service_fds sys me tys k new_base cleanup s)"

definition clone_service_fd :: "fd_sys \<Rightarrow> rst_task \<Rightarrow> bool \<Rightarrow> sfd_state \<Rightarrow> (int \<times> sfd_state) outcome" where
  "clone_service_fd sys me cleanup_parent_sfdt s =
     (let new_base = choose_service_fd_base s me;
          k = rst_service_fd_id me;
          new_log = new_sfd new_base k LOG_FD_OFF
      in if new_base = -1 then Ret (-1, s)
         else bind_outcome (get_service_fd s LOG_FD_OFF) (\<lambda>log_fd.
           if log_fd = new_log then Ret (0, s)
           else bind_outcome
             (if log_fd < new_log
              then move_service_fds sys me [SERVICE_FD_MIN + 1..<SERVICE_FD_MAX] k new_base
                     cleanup_parent_sfdt s
              else move_service_fds sys me (rev [SERVICE_FD_MIN + 1..<SERVICE_FD_MAX]) k new_base
                     cleanup_parent_sfdt s)
             (\<lambda>s. Ret (0, s\<lparr>service_fd_base := new_base, service_fd_id := k\<rparr>))))"

subsection \<open>The descriptor system calls\<close>

text \<open>
  The documented effect of the calls on the table: \<open>close\<close> touches only its own entry and
  frees it when it succeeds; the \<open>dup\<close> family, when it succeeds, makes the target refer to the
  file of the source and changes nothing else, and nothing at all when it fails; \<open>F_DUPFD\<close>
  takes a free number that is not below its argument.
\<close>

definition fd_sys_ok :: "fd_sys \<Rightarrow> bool" where
  "fd_sys_ok sys \<longleftrightarrow>
     (\<forall>t fd r t'. sys_close sys t fd = (r, t') \<longrightarrow>
        (\<forall>x. x \<noteq> fd \<longrightarrow> t' x = t x) \<and> (r = 0 \<longrightarrow> t' fd = None)) \<and>
     (\<forall>t a b r t'. sys_dup2 sys t a b = (r, t') \<longrightarrow>
        (r = b \<and> t a \<noteq> None \<and> t' = t(b := t a)) \<or> (r = -1 \<and> t' = t)) \<and>
     (\<forall>t a b r t'. sys_dup3 sys t a b = (r, t') \<longrightarrow>
        (r = b \<and> a \<noteq> b \<and> t a \<noteq> None \<and> t' = t(b := t a)) \<or> (r = -1 \<and> t' = t)) \<and>
     (\<forall>t a b r t'. sys_dupfd sys t a b = (r, t') \<longrightarrow>
        (b \<le> r \<and> t a \<noteq> None \<and> t r = None \<and> t' = t(r := t a)) \<or> (r = -1 \<and> t' = t))"

lemma close_other: "fd_sys_ok sys \<Longrightarrow> x \<noteq> fd \<Longrightarrow> snd (sys_close sys t fd) x = t x"
  by (cases "sys_close sys t fd") (auto simp: fd_sys_ok_def)

lemma dup2_cases:
  assumes "fd_sys_ok sys"
  obtains "sys_dup2 sys t a b = (b, t(b := t a))" "t a \<noteq> None" | "sys_dup2 sys t a b = (-1, t)"
proof -
  obtain r t' where e: "sys_dup2 sys t a b = (r, t')" by fastforce
  then have "(r = b \<and> t a \<noteq> None \<and> t' = t(b := t a)) \<or> (r = -1 \<and> t' = t)"
    by (rule assms [unfolded fd_sys_ok_def, THEN conjunct2, THEN conjunct1, rule_format])
  then show thesis using e that by auto
qed

lemma dup3_cases:
  assumes "fd_sys_ok sys"
  obtains "sys_dup3 sys t a b = (b, t(b := t a))" "t a \<noteq> None" "a \<noteq> b" | "sys_dup3 sys t a b = (-1, t)"
proof -
  obtain r t' where e: "sys_dup3 sys t a b = (r, t')" by fastforce
  then have "(r = b \<and> a \<noteq> b \<and> t a \<noteq> None \<and> t' = t(b := t a)) \<or> (r = -1 \<and> t' = t)"
    by (rule assms [unfolded fd_sys_ok_def, THEN conjunct2, THEN conjunct2, THEN conjunct1, rule_format])
  then show thesis using e that by auto
qed

lemma dupfd_cases:
  assumes "fd_sys_ok sys"
  obtains r where "sys_dupfd sys t a b = (r, t(r := t a))" "t a \<noteq> None" "t r = None" "b \<le> r"
    | "sys_dupfd sys t a b = (-1, t)"
proof -
  obtain r t' where e: "sys_dupfd sys t a b = (r, t')" by fastforce
  then have "(b \<le> r \<and> t a \<noteq> None \<and> t r = None \<and> t' = t(r := t a)) \<or> (r = -1 \<and> t' = t)"
    by (rule assms [unfolded fd_sys_ok_def, THEN conjunct2, THEN conjunct2, THEN conjunct2, rule_format])
  then show thesis using e that by auto
qed

subsection \<open>The base is above every descriptor of the task\<close>

lemma bit_len_bound: "n < 2 ^ bit_len n"
proof (induction n rule: bit_len.induct)
  case (1 n)
  show ?case
  proof (cases "n = 0")
    case False
    then have "n div 2 < 2 ^ bit_len (n div 2)" using 1 by simp
    then have "n < 2 * 2 ^ bit_len (n div 2)" by linarith
    then show ?thesis using False by (simp add: bit_len.simps [of n])
  qed (simp add: bit_len.simps)
qed

lemma bit_len_le: "n < 2 ^ k \<Longrightarrow> bit_len n \<le> k"
proof (induction n arbitrary: k rule: bit_len.induct)
  case (1 n)
  show ?case
  proof (cases "n = 0")
    case False
    then obtain k' where k: "k = Suc k'" using "1.prems" by (cases k) auto
    then have "n div 2 < 2 ^ k'" using "1.prems" by auto
    then show ?thesis using "1.IH" [of k'] False k by (simp add: bit_len.simps [of n])
  qed (simp add: bit_len.simps)
qed

lemma and_not_127: "(x :: int) AND NOT (FDT_ALIGN - 1) = FDT_ALIGN * (x div FDT_ALIGN)"
proof -
  have "x AND NOT (mask 7) = push_bit 7 (drop_bit 7 x)"
    by (rule bit_eqI) (auto simp: bit_and_iff bit_not_iff bit_mask_iff bit_push_bit_iff bit_drop_bit_eq)
  then show ?thesis
    by (simp add: FDT_ALIGN_def mask_eq_exp_minus_1 push_bit_eq_mult drop_bit_eq_div)
qed

lemma choose_base_bounds:
  assumes own: "fdt_nr me = None \<or> rst_service_fd_id me = 0"
    and fd: "-1 \<le> max_fd s me" "0 \<le> fdt_users me" "max_fd s me + 16 * fdt_users me + 16 < 2 ^ 29"
    and base: "choose_service_fd_base s me = b" "b \<noteq> -1"
  shows "max_fd s me + 16 * fdt_users me + 16 \<le> b" "b \<le> service_fd_rlim_cur s"
proof -
  define nr where "nr = max_fd s me + 16 * fdt_users me + 16"
  define q where "q = nr div FDT_ALIGN"
  define p where "p = fdt_chunks q"
  have nr: "0 \<le> nr" "nr < 2 ^ 29" using fd by (simp_all add: nr_def)
  then have q: "0 \<le> q" "q < 2 ^ 22" by (auto simp: q_def FDT_ALIGN_def)
  have pq: "q < p" using q(1) bit_len_bound [of "nat q"] by (auto simp: p_def fdt_chunks_def nat_less_iff)
  have ple: "p \<le> 2 ^ 22"
    using power_increasing [OF bit_len_le [of "nat q" 22], of "2 :: int"] q by (auto simp: p_def fdt_chunks_def nat_less_iff)
  have "nr < FDT_ALIGN * (q + 1)" by (simp add: q_def FDT_ALIGN_def)
  also have "\<dots> \<le> FDT_ALIGN * p" using pq by (simp add: FDT_ALIGN_def)
  finally have big: "nr < p * FDT_ALIGN" by (simp add: mult.commute)
  have "signed_take_bit 31 (p * FDT_ALIGN) = p * FDT_ALIGN"
    using ple big nr by (intro signed_take_bit_int_eq_self) (simp_all add: FDT_ALIGN_def)
  then have eq: "choose_service_fd_base s me =
      (if p * FDT_ALIGN > service_fd_rlim_cur s
       then (let n = FDT_ALIGN * (service_fd_rlim_cur s div FDT_ALIGN) in if n < nr then -1 else n)
       else p * FDT_ALIGN)"
    using own
    by (cases "fdt_nr me") (simp_all add: choose_service_fd_base_def Let_def and_not_127
        SERVICE_FD_MAX_def SERVICE_FD_MIN_def flip: nr_def q_def p_def)
  have "FDT_ALIGN * (service_fd_rlim_cur s div FDT_ALIGN) \<le> service_fd_rlim_cur s"
    by (simp add: FDT_ALIGN_def)
  then show "max_fd s me + 16 * fdt_users me + 16 \<le> b" "b \<le> service_fd_rlim_cur s"
    using base big unfolding eq by (auto simp: Let_def simp flip: nr_def split: if_splits)
qed

subsection \<open>Moving the set\<close>

definition sfd_ok :: "sfd_state \<Rightarrow> bool" where
  "sfd_ok s \<longleftrightarrow> bm_size (sfd_map s) \<ge> SERVICE_FD_MAX \<and> length (sfd_arr s) = SERVICE_FD_MAX"

definition valid_sfd :: "nat \<Rightarrow> bool" where
  "valid_sfd ty \<longleftrightarrow> SERVICE_FD_MIN < ty \<and> ty < SERVICE_FD_MAX"

definition installed :: "sfd_state \<Rightarrow> nat \<Rightarrow> bool" where
  "installed s ty \<longleftrightarrow> valid_sfd ty \<and> test_bit ty (sfd_map s)"

text \<open>The number of a service descriptor of the current process.\<close>

definition sfd_at :: "sfd_state \<Rightarrow> nat \<Rightarrow> int" where
  "sfd_at s ty = get_service_fd_id s ty (service_fd_id s)"

lemma sfd_table_simps [simp]:
  "sfd_at (s\<lparr>fd_table := t\<rparr>) = sfd_at s" "installed (s\<lparr>fd_table := t\<rparr>) = installed s"
  by (auto simp: sfd_at_def get_service_fd_id_def installed_def fun_eq_iff)

lemma get_service_fd_valid:
  "valid_sfd ty \<Longrightarrow> service_fd_base s \<noteq> 0 \<Longrightarrow>
   get_service_fd s ty = Ret (if installed s ty then sfd_at s ty else -1)"
  by (auto simp: get_service_fd_def installed_def valid_sfd_def sfd_at_def)

lemma get_service_fd_table [simp]: "get_service_fd (s\<lparr>fd_table := t\<rparr>) ty = get_service_fd s ty"
  by (simp add: get_service_fd_def get_service_fd_id_def)

text \<open>
  One move. When \<open>dup2\<close> works, the file is at the new number, and every number that is neither
  the old nor the new one is untouched.
\<close>

definition dup2_works :: "fd_sys \<Rightarrow> bool" where
  "dup2_works sys \<longleftrightarrow> (\<forall>t a b. t a \<noteq> None \<longrightarrow> fst (sys_dup2 sys t a b) = b)"

lemma move_service_fd_effect:
  assumes sys: "fd_sys_ok sys" and works: "dup2_works sys"
    and ty: "valid_sfd ty" and base: "service_fd_base s \<noteq> 0"
    and ne: "new_sfd nb k ty \<noteq> sfd_at s ty" and pos: "0 \<le> sfd_at s ty" "0 \<le> new_sfd nb k ty"
    and opened: "installed s ty \<Longrightarrow> fd_table s (sfd_at s ty) \<noteq> None"
  obtains r t where "move_service_fd sys me ty k nb cl s = Ret (r, s\<lparr>fd_table := t\<rparr>)"
    "installed s ty \<Longrightarrow> t (new_sfd nb k ty) = fd_table s (sfd_at s ty)"
    "\<And>x. x \<noteq> new_sfd nb k ty \<Longrightarrow> x \<noteq> sfd_at s ty \<Longrightarrow> t x = fd_table s x"
proof (cases "installed s ty")
  case False
  define t where "t = (if cl \<and> new_sfd nb k ty \<noteq> -1 then snd (sys_close sys (fd_table s) (new_sfd nb k ty)) else fd_table s)"
  have "move_service_fd sys me ty k nb cl s = Ret (0, s\<lparr>fd_table := t\<rparr>)"
    using False ty base by (simp add: move_service_fd_def get_service_fd_valid t_def Let_def)
  moreover have "t x = fd_table s x" if "x \<noteq> new_sfd nb k ty" for x
    using that close_other [OF sys] by (simp add: t_def)
  ultimately show thesis using that [of 0 t] False by blast
next
  case True
  let ?new = "new_sfd nb k ty" and ?old = "sfd_at s ty"
  define t0 where "t0 = (if cl then snd (sys_close sys (fd_table s) ?new) else fd_table s)"
  have t0: "t0 x = fd_table s x" if "x \<noteq> ?new" for x
    using that close_other [OF sys] by (simp add: t0_def)
  have o: "t0 ?old \<noteq> None" using t0 [of ?old] ne opened [OF True] by auto
  have f: "fst (sys_dup2 sys t0 ?old ?new) = ?new" using works o unfolding dup2_works_def by blast
  have d: "sys_dup2 sys t0 ?old ?new = (?new, t0(?new := t0 ?old))"
    using f pos(2) by (cases rule: dup2_cases [OF sys, of t0 ?old ?new]) auto
  define t where "t = (if \<not> clone_files me then snd (sys_close sys (t0(?new := t0 ?old)) ?old) else t0(?new := t0 ?old))"
  have "test_bit ty (sfd_map s)" using True by (simp add: installed_def)
  moreover have "(if cl \<and> ?new \<noteq> ?old then snd (sys_close sys (fd_table s) ?new) else fd_table s) = t0"
    using ne by (simp add: t0_def)
  ultimately have "move_service_fd sys me ty k nb cl s = Ret (0, s\<lparr>fd_table := t\<rparr>)"
    using True ty base pos d
    by (simp add: move_service_fd_def get_service_fd_valid Let_def t_def)
  moreover have "t ?new = fd_table s ?old"
    using close_other [OF sys, of ?new ?old] ne t0 [of ?old] by (simp add: t_def)
  moreover have "t x = fd_table s x" if "x \<noteq> ?new" "x \<noteq> ?old" for x
    using that close_other [OF sys, of x ?old] t0 [of x] by (simp add: t_def)
  ultimately show thesis using that [of 0 t] by blast
qed

text \<open>No move of the list overwrites the source of a later one.\<close>

fun no_clobber :: "(nat \<Rightarrow> int) \<Rightarrow> (nat \<Rightarrow> int) \<Rightarrow> nat list \<Rightarrow> bool" where
  "no_clobber old new [] \<longleftrightarrow> True"
| "no_clobber old new (i # is) \<longleftrightarrow>
     (\<forall>j\<in>set is. new i \<noteq> old j \<and> new i \<noteq> new j \<and> old i \<noteq> old j) \<and> no_clobber old new is"

lemma move_service_fds_effect:
  assumes sys: "fd_sys_ok sys" and works: "dup2_works sys"
  shows "\<forall>ty\<in>set tys. valid_sfd ty \<and> new_sfd nb k ty \<noteq> sfd_at s ty \<and> 0 \<le> sfd_at s ty \<and> 0 \<le> new_sfd nb k ty
      \<and> (installed s ty \<longrightarrow> fd_table s (sfd_at s ty) \<noteq> None) \<Longrightarrow>
    service_fd_base s \<noteq> 0 \<Longrightarrow> no_clobber (sfd_at s) (new_sfd nb k) tys \<Longrightarrow>
    \<exists>t. move_service_fds sys me tys k nb cl s = Ret (s\<lparr>fd_table := t\<rparr>) \<and>
      (\<forall>ty\<in>set tys. installed s ty \<longrightarrow> t (new_sfd nb k ty) = fd_table s (sfd_at s ty)) \<and>
      (\<forall>x. x \<notin> new_sfd nb k ` set tys \<and> x \<notin> sfd_at s ` set tys \<longrightarrow> t x = fd_table s x)"
proof (induction tys arbitrary: s)
  case Nil
  then show ?case by (intro exI [of _ "fd_table s"]) simp
next
  case (Cons ty tys)
  obtain r t where m: "move_service_fd sys me ty k nb cl s = Ret (r, s\<lparr>fd_table := t\<rparr>)"
    and new: "installed s ty \<Longrightarrow> t (new_sfd nb k ty) = fd_table s (sfd_at s ty)"
    and oth: "\<And>x. x \<noteq> new_sfd nb k ty \<Longrightarrow> x \<noteq> sfd_at s ty \<Longrightarrow> t x = fd_table s x"
    by (rule move_service_fd_effect [OF sys works, where ty = ty and s = s and nb = nb and k = k
          and me = me and cl = cl]) (use Cons.prems in auto)
  let ?s = "s\<lparr>fd_table := t\<rparr>"
  have src: "t (sfd_at s j) = fd_table s (sfd_at s j)" if "j \<in> set tys" for j
    using Cons.prems(3) that by (intro oth) auto
  obtain u where u: "move_service_fds sys me tys k nb cl ?s = Ret (?s\<lparr>fd_table := u\<rparr>)"
    "\<forall>j\<in>set tys. installed ?s j \<longrightarrow> u (new_sfd nb k j) = fd_table ?s (sfd_at ?s j)"
    "\<forall>x. x \<notin> new_sfd nb k ` set tys \<and> x \<notin> sfd_at ?s ` set tys \<longrightarrow> u x = fd_table ?s x"
    using Cons.IH [of ?s] Cons.prems src by auto
  have "u (new_sfd nb k ty) = t (new_sfd nb k ty)" if "installed s ty"
    using u(3) Cons.prems(3) by auto
  then show ?case using m u new oth src by (intro exI [of _ u]) auto
qed

lemma no_clobber_up:
  "sorted_wrt (<) tys \<Longrightarrow> sfd_at s LOG_FD_OFF < new_sfd nb k LOG_FD_OFF \<Longrightarrow>
   no_clobber (sfd_at s) (new_sfd nb k) tys"
  by (induction tys) (auto simp: sfd_at_def new_sfd_def get_service_fd_id_def)

lemma no_clobber_down:
  "sorted_wrt (>) tys \<Longrightarrow> new_sfd nb k LOG_FD_OFF < sfd_at s LOG_FD_OFF \<Longrightarrow>
   no_clobber (sfd_at s) (new_sfd nb k) tys"
  by (induction tys) (auto simp: sfd_at_def new_sfd_def get_service_fd_id_def)

lemma shift_ne:
  "sfd_at s LOG_FD_OFF \<noteq> new_sfd nb k LOG_FD_OFF \<Longrightarrow> new_sfd nb k ty \<noteq> sfd_at s ty"
  by (simp add: sfd_at_def new_sfd_def get_service_fd_id_def)

text \<open>Every installed service descriptor is open, and so are none of its numbers negative.\<close>

definition sfds_open :: "sfd_state \<Rightarrow> bool" where
  "sfds_open s \<longleftrightarrow> service_fd_base s \<noteq> 0 \<and> (\<forall>ty. valid_sfd ty \<longrightarrow> 0 \<le> sfd_at s ty) \<and>
     (\<forall>ty. installed s ty \<longrightarrow> fd_table s (sfd_at s ty) \<noteq> None)"

lemma valid_sfd_list: "set [SERVICE_FD_MIN + 1..<SERVICE_FD_MAX] = {ty. valid_sfd ty}"
  by (auto simp: valid_sfd_def)

lemma clone_service_fd_effect:
  assumes sys: "fd_sys_ok sys" "dup2_works sys" and op: "sfds_open s" and log: "installed s LOG_FD_OFF"
    and base: "choose_service_fd_base s me = nb" "nb \<noteq> -1"
    and pos: "\<And>ty. valid_sfd ty \<Longrightarrow> 0 \<le> new_sfd nb (rst_service_fd_id me) ty"
  obtains s' where "clone_service_fd sys me cl s = Ret (0, s')"
    "\<And>ty. installed s' ty = installed s ty"
    "\<And>ty. sfd_at s' ty = new_sfd nb (rst_service_fd_id me) ty"
    "\<And>ty. installed s ty \<Longrightarrow> fd_table s' (sfd_at s' ty) = fd_table s (sfd_at s ty)"
proof -
  let ?k = "rst_service_fd_id me" and ?l = "[SERVICE_FD_MIN + 1..<SERVICE_FD_MAX]"
  have g: "get_service_fd s LOG_FD_OFF = Ret (sfd_at s LOG_FD_OFF)"
    using op log by (simp add: get_service_fd_valid sfds_open_def installed_def)
  show thesis
  proof (cases "sfd_at s LOG_FD_OFF = new_sfd nb ?k LOG_FD_OFF")
    case True
    then have "sfd_at s ty = new_sfd nb ?k ty" for ty
      by (simp add: sfd_at_def new_sfd_def get_service_fd_id_def)
    then show thesis
      using that [of s] True g base by (simp add: clone_service_fd_def Let_def)
  next
    case False
    define tys where "tys = (if sfd_at s LOG_FD_OFF < new_sfd nb ?k LOG_FD_OFF then ?l else rev ?l)"
    have st: "set tys = {ty. valid_sfd ty}" using valid_sfd_list by (simp add: tys_def)
    have "sorted_wrt (>) (rev ?l)" by (simp add: sorted_wrt_rev)
    then have nc: "no_clobber (sfd_at s) (new_sfd nb ?k) tys"
      using False no_clobber_up [of ?l s nb ?k] no_clobber_down [of "rev ?l" nb ?k s]
      by (auto simp: tys_def)
    obtain t where t: "move_service_fds sys me tys ?k nb cl s = Ret (s\<lparr>fd_table := t\<rparr>)"
      "\<forall>ty\<in>set tys. installed s ty \<longrightarrow> t (new_sfd nb ?k ty) = fd_table s (sfd_at s ty)"
      using move_service_fds_effect [OF sys, of tys nb ?k s me cl] nc op pos shift_ne [OF False] st
      by (auto simp: sfds_open_def)
    let ?s = "s\<lparr>fd_table := t, service_fd_base := nb, service_fd_id := ?k\<rparr>"
    have "clone_service_fd sys me cl s = Ret (0, ?s)"
      using False g base t(1) by (auto simp: clone_service_fd_def Let_def tys_def)
    moreover have "sfd_at ?s ty = new_sfd nb ?k ty" "installed ?s ty = installed s ty" for ty
      by (simp_all add: sfd_at_def new_sfd_def get_service_fd_id_def installed_def)
    moreover have "t (new_sfd nb ?k ty) = fd_table s (sfd_at s ty)" if "installed s ty" for ty
      using t(2) st that by (simp add: installed_def)
    ultimately show thesis using that [of ?s] by simp
  qed
qed

subsection \<open>Properties\<close>

text \<open>
  (C26) The base that a task which owns its descriptor table chooses puts the service
  descriptors of all the processes that share the table above every descriptor the task uses
  and below the limit on open files, and gives every process and type its own number.
\<close>

theorem service_fd_layout:
  assumes "fdt_nr me = None \<or> rst_service_fd_id me = 0"
    and "-1 \<le> max_fd s me" "max_fd s me + 16 * fdt_users me + 16 < 2 ^ 29"
    and "choose_service_fd_base s me = b" "b \<noteq> -1"
    and k: "0 \<le> k" "k < fdt_users me" and ty: "SERVICE_FD_MIN < ty" "ty < SERVICE_FD_MAX"
  shows "max_fd s me < get_service_fd_id (s\<lparr>service_fd_base := b\<rparr>) ty k
    \<and> get_service_fd_id (s\<lparr>service_fd_base := b\<rparr>) ty k < service_fd_rlim_cur s
    \<and> (0 \<le> k' \<and> SERVICE_FD_MIN < ty' \<and> ty' < SERVICE_FD_MAX \<and>
       get_service_fd_id (s\<lparr>service_fd_base := b\<rparr>) ty k = get_service_fd_id (s\<lparr>service_fd_base := b\<rparr>) ty' k'
       \<longrightarrow> ty = ty' \<and> k = k')"
proof -
  have "0 \<le> fdt_users me" using k by linarith
  note bb = choose_base_bounds [OF assms(1,2) this assms(3-5)]
  have "16 * k \<le> 16 * fdt_users me - 16" using k by linarith
  then have "max_fd s me < b - int ty - 16 * k" "b - int ty - 16 * k < service_fd_rlim_cur s"
    using bb k ty by (simp_all add: SERVICE_FD_MIN_def SERVICE_FD_MAX_def)
  moreover have "ty = ty' \<and> k = k'"
    if "ty' < 16" "int ty + 16 * k = int ty' + 16 * k'" "0 \<le> k'"
  proof -
    have "int ty = (int ty + 16 * k) mod 16" "int ty' = (int ty' + 16 * k') mod 16"
      using ty that(1) by (simp_all add: SERVICE_FD_MAX_def)
    then show ?thesis using that(2) by simp
  qed
  ultimately show ?thesis
    by (auto simp: get_service_fd_id_def SERVICE_FD_MAX_def)
qed

text \<open>A task with three descriptors, an idle state with the log installed, and plain system calls.\<close>

definition demo_task :: "int list \<Rightarrow> rst_task" where
  "demo_task l = \<lparr>fds = l, clone_files = False, rst_service_fd_id = 0, fdt_nr = None\<rparr>"

definition demo_sfd :: sfd_state where
  "demo_sfd = \<lparr>service_fd_rlim_cur = 1024, service_fd_base = 128, service_fd_id = 0,
     sfd_map = [2], sfd_arr = replicate 16 0, sfds_protected = False, inh_fd_max = -1,
     fd_table = (\<lambda>_. None)(127 := Some 7, 5 := Some 9)\<rparr>"

definition demo_fd_sys :: fd_sys where
  "demo_fd_sys = \<lparr>sys_close = (\<lambda>t fd. (0, t(fd := None))),
     sys_dup2 = (\<lambda>t a b. if t a \<noteq> None then (b, t(b := t a)) else (-1, t)),
     sys_dup3 = (\<lambda>t a b. if t a \<noteq> None \<and> a \<noteq> b then (b, t(b := t a)) else (-1, t)),
     sys_dupfd = (\<lambda>t a b. if t a \<noteq> None \<and> t b = None then (b, t(b := t a)) else (-1, t))\<rparr>"

lemma demo_base:
  "choose_service_fd_base demo_sfd (demo_task [0, 1, 2]) = 128"
  "choose_service_fd_base demo_sfd (demo_task [0, 200]) = 256"
  by (simp_all add: choose_service_fd_base_def demo_sfd_def demo_task_def max_fd_def fdt_users_def
      fdt_chunks_def bit_len.simps FDT_ALIGN_def SERVICE_FD_MAX_def SERVICE_FD_MIN_def Let_def)

theorem service_fd_layout_witness:
  "2 < get_service_fd_id (demo_sfd\<lparr>service_fd_base := 128\<rparr>) 15 0
   \<and> get_service_fd_id (demo_sfd\<lparr>service_fd_base := 128\<rparr>) 15 0 < 1024"
  using service_fd_layout [OF _ _ _ demo_base(1), of 0 15]
  by (simp add: demo_task_def demo_sfd_def max_fd_def fdt_users_def SERVICE_FD_MIN_def SERVICE_FD_MAX_def)

text \<open>
  (C12) Moving the set of service descriptors for a forked task: when the log
  descriptor is installed and \<open>dup2\<close> works, \<open>clone_service_fd\<close> returns 0, and afterwards every
  installed type still names the same open file through \<open>get_service_fd\<close>, although the old and
  the new range may overlap, whether or not the old copies are closed and whether or not the
  new range is cleaned first.
\<close>

theorem clone_service_fd_preserves:
  assumes "fd_sys_ok sys" "dup2_works sys" "sfds_open s" "installed s LOG_FD_OFF"
    and "choose_service_fd_base s me = nb" "nb \<noteq> -1" "nb \<noteq> 0"
    and "\<And>ty. valid_sfd ty \<Longrightarrow> 0 \<le> new_sfd nb (rst_service_fd_id me) ty"
    and ty: "installed s ty" "get_service_fd s ty = Ret fd"
  shows "\<exists>s' fd'. clone_service_fd sys me cl s = Ret (0, s') \<and> get_service_fd s' ty = Ret fd'
    \<and> fd_table s' fd' = fd_table s fd"
proof -
  obtain s' where s': "clone_service_fd sys me cl s = Ret (0, s')"
    "\<And>ty. installed s' ty = installed s ty"
    "\<And>ty. sfd_at s' ty = new_sfd nb (rst_service_fd_id me) ty"
    "\<And>ty. installed s ty \<Longrightarrow> fd_table s' (sfd_at s' ty) = fd_table s (sfd_at s ty)"
    by (rule clone_service_fd_effect [OF assms(1-6), where cl = cl]) (use assms(8) in auto)
  have "valid_sfd ty" using ty by (simp add: installed_def)
  moreover have "fd = sfd_at s ty"
    using ty assms(3) calculation by (simp add: get_service_fd_valid sfds_open_def)
  moreover have "service_fd_base s' \<noteq> 0"
    using s'(1) assms(3,5-7) by (auto simp: clone_service_fd_def Let_def bind_outcome_eq_Ret sfds_open_def
        split: if_splits)
  ultimately show ?thesis
    using s' ty(1) get_service_fd_valid [of ty s'] by auto
qed

lemma demo_fd_sys_ok: "fd_sys_ok demo_fd_sys" "dup2_works demo_fd_sys"
  by (auto simp: fd_sys_ok_def dup2_works_def demo_fd_sys_def split: if_splits)

lemma demo_installed: "installed demo_sfd ty \<longleftrightarrow> ty = 1"
proof -
  have "bit (2 :: u64) ty \<longleftrightarrow> ty = 1" if "ty < 16" for ty :: nat
    using that bit_exp_iff [of 1 ty, where 'a = u64] by auto
  then show ?thesis
    by (auto simp: installed_def valid_sfd_def SERVICE_FD_MIN_def SERVICE_FD_MAX_def test_bit_bm
        demo_sfd_def bm_bit_def)
qed

theorem clone_service_fd_preserves_witness:
  "\<exists>s' fd'. clone_service_fd demo_fd_sys (demo_task [0, 200]) True demo_sfd = Ret (0, s')
    \<and> get_service_fd s' 1 = Ret fd' \<and> fd_table s' fd' = Some 7"
proof -
  have o: "sfds_open demo_sfd"
    unfolding sfds_open_def demo_installed
    by (auto simp: demo_sfd_def valid_sfd_def sfd_at_def get_service_fd_id_def SERVICE_FD_MAX_def)
  have l: "installed demo_sfd LOG_FD_OFF" by (simp add: demo_installed LOG_FD_OFF_def)
  have g: "get_service_fd demo_sfd 1 = Ret 127"
    using o demo_installed [of 1] get_service_fd_valid [of 1 demo_sfd]
    by (simp add: sfds_open_def installed_def) (simp add: sfd_at_def demo_sfd_def get_service_fd_id_def)
  show ?thesis
    using clone_service_fd_preserves [OF demo_fd_sys_ok o l demo_base(2) _ _ _ _ g, of True] demo_installed [of 1]
    by (simp add: new_sfd_def demo_task_def valid_sfd_def SERVICE_FD_MAX_def) (simp add: demo_sfd_def)
qed

text \<open>
  (C25) Installing a descriptor under a non-zero base: on success the type's fixed number
  is returned, \<open>get_service_fd\<close> gives it from then on, it refers to the file that was passed in,
  and the other installed types are untouched; on failure nothing is recorded as installed
  that was not installed before.
\<close>

theorem install_service_fd_correct:
  assumes sys: "fd_sys_ok sys" and ok: "sfd_ok s" and base: "service_fd_base s \<noteq> 0"
    and fd: "fd_table s fd = Some x" "fd \<noteq> sfd_at s ty" and at: "0 \<le> sfd_at s ty"
    and r: "install_service_fd sys s ty fd = Ret (r, s')"
  shows "(r = -1 \<and> sfd_map s' = sfd_map s) \<or>
    (r = sfd_at s ty \<and> get_service_fd s' ty = Ret r \<and> fd_table s' r = Some x
     \<and> (\<forall>ty'. ty' \<noteq> ty \<and> installed s ty' \<and> sfd_at s ty' \<noteq> fd \<longrightarrow>
          get_service_fd s' ty' = get_service_fd s ty'
          \<and> fd_table s' (sfd_at s ty') = fd_table s (sfd_at s ty')))"
proof -
  have v: "valid_sfd ty"
    using r by (auto simp: install_service_fd_def valid_sfd_def Let_def split: if_splits)
  define d where "d = (if \<not> test_bit ty (sfd_map s) then sys_dupfd sys (fd_table s) fd (sfd_at s ty)
      else sys_dup3 sys (fd_table s) fd (sfd_at s ty))"
  have dd: "snd d = (fd_table s)(fst d := Some x) \<or> fst d < 0"
  proof (cases "test_bit ty (sfd_map s)")
    case True
    then show ?thesis using fd(1)
      by (cases rule: dup3_cases [OF sys, of "fd_table s" fd "sfd_at s ty"]) (auto simp: d_def)
  next
    case False
    then show ?thesis using fd(1)
      by (cases rule: dupfd_cases [OF sys, of "fd_table s" fd "sfd_at s ty"]) (auto simp: d_def)
  qed
  show ?thesis
  proof (cases "fst d = sfd_at s ty")
    case True
    then have s': "r = sfd_at s ty" "s' = s\<lparr>sfd_map := set_bit_map ty (sfd_map s),
        fd_table := snd (sys_close sys (snd d) fd)\<rparr>"
      using r base at v
      by (auto simp: install_service_fd_def d_def Let_def sfd_at_def split: if_splits prod.splits)
    have tab: "fd_table s' y = fd_table s y" if "y \<noteq> fd" "y \<noteq> sfd_at s ty" for y
      using that dd at True close_other [OF sys, of y fd "snd d"] by (simp add: s')
    have "fd_table s' (sfd_at s ty) = Some x"
      using dd at True close_other [OF sys, of "sfd_at s ty" fd "snd d"] fd(2) by (simp add: s')
    moreover have tb: "test_bit ty' (sfd_map s') = (ty' = ty \<or> test_bit ty' (sfd_map s))" for ty'
      using bm.member_insert [of ty "sfd_map s" ty'] v ok by (auto simp: s' valid_sfd_def sfd_ok_def)
    moreover have "sfd_at s' = sfd_at s"
      by (auto simp: s' sfd_at_def get_service_fd_id_def fun_eq_iff)
    moreover have "service_fd_base s' \<noteq> 0" using base by (simp add: s')
    moreover have "sfd_at s ty' \<noteq> sfd_at s ty" if "ty' \<noteq> ty" for ty'
      using that by (simp add: sfd_at_def get_service_fd_id_def)
    ultimately show ?thesis
      using v tab base s'(1) by (auto simp: get_service_fd_valid installed_def)
  next
    case False
    then show ?thesis
      using r base at v
      by (auto simp: install_service_fd_def d_def Let_def sfd_at_def split: if_splits prod.splits)
  qed
qed

theorem install_service_fd_correct_witness:
  "\<exists>s'. install_service_fd demo_fd_sys demo_sfd 2 5 = Ret (126, s') \<and> get_service_fd s' 2 = Ret 126
     \<and> fd_table s' 126 = Some 9"
proof -
  have t: "\<not> test_bit 2 (sfd_map demo_sfd)"
    using demo_installed [of 2] by (simp add: installed_def valid_sfd_def SERVICE_FD_MIN_def SERVICE_FD_MAX_def)
  have at: "sfd_at demo_sfd 2 = 126" by (simp add: sfd_at_def demo_sfd_def get_service_fd_id_def)
  have st: "service_fd_base demo_sfd = 128" "\<not> sfds_protected demo_sfd" "fd_table demo_sfd 5 = Some 9"
    "fd_table demo_sfd 126 = None"
    by (simp_all add: demo_sfd_def)
  then obtain s' where s': "install_service_fd demo_fd_sys demo_sfd 2 5 = Ret (126, s')"
    using t at by (simp add: install_service_fd_def demo_fd_sys_def SERVICE_FD_MIN_def SERVICE_FD_MAX_def
        flip: sfd_at_def)
  have "sfd_ok demo_sfd" by (simp add: sfd_ok_def demo_sfd_def bm_size_def SERVICE_FD_MAX_def)
  from install_service_fd_correct [OF demo_fd_sys_ok(1) this _ st(3) _ _ s'] at s' st show ?thesis
    by simp
qed

text \<open>
  \<open>is_any_service_fd\<close> recognises exactly the numbers of the installed types of the
  current process.
\<close>

theorem is_any_service_fd_iff:
  "is_any_service_fd s fd \<longleftrightarrow> (\<exists>ty. installed s ty \<and> fd = sfd_at s ty)"
proof -
  have "installed s (nat (16 - (fd - get_service_fd_id s 16 (service_fd_id s))))
      \<and> fd = sfd_at s (nat (16 - (fd - get_service_fd_id s 16 (service_fd_id s))))"
    if "is_any_service_fd s fd"
    using that by (auto simp: is_any_service_fd_def installed_def valid_sfd_def sfd_at_def get_service_fd_id_def
        SERVICE_FD_MIN_def SERVICE_FD_MAX_def Let_def nat_less_iff split: if_splits)
  moreover have "is_any_service_fd s (sfd_at s ty)" if "installed s ty" for ty
    using that by (auto simp: is_any_service_fd_def installed_def valid_sfd_def sfd_at_def get_service_fd_id_def
        SERVICE_FD_MIN_def SERVICE_FD_MAX_def Let_def nat_less_iff)
  ultimately show ?thesis by blast
qed

end
