(* ===== verification/PagePipe.thy ===== *)
theory PagePipe
  imports Prelude
begin

unbundle bit_operations_syntax

text \<open>
  Page pipes, \<open>criu/page-pipe.c\<close> and \<open>criu/include/page-pipe.h\<close>.

  A page pipe describes the memory of a task: buffers (\<open>page_pipe_buf\<close>), each with a run of
  the common array of iovecs and a place in a kernel pipe, and an array of holes. Buffers
  are shared between two lists and the array \<open>prev\<close>, so they live in a store and the lists
  hold their ids. The lists are HOL lists; the operations on them are those of
  \<open>list.h\<close>, which the theory KList shows to behave so.

  \<open>pp_sys\<close> has the answers of the kernel and of the allocator to one call: the result of
  \<open>F_SETPIPE_SZ\<close> on a pipe for a size in bytes, the result of \<open>F_GETPIPE_SZ\<close>, the pipe
  that \<open>pipe\<close> creates, if any, and whether an allocation succeeds.
\<close>

subsection \<open>Data\<close>

definition PIPE_MAX_SIZE :: nat where
  "PIPE_MAX_SIZE = 2 ^ 3 * PAGE_SIZE div 40"

definition NR_PIPES_PER_CHUNK :: nat where
  "NR_PIPES_PER_CHUNK = 8"

definition PPB_LAZY :: u32 where "PPB_LAZY = 1"

definition PP_HOLE_PARENT :: u32 where "PP_HOLE_PARENT = 1"

definition PP_CHUNK_MODE :: u32 where "PP_CHUNK_MODE = 1"

definition PP_OWN_IOVS :: u32 where "PP_OWN_IOVS = 4"

definition EAGAIN :: int where "EAGAIN = 11"

record page_pipe_buf =
  ppb_p :: nat
  pipe_size :: nat
  pipe_off :: nat
  pages_in :: nat
  nr_segs :: nat
  ppb_flags :: u32
  ppb_iov :: nat

record page_pipe =
  nr_pipes :: nat
  bufs :: "nat list"
  free_bufs :: "nat list"
  prev :: "bool \<Rightarrow> nat option"
  nr_iovs :: nat
  free_iov :: nat
  iovs :: "iovec list"
  nr_holes :: nat
  free_hole :: nat
  holes :: "iovec list"
  hole_flags :: "u32 list"
  pp_flags :: u32
  store :: "nat \<Rightarrow> page_pipe_buf"
  next_ppb :: nat

record pp_sys =
  sys_setpipe_sz :: "nat \<Rightarrow> nat \<Rightarrow> int"
  sys_getpipe_sz :: "nat \<Rightarrow> int"
  sys_pipe :: "nat option"
  xmalloc_ok :: bool

abbreviation set_ppb :: "nat \<Rightarrow> page_pipe_buf \<Rightarrow> page_pipe \<Rightarrow> page_pipe" where
  "set_ppb i b pp \<equiv> pp\<lparr>store := (store pp)(i := b)\<rparr>"

subsection \<open>iovecs\<close>

text \<open>\<open>iov_grow_page\<close> returns whether the page was accumulated, and the iovec.\<close>

definition iov_grow_page :: "iovec \<Rightarrow> ulong \<Rightarrow> bool \<times> iovec" where
  "iov_grow_page iov addr =
     (if ul_add (iov_base iov) (iov_len iov) = addr
      then (True, iov\<lparr>iov_len := ul_add (iov_len iov) PAGE_SIZE\<rparr>)
      else (False, iov))"

definition iov_init :: "ulong \<Rightarrow> iovec" where
  "iov_init addr = \<lparr>iov_base = addr, iov_len = PAGE_SIZE\<rparr>"

subsection \<open>Pipe sizes\<close>

definition resize_pipe :: "pp_sys \<Rightarrow> page_pipe_buf \<Rightarrow> nat \<Rightarrow> (int \<times> page_pipe_buf) outcome" where
  "resize_pipe sys ppb new_size =
     (let ret = sys_setpipe_sz sys (ppb_p ppb) (new_size * PAGE_SIZE)
      in if ret < 0 then Ret (-1, ppb)
         else (let ret = ret div int PAGE_SIZE
               in if ret < int (pipe_size ppb) then Bug
                  else Ret (0, ppb\<lparr>pipe_size := nat ret\<rparr>)))"

definition ppb_resize_pipe :: "pp_sys \<Rightarrow> page_pipe_buf \<Rightarrow> (int \<times> page_pipe_buf) outcome" where
  "ppb_resize_pipe sys ppb =
     (let new_size = pipe_size ppb * 2
      in if pages_in ppb + pipe_off ppb < pipe_size ppb then Ret (0, ppb)
         else if new_size > PIPE_MAX_SIZE \<and> \<not> pipe_size ppb < PIPE_MAX_SIZE then Ret (1, ppb)
         else (let ppb = (if new_size > PIPE_MAX_SIZE then ppb\<lparr>pipe_size := PIPE_MAX_SIZE\<rparr> else ppb)
               in bind_outcome (resize_pipe sys ppb new_size) (\<lambda>(ret, ppb).
                    if ret < 0 then Ret (1, ppb) else Ret (0, ppb))))"

subsection \<open>Buffers\<close>

text \<open>\<open>lazy\<close> is \<open>opts.lazy_pages\<close>.\<close>

definition ppb_type :: "bool \<Rightarrow> u32 \<Rightarrow> bool" where
  "ppb_type lazy flags \<longleftrightarrow> flags AND PPB_LAZY \<noteq> 0 \<and> lazy"

definition pp_prev_ppb :: "bool \<Rightarrow> page_pipe \<Rightarrow> u32 \<Rightarrow> nat option" where
  "pp_prev_ppb lazy pp flags =
     (if pp_flags pp AND PP_CHUNK_MODE \<noteq> 0 then None
      else if bufs pp = [] then None
      else prev pp (ppb_type lazy flags))"

definition pp_update_prev_ppb :: "bool \<Rightarrow> page_pipe \<Rightarrow> nat \<Rightarrow> u32 \<Rightarrow> page_pipe" where
  "pp_update_prev_ppb lazy pp ppb flags =
     pp\<lparr>prev := (prev pp)(ppb_type lazy flags := Some ppb)\<rparr>"

text \<open>
  The first half of \<open>ppb_alloc\<close>: can the pipe of the previous buffer take more? The previous
  buffer's recorded size may change on the way.
\<close>

definition ppb_reuse :: "pp_sys \<Rightarrow> page_pipe \<Rightarrow> nat option \<Rightarrow> (bool \<times> page_pipe) outcome" where
  "ppb_reuse sys pp prv =
     (case prv of
        None \<Rightarrow> Ret (False, pp)
      | Some i \<Rightarrow>
          bind_outcome (ppb_resize_pipe sys (store pp i)) (\<lambda>(ret, b). Ret (ret = 0, set_ppb i b pp)))"

definition ppb_link :: "bool \<Rightarrow> page_pipe \<Rightarrow> u32 \<Rightarrow> page_pipe_buf \<Rightarrow> nat option \<times> page_pipe" where
  "ppb_link lazy pp flags b =
     (let i = next_ppb pp;
          pp = set_ppb i b (pp\<lparr>next_ppb := i + 1\<rparr>);
          pp = pp\<lparr>bufs := bufs pp @ [i]\<rparr>
      in (Some i, pp_update_prev_ppb lazy pp i flags))"

definition ppb_alloc :: "pp_sys \<Rightarrow> bool \<Rightarrow> page_pipe \<Rightarrow> u32 \<Rightarrow> (nat option \<times> page_pipe) outcome" where
  "ppb_alloc sys lazy pp flags =
     (let prv = pp_prev_ppb lazy pp flags;
          b0 = \<lparr>ppb_p = 0, pipe_size = 0, pipe_off = 0, pages_in = 0, nr_segs = 0, ppb_flags = 0,
                ppb_iov = 0\<rparr>
      in if \<not> xmalloc_ok sys then Ret (None, pp)
         else bind_outcome (ppb_reuse sys pp prv) (\<lambda>(reuse, pp).
           if reuse
           then (let b = store pp (the prv)
                 in Ret (ppb_link lazy pp flags
                      (b0\<lparr>ppb_p := ppb_p b, pipe_off := pages_in b + pipe_off b,
                          pipe_size := pipe_size b\<rparr>)))
           else (case sys_pipe sys of
                   None \<Rightarrow> Ret (None, pp)
                 | Some p \<Rightarrow>
                     Ret (ppb_link lazy (pp\<lparr>nr_pipes := nr_pipes pp + 1\<rparr>) flags
                       (b0\<lparr>ppb_p := p, pipe_off := 0,
                           pipe_size := nat (sys_getpipe_sz sys p div int PAGE_SIZE)\<rparr>)))))"

definition ppb_init :: "page_pipe_buf \<Rightarrow> nat \<Rightarrow> nat \<Rightarrow> u32 \<Rightarrow> nat \<Rightarrow> page_pipe_buf" where
  "ppb_init b pages segs flags iov =
     b\<lparr>pages_in := pages, nr_segs := segs, ppb_flags := flags, ppb_iov := iov\<rparr>"

definition page_pipe_grow :: "pp_sys \<Rightarrow> bool \<Rightarrow> page_pipe \<Rightarrow> u32 \<Rightarrow> (int \<times> page_pipe) outcome" where
  "page_pipe_grow sys lazy pp flags =
     (if free_bufs pp \<noteq> []
      then (let i = hd (free_bufs pp);
                pp = pp\<lparr>free_bufs := tl (free_bufs pp), bufs := bufs pp @ [i]\<rparr>
            in Ret (0, set_ppb i (ppb_init (store pp i) 0 0 flags (free_iov pp)) pp))
      else if pp_flags pp AND PP_CHUNK_MODE \<noteq> 0 \<and> nr_pipes pp = NR_PIPES_PER_CHUNK
      then Ret (- EAGAIN, pp)
      else bind_outcome (ppb_alloc sys lazy pp flags) (\<lambda>(ppb, pp).
        case ppb of
          None \<Rightarrow> Ret (-1, pp)
        | Some i \<Rightarrow> Ret (0, set_ppb i (ppb_init (store pp i) 0 0 flags (free_iov pp)) pp)))"

text \<open>
  \<open>create_page_pipe\<close>: \<open>arr\<close> is the array of iovecs that the caller passes, \<open>None\<close> when the
  function allocates one itself, whose contents are arbitrary (\<open>junk\<close>).
\<close>

definition create_page_pipe :: "pp_sys \<Rightarrow> bool \<Rightarrow> nat \<Rightarrow> iovec list option \<Rightarrow> iovec list \<Rightarrow> u32 \<Rightarrow>
    page_pipe option outcome" where
  "create_page_pipe sys lazy segs arr junk flags =
     (if \<not> xmalloc_ok sys then Ret None
      else (let pp = \<lparr>nr_pipes = 0, bufs = [], free_bufs = [], prev = (\<lambda>_. None), nr_iovs = segs,
                      free_iov = 0, iovs = (case arr of None \<Rightarrow> junk | Some l \<Rightarrow> l),
                      nr_holes = 0, free_hole = 0, holes = [], hole_flags = [],
                      pp_flags = (if arr = None then flags OR PP_OWN_IOVS else flags),
                      store = (\<lambda>_. \<lparr>ppb_p = 0, pipe_size = 0, pipe_off = 0, pages_in = 0, nr_segs = 0,
                                    ppb_flags = 0, ppb_iov = 0\<rparr>), next_ppb = 0\<rparr>
            in bind_outcome (page_pipe_grow sys lazy pp 0) (\<lambda>(ret, pp).
                 if ret \<noteq> 0 then Ret None else Ret (Some pp))))"

text \<open>The pipes that \<open>ppb_destroy\<close> and \<open>destroy_page_pipe\<close> close.\<close>

definition ppb_destroy :: "page_pipe_buf \<Rightarrow> nat list" where
  "ppb_destroy b = (if pipe_off b = 0 then [ppb_p b] else [])"

definition destroy_page_pipe :: "page_pipe \<Rightarrow> nat list" where
  "destroy_page_pipe pp = concat (map (\<lambda>i. ppb_destroy (store pp i)) (free_bufs pp @ bufs pp))"

definition page_pipe_destroy_ppb :: "nat \<Rightarrow> page_pipe \<Rightarrow> nat list \<times> page_pipe" where
  "page_pipe_destroy_ppb i pp = (ppb_destroy (store pp i), pp\<lparr>bufs := removeAll i (bufs pp)\<rparr>)"

definition page_pipe_reinit :: "pp_sys \<Rightarrow> bool \<Rightarrow> page_pipe \<Rightarrow> page_pipe outcome" where
  "page_pipe_reinit sys lazy pp =
     (if pp_flags pp AND PP_CHUNK_MODE = 0 then Bug
      else (let pp = pp\<lparr>free_bufs := rev (bufs pp) @ free_bufs pp, bufs := [], free_hole := 0\<rparr>
            in bind_outcome (page_pipe_grow sys lazy pp 0) (\<lambda>(ret, pp).
                 if ret \<noteq> 0 then Bug else Ret pp)))"

subsection \<open>Adding pages and holes\<close>

text \<open>The part of \<open>try_add_page_to\<close> after the checks: the iovec, then the page count.\<close>

definition add_page_iov :: "page_pipe \<Rightarrow> nat \<Rightarrow> ulong \<Rightarrow> page_pipe outcome" where
  "add_page_iov pp i addr =
     (let b = store pp i;
          lst = ppb_iov b + nr_segs b - 1
      in if nr_segs b \<noteq> 0 \<and> fst (iov_grow_page (iovs pp ! lst) addr)
         then Ret (set_ppb i (b\<lparr>pages_in := pages_in b + 1\<rparr>)
                     (pp\<lparr>iovs := (iovs pp)[lst := snd (iov_grow_page (iovs pp ! lst) addr)]\<rparr>))
         else (let pp = pp\<lparr>iovs := (iovs pp)[ppb_iov b + nr_segs b := iov_init addr],
                           free_iov := free_iov pp + 1\<rparr>
               in if free_iov pp > nr_iovs pp then Bug
                  else Ret (set_ppb i (b\<lparr>nr_segs := nr_segs b + 1, pages_in := pages_in b + 1\<rparr>) pp)))"

definition try_add_page_to :: "pp_sys \<Rightarrow> page_pipe \<Rightarrow> nat \<Rightarrow> ulong \<Rightarrow> u32 \<Rightarrow> (int \<times> page_pipe) outcome" where
  "try_add_page_to sys pp i addr flags =
     (if ppb_flags (store pp i) \<noteq> flags then Ret (1, pp)
      else bind_outcome (ppb_resize_pipe sys (store pp i)) (\<lambda>(ret, b).
        let pp = set_ppb i b pp
        in if ret = 1 then Ret (1, pp)
           else bind_outcome (add_page_iov pp i addr) (\<lambda>pp. Ret (0, pp))))"

definition try_add_page :: "pp_sys \<Rightarrow> page_pipe \<Rightarrow> ulong \<Rightarrow> u32 \<Rightarrow> (int \<times> page_pipe) outcome" where
  "try_add_page sys pp addr flags =
     (if bufs pp = [] then Bug else try_add_page_to sys pp (last (bufs pp)) addr flags)"

definition page_pipe_add_page :: "pp_sys \<Rightarrow> bool \<Rightarrow> page_pipe \<Rightarrow> ulong \<Rightarrow> u32 \<Rightarrow> (int \<times> page_pipe) outcome" where
  "page_pipe_add_page sys lazy pp addr flags =
     bind_outcome (try_add_page sys pp addr flags) (\<lambda>(ret, pp).
       if ret \<le> 0 then Ret (ret, pp)
       else bind_outcome (page_pipe_grow sys lazy pp flags) (\<lambda>(ret, pp).
         if ret < 0 then Ret (ret, pp)
         else bind_outcome (try_add_page sys pp addr flags) (\<lambda>(ret, pp).
           if ret > 0 then Bug else Ret (ret, pp))))"

definition PP_HOLES_BATCH :: nat where
  "PP_HOLES_BATCH = 32"

text \<open>Adding a hole when there is room in the arrays.\<close>

definition add_hole_room :: "page_pipe \<Rightarrow> ulong \<Rightarrow> u32 \<Rightarrow> page_pipe" where
  "add_hole_room pp addr flags =
     (let k = free_hole pp - 1
      in if free_hole pp \<noteq> 0 \<and> hole_flags pp ! k = flags \<and> fst (iov_grow_page (holes pp ! k) addr)
         then pp\<lparr>holes := (holes pp)[k := snd (iov_grow_page (holes pp ! k) addr)]\<rparr>
         else pp\<lparr>holes := (holes pp)[free_hole pp := iov_init addr],
                 hole_flags := (hole_flags pp)[free_hole pp := flags],
                 free_hole := free_hole pp + 1\<rparr>)"

text \<open>\<open>realloc1\<close> and \<open>realloc2\<close> tell whether the two reallocations succeed; \<open>pad\<close> stands for
  the contents of the new array elements.\<close>

definition page_pipe_add_hole :: "bool \<Rightarrow> bool \<Rightarrow> (iovec list \<times> u32 list) \<Rightarrow> page_pipe \<Rightarrow> ulong \<Rightarrow> u32 \<Rightarrow>
    int \<times> page_pipe" where
  "page_pipe_add_hole realloc1 realloc2 pad pp addr flags =
     (let full = free_hole pp \<ge> nr_holes pp;
          pp1 = (if full \<and> realloc1
                 then pp\<lparr>holes := take (nr_holes pp + PP_HOLES_BATCH) (holes pp @ fst pad)\<rparr> else pp)
      in if full \<and> \<not> realloc1 then (-1, pp)
         else if full \<and> \<not> realloc2 then (-1, pp1)
         else (0, add_hole_room
                    (if full
                     then pp1\<lparr>hole_flags := take (nr_holes pp + PP_HOLES_BATCH) (hole_flags pp @ snd pad),
                             nr_holes := nr_holes pp + PP_HOLES_BATCH\<rparr>
                     else pp) addr flags))"

subsection \<open>Reading back\<close>

text \<open>The inner loop of \<open>get_ppb\<close>: the index of the iovec that holds the address, and the bytes before it.\<close>

fun get_iov :: "iovec list \<Rightarrow> ulong \<Rightarrow> nat \<Rightarrow> nat \<Rightarrow> (iovec \<times> nat) option" where
  "get_iov [] addr i len = None"
| "get_iov (v # vs) addr i len =
     (if addr < iov_base v \<or> iov_base v + iov_len v \<le> addr
      then get_iov vs addr (i + 1) (len + iov_len v)
      else Some (v, len + (addr - iov_base v)))"

definition ppb_iovs :: "page_pipe \<Rightarrow> nat \<Rightarrow> iovec list" where
  "ppb_iovs pp i = take (nr_segs (store pp i)) (drop (ppb_iov (store pp i)) (iovs pp))"

fun get_ppb_loop :: "page_pipe \<Rightarrow> nat list \<Rightarrow> ulong \<Rightarrow> (nat \<times> iovec \<times> nat) option" where
  "get_ppb_loop pp [] addr = None"
| "get_ppb_loop pp (i # is) addr =
     (case get_iov (ppb_iovs pp i) addr 0 0 of
        Some (v, len) \<Rightarrow> Some (i, v, len)
      | None \<Rightarrow> get_ppb_loop pp is addr)"

definition get_ppb :: "page_pipe \<Rightarrow> ulong \<Rightarrow> (nat \<times> iovec \<times> nat) option \<times> page_pipe" where
  "get_ppb pp addr =
     (case get_ppb_loop pp (bufs pp) addr of
        None \<Rightarrow> (None, pp)
      | Some (i, v, len) \<Rightarrow> (Some (i, v, len), pp\<lparr>bufs := i # remove1 i (bufs pp)\<rparr>))"

text \<open>
  \<open>page_pipe_read\<close>: the result, the number of pages, and the two transfers it asks for: \<open>tee\<close> of
  so many bytes from the pipe, of which the first \<open>skip\<close> are spliced away. \<open>tee_ret\<close> and
  \<open>splice_ret\<close> are the answers of the kernel.
\<close>

definition page_pipe_read :: "(nat \<Rightarrow> nat \<Rightarrow> int) \<Rightarrow> (nat \<Rightarrow> int) \<Rightarrow> page_pipe \<Rightarrow> ulong \<Rightarrow> nat \<Rightarrow> u32 \<Rightarrow>
    int \<times> nat \<times> (nat \<times> nat \<times> nat) option \<times> page_pipe" where
  "page_pipe_read tee_ret splice_ret pp addr nr_pages flags =
     (let (found, pp) = get_ppb pp addr
      in case found of
           None \<Rightarrow> (0, 0, None, pp)
         | Some (i, v, skip) \<Rightarrow>
             if ppb_flags (store pp i) AND flags = 0 then (0, nr_pages, None, pp)
             else (let len = min (iov_base v + iov_len v - addr) (nr_pages * PAGE_SIZE);
                       nr_pages = len div PAGE_SIZE;
                       skip = skip + pipe_off (store pp i) * PAGE_SIZE;
                       len = len + skip
                   in if tee_ret (ppb_p (store pp i)) len \<noteq> int len then (-1, nr_pages, None, pp)
                      else if splice_ret skip \<noteq> int skip
                      then (-1, nr_pages, Some (ppb_p (store pp i), len, 0), pp)
                      else (0, nr_pages, Some (ppb_p (store pp i), len, skip), pp)))"

subsection \<open>Pages described by a page pipe\<close>

definition iov_pages :: "iovec \<Rightarrow> nat list" where
  "iov_pages v = map (\<lambda>k. iov_base v + k * PAGE_SIZE) [0..<iov_len v div PAGE_SIZE]"

definition ppb_pages :: "page_pipe \<Rightarrow> nat \<Rightarrow> nat list" where
  "ppb_pages pp i = concat (map iov_pages (ppb_iovs pp i))"

text \<open>The abstraction: the pages that were added, with their flags, in the order of addition.\<close>

definition pp_pages :: "page_pipe \<Rightarrow> (nat \<times> u32) list" where
  "pp_pages pp = concat (map (\<lambda>i. map (\<lambda>a. (a, ppb_flags (store pp i))) (ppb_pages pp i)) (bufs pp))"

definition iov_ok :: "iovec \<Rightarrow> bool" where
  "iov_ok v \<longleftrightarrow> PAGE_SIZE dvd iov_base v \<and> PAGE_SIZE dvd iov_len v \<and> 0 < iov_len v
     \<and> iov_base v + iov_len v < ULONG_MOD"

lemma length_iov_pages [simp]: "length (iov_pages v) = iov_len v div PAGE_SIZE"
  by (simp add: iov_pages_def)

lemma iov_init_ok: "PAGE_SIZE dvd addr \<Longrightarrow> addr + PAGE_SIZE < ULONG_MOD \<Longrightarrow> iov_ok (iov_init addr)"
  by (simp add: iov_ok_def iov_init_def)

lemma iov_pages_init [simp]: "iov_pages (iov_init addr) = [addr]"
  by (simp add: iov_pages_def iov_init_def)

lemma iov_grow_page_ok:
  assumes "iov_ok v" "addr + PAGE_SIZE < ULONG_MOD" "iov_grow_page v addr = (True, v')"
  shows "iov_ok v'" "iov_pages v' = iov_pages v @ [addr]"
proof -
  have a: "addr = iov_base v + iov_len v"
    and v': "v' = v\<lparr>iov_len := ul_add (iov_len v) PAGE_SIZE\<rparr>"
    using assms by (auto simp: iov_grow_page_def iov_ok_def ul_add_exact split: if_splits)
  have l: "ul_add (iov_len v) PAGE_SIZE = iov_len v + PAGE_SIZE"
    using assms(2) a by (intro ul_add_exact) simp
  have "iov_len v div PAGE_SIZE * PAGE_SIZE = iov_len v"
    using assms(1) by (simp add: iov_ok_def)
  moreover have "(iov_len v + PAGE_SIZE) div PAGE_SIZE = Suc (iov_len v div PAGE_SIZE)"
    using div_add_self2 [OF PAGE_SIZE_neq_0, of "iov_len v"] by simp
  ultimately show "iov_pages v' = iov_pages v @ [addr]"
    by (simp add: iov_pages_def v' l a del: div_add_self2)
  show "iov_ok v'" using assms(1,2) a by (simp add: iov_ok_def v' l)
qed

subsection \<open>Invariant: segments\<close>

text \<open>
  The buffers of the list take consecutive runs of the iovec array, the last of which ends at
  the first free one; every iovec in use is a run of whole pages, and a buffer's page count is
  the number of pages of its iovecs.
\<close>

fun contiguous :: "page_pipe \<Rightarrow> nat \<Rightarrow> nat list \<Rightarrow> bool" where
  "contiguous pp a [] \<longleftrightarrow> a = free_iov pp"
| "contiguous pp a (i # is) \<longleftrightarrow>
     ppb_iov (store pp i) = a \<and> contiguous pp (a + nr_segs (store pp i)) is"

definition ppb_ok :: "page_pipe \<Rightarrow> nat \<Rightarrow> bool" where
  "ppb_ok pp i \<longleftrightarrow>
     ppb_iov (store pp i) + nr_segs (store pp i) \<le> free_iov pp \<and>
     (\<forall>v\<in>set (ppb_iovs pp i). iov_ok v) \<and> pages_in (store pp i) = length (ppb_pages pp i)"

definition segs_ok :: "page_pipe \<Rightarrow> bool" where
  "segs_ok pp \<longleftrightarrow>
     bufs pp \<noteq> [] \<and> distinct (bufs pp @ free_bufs pp) \<and>
     (\<forall>i\<in>set (bufs pp) \<union> set (free_bufs pp). i < next_ppb pp) \<and>
     free_iov pp \<le> nr_iovs pp \<and> nr_iovs pp \<le> length (iovs pp) \<and>
     (\<exists>a. contiguous pp a (bufs pp)) \<and> (\<forall>i\<in>set (bufs pp). ppb_ok pp i)"

lemma contiguous_snoc:
  "contiguous pp a (is @ [i]) \<Longrightarrow> ppb_iov (store pp i) + nr_segs (store pp i) = free_iov pp"
  by (induction "is" arbitrary: a) auto

lemma contiguous_before:
  "contiguous pp a (is @ [i]) \<Longrightarrow> j \<in> set is \<Longrightarrow>
   ppb_iov (store pp j) + nr_segs (store pp j) \<le> ppb_iov (store pp i)"
proof (induction "is" arbitrary: a)
  case (Cons k "is")
  have "b \<le> ppb_iov (store pp i)" if "contiguous pp b (is @ [i])" for b
    using that by (induction "is" arbitrary: b) (auto, metis add_leD1)
  then show ?case using Cons by auto
qed simp

lemma contiguous_cong:
  assumes "\<And>j. j \<in> set is \<Longrightarrow> ppb_iov (store pp' j) = ppb_iov (store pp j) \<and> nr_segs (store pp' j) = nr_segs (store pp j)"
    "free_iov pp' = free_iov pp"
  shows "contiguous pp' a is = contiguous pp a is"
  using assms(1) by (induction "is" arbitrary: a) (auto simp: assms(2))

text \<open>Changing the recorded size of a pipe touches neither the segments nor the pages.\<close>

definition resized :: "nat \<Rightarrow> nat \<Rightarrow> page_pipe \<Rightarrow> page_pipe" where
  "resized i n pp = set_ppb i ((store pp i)\<lparr>pipe_size := n\<rparr>) pp"

lemma resized_store:
  "ppb_p (store (resized i n pp) j) = ppb_p (store pp j)"
  "pipe_off (store (resized i n pp) j) = pipe_off (store pp j)"
  "pages_in (store (resized i n pp) j) = pages_in (store pp j)"
  "nr_segs (store (resized i n pp) j) = nr_segs (store pp j)"
  "ppb_flags (store (resized i n pp) j) = ppb_flags (store pp j)"
  "ppb_iov (store (resized i n pp) j) = ppb_iov (store pp j)"
  "pipe_size (store (resized i n pp) j) = (if j = i then n else pipe_size (store pp j))"
  by (simp_all add: resized_def)

lemma resized_fields [simp]:
  "bufs (resized i n pp) = bufs pp" "free_bufs (resized i n pp) = free_bufs pp"
  "prev (resized i n pp) = prev pp" "nr_iovs (resized i n pp) = nr_iovs pp"
  "free_iov (resized i n pp) = free_iov pp" "iovs (resized i n pp) = iovs pp"
  "pp_flags (resized i n pp) = pp_flags pp" "next_ppb (resized i n pp) = next_ppb pp"
  "nr_pipes (resized i n pp) = nr_pipes pp" "holes (resized i n pp) = holes pp"
  "free_hole (resized i n pp) = free_hole pp" "hole_flags (resized i n pp) = hole_flags pp"
  "nr_holes (resized i n pp) = nr_holes pp"
  by (simp_all add: resized_def)

lemma resized_iovs [simp]:
  "ppb_iovs (resized i n pp) = ppb_iovs pp" "ppb_pages (resized i n pp) = ppb_pages pp"
  "pp_pages (resized i n pp) = pp_pages pp"
  by (auto simp: ppb_iovs_def ppb_pages_def pp_pages_def resized_store fun_eq_iff)

lemma resized_segs_ok [simp]: "segs_ok (resized i n pp) = segs_ok pp"
  by (simp add: segs_ok_def ppb_ok_def resized_store contiguous_cong [of _ "resized i n pp" pp])

text \<open>Adding a page to the last buffer.\<close>

lemma last_split: "xs \<noteq> [] \<Longrightarrow> \<exists>ys. xs = ys @ [last xs]"
  by (metis append_butlast_last_id)

lemma drop_take_upd_other:
  "k < a \<or> a + n \<le> k \<Longrightarrow> take n (drop a (xs[k := v])) = take n (drop a xs)"
  by (cases "k < a") (simp_all add: drop_update_swap)

lemma take_drop_snoc_upd:
  "a + n < length xs \<Longrightarrow> take (n + 1) (drop a (xs[a + n := v])) = take n (drop a xs) @ [v]"
  by (simp add: drop_update_swap take_Suc_conv_app_nth)

lemma take_drop_last_upd:
  assumes "0 < n" "a + n \<le> length xs"
  shows "take n (drop a (xs[a + n - 1 := v])) = take (n - 1) (drop a xs) @ [v]"
    "take n (drop a xs) = take (n - 1) (drop a xs) @ [xs ! (a + n - 1)]"
proof -
  obtain m where n: "n = Suc m" using assms(1) by (cases n) auto
  show "take n (drop a (xs[a + n - 1 := v])) = take (n - 1) (drop a xs) @ [v]"
    using assms(2) take_drop_snoc_upd [of a m xs v] by (simp add: n)
  show "take n (drop a xs) = take (n - 1) (drop a xs) @ [xs ! (a + n - 1)]"
    using assms(2) by (simp add: n take_Suc_conv_app_nth)
qed

lemma add_page_iov_cases:
  assumes ok: "segs_ok pp" "i = last (bufs pp)" and addr: "addr + PAGE_SIZE < ULONG_MOD"
    and r: "add_page_iov pp i addr = Ret pp'"
  shows "ppb_iovs pp' i = ppb_iovs pp i @ [iov_init addr] \<or>
      (\<exists>vs v v'. ppb_iovs pp i = vs @ [v] \<and> ppb_iovs pp' i = vs @ [v'] \<and> iov_grow_page v addr = (True, v'))"
    and "\<And>j. j \<in> set (bufs pp) \<Longrightarrow> j \<noteq> i \<Longrightarrow> ppb_iovs pp' j = ppb_iovs pp j \<and> store pp' j = store pp j"
    and "pages_in (store pp' i) = pages_in (store pp i) + 1"
    and "ppb_iov (store pp' i) = ppb_iov (store pp i)"
    and "free_iov pp' = ppb_iov (store pp i) + nr_segs (store pp' i)"
    and "free_iov pp' \<le> nr_iovs pp" "length (iovs pp') = length (iovs pp)"
proof -
  let ?b = "store pp i"
  obtain "is" a where bs: "bufs pp = is @ [i]" and ct: "contiguous pp a (is @ [i])"
    using ok last_split [of "bufs pp"] by (auto simp: segs_ok_def)
  have fi: "ppb_iov ?b + nr_segs ?b = free_iov pp" by (rule contiguous_snoc [OF ct])
  have len: "free_iov pp \<le> nr_iovs pp" "nr_iovs pp \<le> length (iovs pp)" using ok by (auto simp: segs_ok_def)
  have before: "ppb_iov (store pp j) + nr_segs (store pp j) \<le> ppb_iov ?b" if "j \<in> set (bufs pp)" "j \<noteq> i" for j
    using contiguous_before [OF ct] that bs by auto
  let ?k = "ppb_iov ?b + nr_segs ?b - 1"
  have all: "(ppb_iovs pp' i = ppb_iovs pp i @ [iov_init addr] \<or>
      (\<exists>vs v v'. ppb_iovs pp i = vs @ [v] \<and> ppb_iovs pp' i = vs @ [v'] \<and> iov_grow_page v addr = (True, v')))
    \<and> (\<forall>j. j \<in> set (bufs pp) \<longrightarrow> j \<noteq> i \<longrightarrow> ppb_iovs pp' j = ppb_iovs pp j \<and> store pp' j = store pp j)
    \<and> pages_in (store pp' i) = pages_in ?b + 1 \<and> ppb_iov (store pp' i) = ppb_iov ?b
    \<and> free_iov pp' = ppb_iov ?b + nr_segs (store pp' i) \<and> free_iov pp' \<le> nr_iovs pp
    \<and> length (iovs pp') = length (iovs pp)"
  proof (cases "nr_segs ?b \<noteq> 0 \<and> fst (iov_grow_page (iovs pp ! ?k) addr)")
    case True
    then obtain v' where v': "iov_grow_page (iovs pp ! ?k) addr = (True, v')"
      by (metis (full_types) prod.collapse)
    have pp': "pp' = set_ppb i (?b\<lparr>pages_in := pages_in ?b + 1\<rparr>) (pp\<lparr>iovs := (iovs pp)[?k := v']\<rparr>)"
      using r True v' by (simp add: add_page_iov_def Let_def)
    have "ppb_iovs pp i = take (nr_segs ?b - 1) (drop (ppb_iov ?b) (iovs pp)) @ [iovs pp ! ?k]"
      "ppb_iovs pp' i = take (nr_segs ?b - 1) (drop (ppb_iov ?b) (iovs pp)) @ [v']"
      using take_drop_last_upd(1) [of "nr_segs ?b" "ppb_iov ?b" "iovs pp" v']
        take_drop_last_upd(2) [of "nr_segs ?b" "ppb_iov ?b" "iovs pp"] True fi len
      by (simp_all add: ppb_iovs_def pp')
    moreover have "ppb_iovs pp' j = ppb_iovs pp j" if "j \<in> set (bufs pp)" "j \<noteq> i" for j
      using that before [OF that] True by (auto simp: ppb_iovs_def pp' intro: drop_take_upd_other)
    ultimately show ?thesis using v' fi len by (auto simp: pp')
  next
    case False
    then have pp': "pp' = set_ppb i (?b\<lparr>nr_segs := nr_segs ?b + 1, pages_in := pages_in ?b + 1\<rparr>)
        (pp\<lparr>iovs := (iovs pp)[ppb_iov ?b + nr_segs ?b := iov_init addr], free_iov := free_iov pp + 1\<rparr>)"
      and lt: "free_iov pp < nr_iovs pp"
      using r by (auto simp: add_page_iov_def Let_def split: if_splits)
    have "ppb_iovs pp' i = ppb_iovs pp i @ [iov_init addr]"
      using take_drop_snoc_upd [of "ppb_iov ?b" "nr_segs ?b" "iovs pp" "iov_init addr"] fi len lt
      by (simp add: ppb_iovs_def pp')
    moreover have "ppb_iovs pp' j = ppb_iovs pp j" if "j \<in> set (bufs pp)" "j \<noteq> i" for j
      using that before [OF that] by (auto simp: ppb_iovs_def pp' intro: drop_take_upd_other)
    ultimately show ?thesis using fi lt by (auto simp: pp')
  qed
  then show "ppb_iovs pp' i = ppb_iovs pp i @ [iov_init addr] \<or>
      (\<exists>vs v v'. ppb_iovs pp i = vs @ [v] \<and> ppb_iovs pp' i = vs @ [v'] \<and> iov_grow_page v addr = (True, v'))"
    "\<And>j. j \<in> set (bufs pp) \<Longrightarrow> j \<noteq> i \<Longrightarrow> ppb_iovs pp' j = ppb_iovs pp j \<and> store pp' j = store pp j"
    "pages_in (store pp' i) = pages_in (store pp i) + 1"
    "ppb_iov (store pp' i) = ppb_iov (store pp i)"
    "free_iov pp' = ppb_iov (store pp i) + nr_segs (store pp' i)"
    "free_iov pp' \<le> nr_iovs pp" "length (iovs pp') = length (iovs pp)" by blast+
qed

lemma add_page_iov_fields:
  assumes "add_page_iov pp i addr = Ret pp'"
  shows "bufs pp' = bufs pp" "free_bufs pp' = free_bufs pp" "next_ppb pp' = next_ppb pp"
    "nr_iovs pp' = nr_iovs pp" "prev pp' = prev pp" "pp_flags pp' = pp_flags pp"
    "nr_pipes pp' = nr_pipes pp"
    "ppb_p (store pp' j) = ppb_p (store pp j)" "pipe_off (store pp' j) = pipe_off (store pp j)"
    "pipe_size (store pp' j) = pipe_size (store pp j)" "ppb_flags (store pp' j) = ppb_flags (store pp j)"
    "pages_in (store pp' j) = (if j = i then pages_in (store pp j) + 1 else pages_in (store pp j))"
    "j \<noteq> i \<Longrightarrow> store pp' j = store pp j"
  using assms by (auto simp: add_page_iov_def Let_def split: if_splits)

lemma segs_ok_last:
  assumes "segs_ok pp" "i = last (bufs pp)"
  obtains "is" a where "bufs pp = is @ [i]" "contiguous pp a (is @ [i])" "i \<notin> set is"
proof -
  have "bufs pp \<noteq> []" using assms by (simp add: segs_ok_def)
  then obtain "is" where bs: "bufs pp = is @ [i]" using assms(2) last_split [of "bufs pp"] by metis
  moreover obtain a where "contiguous pp a (bufs pp)" using assms by (auto simp: segs_ok_def)
  moreover have "distinct (bufs pp)" using assms by (simp add: segs_ok_def)
  ultimately show thesis using that [of "is" a] by simp
qed

lemma add_page_iov_segs:
  assumes ok: "segs_ok pp" "i = last (bufs pp)" and addr: "PAGE_SIZE dvd addr" "addr + PAGE_SIZE < ULONG_MOD"
    and r: "add_page_iov pp i addr = Ret pp'"
  shows "segs_ok pp'" "pp_pages pp' = pp_pages pp @ [(addr, ppb_flags (store pp i))]"
proof -
  note c = add_page_iov_cases [OF ok addr(2) r] and f = add_page_iov_fields [OF r]
  obtain "is" a where bs: "bufs pp = is @ [i]" and ct: "contiguous pp a (is @ [i])" and d: "i \<notin> set is"
    by (rule segs_ok_last [OF ok])
  have i: "i \<in> set (bufs pp)" using bs by simp
  have iok: "ppb_ok pp i" using ok i by (auto simp: segs_ok_def)
  have new: "(\<forall>v\<in>set (ppb_iovs pp' i). iov_ok v) \<and> ppb_pages pp' i = ppb_pages pp i @ [addr]"
    using c(1) iok iov_init_ok [OF addr] iov_grow_page_ok [OF _ addr(2)]
    by (auto simp: ppb_ok_def ppb_pages_def)
  have oldv: "ppb_iovs pp' j = ppb_iovs pp j" if "j \<in> set is" for j
  proof -
    have "j \<noteq> i" using that d by auto
    then show ?thesis using c(2) [of j] that bs by simp
  qed
  have old: "ppb_iovs pp' j = ppb_iovs pp j" "ppb_pages pp' j = ppb_pages pp j" if "j \<in> set is" for j
    using oldv [OF that] by (simp_all add: ppb_pages_def)
  have ct': "contiguous pp' a (is @ [i])"
  proof -
    have "contiguous pp' b (js @ [i])" if "contiguous pp b (js @ [i])" "set js \<subseteq> set is" for b js
      using that
    proof (induction js arbitrary: b)
      case Nil
      then show ?case using c(4,5) by simp
    next
      case (Cons j js)
      then have "store pp' j = store pp j" using f(13) [of j] d by auto
      then show ?case using Cons by simp
    qed
    then show ?thesis using ct by blast
  qed
  have "free_iov pp \<le> free_iov pp'"
    using contiguous_snoc [OF ct] contiguous_snoc [OF ct'] c(3-5) r
    by (auto simp: add_page_iov_def Let_def split: if_splits)
  then have "ppb_ok pp' j" if "j \<in> set (bufs pp)" for j
  proof (cases "j = i")
    case True
    then show ?thesis using new iok c(3-5) by (simp add: ppb_ok_def)
  next
    case False
    then have "j \<in> set is" "ppb_ok pp j" "store pp' j = store pp j"
      using that bs ok(1) f(13) by (auto simp: segs_ok_def)
    then show ?thesis using old [of j] \<open>free_iov pp \<le> free_iov pp'\<close> by (simp add: ppb_ok_def)
  qed
  then have pok: "\<forall>j\<in>set (bufs pp). ppb_ok pp' j" by blast
  have "\<exists>a. contiguous pp' a (bufs pp)" using ct' by (auto simp: bs)
  then show "segs_ok pp'" using ok(1) c(6,7) pok by (simp add: segs_ok_def f(1-4))
  have eq: "map (\<lambda>j. map (\<lambda>x. (x, ppb_flags (store pp' j))) (ppb_pages pp' j)) is =
      map (\<lambda>j. map (\<lambda>x. (x, ppb_flags (store pp j))) (ppb_pages pp j)) is"
    using old f(11) by simp
  show "pp_pages pp' = pp_pages pp @ [(addr, ppb_flags (store pp i))]"
    unfolding pp_pages_def f(1) bs map_append concat_append eq using new f(11) by simp
qed

subsection \<open>Invariant: sizes and places in the pipes\<close>

definition size_ok :: "page_pipe \<Rightarrow> bool" where
  "size_ok pp \<longleftrightarrow>
     (\<forall>i\<in>set (bufs pp). 0 < pipe_size (store pp i) \<and>
        pages_in (store pp i) + pipe_off (store pp i) \<le> pipe_size (store pp i)) \<and>
     (\<forall>i\<in>set (free_bufs pp). 0 < pipe_size (store pp i) \<and> pipe_off (store pp i) = 0)"

text \<open>How many pages the buffers of a list put into a pipe.\<close>

definition level :: "page_pipe \<Rightarrow> nat list \<Rightarrow> nat \<Rightarrow> nat" where
  "level pp is p = (\<Sum>i\<leftarrow>is. if ppb_p (store pp i) = p then pages_in (store pp i) else 0)"

definition off_ok :: "page_pipe \<Rightarrow> nat list \<Rightarrow> bool" where
  "off_ok pp is \<longleftrightarrow>
     (\<forall>xs i ys. is = xs @ i # ys \<longrightarrow> pipe_off (store pp i) = level pp xs (ppb_p (store pp i)))"

abbreviation chunk_mode :: "page_pipe \<Rightarrow> bool" where
  "chunk_mode pp \<equiv> pp_flags pp AND PP_CHUNK_MODE \<noteq> 0"

text \<open>
  Every buffer starts in its pipe where the earlier buffers of the pipe end. In chunk mode no
  pipe is shared. Otherwise the last buffer is the previous one of its type, the two types have
  different pipes, and after the previous buffer of a type nothing else is in its pipe.
\<close>

definition pipes_ok :: "page_pipe \<Rightarrow> bool" where
  "pipes_ok pp \<longleftrightarrow>
     off_ok pp (bufs pp) \<and>
     (if chunk_mode pp
      then distinct (map (\<lambda>i. ppb_p (store pp i)) (bufs pp @ free_bufs pp))
      else free_bufs pp = [] \<and> (\<exists>t. prev pp t = Some (last (bufs pp))) \<and>
        (\<forall>t i. prev pp t = Some i \<longrightarrow> i \<in> set (bufs pp) \<and>
           level pp (bufs pp) (ppb_p (store pp i)) = pages_in (store pp i) + pipe_off (store pp i)) \<and>
        (\<forall>i j. prev pp True = Some i \<longrightarrow> prev pp False = Some j \<longrightarrow>
           ppb_p (store pp i) \<noteq> ppb_p (store pp j)))"

lemma level_append [simp]: "level pp (xs @ ys) p = level pp xs p + level pp ys p"
  by (simp add: level_def)

lemma level_single [simp]:
  "level pp [i] p = (if ppb_p (store pp i) = p then pages_in (store pp i) else 0)"
  by (simp add: level_def)

lemma level_cong:
  "(\<And>i. i \<in> set is \<Longrightarrow> ppb_p (store pp' i) = ppb_p (store pp i) \<and> pages_in (store pp' i) = pages_in (store pp i)) \<Longrightarrow>
   level pp' is p = level pp is p"
  by (auto simp: level_def intro!: arg_cong [of _ _ sum_list])

lemma off_ok_Nil [simp]: "off_ok pp []"
  by (simp add: off_ok_def)

lemma off_okD: "off_ok pp (xs @ i # ys) \<Longrightarrow> pipe_off (store pp i) = level pp xs (ppb_p (store pp i))"
  by (auto simp: off_ok_def)

lemma off_ok_snoc:
  "off_ok pp (is @ [i]) \<longleftrightarrow> off_ok pp is \<and> pipe_off (store pp i) = level pp is (ppb_p (store pp i))"
proof
  assume l: "off_ok pp (is @ [i])"
  have "pipe_off (store pp j) = level pp xs (ppb_p (store pp j))" if "is = xs @ j # ys" for xs j ys
    using l [unfolded off_ok_def, rule_format, of xs j "ys @ [i]"] that by simp
  moreover have "pipe_off (store pp i) = level pp is (ppb_p (store pp i))"
    using l [unfolded off_ok_def, rule_format, of "is" i "[]"] by simp
  ultimately show "off_ok pp is \<and> pipe_off (store pp i) = level pp is (ppb_p (store pp i))"
    by (simp add: off_ok_def)
next
  assume r: "off_ok pp is \<and> pipe_off (store pp i) = level pp is (ppb_p (store pp i))"
  have "pipe_off (store pp j) = level pp xs (ppb_p (store pp j))" if "is @ [i] = xs @ j # ys" for xs j ys
    using that r by (cases ys rule: rev_cases) (auto simp: off_ok_def)
  then show "off_ok pp (is @ [i])" by (simp add: off_ok_def)
qed

lemma off_ok_cong:
  assumes "\<And>i. i \<in> set is \<Longrightarrow> ppb_p (store pp' i) = ppb_p (store pp i)
      \<and> pages_in (store pp' i) = pages_in (store pp i) \<and> pipe_off (store pp' i) = pipe_off (store pp i)"
  shows "off_ok pp' is = off_ok pp is"
  using assms
proof (induction "is" rule: rev_induct)
  case (snoc i "is")
  moreover have "level pp' is p = level pp is p" for p using snoc.prems by (intro level_cong) auto
  ultimately show ?case by (simp add: off_ok_snoc)
qed simp

lemma resized_pipes_ok [simp]: "pipes_ok (resized i n pp) = pipes_ok pp"
proof -
  have "level (resized i n pp) = level pp" by (auto simp: fun_eq_iff resized_store intro: level_cong)
  moreover have "off_ok (resized i n pp) is = off_ok pp is" for "is"
    by (rule off_ok_cong) (simp add: resized_store)
  ultimately show ?thesis by (simp add: pipes_ok_def resized_store)
qed

lemma add_page_iov_pipes:
  assumes ok: "segs_ok pp" "pipes_ok pp" "i = last (bufs pp)" and r: "add_page_iov pp i addr = Ret pp'"
  shows "pipes_ok pp'"
proof -
  note f = add_page_iov_fields [OF r]
  obtain "is" where bs: "bufs pp = is @ [i]" and d: "i \<notin> set is"
    by (rule segs_ok_last [OF ok(1,3)])
  have lev: "level pp' is p = level pp is p" for p
    using f(8,12) d by (intro level_cong) auto
  have lev_all: "level pp' (bufs pp) p = level pp (bufs pp) p + (if ppb_p (store pp i) = p then 1 else 0)" for p
    using lev f(8,12) by (simp add: bs)
  have "off_ok pp' is = off_ok pp is" using f(8,9,12) d by (intro off_ok_cong) auto
  then have off: "off_ok pp' (bufs pp')"
    using ok(2) lev f(1,8,9) by (simp add: pipes_ok_def bs off_ok_snoc)
  show ?thesis
  proof (cases "chunk_mode pp")
    case True
    then show ?thesis using ok(2) off f(1,2,6,8) by (simp add: pipes_ok_def)
  next
    case False
    then obtain t where t: "prev pp t = Some i" and
      pr: "\<And>t j. prev pp t = Some j \<Longrightarrow> j \<in> set (bufs pp) \<and>
         level pp (bufs pp) (ppb_p (store pp j)) = pages_in (store pp j) + pipe_off (store pp j)" and
      ne: "\<And>j k. prev pp True = Some j \<Longrightarrow> prev pp False = Some k \<Longrightarrow> ppb_p (store pp j) \<noteq> ppb_p (store pp k)"
      using ok(2,3) by (auto simp: pipes_ok_def)
    have neq: "ppb_p (store pp j) \<noteq> ppb_p (store pp i)" if "prev pp u = Some j" "j \<noteq> i" for u j
      using ne t that by (cases t; cases u) fastforce+
    have "level pp' (bufs pp) (ppb_p (store pp j)) = pages_in (store pp' j) + pipe_off (store pp j)"
      if "prev pp u = Some j" for u j
      using neq [OF that] pr [OF that] lev_all [of "ppb_p (store pp j)"] f(12) [of j] by (cases "j = i") auto
    then show ?thesis
      using False off ok(2) t pr ne f(1,2,5,6,8,9) by (auto simp: pipes_ok_def)
  qed
qed

subsection \<open>The contract of the kernel and resizing\<close>

text \<open>
  \<open>F_SETPIPE_SZ\<close> returns at least the size asked for when it succeeds, a pipe holds at least a
  page, and \<open>pipe\<close> creates a pipe that no buffer uses.
\<close>

definition setpipe_ok :: "pp_sys \<Rightarrow> bool" where
  "setpipe_ok sys \<longleftrightarrow> (\<forall>p n. 0 \<le> sys_setpipe_sz sys p n \<longrightarrow> int n \<le> sys_setpipe_sz sys p n)"

definition pp_sys_ok :: "pp_sys \<Rightarrow> page_pipe \<Rightarrow> bool" where
  "pp_sys_ok sys pp \<longleftrightarrow>
     setpipe_ok sys \<and>
     (\<forall>p. int PAGE_SIZE \<le> sys_getpipe_sz sys p) \<and>
     (\<forall>p i. sys_pipe sys = Some p \<longrightarrow> i \<in> set (bufs pp) \<union> set (free_bufs pp) \<longrightarrow> ppb_p (store pp i) \<noteq> p)"

definition pp_inv :: "page_pipe \<Rightarrow> bool" where
  "pp_inv pp \<longleftrightarrow> segs_ok pp \<and> size_ok pp \<and> pipes_ok pp"

lemma pp_sys_ok_resized [simp]: "pp_sys_ok sys (resized i n pp) = pp_sys_ok sys pp"
  by (simp add: pp_sys_ok_def resized_store)

lemma resize_pipe_cases:
  assumes "setpipe_ok sys" "pipe_size b \<le> n"
  obtains "resize_pipe sys b n = Ret (-1, b)"
  | m where "resize_pipe sys b n = Ret (0, b\<lparr>pipe_size := m\<rparr>)" "n \<le> m"
proof (cases "sys_setpipe_sz sys (ppb_p b) (n * PAGE_SIZE) < 0")
  case True
  then show thesis using that(1) by (simp add: resize_pipe_def)
next
  case False
  let ?r = "sys_setpipe_sz sys (ppb_p b) (n * PAGE_SIZE) div int PAGE_SIZE"
  have "int (n * PAGE_SIZE) \<le> sys_setpipe_sz sys (ppb_p b) (n * PAGE_SIZE)"
    using assms(1) [unfolded setpipe_ok_def, rule_format, of "ppb_p b" "n * PAGE_SIZE"] False
    by simp
  then have "int n \<le> ?r"
    using zdiv_mono1 [of "int (n * PAGE_SIZE)" _ "int PAGE_SIZE"] by simp
  then show thesis
    using that(2) [of "nat ?r"] False assms(2) by (simp add: resize_pipe_def)
qed

lemma ppb_resize_pipe_cases:
  assumes sys: "setpipe_ok sys" and b: "0 < pipe_size b" "pages_in b + pipe_off b \<le> pipe_size b"
  obtains n where "ppb_resize_pipe sys b = Ret (0, b\<lparr>pipe_size := n\<rparr>)" "pipe_size b \<le> n"
      "pages_in b + pipe_off b < n"
  | n where "ppb_resize_pipe sys b = Ret (1, b\<lparr>pipe_size := n\<rparr>)" "pipe_size b \<le> n"
      "pipe_size b \<le> pages_in b + pipe_off b"
proof -
  consider (room) "pages_in b + pipe_off b < pipe_size b"
    | (max) "pipe_size b \<le> pages_in b + pipe_off b" "pipe_size b * 2 > PIPE_MAX_SIZE" "\<not> pipe_size b < PIPE_MAX_SIZE"
    | (last_step) "pipe_size b \<le> pages_in b + pipe_off b" "pipe_size b * 2 > PIPE_MAX_SIZE" "pipe_size b < PIPE_MAX_SIZE"
    | (doubling) "pipe_size b \<le> pages_in b + pipe_off b" "\<not> pipe_size b * 2 > PIPE_MAX_SIZE"
    by linarith
  then show thesis
  proof cases
    case room
    then show thesis using that(1) [of "pipe_size b"] by (simp add: ppb_resize_pipe_def)
  next
    case max
    then show thesis using that(2) [of "pipe_size b"] by (simp add: ppb_resize_pipe_def)
  next
    case last_step
    have le: "pipe_size (b\<lparr>pipe_size := PIPE_MAX_SIZE\<rparr>) \<le> pipe_size b * 2" using last_step by simp
    show thesis
    proof (cases rule: resize_pipe_cases [OF sys le])
      case 1
      then show thesis using that(2) [of PIPE_MAX_SIZE] last_step by (simp add: ppb_resize_pipe_def)
    next
      case (2 m)
      then show thesis using that(1) [of m] last_step b by (simp add: ppb_resize_pipe_def)
    qed
  next
    case doubling
    have le: "pipe_size b \<le> pipe_size b * 2" by simp
    show thesis
    proof (cases rule: resize_pipe_cases [OF sys le])
      case 1
      then show thesis using that(2) [of "pipe_size b"] doubling by (simp add: ppb_resize_pipe_def)
    next
      case (2 m)
      then show thesis using that(1) [of m] doubling b by (simp add: ppb_resize_pipe_def)
    qed
  qed
qed

lemma resized_size_ok:
  "size_ok pp \<Longrightarrow> pipe_size (store pp i) \<le> n \<Longrightarrow> size_ok (resized i n pp)"
  by (force simp: size_ok_def resized_store)

lemma try_add_page_cases:
  assumes inv: "pp_inv pp" and sys: "setpipe_ok sys" and addr: "PAGE_SIZE dvd addr" "addr + PAGE_SIZE < ULONG_MOD"
    and room: "free_iov pp < nr_iovs pp \<or> try_add_page sys pp addr flags \<noteq> Bug"
  obtains n where "try_add_page sys pp addr flags = Ret (1, resized (last (bufs pp)) n pp)"
      "pipe_size (store pp (last (bufs pp))) \<le> n"
      "pipe_size (store pp (last (bufs pp))) \<le>
         pages_in (store pp (last (bufs pp))) + pipe_off (store pp (last (bufs pp)))" |
    "try_add_page sys pp addr flags = Ret (1, pp)" "ppb_flags (store pp (last (bufs pp))) \<noteq> flags" |
    pp' where "try_add_page sys pp addr flags = Ret (0, pp')" "pp_inv pp'"
      "pp_pages pp' = pp_pages pp @ [(addr, flags)]" "ppb_flags (store pp (last (bufs pp))) = flags"
      "free_iov pp' \<le> free_iov pp + 1" "nr_iovs pp' = nr_iovs pp"
proof (cases "ppb_flags (store pp (last (bufs pp))) = flags")
  case False
  then show thesis using that(2) inv
    by (simp add: try_add_page_def try_add_page_to_def pp_inv_def segs_ok_def)
next
  case True
  let ?i = "last (bufs pp)"
  have ne: "bufs pp \<noteq> []" and i: "?i \<in> set (bufs pp)"
    and sz: "0 < pipe_size (store pp ?i)" "pages_in (store pp ?i) + pipe_off (store pp ?i) \<le> pipe_size (store pp ?i)"
    using inv by (auto simp: pp_inv_def segs_ok_def size_ok_def)
  show thesis
  proof (cases rule: ppb_resize_pipe_cases [OF sys sz])
    case (1 n)
    let ?pp = "resized ?i n pp"
    have inv1: "segs_ok ?pp" "pipes_ok ?pp" "size_ok ?pp"
      using inv 1(2) resized_size_ok by (auto simp: pp_inv_def)
    have ne_bug: "add_page_iov ?pp ?i addr \<noteq> Bug" if "try_add_page sys pp addr flags \<noteq> Bug"
      using that ne True 1(1) by (auto simp: try_add_page_def try_add_page_to_def resized_def)
    obtain pp' where pp': "add_page_iov ?pp ?i addr = Ret pp'"
      using room ne_bug by (cases "add_page_iov ?pp ?i addr") (auto simp: add_page_iov_def Let_def split: if_splits)
    note f = add_page_iov_fields [OF pp']
    have "size_ok pp'"
      using inv1(3) 1(3) f(1,2,9,10,12) by (auto simp: size_ok_def resized_store)
    moreover have "segs_ok pp'" "pp_pages pp' = pp_pages pp @ [(addr, flags)]"
      using add_page_iov_segs [OF inv1(1) _ addr pp'] True by (simp_all add: resized_store)
    moreover have "pipes_ok pp'" by (rule add_page_iov_pipes [OF inv1(1,2) _ pp']) simp
    moreover have "free_iov pp' \<le> free_iov pp + 1"
      using pp' by (auto simp: add_page_iov_def Let_def split: if_splits)
    moreover have "try_add_page sys pp addr flags = Ret (0, pp')"
      using ne True 1(1) pp' by (simp add: try_add_page_def try_add_page_to_def resized_def)
    ultimately show thesis using that(3) True f(4) by (simp add: pp_inv_def)
  next
    case (2 n)
    then show thesis using that(1) [of n] ne True
      by (simp add: try_add_page_def try_add_page_to_def resized_def)
  qed
qed

subsection \<open>Growing\<close>

text \<open>A page pipe with a new, empty last buffer.\<close>

definition with_new :: "page_pipe \<Rightarrow> nat \<Rightarrow> u32 \<Rightarrow> page_pipe \<Rightarrow> bool" where
  "with_new pp i flags pp' \<longleftrightarrow>
     bufs pp' = bufs pp @ [i] \<and> i \<notin> set (bufs pp) \<and>
     (\<forall>j. j \<noteq> i \<longrightarrow> store pp' j = store pp j) \<and>
     iovs pp' = iovs pp \<and> free_iov pp' = free_iov pp \<and> nr_iovs pp' = nr_iovs pp \<and>
     pp_flags pp' = pp_flags pp \<and>
     pages_in (store pp' i) = 0 \<and> nr_segs (store pp' i) = 0 \<and> ppb_flags (store pp' i) = flags \<and>
     ppb_iov (store pp' i) = free_iov pp"

lemma contiguous_snoc_new:
  "contiguous pp a is \<Longrightarrow> ppb_iov (store pp i) = free_iov pp \<Longrightarrow> nr_segs (store pp i) = 0 \<Longrightarrow>
   contiguous pp a (is @ [i])"
  by (induction "is" arbitrary: a) auto

lemma with_new_old:
  assumes "with_new pp i flags pp'" "j \<in> set (bufs pp)"
  shows "store pp' j = store pp j" "ppb_iovs pp' j = ppb_iovs pp j" "ppb_pages pp' j = ppb_pages pp j"
  using assms by (auto simp: with_new_def ppb_iovs_def ppb_pages_def)

lemma with_new_pages:
  assumes "with_new pp i flags pp'"
  shows "pp_pages pp' = pp_pages pp" "ppb_pages pp' i = []"
proof -
  show "ppb_pages pp' i = []" using assms by (simp add: with_new_def ppb_pages_def ppb_iovs_def)
  then show "pp_pages pp' = pp_pages pp"
    using with_new_old [OF assms] assms by (simp add: pp_pages_def with_new_def cong: map_cong)
qed

lemma with_new_segs:
  assumes w: "with_new pp i flags pp'" and ok: "segs_ok pp \<or> (bufs pp = [] \<and> free_iov pp \<le> nr_iovs pp \<and> nr_iovs pp \<le> length (iovs pp))"
    and d: "distinct (bufs pp' @ free_bufs pp')"
    "\<forall>j\<in>set (bufs pp') \<union> set (free_bufs pp'). j < next_ppb pp'"
  shows "segs_ok pp'"
proof -
  obtain a where a: "contiguous pp a (bufs pp)" using ok by (cases "bufs pp") (auto simp: segs_ok_def)
  have "contiguous pp' a (bufs pp)"
    using a w by (subst contiguous_cong [of _ pp' pp]) (auto simp: with_new_old [OF w] with_new_def)
  then have "contiguous pp' a (bufs pp')"
    using w contiguous_snoc_new [of pp' a "bufs pp" i] by (simp add: with_new_def)
  moreover have "ppb_ok pp' j" if "j \<in> set (bufs pp')" for j
  proof (cases "j = i")
    case True
    then show ?thesis using w with_new_pages(2) [OF w] by (simp add: ppb_ok_def with_new_def ppb_iovs_def)
  next
    case False
    then have "j \<in> set (bufs pp)" using that w by (simp add: with_new_def)
    moreover from this have "ppb_ok pp j" using ok by (auto simp: segs_ok_def)
    ultimately show ?thesis using w with_new_old [OF w] by (simp add: ppb_ok_def with_new_def)
  qed
  ultimately show ?thesis using w d ok by (auto simp: segs_ok_def with_new_def)
qed

lemma with_new_level:
  assumes "with_new pp i flags pp'"
  shows "level pp' (bufs pp) p = level pp (bufs pp) p" "level pp' (bufs pp') p = level pp (bufs pp) p"
    "off_ok pp' (bufs pp) = off_ok pp (bufs pp)"
proof -
  show 1: "level pp' (bufs pp) p = level pp (bufs pp) p"
    using with_new_old(1) [OF assms] by (intro level_cong) simp
  show "off_ok pp' (bufs pp) = off_ok pp (bufs pp)"
    using with_new_old(1) [OF assms] by (intro off_ok_cong) simp
  show "level pp' (bufs pp') p = level pp (bufs pp) p"
    using assms 1 by (simp add: with_new_def)
qed

lemma level_fresh:
  "(\<And>j. j \<in> set is \<Longrightarrow> ppb_p (store pp j) \<noteq> p) \<Longrightarrow> level pp is p = 0"
  by (induction "is") (auto simp: level_def)

text \<open>
  A new buffer at the end of a shared pipe or of a pipe of its own keeps the invariant. The
  pipe of the new buffer holds \<open>pipe_off\<close> pages so far.
\<close>

lemma with_new_pipes_private:
  assumes w: "with_new pp i flags pp'" and ok: "pipes_ok pp" and ne: "bufs pp \<noteq> []" and nc: "\<not> chunk_mode pp"
    and fr: "free_bufs pp' = []" and pv: "prev pp' = (prev pp)(t := Some i)"
    and off: "pipe_off (store pp' i) = level pp (bufs pp) (ppb_p (store pp' i))"
    and other: "\<And>j. prev pp (\<not> t) = Some j \<Longrightarrow> ppb_p (store pp j) \<noteq> ppb_p (store pp' i)"
  shows "pipes_ok pp'"
proof -
  have bs: "bufs pp' = bufs pp @ [i]" "i \<notin> set (bufs pp)" and pg: "pages_in (store pp' i) = 0"
    and nc': "\<not> chunk_mode pp'"
    using w nc by (auto simp: with_new_def)
  note lv = with_new_level [OF w]
  have o: "off_ok pp' (bufs pp')"
    using ok off lv by (simp add: bs off_ok_snoc pipes_ok_def)
  have pr: "j \<in> set (bufs pp) \<and> level pp (bufs pp) (ppb_p (store pp j)) = pages_in (store pp j) + pipe_off (store pp j)"
    if "prev pp u = Some j" for u j
    using ok nc that by (auto simp: pipes_ok_def)
  have p': "j \<in> set (bufs pp') \<and> level pp' (bufs pp') (ppb_p (store pp' j)) = pages_in (store pp' j) + pipe_off (store pp' j)"
    if "prev pp' u = Some j" for u j
  proof (cases "u = t")
    case True
    then show ?thesis using that pv bs off pg lv(1) by simp
  next
    case False
    then have "prev pp u = Some j" using that pv by simp
    then show ?thesis using pr [of u j] with_new_old(1) [OF w, of j] lv(2) bs by auto
  qed
  have "ppb_p (store pp' j) \<noteq> ppb_p (store pp' k)" if "prev pp' True = Some j" "prev pp' False = Some k" for j k
  proof (cases t)
    case True
    then have "prev pp False = Some k" "j = i" using that pv by auto
    then show ?thesis using other [of k] True pr [of False k] with_new_old(1) [OF w, of k] by auto
  next
    case False
    then have "prev pp True = Some j" "k = i" using that pv by auto
    then show ?thesis using other [of j] False pr [of True j] with_new_old(1) [OF w, of j] by auto
  qed
  then show ?thesis using o p' nc' fr pv bs by (auto simp: pipes_ok_def)
qed

lemma with_new_pipes_chunk:
  assumes w: "with_new pp i flags pp'" and ok: "off_ok pp (bufs pp)" and c: "chunk_mode pp"
    and d: "distinct (map (\<lambda>j. ppb_p (store pp' j)) (bufs pp' @ free_bufs pp'))"
    and off: "pipe_off (store pp' i) = 0"
  shows "pipes_ok pp'"
proof -
  have bs: "bufs pp' = bufs pp @ [i]" "i \<notin> set (bufs pp)" and c': "chunk_mode pp'"
    using w c by (auto simp: with_new_def)
  have "ppb_p (store pp' j) \<noteq> ppb_p (store pp' i)" if "j \<in> set (bufs pp)" for j
    using d that bs by (auto simp: image_iff)
  then have "level pp' (bufs pp) (ppb_p (store pp' i)) = 0" by (intro level_fresh) auto
  then have "off_ok pp' (bufs pp')"
    using off ok with_new_level(3) [OF w] by (simp add: bs off_ok_snoc)
  then show ?thesis using d c' by (simp add: pipes_ok_def)
qed

text \<open>What one call of \<open>page_pipe_grow\<close> can do.\<close>

lemma ppb_link_with_new:
  assumes "segs_ok pp \<or> bufs pp = []" "next_ppb pp \<notin> set (bufs pp)"
    "ppb_link lazy pp flags b = (Some i, pp1)"
    "pp' = set_ppb i (ppb_init (store pp1 i) 0 0 flags (free_iov pp1)) pp1"
  shows "with_new pp i flags pp'" "i = next_ppb pp" "free_bufs pp' = free_bufs pp"
    "next_ppb pp' = next_ppb pp + 1" "prev pp' = (prev pp)(ppb_type lazy flags := Some i)"
    "ppb_p (store pp' i) = ppb_p b" "pipe_off (store pp' i) = pipe_off b" "pipe_size (store pp' i) = pipe_size b"
  using assms(2-4)
  by (auto simp: ppb_link_def Let_def pp_update_prev_ppb_def ppb_init_def with_new_def)

lemma with_new_size:
  assumes w: "with_new pp i flags pp'" and ok: "size_ok pp" and f: "set (free_bufs pp') \<subseteq> set (free_bufs pp)"
    "i \<notin> set (free_bufs pp')"
    and i: "0 < pipe_size (store pp' i)" "pipe_off (store pp' i) \<le> pipe_size (store pp' i)"
  shows "size_ok pp'"
  using assms by (auto simp: size_ok_def with_new_def) (metis subsetD)+

lemma grow_from_free:
  assumes inv: "segs_ok pp \<or> bufs pp = [] \<and> free_iov pp \<le> nr_iovs pp \<and> nr_iovs pp \<le> length (iovs pp)"
    and d: "distinct (bufs pp @ free_bufs pp)" "\<forall>j\<in>set (bufs pp) \<union> set (free_bufs pp). j < next_ppb pp"
    and ok: "size_ok pp" "off_ok pp (bufs pp)" "chunk_mode pp"
      "distinct (map (\<lambda>j. ppb_p (store pp j)) (bufs pp @ free_bufs pp))"
    and ne: "free_bufs pp \<noteq> []"
  shows "\<exists>pp'. page_pipe_grow sys lazy pp flags = Ret (0, pp') \<and> pp_inv pp' \<and> pp_pages pp' = pp_pages pp
    \<and> ppb_flags (store pp' (last (bufs pp'))) = flags \<and> pages_in (store pp' (last (bufs pp'))) = 0
    \<and> pipe_off (store pp' (last (bufs pp'))) < pipe_size (store pp' (last (bufs pp')))
    \<and> free_iov pp' = free_iov pp \<and> nr_iovs pp' = nr_iovs pp"
proof -
  obtain i js where fb: "free_bufs pp = i # js" using ne by (cases "free_bufs pp") auto
  define pp1 where "pp1 = pp\<lparr>free_bufs := js, bufs := bufs pp @ [i]\<rparr>"
  define pp' where "pp' = set_ppb i (ppb_init (store pp1 i) 0 0 flags (free_iov pp1)) pp1"
  have r: "page_pipe_grow sys lazy pp flags = Ret (0, pp')"
    using fb by (simp add: page_pipe_grow_def Let_def pp'_def pp1_def)
  have w: "with_new pp i flags pp'"
    using d(1) fb by (auto simp: with_new_def pp'_def pp1_def ppb_init_def)
  have fb': "free_bufs pp' = js" "bufs pp' = bufs pp @ [i]" "next_ppb pp' = next_ppb pp"
    using fb by (simp_all add: pp'_def pp1_def)
  have i: "0 < pipe_size (store pp' i)" "pipe_off (store pp' i) = 0"
    using ok(1) fb by (auto simp: size_ok_def pp'_def pp1_def ppb_init_def)
  have dd: "distinct (bufs pp' @ free_bufs pp')" using d(1) fb by (auto simp: fb')
  have "segs_ok pp'"
    by (rule with_new_segs [OF w inv dd]) (use d fb in \<open>auto simp: fb'\<close>)
  moreover have "size_ok pp'"
    by (rule with_new_size [OF w ok(1)]) (use fb d(1) i in \<open>auto simp: fb'\<close>)
  moreover have "pipes_ok pp'"
  proof (rule with_new_pipes_chunk [OF w ok(2,3) _ i(2)])
    have "ppb_p (store pp' j) = ppb_p (store pp j)" for j
      by (simp add: pp'_def pp1_def ppb_init_def)
    then show "distinct (map (\<lambda>j. ppb_p (store pp' j)) (bufs pp' @ free_bufs pp'))"
      using ok(4) fb by (auto simp: fb')
  qed
  ultimately show ?thesis
    using r w i with_new_pages(1) [OF w] by (auto simp: pp_inv_def with_new_def)
qed

text \<open>The result of a growth that succeeds.\<close>

definition grown :: "page_pipe \<Rightarrow> u32 \<Rightarrow> page_pipe \<Rightarrow> bool" where
  "grown pp flags pp' \<longleftrightarrow>
     pp_inv pp' \<and> pp_pages pp' = pp_pages pp
     \<and> ppb_flags (store pp' (last (bufs pp'))) = flags \<and> pages_in (store pp' (last (bufs pp'))) = 0
     \<and> pipe_off (store pp' (last (bufs pp'))) < pipe_size (store pp' (last (bufs pp')))
     \<and> free_iov pp' = free_iov pp \<and> nr_iovs pp' = nr_iovs pp"

text \<open>Linking a new buffer, with a pipe of its own or at the end of the previous one's.\<close>

lemma grown_link:
  assumes inv: "pp_inv pp" and fr: "free_bufs pp = []"
    and l: "ppb_link lazy pp flags b = (Some i, pp1)"
    and pp': "pp' = set_ppb i (ppb_init (store pp1 i) 0 0 flags (free_iov pp1)) pp1"
    and sz: "pipe_off b < pipe_size b"
    and place: "(\<forall>j\<in>set (bufs pp). ppb_p (store pp j) \<noteq> ppb_p b) \<and> pipe_off b = 0 \<or>
      (\<not> chunk_mode pp \<and> (\<exists>j. prev pp (ppb_type lazy flags) = Some j \<and> ppb_p b = ppb_p (store pp j) \<and>
         pipe_off b = pages_in (store pp j) + pipe_off (store pp j)))"
  shows "grown pp flags pp'"
proof -
  have segs: "segs_ok pp" and size: "size_ok pp" and pipes: "pipes_ok pp" using inv by (auto simp: pp_inv_def)
  have nx: "next_ppb pp \<notin> set (bufs pp)" using segs by (auto simp: segs_ok_def)
  note w = ppb_link_with_new [OF disjI1 [OF segs] nx l pp']
  have bs: "bufs pp' = bufs pp @ [i]" using w(1) by (simp add: with_new_def)
  have old: "store pp' j = store pp j" if "j \<in> set (bufs pp)" for j using with_new_old(1) [OF w(1) that] .
  have ne: "bufs pp \<noteq> []" using segs by (simp add: segs_ok_def)
  have "segs_ok pp'"
    by (rule with_new_segs [OF w(1) disjI1 [OF segs]]) (use segs w(2-4) bs fr in \<open>auto simp: segs_ok_def\<close>)
  moreover have "size_ok pp'"
    by (rule with_new_size [OF w(1) size]) (use w(3,7,8) fr sz in auto)
  moreover have "pipes_ok pp'"
  proof (cases "chunk_mode pp")
    case True
    then have fresh: "\<forall>j\<in>set (bufs pp). ppb_p (store pp j) \<noteq> ppb_p b" "pipe_off b = 0" using place by auto
    have "distinct (map (\<lambda>j. ppb_p (store pp j)) (bufs pp))"
      using pipes True fr by (simp add: pipes_ok_def)
    moreover have "map (\<lambda>j. ppb_p (store pp' j)) (bufs pp) = map (\<lambda>j. ppb_p (store pp j)) (bufs pp)"
      using old by simp
    ultimately have dm: "distinct (map (\<lambda>j. ppb_p (store pp' j)) (bufs pp))" by (simp only:)
    have "ppb_p (store pp' i) \<notin> (\<lambda>j. ppb_p (store pp' j)) ` set (bufs pp)"
      using fresh w(6) old by auto
    with dm have "distinct (map (\<lambda>j. ppb_p (store pp' j)) (bufs pp' @ free_bufs pp'))"
      using w(3) fr by (simp add: bs)
    then show ?thesis
      using with_new_pipes_chunk [OF w(1) _ True] pipes w(7) fresh(2) by (simp add: pipes_ok_def)
  next
    case False
    have pr: "\<And>t j. prev pp t = Some j \<Longrightarrow> j \<in> set (bufs pp) \<and>
         level pp (bufs pp) (ppb_p (store pp j)) = pages_in (store pp j) + pipe_off (store pp j)"
      and two: "\<And>j k. prev pp True = Some j \<Longrightarrow> prev pp False = Some k \<Longrightarrow> ppb_p (store pp j) \<noteq> ppb_p (store pp k)"
      using pipes False by (auto simp: pipes_ok_def)
    have "pipe_off (store pp' i) = level pp (bufs pp) (ppb_p (store pp' i))"
      using place pr level_fresh [of "bufs pp" pp "ppb_p b"] w(6,7) by auto
    moreover have "ppb_p (store pp j) \<noteq> ppb_p (store pp' i)" if j: "prev pp (\<not> ppb_type lazy flags) = Some j" for j
      using place
    proof (elim disjE conjE exE)
      assume "\<forall>j\<in>set (bufs pp). ppb_p (store pp j) \<noteq> ppb_p b"
      then show ?thesis using pr [OF j] w(6) by auto
    next
      fix k assume k: "prev pp (ppb_type lazy flags) = Some k" "ppb_p b = ppb_p (store pp k)"
      show ?thesis
      proof (cases "ppb_type lazy flags")
        case True
        then show ?thesis using two [of k j] j k w(6) by simp
      next
        case False
        then show ?thesis using two [of j k] j k w(6) by simp
      qed
    qed
    ultimately show ?thesis
      using with_new_pipes_private [OF w(1) pipes ne False _ w(5)] w(3) fr by simp
  qed
  moreover have "last (bufs pp') = i" by (simp add: bs)
  moreover have "pages_in (store pp' i) = 0" "ppb_flags (store pp' i) = flags"
    "free_iov pp' = free_iov pp" "nr_iovs pp' = nr_iovs pp"
    using w(1) by (simp_all add: with_new_def)
  ultimately show ?thesis
    using with_new_pages(1) [OF w(1)] w(7,8) sz by (simp add: grown_def pp_inv_def)
qed

lemma grown_eq:
  "grown pp1 flags pp' \<Longrightarrow> pp_pages pp1 = pp_pages pp \<Longrightarrow> free_iov pp1 = free_iov pp \<Longrightarrow>
   nr_iovs pp1 = nr_iovs pp \<Longrightarrow> grown pp flags pp'"
  by (simp add: grown_def)

lemma grown_resized: "grown (resized i n pp) flags pp' \<Longrightarrow> grown pp flags pp'"
  by (simp add: grown_def)

lemma nr_pipes_upd [simp]:
  "pp_inv (pp\<lparr>nr_pipes := k\<rparr>) = pp_inv pp" "pp_pages (pp\<lparr>nr_pipes := k\<rparr>) = pp_pages pp"
proof -
  have 1: "level (pp\<lparr>nr_pipes := k\<rparr>) = level pp" by (intro ext level_cong) simp
  have 2: "off_ok (pp\<lparr>nr_pipes := k\<rparr>) = off_ok pp" by (simp add: off_ok_def fun_eq_iff 1)
  have 3: "ppb_iovs (pp\<lparr>nr_pipes := k\<rparr>) = ppb_iovs pp" by (simp add: ppb_iovs_def fun_eq_iff)
  then have 4: "ppb_pages (pp\<lparr>nr_pipes := k\<rparr>) = ppb_pages pp" by (simp add: ppb_pages_def fun_eq_iff)
  have 5: "contiguous (pp\<lparr>nr_pipes := k\<rparr>) a is = contiguous pp a is" for a "is"
    by (rule contiguous_cong) auto
  show "pp_inv (pp\<lparr>nr_pipes := k\<rparr>) = pp_inv pp"
    by (simp add: pp_inv_def segs_ok_def ppb_ok_def size_ok_def pipes_ok_def 1 2 3 4 5)
  show "pp_pages (pp\<lparr>nr_pipes := k\<rparr>) = pp_pages pp" by (simp add: pp_pages_def 4)
qed

lemma grown_nr_pipes: "grown (pp\<lparr>nr_pipes := k\<rparr>) flags pp' \<Longrightarrow> grown pp flags pp'"
  by (simp add: grown_def)

lemma ppb_reuse_cases:
  assumes inv: "pp_inv pp" and sys: "pp_sys_ok sys pp" and prv: "prv = pp_prev_ppb lazy pp flags"
  obtains "ppb_reuse sys pp prv = Ret (False, pp)"
  | i n where "ppb_reuse sys pp prv = Ret (False, resized i n pp)" "pipe_size (store pp i) \<le> n"
  | i n where "ppb_reuse sys pp prv = Ret (True, resized i n pp)" "pipe_size (store pp i) \<le> n"
      "\<not> chunk_mode pp" "prv = Some i" "prev pp (ppb_type lazy flags) = Some i"
      "pages_in (store pp i) + pipe_off (store pp i) < n"
proof (cases prv)
  case None
  then show thesis using that(1) by (simp add: ppb_reuse_def)
next
  case (Some i)
  then have p: "\<not> chunk_mode pp" "prev pp (ppb_type lazy flags) = Some i"
    using prv by (auto simp: pp_prev_ppb_def split: if_splits)
  then have "i \<in> set (bufs pp)" using inv by (auto simp: pp_inv_def pipes_ok_def)
  then have sz: "0 < pipe_size (store pp i)" "pages_in (store pp i) + pipe_off (store pp i) \<le> pipe_size (store pp i)"
    using inv by (auto simp: pp_inv_def size_ok_def)
  have "setpipe_ok sys" using sys by (simp add: pp_sys_ok_def)
  then show thesis using sz
  proof (cases rule: ppb_resize_pipe_cases [consumes 3])
    case (1 n)
    then show thesis using that(3) [of i n] Some p by (simp add: ppb_reuse_def resized_def)
  next
    case (2 n)
    then show thesis using that(2) [of i n] Some by (simp add: ppb_reuse_def resized_def)
  qed
qed

text \<open>A new pipe: the branch of \<open>ppb_alloc\<close> that does not share.\<close>

lemma grow_own_pipe:
  assumes inv: "pp_inv pp1" and sys: "pp_sys_ok sys pp1" and fr: "free_bufs pp1 = []" and p: "sys_pipe sys = Some p"
    and l: "ppb_link lazy (pp1\<lparr>nr_pipes := k\<rparr>) flags (\<lparr>ppb_p = p,
          pipe_size = nat (sys_getpipe_sz sys p div int PAGE_SIZE), pipe_off = 0,
          pages_in = 0, nr_segs = 0, ppb_flags = 0, ppb_iov = 0\<rparr>) = (Some i, pp2)"
  shows "grown pp1 flags (set_ppb i (ppb_init (store pp2 i) 0 0 flags (free_iov pp2)) pp2)"
proof -
  have "int PAGE_SIZE \<le> sys_getpipe_sz sys p" using sys by (simp add: pp_sys_ok_def)
  then have "0 < sys_getpipe_sz sys p div int PAGE_SIZE" by (simp add: pos_imp_zdiv_pos_iff)
  then have "0 < nat (sys_getpipe_sz sys p div int PAGE_SIZE)" by simp
  then have "grown (pp1\<lparr>nr_pipes := k\<rparr>) flags (set_ppb i (ppb_init (store pp2 i) 0 0 flags (free_iov pp2)) pp2)"
    by (intro grown_link [OF _ _ l refl]) (use inv fr sys p in \<open>auto simp: pp_sys_ok_def\<close>)
  then show ?thesis by (rule grown_nr_pipes)
qed

lemma page_pipe_grow_cases:
  assumes inv: "pp_inv pp" and sys: "pp_sys_ok sys pp"
  obtains pp' where "page_pipe_grow sys lazy pp flags = Ret (0, pp')" "grown pp flags pp'"
  | r pp' where "page_pipe_grow sys lazy pp flags = Ret (r, pp')" "r < 0" "pp_pages pp' = pp_pages pp" "pp_inv pp'"
      "free_iov pp' = free_iov pp" "nr_iovs pp' = nr_iovs pp"
proof -
  note outer = that
  show thesis
  proof (cases "free_bufs pp = []")
  case False
  then have c: "chunk_mode pp" using inv by (auto simp: pp_inv_def pipes_ok_def)
  have "\<exists>pp'. page_pipe_grow sys lazy pp flags = Ret (0, pp') \<and> grown pp flags pp'"
    unfolding grown_def
    by (rule grow_from_free) (use False c inv in \<open>auto simp: pp_inv_def pipes_ok_def segs_ok_def\<close>)
  then show thesis using outer(1) by blast
next
  case fr: True
  let ?prv = "pp_prev_ppb lazy pp flags"
  consider (limit) "chunk_mode pp \<and> nr_pipes pp = NR_PIPES_PER_CHUNK"
    | (nomem) "\<not> (chunk_mode pp \<and> nr_pipes pp = NR_PIPES_PER_CHUNK)" "\<not> xmalloc_ok sys"
    | (go) "\<not> (chunk_mode pp \<and> nr_pipes pp = NR_PIPES_PER_CHUNK)" "xmalloc_ok sys" by blast
  then show thesis
  proof cases
    case limit
    then show thesis using outer(2) [of "- EAGAIN" pp] inv fr by (simp add: page_pipe_grow_def EAGAIN_def)
  next
    case nomem
    then have "page_pipe_grow sys lazy pp flags = Ret (-1, pp)"
      using fr by (auto simp: page_pipe_grow_def ppb_alloc_def)
    then show thesis using outer(2) [of "-1" pp] inv by simp
  next
    case go
    have own: thesis if re: "ppb_reuse sys pp ?prv = Ret (False, pp1)" and i1: "pp_inv pp1" "pp_sys_ok sys pp1"
      "free_bufs pp1 = []" "pp_pages pp1 = pp_pages pp" "free_iov pp1 = free_iov pp" "nr_iovs pp1 = nr_iovs pp" for pp1
    proof (cases "sys_pipe sys")
      case None
      then have "page_pipe_grow sys lazy pp flags = Ret (-1, pp1)"
        using fr go re by (auto simp: page_pipe_grow_def ppb_alloc_def Let_def)
      then show thesis using outer(2) [of "-1" pp1] i1 by simp
    next
      case (Some p)
      let ?b = "\<lparr>ppb_p = p, pipe_size = nat (sys_getpipe_sz sys p div int PAGE_SIZE), pipe_off = 0,
          pages_in = 0, nr_segs = 0, ppb_flags = 0, ppb_iov = 0\<rparr>"
      obtain i pp2 where l: "ppb_link lazy (pp1\<lparr>nr_pipes := nr_pipes pp1 + 1\<rparr>) flags ?b = (Some i, pp2)"
        by (auto simp: ppb_link_def Let_def)
      let ?pp' = "set_ppb i (ppb_init (store pp2 i) 0 0 flags (free_iov pp2)) pp2"
      have "page_pipe_grow sys lazy pp flags = Ret (0, ?pp')"
        using fr go re Some l by (auto simp: page_pipe_grow_def ppb_alloc_def Let_def)
      moreover have "grown pp flags ?pp'"
        by (rule grown_eq [OF grow_own_pipe [OF i1(1-3) Some l] i1(4-6)])
      ultimately show thesis using outer(1) by blast
    qed
    show thesis
    proof (cases rule: ppb_reuse_cases [OF inv sys refl, where lazy = lazy and flags = flags])
      case 1
      show thesis by (rule own [OF 1]) (use inv sys fr in auto)
    next
      case (2 i n)
      show thesis by (rule own [OF 2(1)]) (use inv sys fr 2(2) resized_size_ok in \<open>auto simp: pp_inv_def\<close>)
    next
      case (3 i n)
      let ?pp1 = "resized i n pp"
      let ?b = "\<lparr>ppb_p = ppb_p (store ?pp1 i), pipe_size = pipe_size (store ?pp1 i),
          pipe_off = pages_in (store ?pp1 i) + pipe_off (store ?pp1 i),
          pages_in = 0, nr_segs = 0, ppb_flags = 0, ppb_iov = 0\<rparr>"
      obtain k pp2 where l: "ppb_link lazy ?pp1 flags ?b = (Some k, pp2)" by (auto simp: ppb_link_def Let_def)
      let ?pp' = "set_ppb k (ppb_init (store pp2 k) 0 0 flags (free_iov pp2)) pp2"
      have "page_pipe_grow sys lazy pp flags = Ret (0, ?pp')"
        using fr go 3(1,4) l by (auto simp: page_pipe_grow_def ppb_alloc_def Let_def)
      moreover have "pp_inv ?pp1" using inv 3(2) resized_size_ok by (auto simp: pp_inv_def)
      then have "grown ?pp1 flags ?pp'"
        by (rule grown_link [OF _ _ l refl]) (use fr 3 in \<open>auto simp: resized_store\<close>)
      ultimately show thesis using outer(1) grown_resized by blast
    qed
  qed
qed
qed

subsection \<open>Adding a page\<close>

lemma page_pipe_add_page_ok:
  assumes inv: "pp_inv pp" and sys: "pp_sys_ok sys pp"
    and addr: "PAGE_SIZE dvd addr" "addr + PAGE_SIZE < ULONG_MOD" and room: "free_iov pp < nr_iovs pp \<or> page_pipe_add_page sys lazy pp addr flags \<noteq> Bug"
  shows "\<exists>r pp'. page_pipe_add_page sys lazy pp addr flags = Ret (r, pp') \<and> pp_inv pp' \<and>
    free_iov pp' \<le> free_iov pp + 1 \<and> nr_iovs pp' = nr_iovs pp \<and>
    (r = 0 \<and> pp_pages pp' = pp_pages pp @ [(addr, flags)] \<or> r < 0 \<and> pp_pages pp' = pp_pages pp \<and> free_iov pp' = free_iov pp)"
proof -
  have sp: "setpipe_ok sys" using sys by (simp add: pp_sys_ok_def)
  have grow: "\<exists>r pp'. page_pipe_add_page sys lazy pp addr flags = Ret (r, pp') \<and> pp_inv pp' \<and>
      free_iov pp' \<le> free_iov pp + 1 \<and> nr_iovs pp' = nr_iovs pp \<and>
      (r = 0 \<and> pp_pages pp' = pp_pages pp @ [(addr, flags)] \<or> r < 0 \<and> pp_pages pp' = pp_pages pp \<and> free_iov pp' = free_iov pp)"
    if t: "try_add_page sys pp addr flags = Ret (1, pp1)"
      and i1: "pp_inv pp1" "pp_sys_ok sys pp1" "pp_pages pp1 = pp_pages pp" "free_iov pp1 = free_iov pp" "nr_iovs pp1 = nr_iovs pp" for pp1
  proof (cases rule: page_pipe_grow_cases [OF i1(1,2), where lazy = lazy and flags = flags])
    case (1 pp2)
    then have g: "pp_inv pp2" "pp_pages pp2 = pp_pages pp" "ppb_flags (store pp2 (last (bufs pp2))) = flags"
      "pages_in (store pp2 (last (bufs pp2))) + pipe_off (store pp2 (last (bufs pp2)))
         < pipe_size (store pp2 (last (bufs pp2)))"
      "free_iov pp2 = free_iov pp" "nr_iovs pp2 = nr_iovs pp"
      using i1 by (auto simp: grown_def)
    have room2: "free_iov pp2 < nr_iovs pp2 \<or> try_add_page sys pp2 addr flags \<noteq> Bug"
      using room t 1(1) g(5,6) by (auto simp: page_pipe_add_page_def)
    show ?thesis
    proof (cases rule: try_add_page_cases [OF g(1) sp addr room2])
      case (3 pp3)
      then show ?thesis using t 1(1) g by (simp add: page_pipe_add_page_def)
    qed (use g in auto)
  next
    case (2 r pp2)
    then show ?thesis using t i1 by (simp add: page_pipe_add_page_def)
  qed
  have room1: "free_iov pp < nr_iovs pp \<or> try_add_page sys pp addr flags \<noteq> Bug"
    using room by (auto simp: page_pipe_add_page_def)
  show ?thesis
  proof (cases rule: try_add_page_cases [OF inv sp addr room1])
    case (1 n)
    show ?thesis
      by (rule grow [OF 1(1)]) (use inv sys 1(2) resized_size_ok in \<open>auto simp: pp_inv_def\<close>)
  next
    case 2
    show ?thesis by (rule grow [OF 2(1)]) (use inv sys in auto)
  next
    case (3 pp')
    then show ?thesis by (simp add: page_pipe_add_page_def)
  qed
qed

subsection \<open>Creation and reuse\<close>

lemma create_page_pipe_ok:
  assumes r: "create_page_pipe sys lazy segs arr junk flags = Ret (Some pp)"
    and len: "segs \<le> length (case arr of None \<Rightarrow> junk | Some l \<Rightarrow> l)"
    and sys: "\<And>p. int PAGE_SIZE \<le> sys_getpipe_sz sys p"
  shows "pp_inv pp" "pp_pages pp = []" "free_iov pp = 0" "nr_iovs pp = segs"
proof -
  obtain p where p: "sys_pipe sys = Some p"
    using r by (auto simp: create_page_pipe_def page_pipe_grow_def ppb_alloc_def ppb_reuse_def pp_prev_ppb_def
        NR_PIPES_PER_CHUNK_def Let_def split: if_splits option.splits)
  have "0 < nat (sys_getpipe_sz sys p div int PAGE_SIZE)"
    using sys [of p] by (simp add: pos_imp_zdiv_pos_iff)
  moreover have pp: "bufs pp = [0]" "free_bufs pp = []" "next_ppb pp = 1" "free_iov pp = 0" "nr_iovs pp = segs"
    "segs \<le> length (iovs pp)" "prev pp False = Some 0" "prev pp True = None"
    "store pp 0 = \<lparr>ppb_p = p, pipe_size = nat (sys_getpipe_sz sys p div int PAGE_SIZE), pipe_off = 0,
       pages_in = 0, nr_segs = 0, ppb_flags = 0, ppb_iov = 0\<rparr>"
    using r p len by (auto simp: create_page_pipe_def page_pipe_grow_def ppb_alloc_def ppb_reuse_def pp_prev_ppb_def
        NR_PIPES_PER_CHUNK_def ppb_link_def pp_update_prev_ppb_def ppb_init_def ppb_type_def Let_def
        split: if_splits option.splits)
  ultimately show "pp_inv pp"
  proof -
    have z: "i = 0" if "prev pp t = Some i" for t i using that pp(7,8) by (cases t) auto
    have "i \<in> set (bufs pp) \<and> level pp (bufs pp) (ppb_p (store pp i)) = pages_in (store pp i) + pipe_off (store pp i)"
      if "prev pp t = Some i" for t i
      unfolding z [OF that] pp(1) by (simp add: pp(9))
    moreover have "off_ok pp (bufs pp)" using pp off_ok_snoc [of pp "[]" 0] by (simp add: level_def)
    moreover have "\<exists>t. prev pp t = Some (last (bufs pp))" using pp(1,7) by auto
    ultimately have "pipes_ok pp" using pp(2,8) by (simp add: pipes_ok_def pp(1))
    then show ?thesis
      using pp \<open>0 < nat (sys_getpipe_sz sys p div int PAGE_SIZE)\<close>
      by (auto simp: pp_inv_def segs_ok_def size_ok_def ppb_ok_def ppb_iovs_def ppb_pages_def)
  qed
  show "pp_pages pp = []" "free_iov pp = 0" "nr_iovs pp = segs"
    using pp by (simp_all add: pp_pages_def ppb_pages_def ppb_iovs_def)
qed

lemma chunk_off_zero:
  assumes "pipes_ok pp" "chunk_mode pp" "i \<in> set (bufs pp)"
  shows "pipe_off (store pp i) = 0"
proof -
  obtain xs ys where bs: "bufs pp = xs @ i # ys" using assms(3) by (auto dest: split_list)
  have "distinct (map (\<lambda>j. ppb_p (store pp j)) (bufs pp))"
    using assms(1,2) by (simp add: pipes_ok_def)
  then have "level pp xs (ppb_p (store pp i)) = 0"
    by (intro level_fresh) (auto simp: bs image_iff)
  moreover have "off_ok pp (bufs pp)" using assms(1) by (simp add: pipes_ok_def)
  ultimately show ?thesis using off_okD unfolding bs by metis
qed

lemma page_pipe_reinit_ok:
  assumes inv: "pp_inv pp" and c: "chunk_mode pp"
  shows "\<exists>pp'. page_pipe_reinit sys lazy pp = Ret pp' \<and> pp_inv pp' \<and> pp_pages pp' = []
    \<and> free_iov pp' = free_iov pp \<and> nr_iovs pp' = nr_iovs pp"
proof -
  let ?pp = "pp\<lparr>free_bufs := rev (bufs pp) @ free_bufs pp, bufs := [], free_hole := 0\<rparr>"
  have segs: "segs_ok pp" and size: "size_ok pp" and pipes: "pipes_ok pp" using inv by (auto simp: pp_inv_def)
  have d: "distinct (map (\<lambda>j. ppb_p (store pp j)) (bufs pp @ free_bufs pp))"
    using pipes c by (simp add: pipes_ok_def)
  have "size_ok ?pp" using size chunk_off_zero [OF pipes c] by (auto simp: size_ok_def)
  moreover have "distinct (map (\<lambda>j. ppb_p (store pp j)) (rev (bufs pp) @ free_bufs pp))"
    using d by (simp add: rev_map [symmetric])
  ultimately obtain pp' where "page_pipe_grow sys lazy ?pp 0 = Ret (0, pp')" "pp_inv pp'" "pp_pages pp' = pp_pages ?pp"
    "free_iov pp' = free_iov ?pp" "nr_iovs pp' = nr_iovs ?pp"
    using grow_from_free [of ?pp sys lazy 0] segs c by (auto simp: segs_ok_def)
  then show ?thesis using c by (simp add: page_pipe_reinit_def Let_def pp_pages_def)
qed

text \<open>
  Holes touch neither the pages nor the buffers.
\<close>

definition with_holes :: "nat \<Rightarrow> nat \<Rightarrow> iovec list \<Rightarrow> u32 list \<Rightarrow> page_pipe \<Rightarrow> page_pipe" where
  "with_holes n f hs fls pp = pp\<lparr>nr_holes := n, free_hole := f, holes := hs, hole_flags := fls\<rparr>"

lemma with_holes_fields [simp]:
  "bufs (with_holes n f hs fls pp) = bufs pp" "free_bufs (with_holes n f hs fls pp) = free_bufs pp"
  "prev (with_holes n f hs fls pp) = prev pp" "nr_iovs (with_holes n f hs fls pp) = nr_iovs pp"
  "free_iov (with_holes n f hs fls pp) = free_iov pp" "iovs (with_holes n f hs fls pp) = iovs pp"
  "pp_flags (with_holes n f hs fls pp) = pp_flags pp" "next_ppb (with_holes n f hs fls pp) = next_ppb pp"
  "store (with_holes n f hs fls pp) = store pp"
  by (simp_all add: with_holes_def)

lemma with_holes_ok: "pp_inv (with_holes n f hs fls pp) = pp_inv pp" "pp_pages (with_holes n f hs fls pp) = pp_pages pp"
proof -
  let ?pp = "with_holes n f hs fls pp"
  have i: "ppb_iovs ?pp = ppb_iovs pp" by (simp add: ppb_iovs_def fun_eq_iff)
  then have p: "ppb_pages ?pp = ppb_pages pp" by (simp add: ppb_pages_def fun_eq_iff)
  have o: "off_ok ?pp is = off_ok pp is" and l: "level ?pp is k = level pp is k" and c: "contiguous ?pp a is = contiguous pp a is" for a k "is"
    by (auto intro!: off_ok_cong level_cong contiguous_cong)
  show "pp_inv ?pp = pp_inv pp" by (simp add: pp_inv_def segs_ok_def ppb_ok_def size_ok_def pipes_ok_def i p o l c)
  show "pp_pages ?pp = pp_pages pp" by (simp add: pp_pages_def p)
qed

lemma page_pipe_add_hole_frame:
  assumes "page_pipe_add_hole r1 r2 pad pp addr flags = (r, pp')"
  shows "\<exists>n f hs fls. pp' = with_holes n f hs fls pp"
proof -
  have "pp' = with_holes (nr_holes pp') (free_hole pp') (holes pp') (hole_flags pp') pp"
    using assms by (auto simp: page_pipe_add_hole_def add_hole_room_def with_holes_def Let_def split: if_splits)
  then show ?thesis by blast
qed

text \<open>
  Page pipes as a dumper builds them: creation with an array of enough iovecs, then additions of pages
  and holes, and in chunk mode a reinitialisation after each chunk. The list has the pages added since
  the creation or the last reinitialisation.
\<close>

inductive pp_built :: "bool \<Rightarrow> page_pipe \<Rightarrow> (nat \<times> u32) list \<Rightarrow> bool" for lazy where
  create: "create_page_pipe sys lazy segs arr junk flags = Ret (Some pp) \<Longrightarrow>
     segs \<le> length (case arr of None \<Rightarrow> junk | Some l \<Rightarrow> l) \<Longrightarrow>
     (\<And>p. int PAGE_SIZE \<le> sys_getpipe_sz sys p) \<Longrightarrow> pp_built lazy pp []"
| add: "pp_built lazy pp ps \<Longrightarrow> pp_sys_ok sys pp \<Longrightarrow>
     PAGE_SIZE dvd addr \<Longrightarrow> addr + PAGE_SIZE < ULONG_MOD \<Longrightarrow>
     page_pipe_add_page sys lazy pp addr flags = Ret (r, pp') \<Longrightarrow>
     pp_built lazy pp' (if r = 0 then ps @ [(addr, flags)] else ps)"
| add_hole: "pp_built lazy pp ps \<Longrightarrow> page_pipe_add_hole r1 r2 pad pp addr flags = (r, pp') \<Longrightarrow> pp_built lazy pp' ps"
| reinit: "pp_built lazy pp ps \<Longrightarrow> page_pipe_reinit sys lazy pp = Ret pp' \<Longrightarrow> pp_built lazy pp' []"

lemma pp_built_inv: "pp_built lazy pp ps \<Longrightarrow> pp_inv pp \<and> pp_pages pp = ps"
proof (induction rule: pp_built.induct)
  case (create sys segs arr junk flags pp)
  then show ?case using create_page_pipe_ok by blast
next
  case (add pp ps sys addr flags r pp')
  then show ?case using page_pipe_add_page_ok [of pp sys addr lazy flags] by auto
next
  case (add_hole pp ps r1 r2 pad addr flags r pp')
  then show ?case using page_pipe_add_hole_frame [OF add_hole(2)] by (auto simp: with_holes_ok)
next
  case (reinit pp ps sys pp')
  moreover from this have "chunk_mode pp" by (auto simp: page_pipe_reinit_def split: if_splits)
  ultimately show ?case using page_pipe_reinit_ok [of pp sys lazy] by auto
qed

subsection \<open>What the pipes hold\<close>

text \<open>
  When the buffers are filled in the order of the list, each pipe holds the pages of its buffers
  one after the other.
\<close>

definition pipe_pages :: "page_pipe \<Rightarrow> nat \<Rightarrow> nat list" where
  "pipe_pages pp p = concat (map (\<lambda>i. if ppb_p (store pp i) = p then ppb_pages pp i else []) (bufs pp))"

definition pipes_hold :: "(nat \<Rightarrow> nat list) \<Rightarrow> page_pipe \<Rightarrow> bool" where
  "pipes_hold content pp \<longleftrightarrow>
     (\<forall>i\<in>set (bufs pp). ppb_ok pp i \<and>
        take (pages_in (store pp i)) (drop (pipe_off (store pp i)) (content (ppb_p (store pp i)))) = ppb_pages pp i)"

lemma pipe_pages_hold:
  assumes "pp_inv pp"
  shows "pipes_hold (pipe_pages pp) pp"
  unfolding pipes_hold_def
proof
  fix i assume i: "i \<in> set (bufs pp)"
  let ?f = "\<lambda>j. if ppb_p (store pp j) = ppb_p (store pp i) then ppb_pages pp j else []"
  have ok: "ppb_ok pp j" if "j \<in> set (bufs pp)" for j
    using assms that by (auto simp: pp_inv_def segs_ok_def)
  obtain xs ys where bs: "bufs pp = xs @ i # ys" using i by (auto dest: split_list)
  have lenc: "length (concat (map ?f zs)) = level pp zs (ppb_p (store pp i))" if "set zs \<subseteq> set (bufs pp)" for zs
    using that ok by (induction zs) (auto simp: level_def ppb_ok_def)
  have "pipe_off (store pp i) = level pp xs (ppb_p (store pp i))"
    using off_okD [of pp xs i ys] assms bs by (simp add: pp_inv_def pipes_ok_def)
  then have "length (concat (map ?f xs)) = pipe_off (store pp i)" using lenc [of xs] by (auto simp: bs)
  moreover have "pages_in (store pp i) = length (ppb_pages pp i)" using ok [OF i] by (simp add: ppb_ok_def)
  ultimately show "ppb_ok pp i \<and> take (pages_in (store pp i))
      (drop (pipe_off (store pp i)) (pipe_pages pp (ppb_p (store pp i)))) = ppb_pages pp i"
    using ok [OF i] by (simp add: pipe_pages_def bs)
qed

lemma get_iov_Some:
  "get_iov vs addr k len = Some (v, n) \<Longrightarrow>
   \<exists>us ws. vs = us @ v # ws \<and> iov_base v \<le> addr \<and> addr < iov_base v + iov_len v
     \<and> n = len + iov_bytes us + (addr - iov_base v)"
proof (induction vs addr k len rule: get_iov.induct)
  case (2 w vs addr k len)
  show ?case
  proof (cases "addr < iov_base w \<or> iov_base w + iov_len w \<le> addr")
    case True
    then obtain us ws where "vs = us @ v # ws" "iov_base v \<le> addr" "addr < iov_base v + iov_len v"
      "n = (len + iov_len w) + iov_bytes us + (addr - iov_base v)"
      using 2 by auto
    then show ?thesis by (intro exI [of _ "w # us"] exI [of _ ws]) simp
  next
    case False
    then show ?thesis using "2.prems" by (intro exI [of _ "[]"] exI [of _ vs]) auto
  qed
qed simp

lemma get_iov_None:
  "get_iov vs addr k len = None \<longleftrightarrow> (\<forall>v\<in>set vs. addr < iov_base v \<or> iov_base v + iov_len v \<le> addr)"
  by (induction vs addr k len rule: get_iov.induct) auto

lemma get_ppb_loop_Some:
  "get_ppb_loop pp is addr = Some (i, v, n) \<Longrightarrow> i \<in> set is \<and> get_iov (ppb_iovs pp i) addr 0 0 = Some (v, n)"
  by (induction pp "is" addr rule: get_ppb_loop.induct) (auto split: option.splits)

lemma get_ppb_loop_None:
  "get_ppb_loop pp is addr = None \<longleftrightarrow>
   (\<forall>i\<in>set is. \<forall>v\<in>set (ppb_iovs pp i). addr < iov_base v \<or> iov_base v + iov_len v \<le> addr)"
proof (induction pp "is" addr rule: get_ppb_loop.induct)
  case (2 pp i "is" addr)
  show ?case
  proof (cases "get_iov (ppb_iovs pp i) addr 0 0")
    case None
    then show ?thesis using 2 get_iov_None [of "ppb_iovs pp i" addr 0 0] by simp
  next
    case (Some vn)
    then have "get_iov (ppb_iovs pp i) addr 0 0 \<noteq> None" by simp
    then show ?thesis using Some unfolding get_iov_None by (cases vn) auto
  qed
qed simp

lemma iov_bytes_pages: "(\<forall>v\<in>set vs. iov_ok v) \<Longrightarrow> iov_bytes vs = length (concat (map iov_pages vs)) * PAGE_SIZE"
  by (induction vs) (auto simp: iov_ok_def add_mult_distrib)

text \<open>The pages of an iovec from an address in it on.\<close>

lemma iov_pages_from:
  assumes "iov_ok v" "PAGE_SIZE dvd addr" "iov_base v \<le> addr" "addr < iov_base v + iov_len v"
    "n * PAGE_SIZE \<le> iov_base v + iov_len v - addr"
  shows "take n (drop ((addr - iov_base v) div PAGE_SIZE) (iov_pages v)) =
      map (\<lambda>k. addr + k * PAGE_SIZE) [0..<n]"
proof -
  let ?d = "(addr - iov_base v) div PAGE_SIZE"
  have "PAGE_SIZE dvd addr - iov_base v" using assms(1,2) by (simp add: iov_ok_def)
  then have d: "?d * PAGE_SIZE = addr - iov_base v" by simp
  then have "(?d + n) * PAGE_SIZE \<le> iov_len v" using assms(3-5) by (simp add: add_mult_distrib)
  then have "?d + n \<le> iov_len v div PAGE_SIZE" by (simp add: less_eq_div_iff_mult_less_eq)
  then show ?thesis
    using d assms(3) by (intro nth_equalityI) (auto simp: iov_pages_def add_mult_distrib)
qed

lemma page_pipe_read_ok:
  assumes hold: "pipes_hold content pp" and addr: "PAGE_SIZE dvd addr"
    and r: "page_pipe_read tee_ret splice_ret pp addr nr flags = (0, n, Some (p, len, skip), pp')"
  shows "len = skip + n * PAGE_SIZE \<and> PAGE_SIZE dvd skip \<and> n \<le> nr \<and> (0 < nr \<longrightarrow> 0 < n) \<and>
    take n (drop (skip div PAGE_SIZE) (content p)) = map (\<lambda>k. addr + k * PAGE_SIZE) [0..<n] \<and>
    pipes_hold content pp'"
proof -
  obtain i v s0 where g: "get_ppb_loop pp (bufs pp) addr = Some (i, v, s0)"
    using r by (auto simp: page_pipe_read_def get_ppb_def split: option.splits)
  let ?b = "store pp i"
  let ?m = "min (iov_base v + iov_len v - addr) (nr * PAGE_SIZE)"
  have pp': "pp' = pp\<lparr>bufs := i # remove1 i (bufs pp)\<rparr>" and n: "n = ?m div PAGE_SIZE"
    and skip: "skip = s0 + pipe_off ?b * PAGE_SIZE" and len: "len = ?m + skip" and p: "p = ppb_p ?b"
    using r g by (auto simp: page_pipe_read_def get_ppb_def Let_def split: if_splits)
  have i: "i \<in> set (bufs pp)" and gi: "get_iov (ppb_iovs pp i) addr 0 0 = Some (v, s0)"
    using get_ppb_loop_Some [OF g] by auto
  obtain us ws where vs: "ppb_iovs pp i = us @ v # ws" "iov_base v \<le> addr" "addr < iov_base v + iov_len v"
    "s0 = iov_bytes us + (addr - iov_base v)"
    using get_iov_Some [OF gi] by auto
  have ok: "ppb_ok pp i" and cont: "take (pages_in ?b) (drop (pipe_off ?b) (content p)) = ppb_pages pp i"
    using hold i by (auto simp: pipes_hold_def p)
  have vok: "iov_ok v" "\<forall>u\<in>set us. iov_ok u" using ok vs(1) by (auto simp: ppb_ok_def)
  have dm: "PAGE_SIZE dvd ?m"
    using vok(1) addr by (auto simp: min_def iov_ok_def)
  then have nm: "n * PAGE_SIZE = ?m" by (simp add: n)
  let ?u = "length (concat (map iov_pages us))" and ?d = "(addr - iov_base v) div PAGE_SIZE"
  have da: "PAGE_SIZE dvd addr - iov_base v" using vok(1) addr by (simp add: iov_ok_def)
  then have "addr - iov_base v = ?d * PAGE_SIZE" by simp
  then have sk: "skip = (pipe_off ?b + (?u + ?d)) * PAGE_SIZE"
    using vs(4) iov_bytes_pages [OF vok(2)] by (simp add: skip add_mult_distrib)
  have pages: "take n (drop (?u + ?d) (ppb_pages pp i)) = map (\<lambda>k. addr + k * PAGE_SIZE) [0..<n]"
  proof -
    have "n * PAGE_SIZE \<le> iov_base v + iov_len v - addr" using nm by simp
    note pf = iov_pages_from [OF vok(1) addr vs(2,3) this]
    then have "length (take n (drop ?d (iov_pages v))) = n" by simp
    then have "n \<le> length (drop ?d (iov_pages v))" by simp
    then show ?thesis using pf by (simp add: ppb_pages_def vs(1))
  qed
  have "length (ppb_pages pp i) = pages_in ?b" using ok by (simp add: ppb_ok_def)
  moreover have "length (take n (drop (?u + ?d) (ppb_pages pp i))) = n" by (simp only: pages length_map length_upt)
  ultimately have lim: "?u + ?d + n \<le> pages_in ?b \<or> n = 0" by auto
  have "take n (drop (?u + ?d) (ppb_pages pp i)) = take n (drop (pipe_off ?b + (?u + ?d)) (content p))"
    unfolding cont [symmetric] using lim by (auto simp: drop_take add.commute)
  moreover have "skip div PAGE_SIZE = pipe_off ?b + (?u + ?d)" by (simp add: sk)
  ultimately have main: "take n (drop (skip div PAGE_SIZE) (content p)) = map (\<lambda>k. addr + k * PAGE_SIZE) [0..<n]"
    using pages by simp
  have "pipes_hold content pp'"
    using hold i by (auto simp: pipes_hold_def pp' ppb_ok_def ppb_iovs_def ppb_pages_def dest: set_remove1_subset [THEN subsetD])
  moreover have "n \<le> nr" using nm by (metis PAGE_SIZE_pos min.cobounded2 mult_le_cancel2)
  moreover have "0 < n" if "0 < nr" using that vs(3) nm by (metis PAGE_SIZE_pos less_nat_zero_code min_less_iff_conj
      mult_is_0 nat_0_less_mult_iff neq0_conv zero_less_diff)
  ultimately show ?thesis using main nm sk by (simp add: len)
qed

subsection \<open>Holes\<close>

definition hole_pages :: "page_pipe \<Rightarrow> (nat \<times> u32) list" where
  "hole_pages pp =
     concat (map (\<lambda>k. map (\<lambda>a. (a, hole_flags pp ! k)) (iov_pages (holes pp ! k))) [0..<free_hole pp])"

definition holes_ok :: "page_pipe \<Rightarrow> bool" where
  "holes_ok pp \<longleftrightarrow> free_hole pp \<le> nr_holes pp \<and> length (holes pp) = nr_holes pp \<and>
     length (hole_flags pp) = nr_holes pp \<and> (\<forall>k<free_hole pp. iov_ok (holes pp ! k))"

lemma hole_pages_extend:
  assumes "free_hole pp' = free_hole pp"
    and "\<And>k. k < free_hole pp \<Longrightarrow> holes pp' ! k = holes pp ! k \<and> hole_flags pp' ! k = hole_flags pp ! k"
  shows "hole_pages pp' = hole_pages pp"
  using assms by (auto simp: hole_pages_def intro!: arg_cong [of _ _ concat])

lemma add_hole_room_ok:
  assumes ok: "holes_ok pp" and room: "free_hole pp < nr_holes pp"
    and addr: "PAGE_SIZE dvd addr" "addr + PAGE_SIZE < ULONG_MOD"
  shows "holes_ok (add_hole_room pp addr flags)"
    "hole_pages (add_hole_room pp addr flags) = hole_pages pp @ [(addr, flags)]"
proof -
  let ?k = "free_hole pp - 1" and ?n = "free_hole pp" and ?pp' = "add_hole_room pp addr flags"
  have len: "length (holes pp) = nr_holes pp" "length (hole_flags pp) = nr_holes pp"
    using ok by (auto simp: holes_ok_def)
  have "holes_ok ?pp' \<and> hole_pages ?pp' = hole_pages pp @ [(addr, flags)]"
  proof (cases "?n \<noteq> 0 \<and> hole_flags pp ! ?k = flags \<and> fst (iov_grow_page (holes pp ! ?k) addr)")
    case True
    then obtain m where m: "?n = Suc m" by (cases ?n) auto
    obtain v' where v': "iov_grow_page (holes pp ! m) addr = (True, v')"
      using True m by (metis (full_types) diff_Suc_1 prod.collapse)
    have vok: "iov_ok (holes pp ! m)" using ok m by (simp add: holes_ok_def)
    note g = iov_grow_page_ok [OF vok addr(2) v']
    have pp': "?pp' = pp\<lparr>holes := (holes pp)[m := v']\<rparr>" and fl: "hole_flags pp ! m = flags"
      using True v' m by (simp_all add: add_hole_room_def)
    have ml: "m < length (holes pp)" using room len m by simp
    have "map (\<lambda>x. map (\<lambda>a. (a, hole_flags pp ! x)) (iov_pages ((holes pp)[m := v'] ! x))) [0..<m] =
        map (\<lambda>x. map (\<lambda>a. (a, hole_flags pp ! x)) (iov_pages (holes pp ! x))) [0..<m]"
      by simp
    then have "hole_pages ?pp' = hole_pages pp @ [(addr, flags)]"
      using g(2) fl ml by (simp add: hole_pages_def pp' m del: map_eq_conv)
    moreover have "holes_ok ?pp'" using ok g(1) room ml by (auto simp: holes_ok_def pp' nth_list_update)
    ultimately show ?thesis by blast
  next
    case False
    then have pp': "?pp' = pp\<lparr>holes := (holes pp)[?n := iov_init addr],
        hole_flags := (hole_flags pp)[?n := flags], free_hole := ?n + 1\<rparr>"
      by (auto simp: add_hole_room_def Let_def)
    have "map (\<lambda>x. map (\<lambda>a. (a, (hole_flags pp)[?n := flags] ! x)) (iov_pages ((holes pp)[?n := iov_init addr] ! x)))
          [0..<?n] = map (\<lambda>x. map (\<lambda>a. (a, hole_flags pp ! x)) (iov_pages (holes pp ! x))) [0..<?n]"
      by simp
    then have "hole_pages ?pp' = hole_pages pp @ [(addr, flags)]"
      using room len by (simp add: hole_pages_def pp' del: map_eq_conv)
    moreover have "holes_ok ?pp'"
      using ok room iov_init_ok [OF addr] by (auto simp: holes_ok_def pp' nth_list_update less_Suc_eq)
    ultimately show ?thesis by blast
  qed
  then show "holes_ok ?pp'" "hole_pages ?pp' = hole_pages pp @ [(addr, flags)]" by auto
qed

lemma page_pipe_add_hole_ok:
  assumes ok: "holes_ok pp" and pad: "PP_HOLES_BATCH \<le> length (fst pad)" "PP_HOLES_BATCH \<le> length (snd pad)"
    and addr: "PAGE_SIZE dvd addr" "addr + PAGE_SIZE < ULONG_MOD"
    and r: "page_pipe_add_hole r1 r2 pad pp addr flags = (0, pp')"
  shows "holes_ok pp' \<and> hole_pages pp' = hole_pages pp @ [(addr, flags)]"
proof (cases "free_hole pp \<ge> nr_holes pp")
  case False
  then have "pp' = add_hole_room pp addr flags"
    using r by (simp add: page_pipe_add_hole_def)
  then show ?thesis using add_hole_room_ok [OF ok _ addr] False by simp
next
  case True
  let ?pp = "pp\<lparr>holes := take (nr_holes pp + PP_HOLES_BATCH) (holes pp @ fst pad),
      hole_flags := take (nr_holes pp + PP_HOLES_BATCH) (hole_flags pp @ snd pad),
      nr_holes := nr_holes pp + PP_HOLES_BATCH\<rparr>"
  have pp': "pp' = add_hole_room ?pp addr flags"
    using r True by (auto simp: page_pipe_add_hole_def Let_def split: if_splits)
  have "holes_ok ?pp" "hole_pages ?pp = hole_pages pp"
    using ok pad by (auto simp: holes_ok_def nth_append intro!: hole_pages_extend)
  then show ?thesis
    using add_hole_room_ok [of ?pp addr flags] ok addr pp' by (auto simp: holes_ok_def PP_HOLES_BATCH_def)
qed

subsection \<open>Properties\<close>

text \<open>
  (C10) Adding a page to a page pipe in any state that the dumper can build: with a free
  iovec left the call never hits one of its \<open>BUG_ON\<close>s; it succeeds and the page, with its
  flags, becomes the last page of the description, or it fails (no memory, no pipe, or the
  chunk limit) and the description is as before.
\<close>

theorem page_pipe_add_page_correct:
  assumes "pp_built lazy pp ps" "pp_sys_ok sys pp" "free_iov pp < nr_iovs pp"
    "PAGE_SIZE dvd addr" "addr + PAGE_SIZE < ULONG_MOD"
  shows "\<exists>r pp'. page_pipe_add_page sys lazy pp addr flags = Ret (r, pp')
    \<and> free_iov pp' \<le> free_iov pp + 1 \<and>
    (r = 0 \<and> pp_pages pp' = ps @ [(addr, flags)] \<or> r < 0 \<and> pp_pages pp' = ps)"
  using page_pipe_add_page_ok [of pp sys addr lazy flags] pp_built_inv [OF assms(1)] assms(2-5) by auto

definition demo_pp_sys :: "nat \<Rightarrow> pp_sys" where
  "demo_pp_sys p = \<lparr>sys_setpipe_sz = (\<lambda>_ n. int n), sys_getpipe_sz = (\<lambda>_. 65536), sys_pipe = Some p,
     xmalloc_ok = True\<rparr>"

definition demo_iovs :: "iovec list" where
  "demo_iovs = replicate 4 \<lparr>iov_base = 0, iov_len = 0\<rparr>"

definition demo_pp :: page_pipe where
  "demo_pp = \<lparr>nr_pipes = 1, bufs = [0], free_bufs = [], prev = (\<lambda>_. None)(False := Some 0), nr_iovs = 4,
     free_iov = 0, iovs = demo_iovs, nr_holes = 0, free_hole = 0, holes = [], hole_flags = [], pp_flags = 0,
     store = (\<lambda>_. \<lparr>ppb_p = 0, pipe_size = 0, pipe_off = 0, pages_in = 0, nr_segs = 0, ppb_flags = 0, ppb_iov = 0\<rparr>)
       (0 := \<lparr>ppb_p = 7, pipe_size = 16, pipe_off = 0, pages_in = 0, nr_segs = 0, ppb_flags = 0, ppb_iov = 0\<rparr>),
     next_ppb = 1\<rparr>"

lemma demo_pp_built: "pp_built lazy demo_pp []"
proof (rule pp_built.create)
  show "create_page_pipe (demo_pp_sys 7) lazy 4 (Some demo_iovs) [] 0 = Ret (Some demo_pp)"
    by (simp add: create_page_pipe_def page_pipe_grow_def ppb_alloc_def ppb_reuse_def pp_prev_ppb_def ppb_link_def
        pp_update_prev_ppb_def ppb_init_def ppb_type_def demo_pp_sys_def demo_pp_def PAGE_SIZE_def Let_def)
qed (simp_all add: demo_iovs_def demo_pp_sys_def PAGE_SIZE_def)

lemma demo_pp_sys_ok: "pp_sys_ok (demo_pp_sys 8) demo_pp" "free_iov demo_pp < nr_iovs demo_pp"
  by (simp_all add: pp_sys_ok_def setpipe_ok_def demo_pp_sys_def demo_pp_def PAGE_SIZE_def)

theorem page_pipe_add_page_correct_witness:
  "\<exists>r pp'. page_pipe_add_page (demo_pp_sys 8) True demo_pp 8192 1 = Ret (r, pp') \<and>
     (r = 0 \<and> pp_pages pp' = [(8192, 1)] \<or> r < 0 \<and> pp_pages pp' = [])"
  using page_pipe_add_page_correct [OF demo_pp_built demo_pp_sys_ok, of 8192 True 1]
  by (auto simp: PAGE_SIZE_def ULONG_MOD_def)

text \<open>
  (C9) The page pipe describes exactly the pages that were added, in order and with their flags,
  and every buffer's \<open>pipe_off\<close> and \<open>pages_in\<close> locate its pages in its kernel pipe, also when
  buffers share pipes or a chunk has been reinitialised.
\<close>

theorem page_pipe_contents:
  assumes "pp_built lazy pp ps"
  shows "pp_pages pp = ps \<and> pipes_hold (pipe_pages pp) pp"
  using pp_built_inv [OF assms] pipe_pages_hold by blast

theorem page_pipe_contents_witness:
  "\<exists>pp. page_pipe_add_page (demo_pp_sys 8) True demo_pp 8192 0 = Ret (0, pp) \<and> pp_pages pp = [(8192, 0)]
     \<and> pipes_hold (pipe_pages pp) pp"
proof -
  have "\<exists>pp. page_pipe_add_page (demo_pp_sys 8) True demo_pp 8192 0 = Ret (0, pp)"
    by (simp add: page_pipe_add_page_def try_add_page_def try_add_page_to_def ppb_resize_pipe_def add_page_iov_def
        demo_pp_def Let_def)
  then obtain pp where pp: "page_pipe_add_page (demo_pp_sys 8) True demo_pp 8192 0 = Ret (0, pp)" by blast
  have "pp_built True pp [(8192, 0)]"
    using pp_built.add [OF demo_pp_built demo_pp_sys_ok(1) _ _ pp] by (simp add: PAGE_SIZE_def ULONG_MOD_def)
  from page_pipe_contents [OF this] pp show ?thesis by blast
qed

text \<open>
  (C17) A successful \<open>page_pipe_read\<close> of an address that is in the page pipe: what remains of the
  teed bytes after the skipped ones are exactly the pages from the address on, at least one
  and at most as many as asked for, and later reads are not disturbed.
\<close>

theorem page_pipe_read_correct:
  assumes "pipes_hold content pp" "PAGE_SIZE dvd addr"
    "page_pipe_read tee_ret splice_ret pp addr nr flags = (0, n, Some (p, len, skip), pp')"
  shows "len = skip + n * PAGE_SIZE \<and> PAGE_SIZE dvd skip \<and> n \<le> nr \<and> (0 < nr \<longrightarrow> 0 < n) \<and>
    take n (drop (skip div PAGE_SIZE) (content p)) = map (\<lambda>k. addr + k * PAGE_SIZE) [0..<n] \<and>
    pipes_hold content pp'"
  by (rule page_pipe_read_ok [OF assms])

definition demo_read_pp :: page_pipe where
  "demo_read_pp = demo_pp\<lparr>iovs := [\<lparr>iov_base = 4096, iov_len = 12288\<rparr>],
     store := (\<lambda>_. \<lparr>ppb_p = 7, pipe_size = 16, pipe_off = 0, pages_in = 3, nr_segs = 1, ppb_flags = 1, ppb_iov = 0\<rparr>),
     free_iov := 1\<rparr>"

theorem page_pipe_read_correct_witness:
  "take 2 (drop (4096 div PAGE_SIZE) [4096, 8192, 12288]) = map (\<lambda>k. 8192 + k * PAGE_SIZE) [0..<2]"
proof -
  have i: "ppb_iovs demo_read_pp 0 = [\<lparr>iov_base = 4096, iov_len = 12288\<rparr>]"
    by (simp add: ppb_iovs_def demo_read_pp_def)
  have p: "iov_pages \<lparr>iov_base = 4096, iov_len = 12288\<rparr> = [4096, 8192, 12288]"
    by (simp add: iov_pages_def PAGE_SIZE_def upt_rec)
  have h: "pipes_hold (\<lambda>_. [4096, 8192, 12288]) demo_read_pp"
    using i p by (simp add: pipes_hold_def ppb_ok_def ppb_pages_def iov_ok_def PAGE_SIZE_def ULONG_MOD_def)
      (simp add: demo_read_pp_def demo_pp_def)
  have "\<exists>pp'. page_pipe_read (\<lambda>_. int) int demo_read_pp 8192 2 1 = (0, 2, Some (7, 12288, 4096), pp')"
    using i by (simp add: page_pipe_read_def get_ppb_def)
      (simp add: demo_read_pp_def demo_pp_def PAGE_SIZE_def ppb_iovs_def Let_def)
  then obtain pp' where r: "page_pipe_read (\<lambda>_. int) int demo_read_pp 8192 2 1 = (0, 2, Some (7, 12288, 4096), pp')"
    by blast
  from page_pipe_read_correct [OF h _ r] show ?thesis by (simp add: PAGE_SIZE_def)
qed

text \<open>
  When doubling the pipe would pass \<open>PIPE_MAX_SIZE\<close> and the kernel refuses the larger
  size, \<open>ppb_resize_pipe\<close> reports that the pipe cannot grow but has recorded \<open>PIPE_MAX_SIZE\<close> as
  its size; the next call then reports room in a pipe that is full.
\<close>

theorem ppb_resize_overcommits:
  assumes "pages_in b + pipe_off b = pipe_size b" "PIPE_MAX_SIZE < pipe_size b * 2" "pipe_size b < PIPE_MAX_SIZE"
    "sys_setpipe_sz sys (ppb_p b) (pipe_size b * 2 * PAGE_SIZE) < 0"
  shows "ppb_resize_pipe sys b = Ret (1, b\<lparr>pipe_size := PIPE_MAX_SIZE\<rparr>)
    \<and> ppb_resize_pipe sys' (b\<lparr>pipe_size := PIPE_MAX_SIZE\<rparr>) = Ret (0, b\<lparr>pipe_size := PIPE_MAX_SIZE\<rparr>)"
  using assms by (simp add: ppb_resize_pipe_def resize_pipe_def Let_def)

theorem ppb_resize_overcommits_witness:
  "ppb_resize_pipe ((demo_pp_sys 8)\<lparr>sys_setpipe_sz := (\<lambda>_ n. if n \<le> 2097152 then int n else -1)\<rparr>)
     \<lparr>ppb_p = 7, pipe_size = 512, pipe_off = 0, pages_in = 512, nr_segs = 1, ppb_flags = 0, ppb_iov = 0\<rparr>
   = Ret (1, \<lparr>ppb_p = 7, pipe_size = 819, pipe_off = 0, pages_in = 512, nr_segs = 1, ppb_flags = 0, ppb_iov = 0\<rparr>)"
  using ppb_resize_overcommits [of "\<lparr>ppb_p = 7, pipe_size = 512, pipe_off = 0, pages_in = 512, nr_segs = 1,
      ppb_flags = 0, ppb_iov = 0\<rparr>" "(demo_pp_sys 8)\<lparr>sys_setpipe_sz := (\<lambda>_ n. if n \<le> 2097152 then int n else -1)\<rparr>"]
  by (simp add: PIPE_MAX_SIZE_def PAGE_SIZE_def demo_pp_sys_def)

text \<open>
  (C24) A successful \<open>page_pipe_add_hole\<close> makes the hole, with its flags, the last of the
  described holes, whether it extends an entry, starts a new one, or enlarges the arrays first.
\<close>

theorem page_pipe_add_hole_correct:
  assumes "holes_ok pp" "PP_HOLES_BATCH \<le> length (fst pad)" "PP_HOLES_BATCH \<le> length (snd pad)"
    "PAGE_SIZE dvd addr" "addr + PAGE_SIZE < ULONG_MOD"
    "page_pipe_add_hole r1 r2 pad pp addr flags = (0, pp')"
  shows "holes_ok pp' \<and> hole_pages pp' = hole_pages pp @ [(addr, flags)]"
  by (rule page_pipe_add_hole_ok [OF assms])

theorem page_pipe_add_hole_correct_witness:
  "hole_pages (snd (page_pipe_add_hole True True (replicate 32 (iov_init 0), replicate 32 0) demo_pp 4096 1))
     = [(4096, 1)]"
proof -
  obtain pp' where r: "page_pipe_add_hole True True (replicate 32 (iov_init 0), replicate 32 0) demo_pp 4096 1 = (0, pp')"
    by (simp add: page_pipe_add_hole_def Let_def)
  have "holes_ok demo_pp" "hole_pages demo_pp = []" by (simp_all add: holes_ok_def hole_pages_def demo_pp_def)
  with page_pipe_add_hole_correct [OF _ _ _ _ _ r] r show ?thesis
    by (simp add: PP_HOLES_BATCH_def PAGE_SIZE_def ULONG_MOD_def)
qed

end
