(* ===== verification/PageRead.thy ===== *)
theory PageRead
  imports Prelude
begin

unbundle bit_operations_syntax

text \<open>
  Reading pages from the images, \<open>criu/pagemap.c\<close> and \<open>criu/include/pagemap.h\<close>.

  A page reader walks the entries of a pagemap image and the pages image beside it. Readers
  of a series of snapshots form a chain, linked by \<open>parent\<close>; here a chain is the list of
  its readers, the newest snapshot first. The record of a reader holds the contents of its
  pages image, because \<open>punch_hole\<close> changes them. The destination of the reads is a memory,
  a function from addresses to bytes.

  A routine ends (\<open>Done\<close>), dies in a \<open>BUG\<close> (\<open>Abort\<close>), or runs forever (\<open>Loops\<close>). \<open>pr_sys\<close> has
  the choices of the environment: how many bytes a \<open>pread\<close> at an offset returns, whether
  \<open>fallocate\<close> and the allocator succeed, and the options \<open>auto_dedup\<close> and the fault injection
  \<open>FI_PARTIAL_PAGES\<close>. File offsets are unbounded: a pages image is far below \<open>2 ^ 63\<close> bytes.
\<close>

subsection \<open>Runs\<close>

datatype 'a run = Done 'a | Abort | Loops

fun bind_run :: "'a run \<Rightarrow> ('a \<Rightarrow> 'b run) \<Rightarrow> 'b run" where
  "bind_run (Done x) f = f x"
| "bind_run Abort f = Abort"
| "bind_run Loops f = Loops"

lemma bind_run_cong [fundef_cong]:
  "m = m' \<Longrightarrow> (\<And>x. m' = Done x \<Longrightarrow> f x = g x) \<Longrightarrow> bind_run m f = bind_run m' g"
  by (cases m') auto

lemma bind_run_eq_Done: "bind_run m f = Done y \<longleftrightarrow> (\<exists>x. m = Done x \<and> f x = Done y)"
  by (cases m) auto

subsection \<open>Data\<close>

type_synonym mem = "nat \<Rightarrow> byte"

record pagemap_entry =
  pe_vaddr :: ulong
  nr_pages :: nat
  pe_flags :: u32
  has_flags :: bool
  pe_in_parent :: "bool option"

record page_read_iov =
  piov_from :: nat
  piov_end :: nat
  piov_to :: "iovec list"

datatype page_source = Local_image | Streamed_image

record page_read =
  pr_id :: nat
  img_id :: nat
  pieok :: bool
  pmes :: "pagemap_entry list"
  curr_pme :: int
  pe :: "pagemap_entry option"
  cvaddr :: ulong
  pi_off :: nat
  pi_img :: "byte list"
  pi_pos :: nat
  bunch :: iovec
  async :: "page_read_iov list"
  io_complete :: "(ulong \<Rightarrow> nat \<Rightarrow> int) option"
  maybe_read_page :: page_source

record pr_sys =
  pread_len :: "nat \<Rightarrow> nat \<Rightarrow> nat \<Rightarrow> int"
  falloc_ok :: "nat \<Rightarrow> nat \<Rightarrow> nat \<Rightarrow> bool"
  xalloc_ok :: bool
  auto_dedup :: bool
  fi_partial_pages :: bool

definition MAX_BUNCH_SIZE :: nat where "MAX_BUNCH_SIZE = 256"
definition IOV_MAX :: nat where "IOV_MAX = 1024"
definition PR_ASYNC :: u32 where "PR_ASYNC = 1"
definition PR_ASAP :: u32 where "PR_ASAP = 2"
definition PE_PARENT :: u32 where "PE_PARENT = 1"
definition PE_LAZY :: u32 where "PE_LAZY = 2"
definition PE_PRESENT :: u32 where "PE_PRESENT = 4"

definition pagemap_len :: "pagemap_entry \<Rightarrow> nat" where
  "pagemap_len e = nr_pages e * PAGE_SIZE"

definition pagemap_in_parent :: "pagemap_entry \<Rightarrow> bool" where
  "pagemap_in_parent e \<longleftrightarrow> pe_flags e AND PE_PARENT \<noteq> 0"

definition pagemap_lazy :: "pagemap_entry \<Rightarrow> bool" where
  "pagemap_lazy e \<longleftrightarrow> pe_flags e AND PE_LAZY \<noteq> 0"

definition pagemap_present :: "pagemap_entry \<Rightarrow> bool" where
  "pagemap_present e \<longleftrightarrow> pe_flags e AND PE_PRESENT \<noteq> 0"

text \<open>
  \<open>pread\<close> on the pages image: never more bytes than asked for or than the file has; how many
  of those is the choice of the kernel.
\<close>

definition sys_pread :: "pr_sys \<Rightarrow> page_read \<Rightarrow> nat \<Rightarrow> nat \<Rightarrow> byte list option" where
  "sys_pread sys pr off n =
     (let r = pread_len sys (pr_id pr) off n
      in if r < 0 then None else Some (take (min (nat r) n) (drop off (pi_img pr))))"

text \<open>The effect of \<open>fallocate\<close> with \<open>FALLOC_FL_PUNCH_HOLE | FALLOC_FL_KEEP_SIZE\<close>.\<close>

definition file_punch :: "byte list \<Rightarrow> nat \<Rightarrow> nat \<Rightarrow> byte list" where
  "file_punch f off len = map (\<lambda>i. if off \<le> i \<and> i < off + len then 0 else f ! i) [0..<length f]"

subsection \<open>Punching holes\<close>

definition can_extend_bunch :: "iovec \<Rightarrow> ulong \<Rightarrow> ulong \<Rightarrow> bool" where
  "can_extend_bunch b off len \<longleftrightarrow>
     ul_add (iov_base b) (iov_len b) = off \<and>
     (iov_len b = 0 \<or> ul_add (iov_len b) len < MAX_BUNCH_SIZE * PAGE_SIZE)"

definition punch_hole :: "pr_sys \<Rightarrow> page_read \<Rightarrow> ulong \<Rightarrow> ulong \<Rightarrow> bool \<Rightarrow> int \<times> page_read" where
  "punch_hole sys pr off len cleanup =
     (let b = bunch pr
      in if \<not> cleanup \<and> can_extend_bunch b off len
         then (0, pr\<lparr>bunch := b\<lparr>iov_len := ul_add (iov_len b) len\<rparr>\<rparr>)
         else if 0 < iov_len b \<and> \<not> falloc_ok sys (pr_id pr) (iov_base b) (iov_len b) then (-1, pr)
         else (let pr = (if 0 < iov_len b
                         then pr\<lparr>pi_img := file_punch (pi_img pr) (iov_base b) (iov_len b)\<rparr> else pr)
               in (0, pr\<lparr>bunch := \<lparr>iov_base = off, iov_len = len\<rparr>\<rparr>)))"

subsection \<open>Walking the pagemap\<close>

definition advance :: "page_read \<Rightarrow> int \<times> page_read" where
  "advance pr =
     (let pr = pr\<lparr>curr_pme := curr_pme pr + 1\<rparr>
      in if int (length (pmes pr)) \<le> curr_pme pr then (0, pr)
         else (let e = pmes pr ! nat (curr_pme pr)
               in (1, pr\<lparr>pe := Some e, cvaddr := pe_vaddr e\<rparr>)))"

definition skip_pagemap_pages :: "page_read \<Rightarrow> ulong \<Rightarrow> page_read" where
  "skip_pagemap_pages pr len =
     (if len = 0 then pr
      else (let pr = (if pagemap_present (the (pe pr)) then pr\<lparr>pi_off := pi_off pr + len\<rparr> else pr)
            in pr\<lparr>cvaddr := ul_add (cvaddr pr) len\<rparr>))"

text \<open>One turn of the loop of \<open>seek_pagemap\<close>; \<open>None\<close> leads to \<open>advance\<close>.\<close>

definition seek_here :: "page_read \<Rightarrow> ulong \<Rightarrow> int option \<times> page_read" where
  "seek_here pr vaddr =
     (case pe pr of
        None \<Rightarrow> (None, pr)
      | Some e \<Rightarrow>
          (let start = pe_vaddr e;
               end = ul_add start (pagemap_len e)
           in if vaddr < cvaddr pr then (Some 0, pr)
              else if start \<le> vaddr \<and> vaddr < end
              then (Some 1, skip_pagemap_pages pr (ul_sub vaddr (cvaddr pr)))
              else if end \<le> vaddr
              then (None, skip_pagemap_pages pr (ul_sub end (cvaddr pr)))
              else (None, pr)))"

lemma seek_here_frame [simp]:
  "curr_pme (snd (seek_here pr vaddr)) = curr_pme pr"
  "pmes (snd (seek_here pr vaddr)) = pmes pr"
  "pe (snd (seek_here pr vaddr)) = pe pr"
  by (simp_all add: seek_here_def skip_pagemap_pages_def Let_def split: option.split)

function seek_pagemap :: "page_read \<Rightarrow> ulong \<Rightarrow> int \<times> page_read" where
  "seek_pagemap pr vaddr =
     (let (res, pr) = seek_here pr vaddr
      in case res of
           Some r \<Rightarrow> (r, pr)
         | None \<Rightarrow>
             (let (more, pr) = advance pr
              in if more = 0 then (0, pr) else seek_pagemap pr vaddr))"
  by pat_completeness auto

termination
proof (relation "measure (\<lambda>(pr, _). nat (int (length (pmes pr)) - curr_pme pr))", goal_cases)
  case (2 pr vaddr x res pr1 x2 more pr2)
  from 2 have "pr1 = snd (seek_here pr vaddr)" by (metis snd_conv)
  moreover have "pr2 = snd (advance pr1)" "fst (advance pr1) \<noteq> 0" using 2 by (metis fst_conv snd_conv)+
  ultimately show ?case
    by (auto simp: advance_def Let_def split: if_splits)
qed simp

declare seek_pagemap.simps [simp del]

definition pagemap_bound_check :: "pagemap_entry \<Rightarrow> ulong \<Rightarrow> nat \<Rightarrow> bool" where
  "pagemap_bound_check e vaddr nr \<longleftrightarrow>
     pe_vaddr e \<le> vaddr \<and> (vaddr - pe_vaddr e) div PAGE_SIZE + nr \<le> nr_pages e"

subsection \<open>The queue of asynchronous reads\<close>

definition enqueue_async_iov :: "pr_sys \<Rightarrow> page_read \<Rightarrow> nat \<Rightarrow> nat \<Rightarrow> page_read_iov list \<Rightarrow>
    int \<times> page_read_iov list" where
  "enqueue_async_iov sys pr buf len q =
     (if \<not> xalloc_ok sys then (-1, q)
      else (0, q @ [\<lparr>piov_from = pi_off pr, piov_end = pi_off pr + len,
                     piov_to = [\<lparr>iov_base = buf, iov_len = len\<rparr>]\<rparr>]))"

definition pagemap_enqueue_iovec :: "pr_sys \<Rightarrow> page_read \<Rightarrow> nat \<Rightarrow> nat \<Rightarrow> page_read_iov list \<Rightarrow>
    int \<times> page_read_iov list" where
  "pagemap_enqueue_iovec sys pr buf len q =
     (if q = [] \<or> pi_off pr \<noteq> piov_end (last q) then enqueue_async_iov sys pr buf len q
      else (let cur = last q;
                iov = last (piov_to cur);
                n_iovs = length (piov_to cur) + 1
            in if iov_base iov + iov_len iov = buf
               then (0, butlast q @
                     [cur\<lparr>piov_to := butlast (piov_to cur) @ [iov\<lparr>iov_len := iov_len iov + len\<rparr>],
                          piov_end := piov_end cur + len\<rparr>])
               else if IOV_MAX \<le> n_iovs then enqueue_async_iov sys pr buf len q
               else if \<not> xalloc_ok sys then (-1, q)
               else (0, butlast q @
                     [cur\<lparr>piov_to := piov_to cur @ [\<lparr>iov_base = buf, iov_len = len\<rparr>],
                          piov_end := piov_end cur + len\<rparr>])))"

text \<open>The loop of \<open>advance_piov\<close> over the target iovecs.\<close>

fun advance_iovs :: "iovec list \<Rightarrow> nat \<Rightarrow> iovec list" where
  "advance_iovs [] len = []"
| "advance_iovs (v # vs) len =
     (if len = 0 then v # vs
      else if iov_len v \<le> len then advance_iovs vs (len - iov_len v)
      else v\<lparr>iov_base := iov_base v + len, iov_len := iov_len v - len\<rparr> # vs)"

definition advance_piov :: "page_read_iov \<Rightarrow> nat \<Rightarrow> page_read_iov" where
  "advance_piov p len =
     p\<lparr>piov_from := piov_from p + len, piov_to := advance_iovs (piov_to p) len\<rparr>"

text \<open>What \<open>preadv\<close> does with the bytes it has read.\<close>

fun scatter :: "iovec list \<Rightarrow> byte list \<Rightarrow> mem \<Rightarrow> mem" where
  "scatter [] bs m = m"
| "scatter (v # vs) bs m = scatter vs (drop (iov_len v) bs) (mem_write m (iov_base v) (take (iov_len v) bs))"

text \<open>
  The inner loop of \<open>process_async_reads\<close> (label \<open>more\<close>): the last result of \<open>preadv\<close>, the job
  with its progress, and the memory.
\<close>

partial_function (option) read_piov :: "pr_sys \<Rightarrow> page_read \<Rightarrow> page_read_iov \<Rightarrow> mem \<Rightarrow>
    (int \<times> page_read_iov \<times> mem) option" where
  "read_piov sys pr p m =
     (case sys_pread sys pr (piov_from p) (iov_bytes (piov_to p)) of
        None \<Rightarrow> Some (-1, p, m)
      | Some bs \<Rightarrow>
          (let m = scatter (piov_to p) bs m;
               ret = (if fi_partial_pages sys \<and> bs \<noteq> [] \<and> 2 \<le> length (piov_to p)
                      then length bs div 2 else length bs)
           in if int ret = int (piov_end p) - int (piov_from p) then Some (int ret, p, m)
              else read_piov sys pr (advance_piov p ret) m))"

fun process_jobs :: "pr_sys \<Rightarrow> page_read \<Rightarrow> page_read_iov list \<Rightarrow> mem \<Rightarrow> (int \<times> page_read \<times> mem) run" where
  "process_jobs sys pr [] m = Done (0, pr\<lparr>async := []\<rparr>, m)"
| "process_jobs sys pr (p # ps) m =
     (case read_piov sys pr p m of
        None \<Rightarrow> Loops
      | Some (ret, p', m) \<Rightarrow>
          if ret < 0 then Done (-1, pr\<lparr>async := p' # ps\<rparr>, m)
          else (let (r, pr) = (if auto_dedup sys then punch_hole sys pr (piov_from p) (nat ret) False else (0, pr))
                in if r \<noteq> 0 then Done (-1, pr\<lparr>async := p' # ps\<rparr>, m)
                   else if io_complete pr \<noteq> None then Abort
                   else process_jobs sys pr ps m))"

fun process_async_reads :: "pr_sys \<Rightarrow> page_read list \<Rightarrow> mem \<Rightarrow> (int \<times> page_read list \<times> mem) run" where
  "process_async_reads sys [] m = Done (0, [], m)"
| "process_async_reads sys (pr # prs) m =
     bind_run (process_jobs sys pr (async pr) m) (\<lambda>(ret, pr, m).
       if ret < 0 then Done (-1, pr # prs, m)
       else bind_run (process_async_reads sys prs m) (\<lambda>(ret, prs, m). Done (ret, pr # prs, m)))"

subsection \<open>Reading pages\<close>

lemma length_sys_pread: "sys_pread sys pr off n = Some bs \<Longrightarrow> length bs \<le> n"
  by (auto simp: sys_pread_def Let_def split: if_splits)

lemma sys_pread_progress:
  "sys_pread sys pr off (len - cur) = Some bs \<Longrightarrow> bs \<noteq> [] \<Longrightarrow> len - (cur + length bs) < len - cur"
  using length_sys_pread [of sys pr off "len - cur" bs] by (cases bs) auto

text \<open>The loop of \<open>read_local_page\<close>.\<close>

function pread_loop :: "pr_sys \<Rightarrow> page_read \<Rightarrow> nat \<Rightarrow> nat \<Rightarrow> nat \<Rightarrow> mem \<Rightarrow> int \<times> mem" where
  "pread_loop sys pr len buf cur m =
     (case sys_pread sys pr (pi_off pr + cur) (len - cur) of
        None \<Rightarrow> (-1, m)
      | Some bs \<Rightarrow>
          if bs = [] then (-1, m)
          else (let m = mem_write m (buf + cur) bs;
                    cur = cur + length bs
                in if cur = len then (0, m) else pread_loop sys pr len buf cur m))"
  by pat_completeness auto
termination
  by (relation "measure (\<lambda>(_, _, len, _, cur, _). len - cur)") (auto dest: sys_pread_progress)

declare pread_loop.simps [simp del]

definition read_local_page :: "pr_sys \<Rightarrow> page_read list \<Rightarrow> ulong \<Rightarrow> nat \<Rightarrow> nat \<Rightarrow> mem \<Rightarrow>
    (int \<times> page_read list \<times> mem) run" where
  "read_local_page sys prs vaddr len buf m =
     bind_run (process_async_reads sys prs m) (\<lambda>(ret, prs, m).
       if ret \<noteq> 0 then Done (-1, prs, m)
       else (let pr = hd prs;
                 (ret, m) = pread_loop sys pr len buf 0 m
             in if ret < 0 then Done (-1, prs, m)
                else if auto_dedup sys
                then (let (ret, pr) = punch_hole sys pr (pi_off pr) len False
                      in Done (if ret = -1 then -1 else 0, pr # tl prs, m))
                else Done (0, prs, m)))"

abbreviation upd_pi_off :: "nat \<Rightarrow> page_read list \<Rightarrow> page_read list" where
  "upd_pi_off len prs \<equiv> (hd prs)\<lparr>pi_off := pi_off (hd prs) + len\<rparr> # tl prs"

definition maybe_read_page_local :: "pr_sys \<Rightarrow> page_read list \<Rightarrow> ulong \<Rightarrow> nat \<Rightarrow> nat \<Rightarrow> u32 \<Rightarrow> mem \<Rightarrow>
    (int \<times> page_read list \<times> mem) run" where
  "maybe_read_page_local sys prs vaddr nr buf flags m =
     (let len = nr * PAGE_SIZE
      in if flags AND (PR_ASYNC OR PR_ASAP) = PR_ASYNC
         then (let (ret, q) = pagemap_enqueue_iovec sys (hd prs) buf len (async (hd prs))
               in Done (ret, upd_pi_off len ((hd prs)\<lparr>async := q\<rparr> # tl prs), m))
         else bind_run (read_local_page sys prs vaddr len buf m) (\<lambda>(ret, prs, m).
                let ret = (case io_complete (hd prs) of
                             Some f \<Rightarrow> if ret = 0 then f vaddr nr else ret
                           | None \<Rightarrow> ret)
                in Done (ret, upd_pi_off len prs, m)))"

text \<open>
  The streamed image is a pipe: \<open>pi_pos\<close> is what has been consumed. The result of the last
  \<open>read\<close> is the result when there is no \<open>io_complete\<close>.
\<close>

function stream_loop :: "pr_sys \<Rightarrow> page_read \<Rightarrow> nat \<Rightarrow> nat \<Rightarrow> nat \<Rightarrow> mem \<Rightarrow> int \<times> page_read \<times> mem" where
  "stream_loop sys pr len buf cur m =
     (case sys_pread sys pr (pi_pos pr) (len - cur) of
        None \<Rightarrow> (-1, pr, m)
      | Some bs \<Rightarrow>
          if bs = [] then (-1, pr, m)
          else (let m = mem_write m (buf + cur) bs;
                    pr = pr\<lparr>pi_pos := pi_pos pr + length bs\<rparr>;
                    cur = cur + length bs
                in if cur = len then (int (length bs), pr, m) else stream_loop sys pr len buf cur m))"
  by pat_completeness auto
termination
  by (relation "measure (\<lambda>(_, _, len, _, cur, _). len - cur)") (auto dest: sys_pread_progress)

declare stream_loop.simps [simp del]

definition maybe_read_page_img_streamer :: "pr_sys \<Rightarrow> page_read list \<Rightarrow> ulong \<Rightarrow> nat \<Rightarrow> nat \<Rightarrow> u32 \<Rightarrow> mem \<Rightarrow>
    (int \<times> page_read list \<times> mem) run" where
  "maybe_read_page_img_streamer sys prs vaddr nr buf flags m =
     (let len = nr * PAGE_SIZE
      in if cvaddr (hd prs) \<noteq> vaddr then Abort
         else (let (ret, pr, m) = stream_loop sys (hd prs) len buf 0 m
               in if ret < 0 then Done (-1, pr # tl prs, m)
                  else Done (case io_complete pr of Some f \<Rightarrow> f vaddr nr | None \<Rightarrow> ret,
                             upd_pi_off len (pr # tl prs), m)))"

definition read_page_source :: "pr_sys \<Rightarrow> page_read list \<Rightarrow> ulong \<Rightarrow> nat \<Rightarrow> nat \<Rightarrow> u32 \<Rightarrow> mem \<Rightarrow>
    (int \<times> page_read list \<times> mem) run" where
  "read_page_source sys prs =
     (case maybe_read_page (hd prs) of
        Local_image \<Rightarrow> maybe_read_page_local sys prs
      | Streamed_image \<Rightarrow> maybe_read_page_img_streamer sys prs)"

text \<open>
  \<open>read_parent_page\<close>: \<open>rd\<close> is the \<open>read_pages\<close> method of the parent and the list the chain
  from the parent on. A successful seek leaves at least one page in the entry found, so the
  loop ends.
\<close>

lemma seek_here_found:
  assumes "seek_here pr vaddr = (Some r, pr')" "0 < r"
  obtains e where "pe pr' = Some e" "pe_vaddr e \<le> vaddr" "vaddr < pe_vaddr e + pagemap_len e" "r = 1"
proof -
  obtain e where e: "pe pr = Some e" using assms by (cases "pe pr") (auto simp: seek_here_def)
  have "pe pr' = Some e" using assms(1) e by (metis seek_here_frame(3) snd_conv)
  moreover have "pe_vaddr e \<le> vaddr \<and> vaddr < ul_add (pe_vaddr e) (pagemap_len e) \<and> r = 1"
    using assms e by (auto simp: seek_here_def Let_def split: if_splits)
  moreover have "ul_add (pe_vaddr e) (pagemap_len e) \<le> pe_vaddr e + pagemap_len e" by (simp add: ul_add_def)
  ultimately show thesis using that[of e] by auto
qed

lemma seek_pagemap_found:
  assumes "seek_pagemap pr vaddr = (r, pr')" "0 < r"
  obtains e where "pe pr' = Some e" "pe_vaddr e \<le> vaddr" "vaddr < pe_vaddr e + pagemap_len e" "r = 1"
  using assms
proof (induction pr vaddr arbitrary: thesis rule: seek_pagemap.induct)
  case (1 pr vaddr)
  obtain res pr1 where h: "seek_here pr vaddr = (res, pr1)" by fastforce
  show ?case
  proof (cases res)
    case (Some q)
    then have "q = r" "pr1 = pr'" using 1(3) h by (subst (asm) seek_pagemap.simps, simp)+
    then show ?thesis using seek_here_found 1(2,4) h Some by metis
  next
    case None
    obtain b pr2 where a: "advance pr1 = (b, pr2)" by fastforce
    have "b \<noteq> 0" "seek_pagemap pr2 vaddr = (r, pr')"
      using 1(3,4) h None a by (subst (asm) seek_pagemap.simps, simp split: if_splits)+
    then show ?thesis using 1(1) [of "(res, pr1)" res pr1 "(b, pr2)" b pr2] h a None 1(2,4) by metis
  qed
qed

definition parent_pages :: "page_read \<Rightarrow> ulong \<Rightarrow> nat \<Rightarrow> nat" where
  "parent_pages ppr vaddr nr =
     min nr (nr_pages (the (pe ppr)) - (vaddr - pe_vaddr (the (pe ppr))) div PAGE_SIZE)"

lemma parent_pages_pos:
  assumes "seek_pagemap pr vaddr = (r, pr')" "0 < r" "0 < nr"
  shows "0 < parent_pages pr' vaddr nr"
proof -
  from seek_pagemap_found [OF assms(1,2)] obtain e where e: "pe pr' = Some e" "pe_vaddr e \<le> vaddr"
    "vaddr < pe_vaddr e + pagemap_len e" by metis
  then have "vaddr - pe_vaddr e < nr_pages e * PAGE_SIZE" by (simp add: pagemap_len_def)
  then have "(vaddr - pe_vaddr e) div PAGE_SIZE < nr_pages e" by (simp add: div_less_iff_less_mult)
  then show ?thesis using e assms(3) by (simp add: parent_pages_def)
qed

type_synonym reader = "page_read list \<Rightarrow> ulong \<Rightarrow> nat \<Rightarrow> nat \<Rightarrow> u32 \<Rightarrow> mem \<Rightarrow> (int \<times> page_read list \<times> mem) run"

function read_parent_page :: "reader \<Rightarrow> page_read list \<Rightarrow> ulong \<Rightarrow> nat \<Rightarrow> nat \<Rightarrow> u32 \<Rightarrow> mem \<Rightarrow>
    (int \<times> page_read list \<times> mem) run" where
  "read_parent_page rd [] vaddr nr buf flags m = Done (-1, [], m)"
| "read_parent_page rd (ppr # pprs) vaddr nr buf flags m =
     (let (ret, ppr) = seek_pagemap ppr vaddr
      in if ret \<le> 0 then Done (-1, ppr # pprs, m)
         else (let p_nr = parent_pages ppr vaddr nr
               in bind_run (rd (ppr # pprs) vaddr p_nr buf flags m) (\<lambda>(ret, prs, m).
                    if ret = -1 then Done (-1, prs, m)
                    else if nr - p_nr = 0 then Done (0, prs, m)
                    else read_parent_page rd prs (ul_add vaddr (p_nr * PAGE_SIZE)) (nr - p_nr)
                           (buf + p_nr * PAGE_SIZE) flags m)))"
  by pat_completeness auto
termination
proof (relation "measure (\<lambda>(_, _, _, nr, _). nr)", goal_cases)
  case (2 rd ppr pprs vaddr nr buf flags m x ret ppr' p_nr y ret' z prs m')
  then have "seek_pagemap ppr vaddr = (ret, ppr')" "0 < ret" "0 < nr" by auto
  then have "0 < parent_pages ppr' vaddr nr" by (rule parent_pages_pos)
  with 2 show ?case by simp
qed simp

text \<open>
  \<open>read_pagemap_page\<close>, the \<open>read_pages\<close> method, on a chain of at most \<open>n\<close> readers.
\<close>

primrec read_pages_upto :: "nat \<Rightarrow> pr_sys \<Rightarrow> reader" where
  "read_pages_upto 0 sys prs vaddr nr buf flags m = Abort"
| "read_pages_upto (Suc n) sys prs vaddr nr buf flags m =
     (let e = the (pe (hd prs))
      in if \<not> pagemap_bound_check e vaddr nr then Abort
         else bind_run
           (if pagemap_in_parent e
            then bind_run (read_parent_page (read_pages_upto n sys) (tl prs) vaddr nr buf flags m)
                   (\<lambda>(ret, pprs, m). Done (ret, hd prs # pprs, m))
            else read_page_source sys prs vaddr nr buf flags m)
           (\<lambda>(ret, prs, m).
              if ret < 0 then Done (-1, prs, m)
              else Done (1, (hd prs)\<lparr>cvaddr := ul_add (cvaddr (hd prs)) (nr * PAGE_SIZE)\<rparr> # tl prs, m)))"

definition read_pagemap_page :: "pr_sys \<Rightarrow> reader" where
  "read_pagemap_page sys prs = read_pages_upto (length prs) sys prs"

subsection \<open>Deduplication\<close>

text \<open>
  The loop of \<open>dedup_one_iovec\<close> on the reader \<open>pr\<close> with the parents \<open>prs\<close>; \<open>up\<close> is the recursive
  call on the parents.
\<close>

partial_function (option) dedup_loop :: "pr_sys \<Rightarrow>
    (page_read list \<Rightarrow> ulong \<Rightarrow> ulong \<Rightarrow> (int \<times> page_read list) option) \<Rightarrow>
    page_read \<Rightarrow> page_read list \<Rightarrow> ulong \<Rightarrow> ulong \<Rightarrow> (int \<times> page_read list) option" where
  "dedup_loop sys up pr prs off iov_stop =
     (let (ret, pr) = seek_pagemap pr off
      in if ret = 0 \<and> \<not> (off < cvaddr pr \<and> cvaddr pr < iov_stop) then Some (0, pr # prs)
         else (let off = (if ret = 0 then cvaddr pr else off)
               in case pe pr of
                    None \<Rightarrow> Some (-1, pr # prs)
                  | Some e \<Rightarrow>
                      (let piov_end = ul_add (pe_vaddr e) (pagemap_len e);
                           len = ul_sub (min piov_end iov_stop) off;
                           (ret, pr) = (if \<not> pagemap_in_parent e then punch_hole sys pr (pi_off pr) len False
                                        else (0, pr))
                       in if ret = -1 then Some (-1, pr # prs)
                          else (case (if prs = [] then Some (0, []) else up prs off len) of
                                  None \<Rightarrow> None
                                | Some (ret, prs) \<Rightarrow>
                                    if ret \<noteq> 0 then Some (-1, pr # prs)
                                    else if piov_end < iov_stop then dedup_loop sys up pr prs piov_end iov_stop
                                    else Some (0, pr # prs)))))"

primrec dedup_upto :: "nat \<Rightarrow> pr_sys \<Rightarrow> page_read list \<Rightarrow> ulong \<Rightarrow> ulong \<Rightarrow> (int \<times> page_read list) option" where
  "dedup_upto 0 sys prs off len = None"
| "dedup_upto (Suc n) sys prs off len = dedup_loop sys (dedup_upto n sys) (hd prs) (tl prs) off (ul_add off len)"

definition dedup_one_iovec :: "pr_sys \<Rightarrow> page_read list \<Rightarrow> ulong \<Rightarrow> ulong \<Rightarrow> (int \<times> page_read list) option" where
  "dedup_one_iovec sys prs off len = dedup_upto (length prs) sys prs off len"

subsection \<open>Opening and closing\<close>

fun close_page_read :: "pr_sys \<Rightarrow> page_read list \<Rightarrow> page_read list run" where
  "close_page_read sys [] = Done []"
| "close_page_read sys (pr # prs) =
     (if async pr \<noteq> [] then Abort
      else (let (ret, pr') = (if 0 < iov_len (bunch pr) then punch_hole sys pr 0 0 True else (0, pr))
            in if ret = -1 then Done (pr' # prs)
               else bind_run (close_page_read sys prs) (\<lambda>prs.
                      Done (pr'\<lparr>bunch := (bunch pr')\<lparr>iov_len := 0\<rparr>, pmes := []\<rparr> # prs))))"

fun reset_pagemap :: "page_read list \<Rightarrow> page_read list" where
  "reset_pagemap [] = []"
| "reset_pagemap (pr # prs) = pr\<lparr>cvaddr := 0, pi_off := 0, curr_pme := -1, pe := None\<rparr> # reset_pagemap prs"

definition init_compat_pagemap_entry :: "pagemap_entry \<Rightarrow> pagemap_entry" where
  "init_compat_pagemap_entry e =
     (if pe_in_parent e = Some True then e\<lparr>pe_flags := pe_flags e OR PE_PARENT\<rparr>
      else if \<not> has_flags e then e\<lparr>pe_flags := PE_PRESENT\<rparr>
      else e)"

definition PAGEMAP_ENTRY_SIZE_ESTIMATE :: nat where "PAGEMAP_ENTRY_SIZE_ESTIMATE = 16"

text \<open>
  The loop of \<open>init_pagemaps\<close>: \<open>acc\<close> the entries read so far, \<open>room\<close> the length of the array,
  \<open>bad\<close> whether the image ends in something that is not an entry. \<open>Abort\<close> is a store beyond
  the array; \<open>pb_read_one_eof\<close> stores a null pointer before it reads, so also at the end of the image.
\<close>

fun read_pmes :: "pr_sys \<Rightarrow> nat \<Rightarrow> nat \<Rightarrow> pagemap_entry list \<Rightarrow> bool \<Rightarrow> pagemap_entry list \<Rightarrow>
    pagemap_entry list option run" where
  "read_pmes sys room grow [] bad acc = (if room \<le> length acc then Abort else Done (if bad then None else Some acc))"
| "read_pmes sys room grow (e # es) bad acc =
     (if room \<le> length acc then Abort
      else (let acc = acc @ [init_compat_pagemap_entry e]
            in if room \<le> length acc
               then (if \<not> xalloc_ok sys then Done None else read_pmes sys (room + grow) grow es bad acc)
               else read_pmes sys room grow es bad acc))"

text \<open>
  The image directory of a snapshot: the pagemap image, if it can be opened, with its size,
  its entries and whether it is damaged after them; the pages image; the directory that the
  parent link names.
\<close>

datatype image_dir = Image_dir
  (d_pagemap: "(nat \<times> pagemap_entry list \<times> bool) option")
  (d_empty: bool)
  (d_pages: "byte list option")
  (d_parent: "image_dir option")

definition init_pagemaps :: "pr_sys \<Rightarrow> bool \<Rightarrow> nat \<times> pagemap_entry list \<times> bool \<Rightarrow>
    pagemap_entry list option run" where
  "init_pagemaps sys stream img =
     (let fsize = (if stream then 1024 else fst img);
          nr_pmes = fsize div PAGEMAP_ENTRY_SIZE_ESTIMATE + 1;
          nr_realloc = nr_pmes div 2
      in if \<not> xalloc_ok sys then Done None
         else read_pmes sys nr_pmes nr_realloc (fst (snd img)) (snd (snd img)) [])"

definition new_page_read :: "nat \<Rightarrow> nat \<Rightarrow> pagemap_entry list \<Rightarrow> byte list \<Rightarrow> bool \<Rightarrow> bool \<Rightarrow> bool \<Rightarrow> page_read" where
  "new_page_read i img es pages stream lazy has_parent =
     \<lparr>pr_id = i, img_id = img, pieok = (\<not> stream \<and> \<not> has_parent \<and> \<not> lazy), pmes = es, curr_pme = -1, pe = None,
      cvaddr = 0, pi_off = 0, pi_img = pages, pi_pos = 0, bunch = \<lparr>iov_base = 0, iov_len = 0\<rparr>, async = [],
      io_complete = None, maybe_read_page = (if stream then Streamed_image else Local_image)\<rparr>"

text \<open>
  \<open>open_page_read_at\<close> with \<open>try_open_parent\<close>; \<open>i\<close> is the counter \<open>ids\<close>. The result is -1, 0 when the
  image is empty, or 1 with the chain. The chain of an unreadable parent is an error of the
  child. Readers here are local: \<open>PR_REMOTE\<close>, which only selects another method to get the
  pages, is not set.
\<close>

fun open_page_read_at :: "pr_sys \<Rightarrow> bool \<Rightarrow> bool \<Rightarrow> nat \<Rightarrow> image_dir \<Rightarrow> nat \<Rightarrow> (int \<times> page_read list \<times> nat) run" where
  "open_page_read_at sys stream lazy img (Image_dir pm emp pages par) i =
     (case pm of
        None \<Rightarrow> Done (-1, [], i)
      | Some pmi \<Rightarrow>
          if emp then Done (0, [], i)
          else bind_run
            (case par of
               None \<Rightarrow> Done (0, [], i)
             | Some d \<Rightarrow> if stream then Done (0, [], i)
                         else if \<not> xalloc_ok sys then Done (-1, [], i)
                         else open_page_read_at sys stream lazy img d i)
            (\<lambda>(ret, prs, i).
               if ret < 0 then Done (-1, [], i)
               else (case pages of
                       None \<Rightarrow> Done (-1, [], i)
                     | Some f \<Rightarrow> bind_run (init_pagemaps sys stream pmi) (\<lambda>es.
                         case es of
                           None \<Rightarrow> Done (-1, [], i)
                         | Some es \<Rightarrow> Done (1, new_page_read i img es f stream lazy (prs \<noteq> []) # prs, i + 1)))))"

definition DUP_IDS_BASE :: nat where "DUP_IDS_BASE = 1000"

text \<open>The copy and its parents after the reset; \<open>dup_ids\<close> is the counter of copies.\<close>

definition dup_page_read :: "page_read list \<Rightarrow> nat \<Rightarrow> page_read list \<times> nat" where
  "dup_page_read prs dup_ids =
     (let src = hd prs
      in (reset_pagemap (src\<lparr>async := [], pr_id := pr_id src + DUP_IDS_BASE * dup_ids\<rparr> # tl prs), dup_ids + 1))"

subsection \<open>Clients\<close>

text \<open>\<open>cr_dedup_one_pagemap\<close> after the reader has been opened: its loop over the entries.\<close>

function dedup_entries :: "pr_sys \<Rightarrow> page_read \<Rightarrow> page_read list \<Rightarrow> (int \<times> page_read list) option" where
  "dedup_entries sys pr prs =
     (let (ret, pr) = advance pr
      in if ret \<le> 0 then Some (ret, pr # prs)
         else if \<not> pagemap_in_parent (the (pe pr))
         then (case dedup_one_iovec sys prs (pe_vaddr (the (pe pr))) (pagemap_len (the (pe pr))) of
                 None \<Rightarrow> None
               | Some (ret, prs) \<Rightarrow> if ret \<noteq> 0 then Some (ret, pr # prs) else dedup_entries sys pr prs)
         else dedup_entries sys pr prs)"
  by pat_completeness auto
termination
  by (relation "measure (\<lambda>(_, pr, _). nat (int (length (pmes pr)) - curr_pme pr))")
    (auto simp: advance_def Let_def split: if_splits)

declare dedup_entries.simps [simp del]

definition cr_dedup_one_pagemap :: "pr_sys \<Rightarrow> page_read list \<Rightarrow> (int \<times> page_read list) run" where
  "cr_dedup_one_pagemap sys prs =
     (if tl prs = [] then bind_run (close_page_read sys prs) (\<lambda>prs. Done (0, prs))
      else (case dedup_entries sys (hd prs) (tl prs) of
              None \<Rightarrow> Loops
            | Some (ret, prs) \<Rightarrow>
                bind_run (close_page_read sys prs) (\<lambda>prs. Done (if ret < 0 then ret else 0, prs))))"

text \<open>What reading pages leaves alone in a reader: its list of entries and its place in it.\<close>

definition walk :: "page_read \<Rightarrow> nat \<times> pagemap_entry list \<times> int \<times> pagemap_entry option" where
  "walk pr = (pr_id pr, pmes pr, curr_pme pr, pe pr)"

lemma walk_simps [simp]:
  "walk (pr\<lparr>async := q\<rparr>) = walk pr" "walk (pr\<lparr>bunch := b\<rparr>) = walk pr" "walk (pr\<lparr>pi_img := f\<rparr>) = walk pr"
  "walk (pr\<lparr>pi_off := n\<rparr>) = walk pr" "walk (pr\<lparr>pi_pos := n\<rparr>) = walk pr" "walk (pr\<lparr>cvaddr := a\<rparr>) = walk pr"
  by (simp_all add: walk_def)

lemma walk_punch_hole: "punch_hole sys pr off len cl = (r, pr') \<Longrightarrow> walk pr' = walk pr"
  by (auto simp: punch_hole_def Let_def split: if_splits)

lemma walk_process_jobs: "process_jobs sys pr ps m = Done (r, pr', m') \<Longrightarrow> walk pr' = walk pr"
  by (induction sys pr ps m rule: process_jobs.induct)
    (auto split: option.splits if_splits prod.splits dest!: walk_punch_hole)

lemma walk_process_async_reads:
  "process_async_reads sys prs m = Done (r, prs', m') \<Longrightarrow> map walk prs' = map walk prs"
proof (induction sys prs m arbitrary: r prs' m' rule: process_async_reads.induct)
  case (2 sys pr prs m)
  from 2(2) obtain r1 pr1 m1 where j: "process_jobs sys pr (async pr) m = Done (r1, pr1, m1)"
    by (auto simp: bind_run_eq_Done)
  show ?case
  proof (cases "r1 < 0")
    case True
    then show ?thesis using 2(2) walk_process_jobs [OF j] by (auto simp: j)
  next
    case False
    then obtain r2 prs2 m2 where k: "process_async_reads sys prs m1 = Done (r2, prs2, m2)"
      using 2(2) by (auto simp: j bind_run_eq_Done)
    from 2(1) [OF j refl refl _ k] walk_process_jobs [OF j] False 2(2) show ?thesis by (auto simp: j k)
  qed
qed simp

lemma walk_read_local_page:
  assumes "read_local_page sys prs vaddr len buf m = Done (r, prs', m')" "prs \<noteq> []"
  shows "map walk prs' = map walk prs"
proof -
  obtain r1 prs1 m1 where s: "process_async_reads sys prs m = Done (r1, prs1, m1)"
    using assms(1) by (auto simp: read_local_page_def bind_run_eq_Done)
  note w = walk_process_async_reads [OF s]
  then have "prs1 \<noteq> []" using assms(2) by auto
  then obtain p ps where p: "prs1 = p # ps" by (cases prs1) auto
  have "map walk prs' = map walk prs1"
    using assms(1) by (auto simp: read_local_page_def s p Let_def split: if_splits prod.splits dest!: walk_punch_hole)
  with w show ?thesis by simp
qed

lemma walk_stream_loop: "stream_loop sys pr len buf cur m = (r, pr', m') \<Longrightarrow> walk pr' = walk pr"
proof (induction sys pr len buf cur m rule: stream_loop.induct)
  case (1 sys pr len buf cur m)
  show ?case
  proof (cases "sys_pread sys pr (pi_pos pr) (len - cur)")
    case None
    then show ?thesis using 1(2) by (simp add: stream_loop.simps [of sys pr])
  next
    case (Some bs)
    let ?pr = "pr\<lparr>pi_pos := pi_pos pr + length bs\<rparr>"
    consider "bs = []" | "bs \<noteq> []" "cur + length bs = len" | "bs \<noteq> []" "cur + length bs \<noteq> len" by blast
    then show ?thesis
    proof cases
      case 3
      then have "stream_loop sys ?pr len buf (cur + length bs) (mem_write m (buf + cur) bs) = (r, pr', m')"
        using 1(2) Some by (simp add: stream_loop.simps [of sys pr] Let_def)
      then have "walk pr' = walk ?pr" using 1(1) Some 3 by blast
      then show ?thesis by simp
    qed (use 1(2) Some in \<open>auto simp: stream_loop.simps [of sys pr] Let_def\<close>)
  qed
qed

lemma walk_read_page_source:
  assumes "read_page_source sys prs vaddr nr buf flags m = Done (r, prs', m')" "prs \<noteq> []"
  shows "map walk prs' = map walk prs"
proof (cases "maybe_read_page (hd prs)")
  case Local_image
  show ?thesis
  proof (cases "flags AND (PR_ASYNC OR PR_ASAP) = PR_ASYNC")
    case True
    then show ?thesis using assms Local_image
      by (cases prs) (auto simp: read_page_source_def maybe_read_page_local_def Let_def split: prod.splits)
  next
    case False
    then obtain r1 prs1 m1 where s: "read_local_page sys prs vaddr (nr * PAGE_SIZE) buf m = Done (r1, prs1, m1)"
      using assms Local_image by (auto simp: read_page_source_def maybe_read_page_local_def Let_def bind_run_eq_Done)
    note w = walk_read_local_page [OF s assms(2)]
    then have "prs1 \<noteq> []" using assms(2) by auto
    then show ?thesis using assms Local_image False w
      by (cases prs1) (auto simp: read_page_source_def maybe_read_page_local_def Let_def s)
  qed
next
  case Streamed_image
  then show ?thesis using assms
    by (cases prs) (auto simp: read_page_source_def maybe_read_page_img_streamer_def Let_def
        split: prod.splits if_splits dest!: walk_stream_loop)
qed

lemma walk_read_pagemap_page:
  assumes "read_pages_upto n sys prs vaddr nr buf flags m = Done (r, prs', m')" "prs \<noteq> []"
  shows "walk (hd prs') = walk (hd prs)"
proof (cases n)
  case (Suc k)
  let ?e = "the (pe (hd prs))"
  obtain r1 prs1 m1 where s: "(if pagemap_in_parent ?e
      then bind_run (read_parent_page (read_pages_upto k sys) (tl prs) vaddr nr buf flags m)
             (\<lambda>(ret, pprs, m). Done (ret, hd prs # pprs, m))
      else read_page_source sys prs vaddr nr buf flags m) = Done (r1, prs1, m1)"
    using assms(1) Suc by (auto simp: Let_def bind_run_eq_Done split: if_splits)
  have "walk (hd prs1) = walk (hd prs) \<and> prs1 \<noteq> []"
  proof (cases "pagemap_in_parent ?e")
    case True
    then show ?thesis using s by (auto simp: bind_run_eq_Done)
  next
    case False
    then have "map walk prs1 = map walk prs" using s walk_read_page_source assms(2) by simp
    then show ?thesis using assms(2) by (cases prs; cases prs1) auto
  qed
  moreover have "walk (hd prs') = walk (hd prs1)"
    using assms(1) Suc s by (auto simp: Let_def split: if_splits)
  ultimately show ?thesis by simp
qed (use assms in simp)

text \<open>\<open>do_restore_shmem_content\<close> after the reader has been opened.\<close>

function restore_shmem_entries :: "pr_sys \<Rightarrow> page_read list \<Rightarrow> nat \<Rightarrow> nat \<Rightarrow> mem \<Rightarrow> (int \<times> page_read list \<times> mem) run" where
  "restore_shmem_entries sys prs addr sz m =
     (let (ret, pr) = advance (hd prs)
      in if ret \<le> 0 then Done (ret, pr # tl prs, m)
         else (let vaddr = pe_vaddr (the (pe pr));
                   nr = nr_pages (the (pe pr))
               in if sz < ul_add vaddr (nr * PAGE_SIZE) then Done (ret, pr # tl prs, m)
                  else bind_run (read_pagemap_page sys (pr # tl prs) vaddr nr (addr + vaddr) 0 m)
                    (\<lambda>(_, prs, m). restore_shmem_entries sys prs addr sz m)))"
  by pat_completeness auto
termination
proof (relation "measure (\<lambda>(_, prs, _). nat (int (length (pmes (hd prs))) - curr_pme (hd prs)))", goal_cases)
  case (2 sys prs addr sz m x ret pr vaddr nr y z u prs' m')
  then have r: "read_pages_upto (length (pr # tl prs)) sys (pr # tl prs) vaddr nr (addr + vaddr) 0 m = Done (z, prs', m')"
    by (auto simp: read_pagemap_page_def)
  have "walk (hd prs') = walk pr" using walk_read_pagemap_page [OF r] by simp
  moreover have "advance (hd prs) = (ret, pr)" "0 < ret" using 2 by auto
  ultimately show ?case by (auto simp: walk_def advance_def Let_def split: if_splits)
qed simp

declare restore_shmem_entries.simps [simp del]

definition do_restore_shmem_content :: "pr_sys \<Rightarrow> page_read list \<Rightarrow> nat \<Rightarrow> nat \<Rightarrow> mem \<Rightarrow>
    (int \<times> page_read list \<times> mem) run" where
  "do_restore_shmem_content sys prs addr sz m =
     bind_run (restore_shmem_entries sys prs addr sz m) (\<lambda>(ret, prs, m).
       bind_run (close_page_read sys prs) (\<lambda>prs. Done (ret, prs, m)))"

end
