(* ===== verification/PageReadCorrect.thy ===== *)
theory PageReadCorrect
  imports PageRead
begin

unbundle bit_operations_syntax

text \<open>
  Correctness of the page readers.

  The specification is \<open>byte_at\<close>: the byte that a series of snapshots has for an address, found by
  going to the parent snapshot where a pagemap entry says so. The theory relates to it the
  walk over the entries (\<open>seek_pagemap\<close>), synchronous and queued reads, holes punched behind
  the reads, deduplication of old snapshots, and the restore of shared memory.
\<close>

subsection \<open>Pagemaps and what they say\<close>

definition pe_end :: "pagemap_entry \<Rightarrow> nat" where
  "pe_end e = pe_vaddr e + pagemap_len e"

definition covers :: "pagemap_entry \<Rightarrow> nat \<Rightarrow> bool" where
  "covers e a \<longleftrightarrow> pe_vaddr e \<le> a \<and> a < pe_end e"

definition mapped :: "pagemap_entry list \<Rightarrow> nat \<Rightarrow> bool" where
  "mapped es a \<longleftrightarrow> (\<exists>e\<in>set es. covers e a)"

text \<open>The bytes that an entry has in the pages image, and the offset where those of the entry \<open>k\<close> start.\<close>

definition stored :: "pagemap_entry \<Rightarrow> nat" where
  "stored e = (if pagemap_present e then pagemap_len e else 0)"

definition img_off :: "pagemap_entry list \<Rightarrow> nat \<Rightarrow> nat" where
  "img_off es k = sum_list (map stored (take k es))"

fun locate :: "pagemap_entry list \<Rightarrow> nat \<Rightarrow> nat \<Rightarrow> (pagemap_entry \<times> nat) option" where
  "locate [] off a = None"
| "locate (e # es) off a =
     (if covers e a then Some (e, off + (a - pe_vaddr e)) else locate es (off + stored e) a)"

fun byte_at :: "(pagemap_entry list \<times> byte list) list \<Rightarrow> nat \<Rightarrow> byte option" where
  "byte_at [] a = None"
| "byte_at ((es, img) # ls) a =
     (case locate es 0 a of
        None \<Rightarrow> None
      | Some (e, i) \<Rightarrow>
          if pagemap_in_parent e then byte_at ls a
          else if pagemap_present e \<and> i < length img then Some (img ! i) else None)"

definition wf_pe :: "pagemap_entry \<Rightarrow> bool" where
  "wf_pe e \<longleftrightarrow> PAGE_SIZE dvd pe_vaddr e \<and> 0 < nr_pages e \<and> pe_end e < ULONG_MOD \<and>
     \<not> (pagemap_in_parent e \<and> pagemap_present e)"

definition wf_pmes :: "pagemap_entry list \<Rightarrow> bool" where
  "wf_pmes es \<longleftrightarrow> (\<forall>e\<in>set es. wf_pe e) \<and> sorted_wrt (\<lambda>a b. pe_end a \<le> pe_vaddr b) es"

lemma img_off_0 [simp]: "img_off es 0 = 0"
  by (simp add: img_off_def)

lemma img_off_Cons_Suc [simp]: "img_off (e # es) (Suc k) = stored e + img_off es k"
  by (simp add: img_off_def)

lemma img_off_Suc: "k < length es \<Longrightarrow> img_off es (Suc k) = img_off es k + stored (es ! k)"
  by (simp add: img_off_def take_Suc_conv_app_nth)

lemma img_off_mono: "j \<le> k \<Longrightarrow> img_off es j \<le> img_off es k"
  by (metis add_diff_inverse_nat img_off_def le_add1 map_append not_less sum_list_append take_add)

lemma wf_pmes_nth: "wf_pmes es \<Longrightarrow> k < length es \<Longrightarrow> wf_pe (es ! k)"
  by (simp add: wf_pmes_def)

lemma wf_pmes_less: "wf_pmes es \<Longrightarrow> j < k \<Longrightarrow> k < length es \<Longrightarrow> pe_end (es ! j) \<le> pe_vaddr (es ! k)"
  by (simp add: wf_pmes_def sorted_wrt_iff_nth_less)

lemma wf_pe_less: "wf_pe e \<Longrightarrow> pe_vaddr e < pe_end e"
  by (simp add: wf_pe_def pe_end_def pagemap_len_def)

lemma wf_pe_end: "wf_pe e \<Longrightarrow> ul_add (pe_vaddr e) (pagemap_len e) = pe_end e"
  by (simp add: wf_pe_def pe_end_def ul_add_exact)

lemma covers_unique:
  assumes wf: "wf_pmes es" and k: "j < length es" "k < length es" "covers (es ! j) a" "covers (es ! k) a"
  shows "j = k"
proof (rule ccontr)
  assume "j \<noteq> k"
  then consider "j < k" | "k < j" by arith
  then show False
    by cases (use wf_pmes_less [OF wf, of j k] wf_pmes_less [OF wf, of k j] k in \<open>auto simp: covers_def\<close>)
qed

lemma locate_None: "locate es off a = None \<longleftrightarrow> \<not> mapped es a"
  by (induction es off a rule: locate.induct) (auto simp: mapped_def)

lemma locate_nth:
  assumes "wf_pmes es" "k < length es" "covers (es ! k) a"
  shows "locate es off a = Some (es ! k, off + img_off es k + (a - pe_vaddr (es ! k)))"
  using assms
proof (induction es off a arbitrary: k rule: locate.induct)
  case (2 e es off a)
  show ?case
  proof (cases k)
    case 0
    then show ?thesis using 2 by simp
  next
    case (Suc n)
    have "\<not> covers e a"
      using covers_unique [OF 2(2), of 0 k a] 2(3,4) Suc by auto
    moreover have "wf_pmes es" using 2(2) by (simp add: wf_pmes_def)
    ultimately show ?thesis using 2(1) [of n] 2(3,4) Suc by simp
  qed
qed simp

lemma locate_Some:
  assumes "wf_pmes es" "locate es 0 a = Some (e, i)"
  obtains k where "k < length es" "e = es ! k" "covers e a" "i = img_off es k + (a - pe_vaddr e)"
proof -
  from assms(2) have "mapped es a" using locate_None [of es 0 a] by simp
  then obtain k where "k < length es" "covers (es ! k) a" by (auto simp: mapped_def in_set_conv_nth)
  with locate_nth [OF assms(1) this, of 0] assms(2) that show thesis by simp
qed

subsection \<open>The position of a reader\<close>

definition at_entry :: "page_read \<Rightarrow> nat \<Rightarrow> bool" where
  "at_entry pr k \<longleftrightarrow>
     k < length (pmes pr) \<and> pe pr = Some (pmes pr ! k) \<and>
     (curr_pme pr = int k \<or> Suc k = length (pmes pr) \<and> int (length (pmes pr)) \<le> curr_pme pr) \<and>
     pe_vaddr (pmes pr ! k) \<le> cvaddr pr \<and> cvaddr pr \<le> pe_end (pmes pr ! k) \<and>
     pi_off pr = img_off (pmes pr) k +
       (if pagemap_present (pmes pr ! k) then cvaddr pr - pe_vaddr (pmes pr ! k) else 0)"

definition at_start :: "page_read \<Rightarrow> bool" where
  "at_start pr \<longleftrightarrow> pe pr = None \<and> cvaddr pr = 0 \<and> pi_off pr = 0 \<and>
     (curr_pme pr = -1 \<or> pmes pr = [] \<and> -1 \<le> curr_pme pr)"

definition pos_ok :: "page_read \<Rightarrow> bool" where
  "pos_ok pr \<longleftrightarrow> wf_pmes (pmes pr) \<and> (at_start pr \<or> (\<exists>k. at_entry pr k))"

text \<open>No address from \<open>v\<close> on has been passed.\<close>

definition front :: "nat \<Rightarrow> page_read \<Rightarrow> bool" where
  "front v pr \<longleftrightarrow> (\<forall>a\<ge>v. a < cvaddr pr \<longrightarrow> \<not> mapped (pmes pr) a)"

lemma front_mono: "front v pr \<Longrightarrow> v \<le> w \<Longrightarrow> front w pr"
  by (auto simp: front_def)

text \<open>What the walk over the entries leaves alone.\<close>

definition data :: "page_read \<Rightarrow> nat \<times> pagemap_entry list \<times> byte list \<times> nat \<times> iovec \<times> page_read_iov list \<times>
    (ulong \<Rightarrow> nat \<Rightarrow> int) option \<times> page_source" where
  "data pr = (pr_id pr, pmes pr, pi_img pr, pi_pos pr, bunch pr, async pr, io_complete pr, maybe_read_page pr)"

lemma data_simps [simp]:
  "data (pr\<lparr>curr_pme := c\<rparr>) = data pr" "data (pr\<lparr>pe := x\<rparr>) = data pr"
  "data (pr\<lparr>cvaddr := a\<rparr>) = data pr" "data (pr\<lparr>pi_off := n\<rparr>) = data pr"
  by (simp_all add: data_def)

lemma advance_data [simp]: "data (snd (advance pr)) = data pr"
  by (simp add: advance_def Let_def)

lemma seek_here_data [simp]: "data (snd (seek_here pr vaddr)) = data pr"
  by (simp add: seek_here_def skip_pagemap_pages_def Let_def split: option.split)

lemma advance_cases: "fst (advance pr) = 0 \<or> fst (advance pr) = 1"
  by (simp add: advance_def Let_def)

lemma seek_pagemap_steps:
  "seek_here pr v = (Some r, pr1) \<Longrightarrow> seek_pagemap pr v = (r, pr1)"
  "seek_here pr v = (None, pr1) \<Longrightarrow> advance pr1 = (0, pr2) \<Longrightarrow> seek_pagemap pr v = (0, pr2)"
  "seek_here pr v = (None, pr1) \<Longrightarrow> advance pr1 = (1, pr2) \<Longrightarrow> seek_pagemap pr v = seek_pagemap pr2 v"
  by (simp_all add: seek_pagemap.simps [of pr v])

text \<open>Induction over the turns of the loop, with the three ways a turn can go.\<close>

lemma seek_pagemap_induct:
  assumes stop: "\<And>pr r pr1. seek_here pr v = (Some r, pr1) \<Longrightarrow> P pr (r, pr1)"
    and last: "\<And>pr pr1 pr2. seek_here pr v = (None, pr1) \<Longrightarrow> advance pr1 = (0, pr2) \<Longrightarrow> P pr (0, pr2)"
    and next_pe: "\<And>pr pr1 pr2. seek_here pr v = (None, pr1) \<Longrightarrow> advance pr1 = (1, pr2) \<Longrightarrow>
        P pr2 (seek_pagemap pr2 v) \<Longrightarrow> P pr (seek_pagemap pr2 v)"
  shows "P pr (seek_pagemap pr v)"
proof (induction pr v arbitrary: rule: seek_pagemap.induct [of "\<lambda>pr w. w = v \<longrightarrow> P pr (seek_pagemap pr v)" for P v,
      rule_format, case_names step eq])
  case (step pr w)
  obtain res pr1 where h: "seek_here pr v = (res, pr1)" by fastforce
  show ?case
  proof (cases res)
    case (Some r)
    then show ?thesis using stop h by (simp add: seek_pagemap_steps(1))
  next
    case None
    obtain b pr2 where a: "advance pr1 = (b, pr2)" by fastforce
    then consider "b = 0" | "b = 1" using advance_cases [of pr1] by auto
    then show ?thesis
    proof cases
      case 1
      then show ?thesis using last h None a by (simp add: seek_pagemap_steps(2))
    next
      case 2
      have "P pr2 (seek_pagemap pr2 v)" using step(1) [of "(res, pr1)" res pr1 "(b, pr2)" b pr2] step(2) h a None 2 by simp
      then show ?thesis using next_pe [of pr pr1 pr2] h None a 2 by (simp add: seek_pagemap_steps(3) [of pr v pr1 pr2])
    qed
  qed
qed simp

lemma seek_pagemap_data [simp]: "data (snd (seek_pagemap pr vaddr)) = data pr"
proof (rule seek_pagemap_induct [where P = "\<lambda>pr x. data (snd x) = data pr"])
  show "data (snd (r, pr1)) = data pr" if "seek_here pr vaddr = (Some r, pr1)" for pr r pr1
    using seek_here_data [of pr vaddr] that by simp
  show "data (snd (0, pr2)) = data pr" if "seek_here pr vaddr = (None, pr1)" "advance pr1 = (0, pr2)" for pr pr1 pr2
    using seek_here_data [of pr vaddr] advance_data [of pr1] that by simp
  show "data (snd (seek_pagemap pr2 vaddr)) = data pr"
    if "seek_here pr vaddr = (None, pr1)" "advance pr1 = (1, pr2)"
      "data (snd (seek_pagemap pr2 vaddr)) = data pr2" for pr pr1 pr2
    using seek_here_data [of pr vaddr] advance_data [of pr1] that by simp
qed

lemma pmes_eq: "data pr = data pr' \<Longrightarrow> pmes pr = pmes pr'"
  by (simp add: data_def)

subsection \<open>Seeking\<close>

lemma at_entry_wf:
  assumes "wf_pmes (pmes pr)" "at_entry pr k"
  shows "wf_pe (pmes pr ! k)"
  using assms by (auto simp: at_entry_def intro: wf_pmes_nth)

text \<open>One turn of the loop at the entry \<open>k\<close>.\<close>

lemma seek_here_at_entry:
  assumes wf: "wf_pmes (pmes pr)" and at: "at_entry pr k" and v: "v < ULONG_MOD"
  obtains (before) "v < cvaddr pr" "seek_here pr v = (Some 0, pr)"
  | (found) pr1 where "cvaddr pr \<le> v" "seek_here pr v = (Some 1, pr1)" "at_entry pr1 k" "cvaddr pr1 = v"
      "pi_off pr \<le> pi_off pr1" "covers (pmes pr ! k) v"
  | (past) pr1 where "pe_end (pmes pr ! k) \<le> v" "seek_here pr v = (None, pr1)" "at_entry pr1 k"
      "cvaddr pr1 = pe_end (pmes pr ! k)" "pi_off pr \<le> pi_off pr1"
proof -
  let ?e = "pmes pr ! k"
  note wfe = at_entry_wf [OF wf at]
  have pe: "pe pr = Some ?e" and c: "pe_vaddr ?e \<le> cvaddr pr" "cvaddr pr \<le> pe_end ?e"
    using at by (auto simp: at_entry_def)
  have lt: "pe_end ?e < ULONG_MOD" using wfe by (simp add: wf_pe_def)
  have skip: "at_entry (skip_pagemap_pages pr (ul_sub w (cvaddr pr))) k \<and>
      cvaddr (skip_pagemap_pages pr (ul_sub w (cvaddr pr))) = w \<and>
      pi_off pr \<le> pi_off (skip_pagemap_pages pr (ul_sub w (cvaddr pr)))"
    if "cvaddr pr \<le> w" "w \<le> pe_end ?e" for w
    using that at c lt by (auto simp: skip_pagemap_pages_def Let_def at_entry_def ul_sub_exact ul_add_exact)
  consider "v < cvaddr pr" | "cvaddr pr \<le> v" "v < pe_end ?e" | "cvaddr pr \<le> v" "pe_end ?e \<le> v" by arith
  then show thesis
  proof cases
    case 1
    then show ?thesis using before pe by (simp add: seek_here_def wf_pe_end [OF wfe])
  next
    case 2
    let ?pr = "skip_pagemap_pages pr (ul_sub v (cvaddr pr))"
    have "seek_here pr v = (Some 1, ?pr)" using 2 c pe by (simp add: seek_here_def wf_pe_end [OF wfe])
    then show ?thesis using found [of ?pr] skip [of v] 2 c by (simp add: covers_def)
  next
    case 3
    let ?pr = "skip_pagemap_pages pr (ul_sub (pe_end ?e) (cvaddr pr))"
    have "seek_here pr v = (None, ?pr)" using 3 c pe by (simp add: seek_here_def wf_pe_end [OF wfe])
    then show ?thesis using past [of ?pr] skip [of "pe_end ?e"] 3 c by simp
  qed
qed

lemma advance_at_entry:
  assumes wf: "wf_pmes (pmes pr)" and at: "at_entry pr k" and c: "cvaddr pr = pe_end (pmes pr ! k)"
  obtains (last) pr1 where "Suc k = length (pmes pr)" "advance pr = (0, pr1)" "at_entry pr1 k" "cvaddr pr1 = cvaddr pr"
      "pi_off pr1 = pi_off pr"
  | (step) pr1 where "Suc k < length (pmes pr)" "advance pr = (1, pr1)" "at_entry pr1 (Suc k)"
      "cvaddr pr1 = pe_vaddr (pmes pr ! Suc k)" "pi_off pr1 = pi_off pr"
proof (cases "curr_pme pr = int k \<and> Suc k < length (pmes pr)")
  case True
  let ?e = "pmes pr ! Suc k"
  let ?pr = "pr\<lparr>curr_pme := int (Suc k), pe := Some ?e, cvaddr := pe_vaddr ?e\<rparr>"
  have off: "pi_off pr = img_off (pmes pr) (Suc k)"
    using at c by (auto simp: at_entry_def img_off_Suc stored_def pe_end_def)
  have "advance pr = (1, ?pr)" using True by (simp add: advance_def Let_def nat_add_distrib add.commute)
  moreover have "wf_pe ?e" using wf True by (simp add: wf_pmes_nth)
  ultimately show ?thesis using step [of ?pr] True at off
    by (simp add: at_entry_def pe_end_def)
next
  case False
  let ?pr = "pr\<lparr>curr_pme := curr_pme pr + 1\<rparr>"
  have "Suc k = length (pmes pr)" "int (length (pmes pr)) \<le> curr_pme pr + 1"
    using False at by (auto simp: at_entry_def)
  then show ?thesis using last [of ?pr] at by (auto simp: advance_def Let_def at_entry_def)
qed

lemma at_start_seek_here: "at_start pr \<Longrightarrow> seek_here pr v = (None, pr)"
  by (simp add: at_start_def seek_here_def)

lemma at_start_advance:
  assumes wf: "wf_pmes (pmes pr)" and at: "at_start pr"
  obtains (empty) pr1 where "pmes pr = []" "advance pr = (0, pr1)" "at_start pr1"
  | (step) pr1 where "advance pr = (1, pr1)" "at_entry pr1 0" "pmes pr \<noteq> []" "cvaddr pr1 = pe_vaddr (pmes pr ! 0)"
proof (cases "pmes pr = []")
  case True
  then show ?thesis using empty [of "pr\<lparr>curr_pme := curr_pme pr + 1\<rparr>"] at
    by (auto simp: at_start_def advance_def Let_def)
next
  case False
  let ?e = "pmes pr ! 0"
  let ?pr = "pr\<lparr>curr_pme := 0, pe := Some ?e, cvaddr := pe_vaddr ?e\<rparr>"
  have "advance pr = (1, ?pr)" using at False by (simp add: at_start_def advance_def Let_def)
  then show ?thesis using step [of ?pr] False at by (auto simp: at_entry_def at_start_def pe_end_def)
qed

lemma not_mapped_between:
  assumes wf: "wf_pmes es" and k: "k < length es" "pe_end (es ! k) \<le> a"
    and n: "Suc k = length es \<or> a < pe_vaddr (es ! Suc k)"
  shows "\<not> mapped es a"
proof
  assume "mapped es a"
  then obtain j where j: "j < length es" "covers (es ! j) a" by (auto simp: mapped_def in_set_conv_nth)
  have "j \<le> k \<Longrightarrow> pe_end (es ! j) \<le> a"
    using wf_pmes_less [OF wf, of j k] k wf_pe_less [OF wf_pmes_nth [OF wf k(1)]] by (cases "j = k") auto
  moreover have "Suc k \<le> j \<Longrightarrow> Suc k < length es \<Longrightarrow> pe_vaddr (es ! Suc k) \<le> pe_vaddr (es ! j)"
    using wf_pmes_less [OF wf, of "Suc k" j] j wf_pe_less [OF wf_pmes_nth [OF wf, of "Suc k"]]
    by (cases "j = Suc k") auto
  ultimately show False using j n by (cases "j \<le> k") (auto simp: covers_def)
qed

definition seek_post :: "nat \<Rightarrow> page_read \<Rightarrow> int \<times> page_read \<Rightarrow> bool" where
  "seek_post v pr x \<longleftrightarrow>
     pos_ok (snd x) \<and> front v (snd x) \<and> pi_off pr \<le> pi_off (snd x) \<and>
     (fst x = 1 \<and> cvaddr (snd x) = v \<and> (\<exists>k. at_entry (snd x) k \<and> covers (pmes pr ! k) v) \<or>
      fst x = 0 \<and> \<not> mapped (pmes pr) v)"

lemma not_mapped_before:
  assumes wf: "wf_pmes es" and a: "es = [] \<or> a < pe_vaddr (es ! 0)"
  shows "\<not> mapped es a"
proof
  assume "mapped es a"
  then obtain j where j: "j < length es" "covers (es ! j) a" by (auto simp: mapped_def in_set_conv_nth)
  then have "pe_vaddr (es ! 0) \<le> pe_vaddr (es ! j)"
    using wf_pmes_less [OF wf, of 0 j] wf_pe_less [OF wf_pmes_nth [OF wf, of 0]] by (cases "j = 0") force+
  then show False using j a by (auto simp: covers_def)
qed

text \<open>The three ways a turn of the loop ends.\<close>

lemma seek_stop_ok:
  assumes ok: "pos_ok pr" "front v pr" "v < ULONG_MOD" and h: "seek_here pr v = (Some r, pr1)"
  shows "seek_post v pr (r, pr1)"
proof -
  have wf: "wf_pmes (pmes pr)" using ok by (simp add: pos_ok_def)
  have "\<not> at_start pr" using h at_start_seek_here [of pr v] by auto
  then obtain k where k: "at_entry pr k" using ok by (auto simp: pos_ok_def)
  have pm: "pmes pr1 = pmes pr" using pmes_eq [OF seek_here_data [of pr v]] h by simp
  from wf k ok(3) show ?thesis
  proof (cases rule: seek_here_at_entry)
    case before
    then show ?thesis using h ok by (auto simp: seek_post_def front_def)
  next
    case (found pr1')
    then show ?thesis using h wf pm by (auto simp: seek_post_def front_def pos_ok_def)
  qed (use h in simp)
qed

lemma seek_turn:
  assumes ok: "pos_ok pr" "front v pr" "v < ULONG_MOD"
    and h: "seek_here pr v = (None, pr1)" and a: "advance pr1 = (r, pr2)"
  shows "pos_ok pr2 \<and> front v pr2 \<and> pi_off pr \<le> pi_off pr2 \<and> pmes pr2 = pmes pr \<and> (r = 0 \<longrightarrow> \<not> mapped (pmes pr) v)"
proof -
  have wf: "wf_pmes (pmes pr)" using ok by (simp add: pos_ok_def)
  have pm: "pmes pr1 = pmes pr" using pmes_eq [OF seek_here_data [of pr v]] h by simp
  have pm2: "pmes pr2 = pmes pr" using pmes_eq [OF advance_data [of pr1]] a pm by simp
  consider "at_start pr" | k where "at_entry pr k" using ok by (auto simp: pos_ok_def)
  then show ?thesis
  proof cases
    case 1
    then have pr1: "pr1 = pr" using h at_start_seek_here by simp
    from wf 1 show ?thesis
      by (cases rule: at_start_advance)
        (use 1 a pr1 pm2 wf not_mapped_before [OF wf] in \<open>auto simp: pos_ok_def front_def at_start_def\<close>)
  next
    case (2 k)
    from wf 2 ok(3) obtain p: "at_entry pr1 k" "cvaddr pr1 = pe_end (pmes pr ! k)" "pi_off pr \<le> pi_off pr1"
        "pe_end (pmes pr ! k) \<le> v"
      by (cases rule: seek_here_at_entry) (use h in auto)
    have kl: "k < length (pmes pr)" using 2 by (simp add: at_entry_def)
    have wf1: "wf_pmes (pmes pr1)" and c1: "cvaddr pr1 = pe_end (pmes pr1 ! k)" using wf p(2) by (simp_all add: pm)
    from wf1 p(1) c1 show ?thesis
    proof (cases rule: advance_at_entry)
      case (last pr2')
      then have "\<not> mapped (pmes pr) w" if "v \<le> w" for w
        using not_mapped_between [OF wf kl, of w] that p(4) by (simp add: pm)
      then show ?thesis using last a pm2 p wf by (auto simp: pos_ok_def front_def)
    next
      case (step pr2')
      then have "\<not> mapped (pmes pr) w" if "v \<le> w" "w < pe_vaddr (pmes pr ! Suc k)" for w
        using not_mapped_between [OF wf kl, of w] that p(4) by (simp add: pm)
      then show ?thesis using step a pm2 p wf by (auto simp: pos_ok_def front_def pm)
    qed
  qed
qed

lemma seek_pagemap_ok:
  assumes "pos_ok pr" "front v pr" and v: "v < ULONG_MOD"
  shows "seek_post v pr (seek_pagemap pr v)"
proof -
  have "pos_ok pr \<longrightarrow> front v pr \<longrightarrow> seek_post v pr (seek_pagemap pr v)"
  proof (rule seek_pagemap_induct [where P = "\<lambda>pr x. pos_ok pr \<longrightarrow> front v pr \<longrightarrow> seek_post v pr x"])
    show "pos_ok pr \<longrightarrow> front v pr \<longrightarrow> seek_post v pr (r, pr1)" if "seek_here pr v = (Some r, pr1)" for pr r pr1
      using seek_stop_ok v that by blast
  next
    show "pos_ok pr \<longrightarrow> front v pr \<longrightarrow> seek_post v pr (0, pr2)"
      if "seek_here pr v = (None, pr1)" "advance pr1 = (0, pr2)" for pr pr1 pr2
      using seek_turn [OF _ _ v that] by (auto simp: seek_post_def)
  next
    fix pr pr1 pr2
    assume h: "seek_here pr v = (None, pr1)" "advance pr1 = (1, pr2)"
      and IH: "pos_ok pr2 \<longrightarrow> front v pr2 \<longrightarrow> seek_post v pr2 (seek_pagemap pr2 v)"
    show "pos_ok pr \<longrightarrow> front v pr \<longrightarrow> seek_post v pr (seek_pagemap pr2 v)"
      using seek_turn [OF _ _ v h] IH by (auto simp: seek_post_def)
  qed
  with assms show ?thesis by blast
qed

subsection \<open>Holes\<close>

text \<open>
  The pages image has kept all of \<open>img\<close> but at most the offsets of \<open>X\<close>, and no more than those
  are waiting to be punched.
\<close>

definition kept :: "byte list \<Rightarrow> nat set \<Rightarrow> page_read \<Rightarrow> bool" where
  "kept img X pr \<longleftrightarrow>
     length (pi_img pr) = length img \<and>
     (\<forall>i<length img. i \<notin> X \<longrightarrow> pi_img pr ! i = img ! i) \<and>
     {iov_base (bunch pr)..<iov_base (bunch pr) + iov_len (bunch pr)} \<subseteq> X \<and>
     iov_base (bunch pr) + iov_len (bunch pr) < ULONG_MOD"

lemma kept_mono: "kept img X pr \<Longrightarrow> X \<subseteq> Y \<Longrightarrow> kept img Y pr"
  by (auto simp: kept_def)

lemma kept_cong: "pi_img pr' = pi_img pr \<Longrightarrow> bunch pr' = bunch pr \<Longrightarrow> kept img X pr' = kept img X pr"
  by (simp add: kept_def)

lemma kept_simps [simp]:
  "kept img X (pr\<lparr>async := q\<rparr>) = kept img X pr" "kept img X (pr\<lparr>pi_off := n\<rparr>) = kept img X pr"
  "kept img X (pr\<lparr>cvaddr := a\<rparr>) = kept img X pr"
  by (simp_all add: kept_def)

lemma length_file_punch [simp]: "length (file_punch f off len) = length f"
  by (simp add: file_punch_def)

lemma nth_file_punch: "i < length f \<Longrightarrow> file_punch f off len ! i = (if off \<le> i \<and> i < off + len then 0 else f ! i)"
  by (simp add: file_punch_def)

text \<open>What punching leaves alone.\<close>

definition plan :: "page_read \<Rightarrow> nat \<times> pagemap_entry list \<times> int \<times> pagemap_entry option \<times> nat \<times> nat \<times>
    page_read_iov list \<times> (ulong \<Rightarrow> nat \<Rightarrow> int) option \<times> page_source" where
  "plan pr = (pr_id pr, pmes pr, curr_pme pr, pe pr, cvaddr pr, pi_off pr, async pr, io_complete pr, maybe_read_page pr)"

lemma plan_simps [simp]:
  "plan (pr\<lparr>bunch := b\<rparr>) = plan pr" "plan (pr\<lparr>pi_img := f\<rparr>) = plan pr" "plan (pr\<lparr>pi_pos := n\<rparr>) = plan pr"
  by (simp_all add: plan_def)

lemma punch_hole_kept:
  assumes k: "kept img X pr" and X: "{off..<off + len} \<subseteq> X" "off + len < ULONG_MOD"
    and r: "punch_hole sys pr off len cl = (r, pr')"
  shows "kept img X pr' \<and> plan pr' = plan pr \<and> (r = 0 \<or> r = -1) \<and> (falloc_ok sys = (\<lambda>_ _ _. True) \<longrightarrow> r = 0)"
proof -
  let ?b = "bunch pr"
  have b: "{iov_base ?b..<iov_base ?b + iov_len ?b} \<subseteq> X" "iov_base ?b + iov_len ?b < ULONG_MOD"
    and keep: "length (pi_img pr) = length img" "\<And>i. i < length img \<Longrightarrow> i \<notin> X \<Longrightarrow> pi_img pr ! i = img ! i"
    using k by (auto simp: kept_def)
  consider (extend) "\<not> cl" "can_extend_bunch ?b off len"
    | (punch) "cl \<or> \<not> can_extend_bunch ?b off len" by blast
  then show ?thesis
  proof cases
    case extend
    have off: "iov_base ?b + iov_len ?b = off" using extend b(2) by (simp add: can_extend_bunch_def ul_add_exact)
    have len: "ul_add (iov_len ?b) len = iov_len ?b + len" using off X(2) by (simp add: ul_add_exact)
    have pr': "pr' = pr\<lparr>bunch := ?b\<lparr>iov_len := iov_len ?b + len\<rparr>\<rparr>" "r = 0"
      using r extend by (simp_all add: punch_hole_def Let_def len)
    have "{iov_base ?b..<iov_base ?b + (iov_len ?b + len)} \<subseteq> X"
    proof
      fix i assume "i \<in> {iov_base ?b..<iov_base ?b + (iov_len ?b + len)}"
      then show "i \<in> X" using b(1) X(1) off by (cases "i < off") auto
    qed
    then show ?thesis using keep off X(2) by (simp add: pr' kept_def)
  next
    case punch
    then have "r = -1 \<and> pr' = pr \<and> \<not> falloc_ok sys (pr_id pr) (iov_base ?b) (iov_len ?b) \<or> r = 0 \<and> pr' =
        (if 0 < iov_len ?b then pr\<lparr>pi_img := file_punch (pi_img pr) (iov_base ?b) (iov_len ?b)\<rparr> else pr)
          \<lparr>bunch := \<lparr>iov_base = off, iov_len = len\<rparr>\<rparr>"
      using r by (auto simp: punch_hole_def Let_def split: if_splits)
    moreover have "file_punch (pi_img pr) (iov_base ?b) (iov_len ?b) ! i = img ! i" if "i < length img" "i \<notin> X" for i
      using that b(1) keep by (auto simp: nth_file_punch)
    ultimately show ?thesis using keep X k by (auto simp: kept_def)
  qed
qed

subsection \<open>Progress of the destination memory\<close>

text \<open>
  \<open>D\<close> is the memory that the requests together ask for. Memory only ever changes towards it.
\<close>

definition toward :: "mem \<Rightarrow> mem \<Rightarrow> mem \<Rightarrow> bool" where
  "toward D m m' \<longleftrightarrow> (\<forall>x. m' x = m x \<or> m' x = D x)"

lemma toward_refl [simp]: "toward D m m"
  by (simp add: toward_def)

lemma toward_trans: "toward D m m1 \<Longrightarrow> toward D m1 m2 \<Longrightarrow> toward D m m2"
  unfolding toward_def by metis

definition iov_set :: "iovec list \<Rightarrow> nat set" where
  "iov_set vs = (\<Union>v\<in>set vs. {iov_base v..<iov_base v + iov_len v})"

lemma iov_set_simps [simp]:
  "iov_set [] = {}" "iov_set (v # vs) = {iov_base v..<iov_base v + iov_len v} \<union> iov_set vs"
  "iov_set (us @ vs) = iov_set us \<union> iov_set vs"
  by (auto simp: iov_set_def)

text \<open>The bytes \<open>bs\<close> are what \<open>D\<close> has in the iovecs.\<close>

fun agree :: "mem \<Rightarrow> iovec list \<Rightarrow> byte list \<Rightarrow> bool" where
  "agree D [] bs \<longleftrightarrow> True"
| "agree D (v # vs) bs \<longleftrightarrow> (\<forall>i<iov_len v. D (iov_base v + i) = bs ! i) \<and> agree D vs (drop (iov_len v) bs)"

lemma agree_append:
  "iov_bytes us \<le> length bs \<Longrightarrow> agree D (us @ vs) bs \<longleftrightarrow> agree D us bs \<and> agree D vs (drop (iov_bytes us) bs)"
  by (induction us arbitrary: bs) (auto simp: add.commute)

lemma agree_cong:
  "agree D vs bs \<Longrightarrow> (\<And>i. i < iov_bytes vs \<Longrightarrow> bs ! i = cs ! i) \<Longrightarrow> iov_bytes vs \<le> length bs \<Longrightarrow>
   iov_bytes vs \<le> length cs \<Longrightarrow> agree D vs cs"
proof (induction vs arbitrary: bs cs)
  case (Cons v vs)
  then show ?case using Cons.IH [of "drop (iov_len v) bs" "drop (iov_len v) cs"] by simp
qed simp

lemma iov_bytes_advance: "n \<le> iov_bytes vs \<Longrightarrow> iov_bytes (advance_iovs vs n) = iov_bytes vs - n"
  by (induction vs n rule: advance_iovs.induct) auto

lemma advance_iovs_pos: "\<forall>v\<in>set vs. 0 < iov_len v \<Longrightarrow> \<forall>v\<in>set (advance_iovs vs n). 0 < iov_len v"
  by (induction vs n rule: advance_iovs.induct) auto

lemma advance_iovs_set: "iov_set (advance_iovs vs n) \<subseteq> iov_set vs"
  by (induction vs n rule: advance_iovs.induct) (auto simp: iov_set_def)

lemma agree_advance: "agree D vs bs \<Longrightarrow> n \<le> iov_bytes vs \<Longrightarrow> iov_bytes vs \<le> length bs \<Longrightarrow>
    agree D (advance_iovs vs n) (drop n bs)"
proof (induction vs n arbitrary: bs rule: advance_iovs.induct)
  case (2 v vs n)
  consider "n = 0" | "n \<noteq> 0" "iov_len v \<le> n" | "n \<noteq> 0" "n < iov_len v" by linarith
  then show ?case
  proof cases
    case 2
    then show ?thesis using "2.IH" [of "drop (iov_len v) bs"] "2.prems" by simp
  next
    case 3
    then have "D (iov_base v + n + i) = bs ! (n + i)" if "i < iov_len v - n" for i
      using "2.prems"(1) that by (simp add: add.assoc)
    then show ?thesis using 3 "2.prems" by simp
  qed (use "2.prems" in simp)
qed simp

lemma mem_write_toward:
  assumes "\<And>i. i < length bs \<Longrightarrow> bs ! i = D (a + i)"
  shows "toward D m (mem_write m a bs)" "a \<le> x \<Longrightarrow> x < a + length bs \<Longrightarrow> mem_write m a bs x = D x"
  using assms [of "x - a" for x] by (auto simp: toward_def mem_write_def)

lemma toward_D: "toward D m m' \<Longrightarrow> m x = D x \<Longrightarrow> m' x = D x"
  unfolding toward_def by metis

lemma scatter_ok:
  assumes "agree D vs bs" "n \<le> length bs" "n \<le> iov_bytes vs"
  shows "toward D m (scatter vs (take n bs) m)"
    "r \<le> n \<Longrightarrow> x \<in> iov_set vs \<Longrightarrow> scatter vs (take n bs) m x = D x \<or> x \<in> iov_set (advance_iovs vs r)"
proof -
  have "toward D m (scatter vs (take n bs) m) \<and>
      (r \<le> n \<longrightarrow> x \<in> iov_set vs \<longrightarrow> scatter vs (take n bs) m x = D x \<or> x \<in> iov_set (advance_iovs vs r))"
    using assms
  proof (induction vs arbitrary: bs n m r)
    case (Cons v vs)
    let ?m = "mem_write m (iov_base v) (take (iov_len v) (take n bs))"
    let ?n = "n - iov_len v"
    have w: "take (iov_len v) (take n bs) ! i = D (iov_base v + i)" if "i < length (take (iov_len v) (take n bs))" for i
      using that Cons.prems by simp
    note IH = Cons.IH [of "drop (iov_len v) bs" ?n ?m]
    have dt: "drop (iov_len v) (take n bs) = take ?n (drop (iov_len v) bs)" by (simp add: drop_take)
    have t2: "toward D ?m (scatter vs (take ?n (drop (iov_len v) bs)) ?m)" using IH Cons.prems by auto
    have t: "toward D m (scatter (v # vs) (take n bs) m)"
      using toward_trans [OF mem_write_toward(1) [OF w] t2] by (simp add: dt)
    have "scatter (v # vs) (take n bs) m x = D x \<or> x \<in> iov_set (advance_iovs (v # vs) r)"
      if r: "r \<le> n" and x: "x \<in> iov_set (v # vs)"
    proof -
      have v: "scatter (v # vs) (take n bs) m x = D x" if "iov_base v \<le> x" "x < iov_base v + min (iov_len v) n"
        using toward_D [OF t2 mem_write_toward(2) [OF w]] that Cons.prems(2) by (simp add: dt)
      consider "r = 0" | "r \<noteq> 0" "iov_len v \<le> r" | "r \<noteq> 0" "r < iov_len v" by linarith
      then show ?thesis
      proof cases
        case 2
        then show ?thesis using IH [of "r - iov_len v"] v x r Cons.prems by (auto simp: dt)
      next
        case 3
        then show ?thesis using v x r by (cases "x < iov_base v + r") auto
      qed (use x in simp)
    qed
    with t show ?case by blast
  qed simp
  then show "toward D m (scatter vs (take n bs) m)"
    "r \<le> n \<Longrightarrow> x \<in> iov_set vs \<Longrightarrow> scatter vs (take n bs) m x = D x \<or> x \<in> iov_set (advance_iovs vs r)" by auto
qed

subsection \<open>Queued reads\<close>

definition job_ok :: "byte list \<Rightarrow> mem \<Rightarrow> page_read_iov \<Rightarrow> bool" where
  "job_ok img D p \<longleftrightarrow> piov_to p \<noteq> [] \<and> (\<forall>v\<in>set (piov_to p). 0 < iov_len v) \<and>
     piov_end p = piov_from p + iov_bytes (piov_to p) \<and> piov_end p \<le> length img \<and>
     agree D (piov_to p) (drop (piov_from p) img)"

text \<open>
  What is relied on of \<open>pread\<close>: inside the file it neither fails nor returns nothing. Under
  the fault injection, which halves the result, one byte would not do.
\<close>

definition pread_ok :: "pr_sys \<Rightarrow> bool" where
  "pread_ok sys \<longleftrightarrow> (\<forall>i off n. 0 < n \<longrightarrow> (if fi_partial_pages sys then 2 else 1) \<le> pread_len sys i off n)"

lemma job_ok_bytes_pos: "job_ok img D p \<Longrightarrow> 0 < iov_bytes (piov_to p)"
  by (cases "piov_to p") (auto simp: job_ok_def)

lemma job_ok_iov2: "job_ok img D p \<Longrightarrow> 2 \<le> length (piov_to p) \<Longrightarrow> 2 \<le> iov_bytes (piov_to p)"
proof -
  assume j: "job_ok img D p" and l: "2 \<le> length (piov_to p)"
  then obtain u v ws where "piov_to p = u # v # ws" by (cases "piov_to p"; cases "tl (piov_to p)") auto
  then show ?thesis using j by (force simp: job_ok_def)
qed

lemma job_ok_advance:
  assumes "job_ok img D p" "n < iov_bytes (piov_to p)"
  shows "job_ok img D (advance_piov p n)"
proof -
  have "iov_bytes (advance_iovs (piov_to p) n) = iov_bytes (piov_to p) - n" using assms by (simp add: iov_bytes_advance)
  moreover then have "advance_iovs (piov_to p) n \<noteq> []" using assms(2) by auto
  moreover have "\<forall>v\<in>set (advance_iovs (piov_to p) n). 0 < iov_len v"
    using assms(1) by (intro advance_iovs_pos) (simp add: job_ok_def)
  moreover have "agree D (advance_iovs (piov_to p) n) (drop n (drop (piov_from p) img))"
    using assms by (intro agree_advance) (auto simp: job_ok_def)
  ultimately show ?thesis using assms by (simp add: job_ok_def advance_piov_def add.commute)
qed

lemma read_piov_step:
  assumes j: "job_ok (pi_img pr) D p" and sys: "pread_ok sys"
  obtains ret m1 where "0 < ret" "ret \<le> iov_bytes (piov_to p)" "toward D m m1"
    "\<forall>x\<in>iov_set (piov_to p). m1 x = D x \<or> x \<in> iov_set (advance_iovs (piov_to p) ret)"
    "read_piov sys pr p m = (if ret = iov_bytes (piov_to p) then Some (int ret, p, m1)
       else read_piov sys pr (advance_piov p ret) m1)"
proof -
  let ?to = "piov_to p" and ?from = "piov_from p"
  let ?n = "iov_bytes ?to"
  have n: "0 < ?n" by (rule job_ok_bytes_pos [OF j])
  let ?k = "min (nat (pread_len sys (pr_id pr) ?from ?n)) ?n"
  define bs where "bs = take ?k (drop ?from (pi_img pr))"
  have len: "?n \<le> length (drop ?from (pi_img pr))" using j by (auto simp: job_ok_def)
  have plen: "(if fi_partial_pages sys then 2 else 1) \<le> pread_len sys (pr_id pr) ?from ?n"
    using sys n by (simp add: pread_ok_def)
  have rd: "sys_pread sys pr ?from ?n = Some bs"
    using plen by (simp add: sys_pread_def Let_def bs_def split: if_splits)
  have lbs: "length bs = ?k" using len by (simp add: bs_def)
  have k: "0 < ?k" "?k \<le> ?n" using plen n by (auto split: if_splits)
  define ret where "ret = (if fi_partial_pages sys \<and> bs \<noteq> [] \<and> 2 \<le> length ?to then length bs div 2 else length bs)"
  have "2 \<le> ?k" if "fi_partial_pages sys" "2 \<le> length ?to" using that plen job_ok_iov2 [OF j] by simp
  then have r: "0 < ret" "ret \<le> ?k" unfolding ret_def lbs using k by auto
  have ag: "agree D ?to (drop ?from (pi_img pr))" and e: "int (piov_end p) - int ?from = int ?n"
    using j by (simp_all add: job_ok_def)
  note sc = scatter_ok [OF ag _ k(2), where m = m]
  show thesis
  proof (rule that)
    show "read_piov sys pr p m = (if ret = ?n then Some (int ret, p, scatter ?to bs m)
       else read_piov sys pr (advance_piov p ret) (scatter ?to bs m))"
      by (simp only: read_piov.simps [of sys pr p m] rd option.case Let_def e of_nat_eq_iff ret_def)
    show "\<forall>x\<in>iov_set ?to. scatter ?to bs m x = D x \<or> x \<in> iov_set (advance_iovs ?to ret)"
      using sc r(2) k(2) len by (auto simp: bs_def)
    show "toward D m (scatter ?to bs m)" using sc(1) k(2) len by (simp add: bs_def)
  qed (use r k(2) in auto)
qed

lemma read_piov_ok:
  assumes "job_ok (pi_img pr) D p" "pread_ok sys"
  shows "\<exists>ret p' m'. read_piov sys pr p m = Some (ret, p', m') \<and> 0 \<le> ret \<and> ret \<le> int (iov_bytes (piov_to p)) \<and>
    toward D m m' \<and> (\<forall>x\<in>iov_set (piov_to p). m' x = D x)"
  using assms(1)
proof (induction "iov_bytes (piov_to p)" arbitrary: p m rule: less_induct)
  case less
  let ?to = "piov_to p"
  note j = less.prems
  from j assms(2) obtain ret m1 where s: "0 < ret" "ret \<le> iov_bytes ?to" "toward D m m1"
    "\<forall>x\<in>iov_set ?to. m1 x = D x \<or> x \<in> iov_set (advance_iovs ?to ret)"
    "read_piov sys pr p m = (if ret = iov_bytes ?to then Some (int ret, p, m1)
       else read_piov sys pr (advance_piov p ret) m1)"
    by (rule read_piov_step [where m = m])
  show ?case
  proof (cases "ret = iov_bytes ?to")
    case True
    have "iov_bytes (advance_iovs ?to ret) = 0" by (simp add: iov_bytes_advance True)
    then have "iov_set (advance_iovs ?to ret) = {}"
      using advance_iovs_pos [of ?to ret] j by (cases "advance_iovs ?to ret") (auto simp: job_ok_def)
    then show ?thesis using s True by auto
  next
    case False
    then have lt: "ret < iov_bytes ?to" using s(2) by simp
    have b: "iov_bytes (piov_to (advance_piov p ret)) = iov_bytes ?to - ret"
      using lt by (simp add: advance_piov_def iov_bytes_advance)
    have "iov_bytes (piov_to (advance_piov p ret)) < iov_bytes ?to" using b s(1) lt by linarith
    from less.hyps [OF this job_ok_advance [OF j lt], of m1]
    obtain ret2 p' m' where *: "read_piov sys pr (advance_piov p ret) m1 = Some (ret2, p', m')" "0 \<le> ret2"
      "ret2 \<le> int (iov_bytes ?to - ret)" "toward D m1 m'" "\<forall>x\<in>iov_set (advance_iovs ?to ret). m' x = D x"
      unfolding b by (auto simp: advance_piov_def)
    have "m' x = D x" if "x \<in> iov_set ?to" for x
      using bspec [OF s(4) that] *(5) toward_D [OF *(4)] by blast
    moreover have "toward D m m'" using toward_trans [OF s(3) *(4)] .
    ultimately show ?thesis using * s(5) False by auto
  qed
qed

text \<open>The jobs of a queue follow each other in the file.\<close>

fun queue_ok :: "byte list \<Rightarrow> mem \<Rightarrow> nat \<Rightarrow> page_read_iov list \<Rightarrow> nat \<Rightarrow> bool" where
  "queue_ok img D lo [] hi \<longleftrightarrow> lo \<le> hi"
| "queue_ok img D lo (p # ps) hi \<longleftrightarrow> lo \<le> piov_from p \<and> job_ok img D p \<and> queue_ok img D (piov_end p) ps hi"

definition pending :: "page_read_iov list \<Rightarrow> nat set" where
  "pending ps = (\<Union>p\<in>set ps. iov_set (piov_to p))"

lemma pending_simps [simp]:
  "pending [] = {}" "pending (p # ps) = iov_set (piov_to p) \<union> pending ps" "pending (ps @ qs) = pending ps \<union> pending qs"
  by (auto simp: pending_def)

lemma queue_ok_snoc:
  "queue_ok img D lo (ps @ [p]) hi \<longleftrightarrow> queue_ok img D lo ps (piov_from p) \<and> job_ok img D p \<and> piov_end p \<le> hi"
  by (induction ps arbitrary: lo) auto

lemma queue_ok_le: "queue_ok img D lo ps hi \<Longrightarrow> lo \<le> hi"
  by (induction ps arbitrary: lo) (force simp: job_ok_def)+

lemma queue_ok_hi: "queue_ok img D lo ps hi \<Longrightarrow> hi \<le> h \<Longrightarrow> queue_ok img D lo ps h"
  by (induction ps arbitrary: lo) auto

lemma job_ok_kept:
  assumes "job_ok img D p" "kept img {..<lo} pr" "lo \<le> piov_from p"
  shows "job_ok (pi_img pr) D p"
proof -
  have l: "length (pi_img pr) = length img" and k: "\<And>i. i < length img \<Longrightarrow> lo \<le> i \<Longrightarrow> pi_img pr ! i = img ! i"
    using assms(2) by (auto simp: kept_def)
  have "agree D (piov_to p) (drop (piov_from p) (pi_img pr))"
    by (rule agree_cong [of _ _ "drop (piov_from p) img"]) (use assms l k in \<open>auto simp: job_ok_def\<close>)
  then show ?thesis using assms(1) l by (simp add: job_ok_def)
qed

definition punch_all :: "pr_sys \<Rightarrow> bool" where
  "punch_all sys \<longleftrightarrow> falloc_ok sys = (\<lambda>_ _ _. True)"

text \<open>The environment of a run without errors.\<close>

definition sys_ok :: "pr_sys \<Rightarrow> bool" where
  "sys_ok sys \<longleftrightarrow> pread_ok sys \<and> punch_all sys \<and> xalloc_ok sys"

lemma process_jobs_ok:
  assumes "queue_ok img D lo ps hi" "kept img {..<lo} pr" "io_complete pr = None" "length img < ULONG_MOD"
    and sys: "sys_ok sys"
  shows "\<exists>pr' m'. process_jobs sys pr ps m = Done (0, pr', m') \<and> kept img {..<hi} pr' \<and>
    plan pr' = plan (pr\<lparr>async := []\<rparr>) \<and> toward D m m' \<and> (\<forall>x\<in>pending ps. m' x = D x)"
  using assms(1-4)
proof (induction ps arbitrary: lo pr m)
  case Nil
  then show ?case by (auto intro: kept_mono)
next
  case (Cons p ps)
  let ?n = "iov_bytes (piov_to p)"
  have q: "lo \<le> piov_from p" "job_ok img D p" "queue_ok img D (piov_end p) ps hi" using Cons.prems by auto
  have e: "piov_end p = piov_from p + ?n" "piov_end p \<le> length img" using q(2) by (simp_all add: job_ok_def)
  have s: "pread_ok sys" "falloc_ok sys = (\<lambda>_ _ _. True)" using sys by (simp_all add: sys_ok_def punch_all_def)
  obtain ret p' m1 where r: "read_piov sys pr p m = Some (ret, p', m1)" "0 \<le> ret" "ret \<le> int ?n" "toward D m m1"
    "\<forall>x\<in>iov_set (piov_to p). m1 x = D x"
    using read_piov_ok [OF job_ok_kept [OF q(2) Cons.prems(2) q(1)] s(1), of m] by blast
  obtain r2 pr1 where ph: "(if auto_dedup sys then punch_hole sys pr (piov_from p) (nat ret) False else (0, pr)) = (r2, pr1)"
    by fastforce
  have k: "kept img {..<piov_end p} pr" using Cons.prems(2) q(1) e by (auto intro: kept_mono)
  have 1: "kept img {..<piov_end p} pr1 \<and> plan pr1 = plan pr \<and> r2 = 0"
  proof (cases "auto_dedup sys")
    case True
    have "{piov_from p..<piov_from p + nat ret} \<subseteq> {..<piov_end p}" "piov_from p + nat ret < ULONG_MOD"
      using r(2,3) e Cons.prems(4) by auto
    then show ?thesis using punch_hole_kept [OF k, of "piov_from p" "nat ret" sys False r2 pr1] ph s(2) True by auto
  qed (use ph k in auto)
  then have io: "io_complete pr1 = None" using Cons.prems(3) by (simp add: plan_def)
  from Cons.IH [OF q(3) conjunct1 [OF 1] io Cons.prems(4), of m1] obtain pr' m' where
    2: "process_jobs sys pr1 ps m1 = Done (0, pr', m')" "kept img {..<hi} pr'" "plan pr' = plan (pr1\<lparr>async := []\<rparr>)"
      "toward D m1 m'" "\<forall>x\<in>pending ps. m' x = D x" by blast
  have "process_jobs sys pr (p # ps) m = Done (0, pr', m')" using r(1,2) ph 1 io 2(1) by simp
  moreover have "toward D m m'" using toward_trans r(4) 2(4) by blast
  moreover have "\<forall>x\<in>pending (p # ps). m' x = D x" using toward_D [OF 2(4)] r(5) 2(5) by auto
  moreover have "plan pr' = plan (pr\<lparr>async := []\<rparr>)" using 2(3) 1 by (simp add: plan_def)
  ultimately show ?case using 2(2) by blast
qed

subsection \<open>Chains of readers\<close>

definition data_ok :: "byte list \<Rightarrow> mem \<Rightarrow> page_read \<Rightarrow> bool" where
  "data_ok img D pr \<longleftrightarrow>
     (\<exists>lo. queue_ok img D lo (async pr) (pi_off pr) \<and> kept img {..<lo} pr) \<and>
     io_complete pr = None \<and> maybe_read_page pr = Local_image \<and> length img < ULONG_MOD"

definition level_ok :: "mem \<Rightarrow> nat \<Rightarrow> pagemap_entry list \<times> byte list \<Rightarrow> page_read \<Rightarrow> bool" where
  "level_ok D v l pr \<longleftrightarrow>
     pmes pr = fst l \<and> pos_ok pr \<and> front v pr \<and> data_ok (snd l) D pr \<and> img_off (fst l) (length (fst l)) \<le> length (snd l)"

definition chain_ok :: "mem \<Rightarrow> nat \<Rightarrow> (pagemap_entry list \<times> byte list) list \<Rightarrow> page_read list \<Rightarrow> bool" where
  "chain_ok D v ls prs \<longleftrightarrow> list_all2 (level_ok D v) ls prs"

definition pendings :: "page_read list \<Rightarrow> nat set" where
  "pendings prs = (\<Union>pr\<in>set prs. pending (async pr))"

lemma pendings_simps [simp]:
  "pendings [] = {}" "pendings (pr # prs) = pending (async pr) \<union> pendings prs"
  by (auto simp: pendings_def)

text \<open>
  A step of the chain has moved memory towards \<open>D\<close>, dropped no promise, and taken on or kept the
  promise for the addresses of \<open>B\<close>.
\<close>

definition serves :: "mem \<Rightarrow> page_read list \<Rightarrow> mem \<Rightarrow> page_read list \<Rightarrow> mem \<Rightarrow> nat set \<Rightarrow> bool" where
  "serves D prs m prs' m' B \<longleftrightarrow>
     toward D m m' \<and> (\<forall>x. x \<in> pendings prs \<union> B \<longrightarrow> m' x = D x \<or> x \<in> pendings prs')"

lemma serves_trans:
  assumes "serves D prs m prs1 m1 A" "serves D prs1 m1 prs2 m2 B"
  shows "serves D prs m prs2 m2 (A \<union> B)"
  using assms toward_trans [of D m m1 m2] toward_D [of D m1 m2] unfolding serves_def by blast

lemma serves_Cons: "serves D prs m prs' m' B \<Longrightarrow> serves D (pr # prs) m (pr # prs') m' B"
  by (auto simp: serves_def)

lemma serves_same: "pendings prs = pendings prs' \<Longrightarrow> serves D prs m prs' m {}"
  by (simp add: serves_def)

lemma pos_ok_cong:
  assumes "pmes pr' = pmes pr" "curr_pme pr' = curr_pme pr" "pe pr' = pe pr" "cvaddr pr' = cvaddr pr" "pi_off pr' = pi_off pr"
  shows "pos_ok pr' = pos_ok pr" "front v pr' = front v pr" "at_entry pr' k = at_entry pr k"
  using assms by (simp_all add: pos_ok_def front_def at_entry_def at_start_def)

lemma level_ok_flushed:
  assumes "level_ok D v l pr" "plan pr' = plan (pr\<lparr>async := []\<rparr>)" "kept (snd l) {..<pi_off pr} pr'"
  shows "level_ok D v l pr'"
proof -
  have p: "pmes pr' = pmes pr" "curr_pme pr' = curr_pme pr" "pe pr' = pe pr" "cvaddr pr' = cvaddr pr" "pi_off pr' = pi_off pr"
    and q: "async pr' = []" "io_complete pr' = io_complete pr" "maybe_read_page pr' = maybe_read_page pr"
    using assms(2) by (simp_all add: plan_def)
  have "data_ok (snd l) D pr'" using assms(1,3) p(5) q by (auto simp: level_ok_def data_ok_def)
  then show ?thesis using assms(1) p pos_ok_cong(1,2) [OF p] by (simp add: level_ok_def)
qed

lemma process_async_reads_ok:
  assumes "chain_ok D v ls prs" and sys: "sys_ok sys"
  shows "\<exists>prs' m'. process_async_reads sys prs m = Done (0, prs', m') \<and> chain_ok D v ls prs' \<and> pendings prs' = {} \<and>
    serves D prs m prs' m' {} \<and> list_all2 (\<lambda>pr pr'. plan pr' = plan (pr\<lparr>async := []\<rparr>)) prs prs'"
  using assms(1)
proof (induction prs arbitrary: ls m)
  case Nil
  then show ?case by (auto simp: chain_ok_def serves_def)
next
  case (Cons pr prs)
  then obtain l ls' where ls: "ls = l # ls'" "level_ok D v l pr" "chain_ok D v ls' prs"
    by (auto simp: chain_ok_def list_all2_Cons2)
  from ls(2) obtain lo where lo: "queue_ok (snd l) D lo (async pr) (pi_off pr)" "kept (snd l) {..<lo} pr"
    and d: "io_complete pr = None" "length (snd l) < ULONG_MOD" by (auto simp: level_ok_def data_ok_def)
  from process_jobs_ok [OF lo d sys, of m] obtain pr' m1 where
    1: "process_jobs sys pr (async pr) m = Done (0, pr', m1)" "kept (snd l) {..<pi_off pr} pr'"
      "plan pr' = plan (pr\<lparr>async := []\<rparr>)" "toward D m m1" "\<forall>x\<in>pending (async pr). m1 x = D x" by blast
  from Cons.IH [OF ls(3), of m1] obtain prs' m' where
    2: "process_async_reads sys prs m1 = Done (0, prs', m')" "chain_ok D v ls' prs'" "pendings prs' = {}"
      "serves D prs m1 prs' m' {}" "list_all2 (\<lambda>pr pr'. plan pr' = plan (pr\<lparr>async := []\<rparr>)) prs prs'" by blast
  have "serves D (pr # prs) m (pr' # prs') m' {}"
    using 1(4,5) 2(3,4) toward_trans [of D m m1 m'] toward_D [of D m1 m'] by (auto simp: serves_def)
  moreover have "chain_ok D v ls (pr' # prs')"
    using 2(2) level_ok_flushed [OF ls(2) 1(3,2)] by (simp add: chain_ok_def ls(1))
  moreover have "pendings (pr' # prs') = {}" using 2(3) 1(3) by (simp add: plan_def)
  ultimately show ?case using 1(1,3) 2(1,5) by auto
qed

text \<open>Reading \<open>len\<close> bytes at the place of the reader, now or later.\<close>

definition promised :: "byte list \<Rightarrow> mem \<Rightarrow> nat \<Rightarrow> nat \<Rightarrow> nat \<Rightarrow> bool" where
  "promised img D off len buf \<longleftrightarrow> off + len \<le> length img \<and> (\<forall>i<len. D (buf + i) = img ! (off + i))"

lemma pread_loop_ok:
  assumes sys: "pread_ok sys" and pr: "promised (pi_img pr) D (pi_off pr) len buf" and "cur < len"
  shows "\<exists>m'. pread_loop sys pr len buf cur m = (0, m') \<and> toward D m m' \<and> (\<forall>x\<in>{buf + cur..<buf + len}. m' x = D x)"
  using assms(2,3)
proof (induction sys\<equiv>sys pr len buf cur m rule: pread_loop.induct)
  case (1 pr len buf cur m)
  let ?k = "min (nat (pread_len sys (pr_id pr) (pi_off pr + cur) (len - cur))) (len - cur)"
  define bs where "bs = take ?k (drop (pi_off pr + cur) (pi_img pr))"
  have "(if fi_partial_pages sys then 2 else 1) \<le> pread_len sys (pr_id pr) (pi_off pr + cur) (len - cur)"
    using sys 1(3) by (simp add: pread_ok_def)
  then have rd: "sys_pread sys pr (pi_off pr + cur) (len - cur) = Some bs" and k: "0 < ?k"
    using 1(3) by (auto simp: sys_pread_def bs_def Let_def split: if_splits)
  have len: "length bs = ?k" using 1(2) by (auto simp: bs_def promised_def)
  have w: "bs ! i = D (buf + cur + i)" if "i < length bs" for i
    using 1(2) that by (auto simp: bs_def promised_def add.assoc)
  let ?m = "mem_write m (buf + cur) bs"
  note t = mem_write_toward [OF w, where m = m]
  show ?case
  proof (cases "cur + length bs = len")
    case True
    then have "pread_loop sys pr len buf cur m = (0, ?m)"
      using rd k len by (simp add: pread_loop.simps [of sys pr len buf cur m] Let_def) auto
    then show ?thesis using t True by auto
  next
    case False
    then have lt: "cur + length bs < len" using len 1(3) by linarith
    have ne: "bs \<noteq> []" using k len by auto
    have "pread_loop sys pr len buf cur m = pread_loop sys pr len buf (cur + length bs) ?m"
      using rd ne False by (simp add: pread_loop.simps [of sys pr len buf cur m] Let_def)
    moreover from 1(1) [OF rd ne refl refl False 1(2) lt] obtain m' where
      2: "pread_loop sys pr len buf (cur + length bs) ?m = (0, m')" "toward D ?m m'"
        "\<forall>x\<in>{buf + (cur + length bs)..<buf + len}. m' x = D x" by blast
    moreover have "toward D m m'" using toward_trans t(1) 2(2) by blast
    moreover have "m' x = D x" if "x \<in> {buf + cur..<buf + len}" for x
      using that 2(3) toward_D [OF 2(2) t(2), of x] by (cases "x < buf + cur + length bs") auto
    ultimately show ?thesis by auto
  qed
qed

lemma queue_ok_new_job:
  assumes "queue_ok img D lo q off" "promised img D off len buf" "0 < len"
  shows "queue_ok img D lo (q @ [\<lparr>piov_from = off, piov_end = off + len, piov_to = [\<lparr>iov_base = buf, iov_len = len\<rparr>]\<rparr>])
    (off + len)"
  using assms by (auto simp: queue_ok_snoc job_ok_def promised_def)

text \<open>A job that ends where the new read starts takes it in, in its last iovec or in one more.\<close>

lemma job_ok_snocD:
  assumes "job_ok img D c" "piov_to c = us @ [v]"
  shows "agree D us (drop (piov_from c) img)"
    "i < iov_len v \<Longrightarrow> D (iov_base v + i) = img ! (piov_from c + iov_bytes us + i)"
    "piov_end c = piov_from c + iov_bytes us + iov_len v" "\<forall>v\<in>set us. 0 < iov_len v" "0 < iov_len v"
  using assms by (auto simp: job_ok_def agree_append ac_simps)

lemma job_ok_extend:
  assumes j: "job_ok img D c" and us: "piov_to c = us @ [v]" and p: "promised img D (piov_end c) len buf"
    and buf: "iov_base v + iov_len v = buf"
  shows "job_ok img D (c\<lparr>piov_to := us @ [v\<lparr>iov_len := iov_len v + len\<rparr>], piov_end := piov_end c + len\<rparr>)"
proof -
  note d = job_ok_snocD [OF j us]
  have "D (iov_base v + i) = img ! (piov_from c + iov_bytes us + i)" if "i < iov_len v + len" for i
  proof (cases "i < iov_len v")
    case False
    then have "i - iov_len v < len" using that by simp
    then have "D (buf + (i - iov_len v)) = img ! (piov_end c + (i - iov_len v))"
      using p unfolding promised_def by blast
    moreover have "buf + (i - iov_len v) = iov_base v + i"
      "piov_end c + (i - iov_len v) = piov_from c + iov_bytes us + i" using False d(3) buf by auto
    ultimately show ?thesis by simp
  qed (rule d(2))
  moreover have "piov_from c + iov_bytes us \<le> length img" using d(3) p by (auto simp: promised_def)
  ultimately have "agree D (us @ [v\<lparr>iov_len := iov_len v + len\<rparr>]) (drop (piov_from c) img)"
    using d(1) by (simp add: agree_append ac_simps)
  then show ?thesis using d p by (simp add: job_ok_def promised_def add.assoc)
qed

lemma job_ok_more:
  assumes j: "job_ok img D c" and p: "promised img D (piov_end c) len buf" and len: "0 < len"
  shows "job_ok img D (c\<lparr>piov_to := piov_to c @ [\<lparr>iov_base = buf, iov_len = len\<rparr>], piov_end := piov_end c + len\<rparr>)"
  using assms by (auto simp: job_ok_def agree_append promised_def ac_simps)

lemma pagemap_enqueue_iovec_ok:
  assumes q: "queue_ok img D lo q (pi_off pr)" and p: "promised img D (pi_off pr) len buf" and len: "0 < len"
    and sys: "xalloc_ok sys"
  shows "\<exists>q'. pagemap_enqueue_iovec sys pr buf len q = (0, q') \<and> queue_ok img D lo q' (pi_off pr + len) \<and>
    pending q' = pending q \<union> {buf..<buf + len}"
proof -
  let ?off = "pi_off pr"
  have new: ?thesis if "pagemap_enqueue_iovec sys pr buf len q = enqueue_async_iov sys pr buf len q"
    using that queue_ok_new_job [OF q p len] sys by (simp add: enqueue_async_iov_def)
  show ?thesis
  proof (cases "q = [] \<or> ?off \<noteq> piov_end (last q)")
    case True
    then show ?thesis using new by (simp add: pagemap_enqueue_iovec_def)
  next
    case False
    then obtain ps c where ps: "q = ps @ [c]" "piov_end c = ?off" by (cases q rule: rev_cases) auto
    have c: "queue_ok img D lo ps (piov_from c)" "job_ok img D c" using q by (auto simp: ps queue_ok_snoc)
    then have "piov_to c \<noteq> []" by (simp add: job_ok_def)
    then obtain us v where us: "piov_to c = us @ [v]" by (cases "piov_to c" rule: rev_cases) auto
    have p': "promised img D (piov_end c) len buf" using p ps(2) by simp
    consider (extend) "iov_base v + iov_len v = buf" | (full) "iov_base v + iov_len v \<noteq> buf" "IOV_MAX \<le> length us + 2"
      | (more) "iov_base v + iov_len v \<noteq> buf" "\<not> IOV_MAX \<le> length us + 2" by blast
    then show ?thesis
    proof cases
      case extend
      have "{iov_base v..<iov_base v + (iov_len v + len)} = {iov_base v..<iov_base v + iov_len v} \<union> {buf..<buf + len}"
        using extend by auto
      then show ?thesis using job_ok_extend [OF c(2) us p' extend] c ps us extend
        by (auto simp: pagemap_enqueue_iovec_def Let_def queue_ok_snoc)
    next
      case full
      then show ?thesis using new ps us by (simp add: pagemap_enqueue_iovec_def Let_def)
    next
      case more
      then show ?thesis using job_ok_more [OF c(2) p' len] c ps us sys
        by (auto simp: pagemap_enqueue_iovec_def Let_def queue_ok_snoc)
    qed
  qed
qed

lemma data_ok_cvaddr [simp]: "data_ok img D (pr\<lparr>cvaddr := a\<rparr>) = data_ok img D pr"
  by (simp add: data_ok_def)

lemma promised_kept:
  assumes "promised img D off len buf" "kept img {..<lo} pr" "lo \<le> off"
  shows "promised (pi_img pr) D off len buf"
  using assms by (auto simp: promised_def kept_def)

lemma read_local_page_ok:
  assumes ch: "chain_ok D v (l # ls) (pr # prs)" and sys: "sys_ok sys"
    and p: "promised (snd l) D (pi_off pr) len buf" and len: "0 < len"
  shows "\<exists>pr' prs' m'. read_local_page sys (pr # prs) vaddr len buf m = Done (0, pr' # prs', m') \<and> chain_ok D v ls prs' \<and>
    kept (snd l) {..<pi_off pr + len} pr' \<and> plan pr' = plan (pr\<lparr>async := []\<rparr>) \<and>
    serves D (pr # prs) m (pr' # prs') m' {buf..<buf + len}"
proof -
  from process_async_reads_ok [OF ch sys, of m] obtain pr1 prs1 m1 where
    1: "process_async_reads sys (pr # prs) m = Done (0, pr1 # prs1, m1)" "chain_ok D v (l # ls) (pr1 # prs1)"
      "pendings (pr1 # prs1) = {}" "serves D (pr # prs) m (pr1 # prs1) m1 {}" "plan pr1 = plan (pr\<lparr>async := []\<rparr>)"
    by (auto simp: list_all2_Cons1)
  have off: "pi_off pr1 = pi_off pr" using 1(5) by (simp add: plan_def)
  have lev: "level_ok D v l pr1" "chain_ok D v ls prs1" using 1(2) by (auto simp: chain_ok_def)
  then obtain lo where lo: "kept (snd l) {..<lo} pr1" "lo \<le> pi_off pr" and lim: "length (snd l) < ULONG_MOD"
    using queue_ok_le off by (auto simp: level_ok_def data_ok_def)
  have pr: "promised (pi_img pr1) D (pi_off pr1) len buf" using promised_kept [OF p lo] off by simp
  have ps: "pread_ok sys" "falloc_ok sys = (\<lambda>_ _ _. True)" using sys by (simp_all add: sys_ok_def punch_all_def)
  from pread_loop_ok [OF ps(1) pr len, of m1] obtain m2 where
    2: "pread_loop sys pr1 len buf 0 m1 = (0, m2)" "toward D m1 m2" "\<forall>x\<in>{buf..<buf + len}. m2 x = D x" by auto
  have s: "serves D (pr # prs) m (pr' # prs1) m2 {buf..<buf + len}" if "async pr' = []" for pr'
    using 1(3,4) 2(2,3) toward_trans [of D m m1 m2] toward_D [of D m1 m2] that by (auto simp: serves_def)
  have k: "kept (snd l) {..<pi_off pr + len} pr1" using lo by (auto intro: kept_mono)
  have ap: "async pr1 = []" using 1(5) by (simp add: plan_def)
  show ?thesis
  proof (cases "auto_dedup sys")
    case True
    obtain r pr2 where ph: "punch_hole sys pr1 (pi_off pr1) len False = (r, pr2)" by fastforce
    have "{pi_off pr1..<pi_off pr1 + len} \<subseteq> {..<pi_off pr + len}" "pi_off pr1 + len < ULONG_MOD"
      using off p lim by (auto simp: promised_def)
    from punch_hole_kept [OF k this ph] ps(2) have 3: "kept (snd l) {..<pi_off pr + len} pr2" "plan pr2 = plan pr1" "r = 0"
      by auto
    then have "async pr2 = []" using ap by (simp add: plan_def)
    then show ?thesis using 1(1,5) 2(1) ph 3 s lev(2) True by (simp add: read_local_page_def Let_def)
  next
    case False
    then show ?thesis using 1(1,5) 2(1) s [OF ap] k lev(2) by (simp add: read_local_page_def Let_def)
  qed
qed

lemma read_page_source_ok:
  assumes ch: "chain_ok D v (l # ls) (pr # prs)" and sys: "sys_ok sys"
    and p: "promised (snd l) D (pi_off pr) (nr * PAGE_SIZE) buf" and nr: "0 < nr"
  shows "\<exists>pr' prs' m'. read_page_source sys (pr # prs) vaddr nr buf flags m = Done (0, pr' # prs', m') \<and>
    chain_ok D v ls prs' \<and> data_ok (snd l) D pr' \<and> walk pr' = walk pr \<and> cvaddr pr' = cvaddr pr \<and>
    pi_off pr' = pi_off pr + nr * PAGE_SIZE \<and> serves D (pr # prs) m (pr' # prs') m' {buf..<buf + nr * PAGE_SIZE}"
proof -
  let ?len = "nr * PAGE_SIZE"
  have len: "0 < ?len" using nr by simp
  have lev: "level_ok D v l pr" "chain_ok D v ls prs" using ch by (auto simp: chain_ok_def)
  then have d: "data_ok (snd l) D pr" by (simp add: level_ok_def)
  then have loc: "maybe_read_page pr = Local_image" "io_complete pr = None" "length (snd l) < ULONG_MOD"
    by (auto simp: data_ok_def)
  show ?thesis
  proof (cases "flags AND (PR_ASYNC OR PR_ASAP) = PR_ASYNC")
    case True
    from d obtain lo where lo: "queue_ok (snd l) D lo (async pr) (pi_off pr)" "kept (snd l) {..<lo} pr"
      by (auto simp: data_ok_def)
    have x: "xalloc_ok sys" using sys by (simp add: sys_ok_def)
    from pagemap_enqueue_iovec_ok [OF lo(1) p len x] obtain q where
      q: "pagemap_enqueue_iovec sys pr buf ?len (async pr) = (0, q)" "queue_ok (snd l) D lo q (pi_off pr + ?len)"
        "pending q = pending (async pr) \<union> {buf..<buf + ?len}" by blast
    let ?pr = "pr\<lparr>async := q, pi_off := pi_off pr + ?len\<rparr>"
    have "data_ok (snd l) D ?pr" using q(2) lo(2) loc by (auto simp: data_ok_def)
    moreover have "serves D (pr # prs) m (?pr # prs) m {buf..<buf + ?len}" using q(3) by (auto simp: serves_def)
    moreover have "read_page_source sys (pr # prs) vaddr nr buf flags m = Done (0, ?pr # prs, m)"
      using True loc q(1) by (simp add: read_page_source_def maybe_read_page_local_def Let_def)
    ultimately show ?thesis using lev(2) by (auto simp: walk_def)
  next
    case False
    from read_local_page_ok [OF ch sys p len, of vaddr m] obtain pr' prs' m' where
      1: "read_local_page sys (pr # prs) vaddr ?len buf m = Done (0, pr' # prs', m')" "chain_ok D v ls prs'"
        "kept (snd l) {..<pi_off pr + ?len} pr'" "plan pr' = plan (pr\<lparr>async := []\<rparr>)"
        "serves D (pr # prs) m (pr' # prs') m' {buf..<buf + ?len}" by blast
    have pl: "async pr' = []" "pi_off pr' = pi_off pr" "io_complete pr' = None" "maybe_read_page pr' = Local_image"
      "walk pr' = walk pr" "cvaddr pr' = cvaddr pr" using 1(4) loc by (simp_all add: plan_def walk_def)
    let ?pr = "pr'\<lparr>pi_off := pi_off pr + ?len\<rparr>"
    have "data_ok (snd l) D ?pr" using 1(3) pl loc by (auto simp: data_ok_def)
    moreover have "serves D (pr # prs) m (?pr # prs') m' {buf..<buf + ?len}" using 1(5) by (simp add: serves_def)
    moreover have "read_page_source sys (pr # prs) vaddr nr buf flags m = Done (0, ?pr # prs', m')"
      using False loc 1(1) pl by (simp add: read_page_source_def maybe_read_page_local_def Let_def)
    ultimately show ?thesis using 1(2) pl by auto
  qed
qed

text \<open>
  The contract of the \<open>read_pages\<close> method on the series of snapshots \<open>ls\<close>. A request is for \<open>nr\<close>
  pages of the entry \<open>k\<close> where the first reader is, and asks for what the snapshots have.
\<close>

definition request :: "mem \<Rightarrow> (pagemap_entry list \<times> byte list) list \<Rightarrow> page_read list \<Rightarrow> nat \<Rightarrow> nat \<Rightarrow> nat \<Rightarrow> nat \<Rightarrow> nat \<Rightarrow> bool" where
  "request D ls prs v vaddr nr buf k \<longleftrightarrow>
     chain_ok D v ls prs \<and> v \<le> vaddr \<and> at_entry (hd prs) k \<and> cvaddr (hd prs) = vaddr \<and>
     vaddr + nr * PAGE_SIZE \<le> pe_end (pmes (hd prs) ! k) \<and> PAGE_SIZE dvd vaddr \<and> 0 < nr \<and>
     (\<forall>i<nr * PAGE_SIZE. byte_at ls (vaddr + i) = Some (D (buf + i)))"

definition reader_ok :: "mem \<Rightarrow> (pagemap_entry list \<times> byte list) list \<Rightarrow> reader \<Rightarrow> bool" where
  "reader_ok D ls rd \<longleftrightarrow> (\<forall>prs v vaddr nr buf flags m k. request D ls prs v vaddr nr buf k \<longrightarrow>
     (\<exists>prs' m'. rd prs vaddr nr buf flags m = Done (1, prs', m') \<and> chain_ok D (vaddr + nr * PAGE_SIZE) ls prs' \<and>
        serves D prs m prs' m' {buf..<buf + nr * PAGE_SIZE} \<and>
        walk (hd prs') = walk (hd prs) \<and> cvaddr (hd prs') = vaddr + nr * PAGE_SIZE))"

lemma reader_okD:
  assumes "reader_ok D ls rd" "request D ls prs v vaddr nr buf k"
  shows "\<exists>prs' m'. rd prs vaddr nr buf flags m = Done (1, prs', m') \<and> chain_ok D (vaddr + nr * PAGE_SIZE) ls prs' \<and>
    serves D prs m prs' m' {buf..<buf + nr * PAGE_SIZE} \<and> walk (hd prs') = walk (hd prs) \<and>
    cvaddr (hd prs') = vaddr + nr * PAGE_SIZE"
  using assms unfolding reader_ok_def by blast

lemma chain_ok_mono: "chain_ok D v ls prs \<Longrightarrow> v \<le> w \<Longrightarrow> chain_ok D w ls prs"
  unfolding chain_ok_def by (erule list_all2_mono) (auto simp: level_ok_def intro: front_mono)

lemma level_ok_seek:
  assumes lev: "level_ok D v l pr" and v: "v \<le> vaddr" "vaddr < ULONG_MOD" and m: "mapped (fst l) vaddr"
  obtains pr' k where "seek_pagemap pr vaddr = (1, pr')" "level_ok D vaddr l pr'" "at_entry pr' k" "cvaddr pr' = vaddr"
    "covers (fst l ! k) vaddr" "async pr' = async pr"
proof -
  obtain r pr' where s: "seek_pagemap pr vaddr = (r, pr')" by fastforce
  have ok: "pos_ok pr" "front vaddr pr" and pm: "pmes pr = fst l"
    using lev v by (auto simp: level_ok_def intro: front_mono)
  have d: "data pr' = data pr" using seek_pagemap_data [of pr vaddr] s by simp
  from seek_pagemap_ok [OF ok v(2)] s m pm obtain k where
    k: "r = 1" "cvaddr pr' = vaddr" "at_entry pr' k" "covers (fst l ! k) vaddr" "pos_ok pr'" "front vaddr pr'"
      "pi_off pr \<le> pi_off pr'" by (auto simp: seek_post_def)
  obtain lo where lo: "queue_ok (snd l) D lo (async pr) (pi_off pr)" "kept (snd l) {..<lo} pr"
    using lev by (auto simp: level_ok_def data_ok_def)
  have "kept (snd l) {..<lo} pr'" using lo(2) d by (simp add: kept_def data_def)
  moreover have "queue_ok (snd l) D lo (async pr') (pi_off pr')" using queue_ok_hi [OF lo(1) k(7)] d by (simp add: data_def)
  ultimately have "data_ok (snd l) D pr'" using lev d by (auto simp: level_ok_def data_ok_def data_def)
  then have "level_ok D vaddr l pr'" using lev k d by (simp add: level_ok_def data_def)
  with s k d that show thesis by (simp add: data_def)
qed

text \<open>Pages of an entry: how many there are from an address on.\<close>

lemma pages_left:
  assumes "wf_pe e" "PAGE_SIZE dvd a" "covers e a"
  shows "a + (nr_pages e - (a - pe_vaddr e) div PAGE_SIZE) * PAGE_SIZE = pe_end e"
    "(a - pe_vaddr e) div PAGE_SIZE < nr_pages e"
proof -
  have "PAGE_SIZE dvd a - pe_vaddr e" using assms by (simp add: wf_pe_def)
  then obtain q where q: "a - pe_vaddr e = PAGE_SIZE * q" by (elim dvdE)
  have a: "a = pe_vaddr e + PAGE_SIZE * q" using q assms(3) by (auto simp: covers_def)
  have "PAGE_SIZE * q < PAGE_SIZE * nr_pages e"
    using assms(3) by (simp add: a covers_def pe_end_def pagemap_len_def mult.commute)
  then have "q < nr_pages e" by simp
  then show "(a - pe_vaddr e) div PAGE_SIZE < nr_pages e" by (simp add: a)
  have "PAGE_SIZE * q + PAGE_SIZE * (nr_pages e - q) = PAGE_SIZE * nr_pages e"
    using \<open>q < nr_pages e\<close> by (simp flip: distrib_left)
  then show "a + (nr_pages e - (a - pe_vaddr e) div PAGE_SIZE) * PAGE_SIZE = pe_end e"
    by (simp add: a pe_end_def pagemap_len_def mult.commute)
qed

lemma byte_at_mapped: "byte_at ((es, img) # ls) a = Some b \<Longrightarrow> mapped es a"
  using locate_None [of es 0 a] by (auto split: option.splits)

lemma read_parent_page_ok:
  assumes rd: "reader_ok D ls rd" and "chain_ok D v ls prs" "v \<le> vaddr" "PAGE_SIZE dvd vaddr" "0 < nr"
    and "\<forall>i<nr * PAGE_SIZE. byte_at ls (vaddr + i) = Some (D (buf + i))" "vaddr + nr * PAGE_SIZE < ULONG_MOD"
  shows "\<exists>prs' m'. read_parent_page rd prs vaddr nr buf flags m = Done (0, prs', m') \<and>
    chain_ok D (vaddr + nr * PAGE_SIZE) ls prs' \<and> serves D prs m prs' m' {buf..<buf + nr * PAGE_SIZE}"
  using assms(2-)
proof (induction nr arbitrary: v prs vaddr buf m rule: less_induct)
  case (less nr)
  have b0: "byte_at ls vaddr = Some (D buf)" using less.prems(4) less.prems(5) [rule_format, of 0] by simp
  then obtain es img ls' where ls: "ls = (es, img) # ls'" by (cases ls) auto
  then obtain pr prs1 where prs: "prs = pr # prs1" "level_ok D v (es, img) pr" "chain_ok D v ls' prs1"
    using less.prems(1) by (auto simp: chain_ok_def list_all2_Cons1)
  have "mapped es vaddr" using b0 byte_at_mapped ls by simp
  with prs(2) less.prems(2,6) obtain pr' k where
    s: "seek_pagemap pr vaddr = (1, pr')" "level_ok D vaddr (es, img) pr'" "at_entry pr' k" "cvaddr pr' = vaddr"
      "covers (es ! k) vaddr" "async pr' = async pr"
    using level_ok_seek [of D v "(es, img)" pr vaddr] by auto
  have pm: "pmes pr' = es" and wf: "wf_pe (es ! k)" and pe: "pe pr' = Some (es ! k)"
    using s(2,3) at_entry_wf [of pr' k] by (auto simp: level_ok_def pos_ok_def at_entry_def)
  note left = pages_left [OF wf less.prems(3) s(5)]
  define p where "p = parent_pages pr' vaddr nr"
  have p: "0 < p" "p \<le> nr" "vaddr + p * PAGE_SIZE \<le> pe_end (es ! k)"
  proof -
    have "p = min nr (nr_pages (es ! k) - (vaddr - pe_vaddr (es ! k)) div PAGE_SIZE)" by (simp add: p_def parent_pages_def pe)
    then show "0 < p" "p \<le> nr" "vaddr + p * PAGE_SIZE \<le> pe_end (es ! k)"
      using left less.prems(4) unfolding left(1) [symmetric] by auto
  qed
  have ch: "chain_ok D vaddr ls (pr' # prs1)"
    using s(2) chain_ok_mono [OF prs(3) less.prems(2)] by (simp add: chain_ok_def ls)
  have bp: "\<forall>i<p * PAGE_SIZE. byte_at ls (vaddr + i) = Some (D (buf + i))"
    using less.prems(5) p(2) by (meson less_le_trans mult_le_mono1)
  have "request D ls (pr' # prs1) vaddr vaddr p buf k"
    using ch s(3,4) p less.prems(3) bp pm by (simp add: request_def)
  then obtain prs2 m2 where
    1: "rd (pr' # prs1) vaddr p buf flags m = Done (1, prs2, m2)" "chain_ok D (vaddr + p * PAGE_SIZE) ls prs2"
      "serves D (pr' # prs1) m prs2 m2 {buf..<buf + p * PAGE_SIZE}"
    using rd unfolding reader_ok_def by blast
  have sv: "serves D prs m prs2 m2 {buf..<buf + p * PAGE_SIZE}" using 1(3) s(6) by (simp add: serves_def prs(1))
  have step: "read_parent_page rd prs vaddr nr buf flags m =
      (if nr - p = 0 then Done (0, prs2, m2)
       else read_parent_page rd prs2 (ul_add vaddr (p * PAGE_SIZE)) (nr - p) (buf + p * PAGE_SIZE) flags m2)"
    by (simp add: prs(1) s(1) p_def [symmetric] Let_def 1(1))
  show ?case
  proof (cases "nr = p")
    case True
    then show ?thesis using step 1(2) sv by auto
  next
    case False
    let ?v = "vaddr + p * PAGE_SIZE" and ?b = "buf + p * PAGE_SIZE"
    have e: "p * PAGE_SIZE + (nr - p) * PAGE_SIZE = nr * PAGE_SIZE" using p(2) by (simp add: diff_mult_distrib)
    have ul: "ul_add vaddr (p * PAGE_SIZE) = ?v" using e less.prems(6) by (simp add: ul_add_exact)
    have "\<forall>i<(nr - p) * PAGE_SIZE. byte_at ls (?v + i) = Some (D (?b + i))"
      using less.prems(5) e by (metis add.assoc add_less_cancel_left)
    with less.IH [of "nr - p" ?v prs2 ?v ?b m2] 1(2) p False less.prems(3,6) e obtain prs3 m3 where
      2: "read_parent_page rd prs2 ?v (nr - p) ?b flags m2 = Done (0, prs3, m3)"
        "chain_ok D (vaddr + nr * PAGE_SIZE) ls prs3" "serves D prs2 m2 prs3 m3 {?b..<buf + nr * PAGE_SIZE}"
      by (auto simp: add.assoc)
    have "serves D prs m prs3 m3 {buf..<buf + nr * PAGE_SIZE}"
      using serves_trans [OF sv 2(3)] p(2) by (simp add: ivl_disj_un)
    then show ?thesis using step 2 False p(2) by (auto simp: ul)
  qed
qed

text \<open>The reader at the entry \<open>k\<close> has taken \<open>len\<close> bytes.\<close>

lemma level_ok_taken:
  assumes lev: "level_ok D v l pr" and at: "at_entry pr k" and pr': "walk pr' = walk pr" "data_ok (snd l) D pr'"
    and c: "cvaddr pr' = cvaddr pr + len" "cvaddr pr + len \<le> pe_end (pmes pr ! k)"
    and off: "pi_off pr' = pi_off pr + (if pagemap_present (pmes pr ! k) then len else 0)"
  shows "level_ok D (cvaddr pr + len) l pr'" "at_entry pr' k"
proof -
  have w: "pmes pr' = pmes pr" "curr_pme pr' = curr_pme pr" "pe pr' = pe pr" using pr'(1) by (simp_all add: walk_def)
  show at': "at_entry pr' k" using at w c off by (auto simp: at_entry_def)
  then show "level_ok D (cvaddr pr + len) l pr'"
    using lev w pr'(2) c by (auto simp: level_ok_def pos_ok_def front_def)
qed

lemma byte_at_entry:
  assumes "wf_pmes es" "k < length es" "covers (es ! k) a"
  shows "byte_at ((es, img) # ls) a =
    (if pagemap_in_parent (es ! k) then byte_at ls a
     else if pagemap_present (es ! k) \<and> img_off es k + (a - pe_vaddr (es ! k)) < length img
     then Some (img ! (img_off es k + (a - pe_vaddr (es ! k)))) else None)"
  using locate_nth [OF assms, of 0] by simp

text \<open>The promise of the specification, seen from the reader that is at the address.\<close>

lemma promised_here:
  assumes lev: "level_ok D v (es, img) pr" and at: "at_entry pr k" and c: "cvaddr pr = a" "a + len \<le> pe_end (es ! k)"
    and b: "\<forall>i<len. byte_at ((es, img) # ls) (a + i) = Some (D (buf + i))" and len: "0 < len"
    and np: "\<not> pagemap_in_parent (es ! k)"
  shows "promised img D (pi_off pr) len buf" "pagemap_present (es ! k)"
proof -
  have pm: "pmes pr = es" "wf_pmes es" "k < length es" "pe_vaddr (es ! k) \<le> a"
    using lev at c by (auto simp: level_ok_def pos_ok_def at_entry_def)
  have v: "img_off es k + (a - pe_vaddr (es ! k)) + i < length img \<and> pagemap_present (es ! k) \<and>
      D (buf + i) = img ! (img_off es k + (a - pe_vaddr (es ! k)) + i)" if i: "i < len" for i
  proof -
    have "covers (es ! k) (a + i)" using i c(2) pm(4) by (simp add: covers_def)
    from byte_at_entry [OF pm(2,3) this, of img ls] b i np pm(4) show ?thesis
      by (auto simp: add.assoc split: if_splits)
  qed
  show pres: "pagemap_present (es ! k)" using v [OF len] by blast
  then have off: "pi_off pr = img_off es k + (a - pe_vaddr (es ! k))" using at c pm(1) by (simp add: at_entry_def)
  have "pi_off pr + len \<le> length img" using v [of "len - 1"] len off by auto
  then show "promised img D (pi_off pr) len buf" using v off by (simp add: promised_def)
qed

lemma bound_check_ok:
  assumes "wf_pe e" "PAGE_SIZE dvd a" "pe_vaddr e \<le> a" "a + nr * PAGE_SIZE \<le> pe_end e" "0 < nr"
  shows "pagemap_bound_check e a nr"
proof -
  have "0 < nr * PAGE_SIZE" using assms(5) by simp
  then have "a < pe_end e" using assms(4) by linarith
  then have c: "covers e a" using assms(3) by (simp add: covers_def)
  note left = pages_left [OF assms(1,2) c]
  have "nr * PAGE_SIZE \<le> (nr_pages e - (a - pe_vaddr e) div PAGE_SIZE) * PAGE_SIZE" using assms(4) left(1) by linarith
  then have "nr \<le> nr_pages e - (a - pe_vaddr e) div PAGE_SIZE" by simp
  then show ?thesis using assms(3) left(2) by (simp add: pagemap_bound_check_def)
qed

lemma requestE:
  assumes "request D ls prs v vaddr nr buf k"
  obtains es img ls' pr ps where "ls = (es, img) # ls'" "prs = pr # ps" "level_ok D v (es, img) pr" "chain_ok D v ls' ps"
    "v \<le> vaddr" "at_entry pr k" "cvaddr pr = vaddr" "pmes pr = es" "pe pr = Some (es ! k)" "wf_pmes es" "k < length es"
    "pe_vaddr (es ! k) \<le> vaddr" "vaddr + nr * PAGE_SIZE \<le> pe_end (es ! k)" "vaddr + nr * PAGE_SIZE < ULONG_MOD"
    "pagemap_bound_check (es ! k) vaddr nr" "PAGE_SIZE dvd vaddr" "0 < nr"
    "\<forall>i<nr * PAGE_SIZE. byte_at ((es, img) # ls') (vaddr + i) = Some (D (buf + i))"
proof -
  note r = assms [unfolded request_def]
  have nr: "0 < nr" using r by blast
  then have "byte_at ls (vaddr + 0) = Some (D (buf + 0))" using r by (metis PAGE_SIZE_pos nat_0_less_mult_iff)
  then obtain es img ls' where ls: "ls = (es, img) # ls'" by (cases ls) auto
  then obtain pr ps where prs: "prs = pr # ps" "level_ok D v (es, img) pr" "chain_ok D v ls' ps"
    using r by (auto simp: chain_ok_def list_all2_Cons1)
  have pm: "pmes pr = es" "pe pr = Some (es ! k)" "wf_pmes es" "k < length es" "pe_vaddr (es ! k) \<le> vaddr"
    using r prs by (auto simp: level_ok_def pos_ok_def at_entry_def)
  have wf: "wf_pe (es ! k)" using pm(3,4) by (rule wf_pmes_nth)
  have fit: "vaddr + nr * PAGE_SIZE \<le> pe_end (es ! k)" "PAGE_SIZE dvd vaddr" using r prs(1) pm(1) by simp_all
  then have "vaddr + nr * PAGE_SIZE < ULONG_MOD" using wf by (simp add: wf_pe_def)
  with that ls prs pm fit bound_check_ok [OF wf fit(2) pm(5) fit(1) nr] nr r show thesis by simp
qed

lemma read_pages_parent:
  assumes rd: "reader_ok D ls' (read_pages_upto n sys)" and r: "request D ((es, img) # ls') (pr # ps) v vaddr nr buf k"
    and par: "pagemap_in_parent (es ! k)"
  shows "\<exists>pr' ps' m'. read_pages_upto (Suc n) sys (pr # ps) vaddr nr buf flags m = Done (1, pr' # ps', m') \<and>
    level_ok D (vaddr + nr * PAGE_SIZE) (es, img) pr' \<and> chain_ok D (vaddr + nr * PAGE_SIZE) ls' ps' \<and>
    serves D (pr # ps) m (pr' # ps') m' {buf..<buf + nr * PAGE_SIZE} \<and> walk pr' = walk pr \<and>
    cvaddr pr' = vaddr + nr * PAGE_SIZE"
  using r
proof (rule requestE)
  fix es0 img0 ls0 pr0 ps0
  let ?len = "nr * PAGE_SIZE"
  assume "(es, img) # ls' = (es0, img0) # ls0" "pr # ps = pr0 # ps0" "level_ok D v (es0, img0) pr0" "chain_ok D v ls0 ps0"
    "at_entry pr0 k" "cvaddr pr0 = vaddr" "pmes pr0 = es0" "pe pr0 = Some (es0 ! k)" "wf_pmes es0" "k < length es0"
    "pe_vaddr (es0 ! k) \<le> vaddr" "vaddr + ?len \<le> pe_end (es0 ! k)"
    and r1: "v \<le> vaddr" "vaddr + ?len < ULONG_MOD" "PAGE_SIZE dvd vaddr" "0 < nr"
    and "pagemap_bound_check (es0 ! k) vaddr nr"
    "\<forall>i<?len. byte_at ((es0, img0) # ls0) (vaddr + i) = Some (D (buf + i))"
  then have lev: "level_ok D v (es, img) pr" "chain_ok D v ls' ps" and at: "at_entry pr k" "cvaddr pr = vaddr"
    and pm: "pmes pr = es" "pe pr = Some (es ! k)" "wf_pmes es" "k < length es" "pe_vaddr (es ! k) \<le> vaddr"
    and fit: "vaddr + ?len \<le> pe_end (es ! k)" and bc: "pagemap_bound_check (es ! k) vaddr nr"
    and b: "\<forall>i<?len. byte_at ((es, img) # ls') (vaddr + i) = Some (D (buf + i))" by auto
  have "\<forall>i<?len. byte_at ls' (vaddr + i) = Some (D (buf + i))"
    using b byte_at_entry [OF pm(3,4), of _ img ls'] par fit pm(5) by (simp add: covers_def)
  from read_parent_page_ok [OF rd lev(2) r1(1,3,4) this r1(2), of flags m] obtain ps' m' where
    1: "read_parent_page (read_pages_upto n sys) ps vaddr nr buf flags m = Done (0, ps', m')"
      "chain_ok D (vaddr + ?len) ls' ps'" "serves D ps m ps' m' {buf..<buf + ?len}" by blast
  let ?pr = "pr\<lparr>cvaddr := vaddr + ?len\<rparr>"
  have np: "\<not> pagemap_present (es ! k)" using wf_pmes_nth [OF pm(3,4)] par by (simp add: wf_pe_def)
  have "data_ok img D pr" using lev by (simp add: level_ok_def)
  then have "level_ok D (vaddr + ?len) (es, img) ?pr"
    using level_ok_taken(1) [OF lev(1) at(1), of ?pr ?len] at(2) fit np pm(1) by simp
  moreover have "serves D (pr # ps) m (?pr # ps') m' {buf..<buf + ?len}"
    using serves_Cons [OF 1(3), of pr] by (simp add: serves_def)
  moreover have "read_pages_upto (Suc n) sys (pr # ps) vaddr nr buf flags m = Done (1, ?pr # ps', m')"
    using par bc 1(1) pm(2) at(2) ul_add_exact [OF r1(2)] by simp
  ultimately show ?thesis using 1(2) by (intro exI [of _ ?pr] exI [of _ ps'] exI [of _ m']) simp
qed

lemma read_pages_here:
  assumes sys: "sys_ok sys" and r: "request D ((es, img) # ls') (pr # ps) v vaddr nr buf k"
    and loc: "\<not> pagemap_in_parent (es ! k)"
  shows "\<exists>pr' ps' m'. read_pages_upto (Suc n) sys (pr # ps) vaddr nr buf flags m = Done (1, pr' # ps', m') \<and>
    level_ok D (vaddr + nr * PAGE_SIZE) (es, img) pr' \<and> chain_ok D (vaddr + nr * PAGE_SIZE) ls' ps' \<and>
    serves D (pr # ps) m (pr' # ps') m' {buf..<buf + nr * PAGE_SIZE} \<and> walk pr' = walk pr \<and>
    cvaddr pr' = vaddr + nr * PAGE_SIZE"
  using r
proof (rule requestE)
  fix es0 img0 ls0 pr0 ps0
  let ?len = "nr * PAGE_SIZE"
  assume "(es, img) # ls' = (es0, img0) # ls0" "pr # ps = pr0 # ps0" "level_ok D v (es0, img0) pr0" "chain_ok D v ls0 ps0"
    "at_entry pr0 k" "cvaddr pr0 = vaddr" "pmes pr0 = es0" "pe pr0 = Some (es0 ! k)" "vaddr + ?len \<le> pe_end (es0 ! k)"
    and r1: "v \<le> vaddr" "vaddr + ?len < ULONG_MOD" "0 < nr"
    and "pagemap_bound_check (es0 ! k) vaddr nr"
    "\<forall>i<?len. byte_at ((es0, img0) # ls0) (vaddr + i) = Some (D (buf + i))"
  then have lev: "level_ok D v (es, img) pr" "chain_ok D v ls' ps" and at: "at_entry pr k" "cvaddr pr = vaddr"
    and pm: "pmes pr = es" "pe pr = Some (es ! k)"
    and fit: "vaddr + ?len \<le> pe_end (es ! k)" and bc: "pagemap_bound_check (es ! k) vaddr nr"
    and b: "\<forall>i<?len. byte_at ((es, img) # ls') (vaddr + i) = Some (D (buf + i))" by auto
  have ch: "chain_ok D v ((es, img) # ls') (pr # ps)" using lev by (simp add: chain_ok_def)
  have p: "promised img D (pi_off pr) ?len buf" "pagemap_present (es ! k)"
    using promised_here [OF lev(1) at fit b _ loc] r1(3) by auto
  from read_page_source_ok [OF ch sys _ r1(3), of buf vaddr flags m] p(1) obtain pr' ps' m' where
    1: "read_page_source sys (pr # ps) vaddr nr buf flags m = Done (0, pr' # ps', m')" "chain_ok D v ls' ps'"
      "data_ok img D pr'" "walk pr' = walk pr" "cvaddr pr' = cvaddr pr" "pi_off pr' = pi_off pr + ?len"
      "serves D (pr # ps) m (pr' # ps') m' {buf..<buf + ?len}" by auto
  let ?pr = "pr'\<lparr>cvaddr := vaddr + ?len\<rparr>"
  have "level_ok D (vaddr + ?len) (es, img) ?pr"
    using level_ok_taken(1) [OF lev(1) at(1), of ?pr ?len] 1 at(2) fit p(2) pm(1) by simp
  moreover have "serves D (pr # ps) m (?pr # ps') m' {buf..<buf + ?len}" using 1(7) by (simp add: serves_def)
  moreover have "chain_ok D (vaddr + ?len) ls' ps'" using chain_ok_mono [OF 1(2)] r1(1) by simp
  moreover have "read_pages_upto (Suc n) sys (pr # ps) vaddr nr buf flags m = Done (1, ?pr # ps', m')"
    using loc bc 1(1,5) pm(2) at(2) ul_add_exact [OF r1(2)] by simp
  ultimately show ?thesis using 1(4) by (intro exI [of _ ?pr] exI [of _ ps'] exI [of _ m']) simp
qed

lemma read_pages_upto_ok:
  assumes sys: "sys_ok sys"
  shows "length ls \<le> n \<Longrightarrow> reader_ok D ls (read_pages_upto n sys)"
proof (induction n arbitrary: ls)
  case 0
  then show ?case by (auto simp: reader_ok_def elim: requestE)
next
  case (Suc n)
  show ?case unfolding reader_ok_def
  proof (intro allI impI)
    fix prs v vaddr nr buf flags m k
    assume r: "request D ls prs v vaddr nr buf k"
    then obtain es img ls' pr ps where e: "ls = (es, img) # ls'" "prs = pr # ps" by (rule requestE)
    have "reader_ok D ls' (read_pages_upto n sys)" using Suc by (simp add: e)
    from read_pages_parent [OF this r [unfolded e], of flags m] read_pages_here [OF sys r [unfolded e], of n flags m]
    show "\<exists>prs' m'. read_pages_upto (Suc n) sys prs vaddr nr buf flags m = Done (1, prs', m') \<and>
        chain_ok D (vaddr + nr * PAGE_SIZE) ls prs' \<and> serves D prs m prs' m' {buf..<buf + nr * PAGE_SIZE} \<and>
        walk (hd prs') = walk (hd prs) \<and> cvaddr (hd prs') = vaddr + nr * PAGE_SIZE"
      unfolding e by (cases "pagemap_in_parent (es ! k)") (force simp: chain_ok_def simp del: read_pages_upto.simps)+
  qed
qed

subsection \<open>Opened chains\<close>

text \<open>The snapshots that an image directory holds, the newest first.\<close>

fun snapshots :: "image_dir \<Rightarrow> (pagemap_entry list \<times> byte list) list" where
  "snapshots (Image_dir pm emp pages par) =
     (if emp then []
      else (map init_compat_pagemap_entry (fst (snd (the pm))), the pages)
           # (case par of None \<Rightarrow> [] | Some d \<Rightarrow> snapshots d))"

definition snapshots_ok :: "(pagemap_entry list \<times> byte list) list \<Rightarrow> bool" where
  "snapshots_ok ls \<longleftrightarrow>
     (\<forall>(es, img)\<in>set ls. wf_pmes es \<and> img_off es (length es) \<le> length img \<and> length img < ULONG_MOD)"

definition fresh :: "pagemap_entry list \<times> byte list \<Rightarrow> page_read \<Rightarrow> bool" where
  "fresh l pr \<longleftrightarrow> pmes pr = fst l \<and> pi_img pr = snd l \<and> pe pr = None \<and> cvaddr pr = 0 \<and> pi_off pr = 0 \<and> curr_pme pr = -1 \<and>
     async pr = [] \<and> bunch pr = \<lparr>iov_base = 0, iov_len = 0\<rparr> \<and> io_complete pr = None \<and> maybe_read_page pr = Local_image"

lemma read_pmes_entries:
  "read_pmes sys room grow es bad acc = Done (Some r) \<Longrightarrow> r = acc @ map init_compat_pagemap_entry es"
  by (induction sys room grow es bad acc rule: read_pmes.induct) (auto simp: Let_def split: if_splits)

lemma open_page_read_at_fresh:
  "open_page_read_at sys False lazy img d i = Done (r, prs, j) \<Longrightarrow> 0 \<le> r \<Longrightarrow>
   list_all2 fresh (snapshots d) prs \<and> (r = 0 \<longleftrightarrow> snapshots d = [])"
proof (induction d arbitrary: i r prs j)
  case (Image_dir pm emp pages par)
  show ?case
  proof (cases "pm = None \<or> emp")
    case True
    then show ?thesis using Image_dir.prems by (cases pm) auto
  next
    case False
    then obtain pmi where pm: "pm = Some pmi" "\<not> emp" by auto
    let ?par = "case par of None \<Rightarrow> Done (0, [], i)
      | Some d \<Rightarrow> if \<not> xalloc_ok sys then Done (-1, [], i) else open_page_read_at sys False lazy img d i"
    obtain r1 prs1 j1 where 1: "?par = Done (r1, prs1, j1)" "0 \<le> r1"
      using Image_dir.prems pm by (auto simp: bind_run_eq_Done split: if_splits cong: option.case_cong)
    then obtain f es where 2: "pages = Some f" "init_pagemaps sys False pmi = Done (Some es)" "r = 1"
        "prs = new_page_read j1 img es f False lazy (prs1 \<noteq> []) # prs1"
      using Image_dir.prems pm by (auto simp: bind_run_eq_Done split: option.splits cong: option.case_cong)
    have es: "es = map init_compat_pagemap_entry (fst (snd pmi))"
      using 2(2) read_pmes_entries by (fastforce simp: init_pagemaps_def Let_def split: if_splits)
    have "list_all2 fresh (case par of None \<Rightarrow> [] | Some d \<Rightarrow> snapshots d) prs1"
      using 1 Image_dir.IH by (auto split: option.splits if_splits)
    moreover have "fresh (es, f) (new_page_read j1 img es f False lazy (prs1 \<noteq> []))"
      by (simp add: fresh_def new_page_read_def)
    ultimately show ?thesis using pm 2 es by simp
  qed
qed

lemma level_ok_fresh:
  assumes "fresh l pr" "snapshots_ok [l]"
  shows "level_ok D 0 l pr"
proof -
  have "kept (snd l) {..<0} pr" "queue_ok (snd l) D 0 (async pr) (pi_off pr)"
    using assms by (auto simp: fresh_def kept_def)
  then show ?thesis using assms
    by (auto simp: fresh_def level_ok_def data_ok_def pos_ok_def at_start_def front_def snapshots_ok_def)
qed

lemma chain_ok_fresh: "list_all2 fresh ls prs \<Longrightarrow> snapshots_ok ls \<Longrightarrow> chain_ok D 0 ls prs"
  unfolding chain_ok_def
  by (induction rule: list_all2_induct) (auto simp: snapshots_ok_def intro!: level_ok_fresh)

subsection \<open>Series of requests\<close>

text \<open>
  The way the readers are used: seek to an address, read pages of the entry found there,
  go on to a higher address, and at the end wait for what has been queued.
\<close>

fun read_requests :: "pr_sys \<Rightarrow> page_read list \<Rightarrow> (ulong \<times> nat \<times> nat \<times> u32) list \<Rightarrow> mem \<Rightarrow>
    (int \<times> page_read list \<times> mem) run" where
  "read_requests sys prs [] m = process_async_reads sys prs m"
| "read_requests sys prs ((vaddr, nr, buf, flags) # reqs) m =
     (let (ret, pr) = seek_pagemap (hd prs) vaddr
      in if ret \<le> 0 then Done (-1, pr # tl prs, m)
         else bind_run (read_pagemap_page sys (pr # tl prs) vaddr nr buf flags m) (\<lambda>(ret, prs, m).
                if ret < 0 then Done (-1, prs, m) else read_requests sys prs reqs m))"

fun requests_ok :: "mem \<Rightarrow> (pagemap_entry list \<times> byte list) list \<Rightarrow> nat \<Rightarrow> (ulong \<times> nat \<times> nat \<times> u32) list \<Rightarrow> bool" where
  "requests_ok D ls v [] \<longleftrightarrow> True"
| "requests_ok D ls v ((vaddr, nr, buf, flags) # reqs) \<longleftrightarrow>
     v \<le> vaddr \<and> PAGE_SIZE dvd vaddr \<and> 0 < nr \<and>
     (\<exists>e\<in>set (fst (hd ls)). covers e vaddr \<and> vaddr + nr * PAGE_SIZE \<le> pe_end e) \<and>
     (\<forall>i<nr * PAGE_SIZE. byte_at ls (vaddr + i) = Some (D (buf + i))) \<and>
     requests_ok D ls (vaddr + nr * PAGE_SIZE) reqs"

definition requested :: "(ulong \<times> nat \<times> nat \<times> u32) list \<Rightarrow> nat set" where
  "requested reqs = (\<Union>(vaddr, nr, buf, flags)\<in>set reqs. {buf..<buf + nr * PAGE_SIZE})"

lemma read_requests_ok:
  assumes sys: "sys_ok sys" and ls: "ls = l # ls'"
  shows "chain_ok D v ls prs \<Longrightarrow> requests_ok D ls v reqs \<Longrightarrow>
    \<exists>prs' m'. read_requests sys prs reqs m = Done (0, prs', m') \<and> pendings prs' = {} \<and>
      serves D prs m prs' m' (requested reqs)"
proof (induction reqs arbitrary: v prs m)
  case Nil
  from process_async_reads_ok [OF Nil(1) sys, of m] show ?case by (auto simp: requested_def)
next
  case (Cons q reqs)
  obtain vaddr nr buf flags where q: "q = (vaddr, nr, buf, flags)" by (cases q) auto
  let ?len = "nr * PAGE_SIZE"
  obtain es img where l: "l = (es, img)" by fastforce
  obtain pr ps where prs: "prs = pr # ps" "level_ok D v l pr" "chain_ok D v ls' ps"
    using Cons.prems(1) by (auto simp: chain_ok_def ls list_all2_Cons1)
  have r: "v \<le> vaddr" "PAGE_SIZE dvd vaddr" "0 < nr" "\<forall>i<?len. byte_at ls (vaddr + i) = Some (D (buf + i))"
    "requests_ok D ls (vaddr + ?len) reqs" using Cons.prems(2) by (auto simp: q)
  from Cons.prems(2) obtain j where j: "j < length es" "covers (es ! j) vaddr" "vaddr + ?len \<le> pe_end (es ! j)"
    by (auto simp: q ls l in_set_conv_nth)
  have wf: "wf_pmes es" using prs(2) by (auto simp: level_ok_def pos_ok_def l)
  have "mapped (fst l) vaddr" using j by (auto simp: mapped_def l)
  moreover have "vaddr < ULONG_MOD" using j(2) wf_pmes_nth [OF wf j(1)] by (simp add: covers_def wf_pe_def)
  ultimately obtain pr' k where s: "seek_pagemap pr vaddr = (1, pr')" "level_ok D vaddr l pr'" "at_entry pr' k"
      "cvaddr pr' = vaddr" "covers (fst l ! k) vaddr" "async pr' = async pr"
    using level_ok_seek [OF prs(2) r(1)] by metis
  have pm: "pmes pr' = es" "k < length es" using s(2,3) by (auto simp: level_ok_def at_entry_def l)
  have "k = j" using covers_unique [OF wf pm(2) j(1)] s(5) j(2) by (simp add: l)
  then have "request D ls (pr' # ps) vaddr vaddr nr buf k"
    using s r j(3) pm chain_ok_mono [OF prs(3) r(1)] by (simp add: request_def chain_ok_def ls)
  moreover have "reader_ok D ls (read_pages_upto (length (pr' # ps)) sys)"
    using read_pages_upto_ok [OF sys] Cons.prems(1) by (simp add: chain_ok_def prs(1) list_all2_lengthD)
  ultimately obtain prs2 m2 where 3: "read_pagemap_page sys (pr' # ps) vaddr nr buf flags m = Done (1, prs2, m2)"
      "chain_ok D (vaddr + ?len) ls prs2" "serves D (pr' # ps) m prs2 m2 {buf..<buf + ?len}"
    unfolding reader_ok_def read_pagemap_page_def by blast
  from Cons.IH [OF 3(2) r(5), of m2] obtain prs3 m3 where
    4: "read_requests sys prs2 reqs m2 = Done (0, prs3, m3)" "pendings prs3 = {}"
      "serves D prs2 m2 prs3 m3 (requested reqs)" by blast
  have "serves D prs m prs2 m2 {buf..<buf + ?len}" using 3(3) s(6) by (simp add: serves_def prs(1))
  from serves_trans [OF this 4(3)] have "serves D prs m prs3 m3 (requested (q # reqs))"
    by (simp add: requested_def q)
  moreover have "read_requests sys prs (q # reqs) m = Done (0, prs3, m3)"
    using s(1) 3(1) 4(1) by (simp add: prs(1) q)
  ultimately show ?case using 4(2) by blast
qed

end
