(* ===== verification/PageReadClients.thy ===== *)
theory PageReadClients
  imports PageReadCorrect
begin

unbundle bit_operations_syntax

text \<open>
  The clients of the page readers: deduplication of old snapshots
  (\<open>dedup_one_iovec\<close>, \<open>cr_dedup_one_pagemap\<close>) and the restore of shared memory
  (\<open>do_restore_shmem_content\<close>), and the properties of the readers.
\<close>

subsection \<open>Deduplication\<close>

text \<open>The offsets of the pages image that hold addresses of \<open>A\<close>.\<close>

definition offs :: "pagemap_entry list \<Rightarrow> nat set \<Rightarrow> nat set" where
  "offs es A = {img_off es k + (a - pe_vaddr (es ! k)) |k a.
     k < length es \<and> covers (es ! k) a \<and> pagemap_present (es ! k) \<and> a \<in> A}"

lemma offs_inj:
  assumes k: "k < length es" "covers (es ! k) a" "pagemap_present (es ! k)"
    and o: "img_off es k + (a - pe_vaddr (es ! k)) \<in> offs es A"
  shows "a \<in> A"
proof -
  from o obtain j b where j: "j < length es" "covers (es ! j) b" "pagemap_present (es ! j)" "b \<in> A"
      "img_off es k + (a - pe_vaddr (es ! k)) = img_off es j + (b - pe_vaddr (es ! j))"
    by (auto simp: offs_def)
  have st: "img_off es (Suc i) \<le> img_off es n" if "Suc i \<le> n" for i n using that by (rule img_off_mono)
  have bd: "img_off es i + (c - pe_vaddr (es ! i)) < img_off es (Suc i)"
    if "i < length es" "covers (es ! i) c" "pagemap_present (es ! i)" for i c
    using that by (auto simp: img_off_Suc stored_def covers_def pe_end_def)
  have "k = j"
  proof (rule ccontr)
    assume "k \<noteq> j"
    then consider "Suc k \<le> j" | "Suc j \<le> k" by arith
    then show False using st [of k j] st [of j k] bd [OF k] bd [OF j(1-3)] j(5) by cases linarith+
  qed
  then have "a = b" using j(5) k(2) j(2) by (auto simp: covers_def)
  then show ?thesis using j(4) by simp
qed

text \<open>In an old snapshot every entry has its pages there or in the parent.\<close>

definition solid :: "pagemap_entry list \<Rightarrow> bool" where
  "solid es \<longleftrightarrow> (\<forall>e\<in>set es. pagemap_in_parent e \<or> pagemap_present e)"

definition klevel :: "nat set \<Rightarrow> pagemap_entry list \<times> byte list \<Rightarrow> page_read \<Rightarrow> bool" where
  "klevel A l pr \<longleftrightarrow> async pr = [] \<and> kept (snd l) (offs (fst l) A) pr"

definition dlevel :: "nat set \<Rightarrow> nat \<Rightarrow> pagemap_entry list \<times> byte list \<Rightarrow> page_read \<Rightarrow> bool" where
  "dlevel A v l pr \<longleftrightarrow> klevel A l pr \<and> pmes pr = fst l \<and> pos_ok pr \<and> front v pr \<and> solid (fst l) \<and>
     img_off (fst l) (length (fst l)) < ULONG_MOD"

definition kchain :: "nat set \<Rightarrow> (pagemap_entry list \<times> byte list) list \<Rightarrow> page_read list \<Rightarrow> bool" where
  "kchain A ls prs \<longleftrightarrow> list_all2 (klevel A) ls prs"

definition dchain :: "nat set \<Rightarrow> nat \<Rightarrow> (pagemap_entry list \<times> byte list) list \<Rightarrow> page_read list \<Rightarrow> bool" where
  "dchain A v ls prs \<longleftrightarrow> list_all2 (dlevel A v) ls prs"

lemma dchain_kchain: "dchain A v ls prs \<Longrightarrow> kchain A ls prs"
  unfolding dchain_def kchain_def by (erule list_all2_mono) (simp add: dlevel_def)

lemma dchain_mono: "dchain A v ls prs \<Longrightarrow> v \<le> w \<Longrightarrow> dchain A w ls prs"
  unfolding dchain_def by (erule list_all2_mono) (auto simp: dlevel_def intro: front_mono)

text \<open>The contract of the recursive call.\<close>

definition dedup_result :: "nat set \<Rightarrow> nat \<Rightarrow> (pagemap_entry list \<times> byte list) list \<Rightarrow> (int \<times> page_read list) option \<Rightarrow> bool" where
  "dedup_result A v ls x \<longleftrightarrow>
     (\<exists>r prs. x = Some (r, prs) \<and> (r = 0 \<or> r = -1) \<and> kchain A ls prs \<and> (r = 0 \<longrightarrow> dchain A v ls prs))"

definition dedup_ok :: "nat set \<Rightarrow> (pagemap_entry list \<times> byte list) list \<Rightarrow>
    (page_read list \<Rightarrow> ulong \<Rightarrow> ulong \<Rightarrow> (int \<times> page_read list) option) \<Rightarrow> bool" where
  "dedup_ok A ls up \<longleftrightarrow> (\<forall>prs v off len. dchain A v ls prs \<longrightarrow> prs \<noteq> [] \<longrightarrow> v \<le> off \<longrightarrow> {off..<off + len} \<subseteq> A \<longrightarrow>
     0 < len \<longrightarrow> off + len < ULONG_MOD \<longrightarrow> dedup_result A (off + len) ls (up prs off len))"

text \<open>After a seek the loop either ends or is at a page of the entry found.\<close>

lemma dedup_seek:
  assumes lev: "dlevel A v (es, img) pr" and v: "v \<le> off" "off < stop" "stop < ULONG_MOD"
  obtains (none) pr1 where "seek_pagemap pr off = (0, pr1)" "\<not> (off < cvaddr pr1 \<and> cvaddr pr1 < stop)"
      "dlevel A stop (es, img) pr1"
  | (at) ret pr1 k c where "seek_pagemap pr off = (ret, pr1)" "\<not> (ret = 0 \<and> \<not> (off < cvaddr pr1 \<and> cvaddr pr1 < stop))"
      "c = (if ret = 0 then cvaddr pr1 else off)" "cvaddr pr1 = c" "off \<le> c" "c < stop" "at_entry pr1 k"
      "covers (es ! k) c" "dlevel A stop (es, img) pr1"
proof -
  obtain ret pr1 where s: "seek_pagemap pr off = (ret, pr1)" by fastforce
  have d: "data pr1 = data pr" using seek_pagemap_data [of pr off] s by simp
  have ok: "pos_ok pr" "front off pr" and pm: "pmes pr = es"
    using lev v by (auto simp: dlevel_def intro: front_mono)
  have off: "off < ULONG_MOD" using v by simp
  note post = seek_pagemap_ok [OF ok off, unfolded s seek_post_def fst_conv snd_conv]
  have lev1: "dlevel A stop (es, img) pr1"
    using lev d post front_mono [of off pr1 stop] v by (auto simp: dlevel_def klevel_def data_def kept_def)
  consider "ret = 1" | "ret = 0" "\<not> (off < cvaddr pr1 \<and> cvaddr pr1 < stop)" | "ret = 0" "off < cvaddr pr1" "cvaddr pr1 < stop"
    using post by auto
  then show thesis
  proof cases
    case 1
    then show ?thesis using at [OF s _ refl _ _ _ _ _ lev1] post v pm by auto
  next
    case 2
    then show ?thesis using none s lev1 by simp
  next
    case 3
    have "\<not> at_start pr1" using 3(2) by (auto simp: at_start_def)
    then obtain k where k: "at_entry pr1 k" using post by (auto simp: pos_ok_def)
    have pm1: "pmes pr1 = es" using d pm by (simp add: data_def)
    have "\<not> mapped es (cvaddr pr1 - 1)" using post 3(2) pm1 by (auto simp: front_def)
    then have "\<not> covers (es ! k) (cvaddr pr1 - 1)" using k pm1 by (auto simp: mapped_def at_entry_def)
    moreover have "wf_pe (es ! k)" using k pm1 post at_entry_wf [of pr1 k] by (auto simp: pos_ok_def)
    ultimately have "covers (es ! k) (cvaddr pr1)"
      using k pm1 3(2) wf_pe_less [of "es ! k"] by (auto simp: covers_def at_entry_def)
    then show ?thesis using at [OF s _ refl _ _ _ k _ lev1] 3 by auto
  qed
qed

text \<open>Punching, or passing on, the part of an entry that starts at the place of the reader.\<close>

lemma dedup_punch:
  assumes lev: "dlevel A stop (es, img) pr" and at: "at_entry pr k" "cvaddr pr = c" "covers (es ! k) c"
    and len: "c + len \<le> pe_end (es ! k)" "{c..<c + len} \<subseteq> A"
    and r: "(if \<not> pagemap_in_parent (es ! k) then punch_hole sys pr (pi_off pr) len False else (0, pr)) = (r, pr')"
  shows "dlevel A stop (es, img) pr' \<and> cvaddr pr' = c \<and> (r = 0 \<or> r = -1)"
proof (cases "pagemap_in_parent (es ! k)")
  case False
  have pm: "pmes pr = es" "k < length es" "pe_vaddr (es ! k) \<le> c" and kp: "kept img (offs es A) pr"
    using lev at by (auto simp: dlevel_def klevel_def at_entry_def)
  have pres: "pagemap_present (es ! k)" using lev pm(2) False by (auto simp: dlevel_def solid_def)
  have off: "pi_off pr = img_off es k + (c - pe_vaddr (es ! k))" using at pm pres by (simp add: at_entry_def)
  have X: "{pi_off pr..<pi_off pr + len} \<subseteq> offs es A"
  proof
    fix x assume x: "x \<in> {pi_off pr..<pi_off pr + len}"
    let ?a = "c + (x - pi_off pr)"
    have "x = img_off es k + (?a - pe_vaddr (es ! k))" using x off pm(3) by auto
    moreover have "covers (es ! k) ?a" using x len(1) pm(3) by (auto simp: covers_def)
    moreover have "?a \<in> {c..<c + len}" using x by auto
    then have "?a \<in> A" using len(2) by blast
    ultimately show "x \<in> offs es A" using pm(2) pres unfolding offs_def by blast
  qed
  have "pi_off pr + len \<le> img_off es (Suc k)"
    using off len(1) pm pres by (simp add: img_off_Suc stored_def pe_end_def)
  also have "\<dots> \<le> img_off es (length es)" using pm(2) by (intro img_off_mono) simp
  also have "\<dots> < ULONG_MOD" using lev by (simp add: dlevel_def)
  finally have lim: "pi_off pr + len < ULONG_MOD" .
  from punch_hole_kept [OF kp X lim, of sys False r pr'] r False
  have p: "kept img (offs es A) pr'" "plan pr' = plan pr" "r = 0 \<or> r = -1" by auto
  have pl: "pmes pr' = pmes pr" "curr_pme pr' = curr_pme pr" "pe pr' = pe pr" "cvaddr pr' = cvaddr pr" "pi_off pr' = pi_off pr"
      "async pr' = async pr" using p(2) by (simp_all add: plan_def)
  then show ?thesis using lev p at(2) pos_ok_cong(1,2) [OF pl(1-5)] by (simp add: dlevel_def klevel_def)
qed (use lev r at in auto)

text \<open>One turn of the loop that found a page.\<close>

lemma dedup_turn:
  assumes up: "dedup_ok A ls up" and ch: "dchain A v ls prs" and lev: "dlevel A stop (es, img) pr1"
    and s: "seek_pagemap pr off = (ret, pr1)" "\<not> (ret = 0 \<and> \<not> (off < cvaddr pr1 \<and> cvaddr pr1 < stop))"
      "c = (if ret = 0 then cvaddr pr1 else off)" "cvaddr pr1 = c" "off \<le> c" "c < stop" "at_entry pr1 k" "covers (es ! k) c"
    and v: "v \<le> off" "stop < ULONG_MOD" "{off..<stop} \<subseteq> A"
  obtains (fail) prs' where "dedup_loop sys up pr prs off stop = Some (-1, prs')" "kchain A ((es, img) # ls) prs'"
  | (go) pr2 prs' where "dlevel A stop (es, img) pr2" "cvaddr pr2 = c" "dchain A (min (pe_end (es ! k)) stop) ls prs'"
      "dedup_loop sys up pr prs off stop =
         (if pe_end (es ! k) < stop then dedup_loop sys up pr2 prs' (pe_end (es ! k)) stop else Some (0, pr2 # prs'))"
proof -
  let ?e = "es ! k"
  let ?len = "min (pe_end ?e) stop - c"
  have pe: "pe pr1 = Some ?e" and wf: "wf_pe ?e"
    using s(7) lev at_entry_wf [of pr1 k] by (auto simp: dlevel_def pos_ok_def at_entry_def)
  have en: "ul_add (pe_vaddr ?e) (pagemap_len ?e) = pe_end ?e" by (rule wf_pe_end [OF wf])
  have c: "c < pe_end ?e" using s(8) by (simp add: covers_def)
  have len: "ul_sub (min (pe_end ?e) stop) c = ?len" "0 < ?len" "c + ?len \<le> pe_end ?e" "c + ?len < ULONG_MOD"
    using c s(6) v(2) by (auto simp: ul_sub_exact)
  have "{c..<c + ?len} \<subseteq> {off..<stop}" using s(5) by auto
  then have A: "{c..<c + ?len} \<subseteq> A" using v(3) by blast
  obtain r pr2 where ph: "(if \<not> pagemap_in_parent ?e then punch_hole sys pr1 (pi_off pr1) ?len False else (0, pr1)) = (r, pr2)"
    by fastforce
  note d2 = dedup_punch [OF lev s(7,4,8) len(3) A ph]
  define x where "x = (if prs = [] then Some (0, []) else up prs c ?len)"
  have x: "dedup_result A (c + ?len) ls x"
  proof (cases "prs = []")
    case True
    then show ?thesis using ch by (simp add: x_def dedup_result_def dchain_def kchain_def)
  next
    case False
    then show ?thesis using up [unfolded dedup_ok_def, rule_format, OF ch False _ A len(2,4)] v(1) s(5) by (simp add: x_def)
  qed
  then obtain r2 prs2 where r2: "x = Some (r2, prs2)" "r2 = 0 \<or> r2 = -1" "kchain A ls prs2" "r2 = 0 \<longrightarrow> dchain A (c + ?len) ls prs2"
    by (auto simp: dedup_result_def)
  have step: "dedup_loop sys up pr prs off stop =
      (if r = -1 then Some (-1, pr2 # prs) else if r2 \<noteq> 0 then Some (-1, pr2 # prs2)
       else if pe_end ?e < stop then dedup_loop sys up pr2 prs2 (pe_end ?e) stop else Some (0, pr2 # prs2))"
    by (simp only: dedup_loop.simps [of sys up pr prs off stop] s(1) Let_def prod.case if_not_P [OF s(2)]
        s(3) [symmetric] pe option.case en len(1) ph x_def [symmetric] r2(1))
  have k: "klevel A (es, img) pr2" using d2 by (simp add: dlevel_def)
  consider "r = -1" | "r \<noteq> -1" "r2 = -1" | "r \<noteq> -1" "r2 = 0" using r2(2) by blast
  then show thesis
  proof cases
    case 1
    then show ?thesis using fail [of "pr2 # prs"] step k dchain_kchain [OF ch] by (simp add: kchain_def)
  next
    case 2
    then show ?thesis using fail [of "pr2 # prs2"] step k r2(3) by (simp add: kchain_def)
  next
    case 3
    moreover have "c + ?len = min (pe_end ?e) stop" using c s(6) by simp
    ultimately show ?thesis using go [of pr2 prs2] step d2 r2(4) by simp
  qed
qed

lemma dedup_loop_ok:
  assumes up: "dedup_ok A ls up" and "dlevel A v (es, img) pr" "dchain A v ls prs" "v \<le> off" "off < stop"
    and stop: "stop < ULONG_MOD" and "{off..<stop} \<subseteq> A"
  shows "dedup_result A stop ((es, img) # ls) (dedup_loop sys up pr prs off stop)"
  using assms(2-5,7)
proof (induction "stop - off" arbitrary: v pr prs off rule: less_induct)
  case less
  from less.prems(1,3,4) stop show ?case
  proof (cases rule: dedup_seek)
    case (none pr1)
    have "dedup_loop sys up pr prs off stop = Some (0, pr1 # prs)"
      by (subst dedup_loop.simps) (use none in auto)
    moreover have "dchain A stop ((es, img) # ls) (pr1 # prs)"
      using none(3) dchain_mono [OF less.prems(2)] less.prems(3,4) by (simp add: dchain_def)
    ultimately show ?thesis using dchain_kchain by (auto simp: dedup_result_def)
  next
    case (at ret pr1 k c)
    from up less.prems(2) at(9,1-8) less.prems(3) stop less.prems(5) show ?thesis
    proof (cases rule: dedup_turn [where sys = sys])
      case (fail prs')
      then show ?thesis by (simp add: dedup_result_def)
    next
      case (go pr2 prs')
      show ?thesis
      proof (cases "pe_end (es ! k) < stop")
        case True
        have c: "c < pe_end (es ! k)" using at(8) by (simp add: covers_def)
        then have "dlevel A (pe_end (es ! k)) (es, img) pr2" using go(1,2) by (auto simp: dlevel_def front_def)
        moreover have "dchain A (pe_end (es ! k)) ls prs'" using go(3) True by simp
        moreover have "{pe_end (es ! k)..<stop} \<subseteq> A" using less.prems(5) c at(5) by auto
        ultimately have "dedup_result A stop ((es, img) # ls) (dedup_loop sys up pr2 prs' (pe_end (es ! k)) stop)"
          using less.hyps [of "pe_end (es ! k)"] c at(5) True by simp
        then show ?thesis using go(4) True by simp
      next
        case False
        then have "dchain A stop ((es, img) # ls) (pr2 # prs')" using go by (simp add: dchain_def min_absorb2)
        then show ?thesis using go(4) False dchain_kchain by (auto simp: dedup_result_def)
      qed
    qed
  qed
qed

lemma dedup_upto_ok: "length ls \<le> n \<Longrightarrow> dedup_ok A ls (dedup_upto n sys)"
proof (induction n arbitrary: ls)
  case 0
  then show ?case by (auto simp: dedup_ok_def dchain_def)
next
  case (Suc n)
  show ?case unfolding dedup_ok_def
  proof (intro allI impI)
    fix prs v off len
    assume a: "dchain A v ls prs" "prs \<noteq> []" "v \<le> off" "{off..<off + len} \<subseteq> A" "0 < len" "off + len < ULONG_MOD"
    then obtain l ls' pr ps where e: "ls = l # ls'" "prs = pr # ps" "dlevel A v l pr" "dchain A v ls' ps"
      by (cases prs) (auto simp: dchain_def list_all2_Cons2)
    obtain es img where l: "l = (es, img)" by fastforce
    have "dedup_ok A ls' (dedup_upto n sys)" using Suc by (simp add: e)
    from dedup_loop_ok [OF this e(3) [unfolded l] e(4) a(3) _ a(6) a(4), of sys] a(5)
    show "dedup_result A (off + len) ls (dedup_upto (Suc n) sys prs off len)"
      using a(6) by (simp add: e(1,2) l ul_add_exact)
  qed
qed

text \<open>The addresses whose pages the newest snapshot does not take from its parent.\<close>

definition own :: "pagemap_entry list \<Rightarrow> nat set" where
  "own es = {a. \<exists>e\<in>set es. covers e a \<and> \<not> pagemap_in_parent e}"

lemma dedup_entries_ok:
  assumes wf: "wf_pmes es" and "pmes pr = es" "curr_pme pr = int j - 1" "j \<le> length es" "dchain (own es) v ls prs" "ls \<noteq> []"
    "\<forall>i<length es. j \<le> i \<longrightarrow> v \<le> pe_vaddr (es ! i)"
  shows "\<exists>r pr' prs'. dedup_entries sys pr prs = Some (r, pr' # prs') \<and> kchain (own es) ls prs' \<and> data pr' = data pr"
  using assms(2-)
proof (induction "length es - j" arbitrary: j v pr prs rule: less_induct)
  case less
  show ?case
  proof (cases "j = length es")
    case True
    then have "advance pr = (0, pr\<lparr>curr_pme := int j\<rparr>)" using less.prems by (simp add: advance_def Let_def)
    then show ?thesis using dchain_kchain [OF less.prems(4)] by (subst dedup_entries.simps) auto
  next
    case False
    then have j: "j < length es" using less.prems by simp
    let ?e = "es ! j"
    let ?pr = "pr\<lparr>curr_pme := int j, pe := Some ?e, cvaddr := pe_vaddr ?e\<rparr>"
    have adv: "advance pr = (1, ?pr)" using j less.prems by (simp add: advance_def Let_def)
    have wfe: "wf_pe ?e" by (rule wf_pmes_nth [OF wf j])
    have nxt: "\<forall>i<length es. Suc j \<le> i \<longrightarrow> pe_end ?e \<le> pe_vaddr (es ! i)" using wf_pmes_less [OF wf] by auto
    have IH: "\<exists>r pr' prs'. dedup_entries sys ?pr qs = Some (r, pr' # prs') \<and> kchain (own es) ls prs' \<and> data pr' = data ?pr"
      if "dchain (own es) (pe_end ?e) ls qs" for qs
      using less.hyps [of "Suc j" ?pr "pe_end ?e" qs] j less.prems that nxt by simp
    show ?thesis
    proof (cases "pagemap_in_parent ?e")
      case True
      have "v \<le> pe_end ?e" using less.prems(6) j wf_pe_less [OF wfe] by force
      from IH [OF dchain_mono [OF less.prems(4) this]] True adv show ?thesis by (subst dedup_entries.simps) simp
    next
      case False
      have A: "{pe_vaddr ?e..<pe_vaddr ?e + pagemap_len ?e} \<subseteq> own es"
        using j False by (auto simp: own_def covers_def pe_end_def intro!: bexI [of _ ?e])
      have ne: "prs \<noteq> []" and ln: "length ls \<le> length prs"
        using less.prems(4,5) by (auto simp: dchain_def dest: list_all2_lengthD)
      have "dedup_result (own es) (pe_end ?e) ls (dedup_one_iovec sys prs (pe_vaddr ?e) (pagemap_len ?e))"
        using dedup_upto_ok [OF ln, of "own es" sys, unfolded dedup_ok_def, rule_format, OF less.prems(4) ne _ A]
          wfe less.prems(6) j by (simp add: dedup_one_iovec_def wf_pe_def pe_end_def pagemap_len_def)
      then obtain r prs1 where r: "dedup_one_iovec sys prs (pe_vaddr ?e) (pagemap_len ?e) = Some (r, prs1)"
          "kchain (own es) ls prs1" "r = 0 \<longrightarrow> dchain (own es) (pe_end ?e) ls prs1" by (auto simp: dedup_result_def)
      show ?thesis
      proof (cases "r = 0")
        case True
        then show ?thesis using IH [of prs1] r False adv by (subst dedup_entries.simps) simp
      next
        case nz: False
        then show ?thesis using r False adv by (subst dedup_entries.simps) simp
      qed
    qed
  qed
qed

lemma close_page_read_kept:
  "list_all2 (\<lambda>(img, X) pr. async pr = [] \<and> kept img X pr) xs prs \<Longrightarrow>
   \<exists>prs'. close_page_read sys prs = Done prs' \<and> list_all2 (\<lambda>(img, X) pr. kept img X pr) xs prs'"
proof (induction sys prs arbitrary: xs rule: close_page_read.induct)
  case (2 sys pr prs)
  then obtain img X xs' where x: "xs = (img, X) # xs'" "async pr = []" "kept img X pr"
      "list_all2 (\<lambda>(img, X) pr. async pr = [] \<and> kept img X pr) xs' prs"
    by (auto simp: list_all2_Cons2)
  obtain r pr1 where p: "(if 0 < iov_len (bunch pr) then punch_hole sys pr 0 0 True else (0, pr)) = (r, pr1)" by fastforce
  have k: "kept img X pr1"
    using punch_hole_kept [OF x(3), of 0 0 sys True r pr1] p x(3) by (auto split: if_splits)
  then have k2: "kept img X (pr1\<lparr>bunch := (bunch pr1)\<lparr>iov_len := 0\<rparr>, pmes := []\<rparr>)" by (auto simp: kept_def)
  show ?case
  proof (cases "r = -1")
    case True
    have "list_all2 (\<lambda>(img, X) pr. kept img X pr) xs' prs" using x(4) by (rule list_all2_mono) auto
    then show ?thesis using True p x k by simp
  next
    case False
    obtain prs' where "close_page_read sys prs = Done prs'" "list_all2 (\<lambda>(img, X) pr. kept img X pr) xs' prs'"
      using 2(1) [OF _ p [symmetric] refl False x(4)] x(2) by auto
    then show ?thesis using False p x(1,2) k2 by simp
  qed
qed simp

lemma byte_at_kept:
  assumes "list_all2 (\<lambda>l pr. kept (snd l) (offs (fst l) A) pr) ls prs" "\<forall>l\<in>set ls. wf_pmes (fst l)" "a \<notin> A"
  shows "byte_at (zip (map fst ls) (map pi_img prs)) a = byte_at ls a"
  using assms(1,2)
proof (induction rule: list_all2_induct)
  case (Cons l ls pr prs)
  obtain es img where l: "l = (es, img)" by fastforce
  have wf: "wf_pmes es" and k: "kept img (offs es A) pr" using Cons l by auto
  have "pi_img pr ! i = img ! i"
    if loc: "locate es 0 a = Some (e, i)" and p: "pagemap_present e" "i < length img" for e i
  proof -
    from wf loc obtain n where n: "n < length es" "e = es ! n" "covers e a" "i = img_off es n + (a - pe_vaddr e)"
      by (rule locate_Some)
    have "i \<notin> offs es A" using offs_inj [of n es a A] n p assms(3) by auto
    then show ?thesis using k p by (auto simp: kept_def)
  qed
  moreover have "length (pi_img pr) = length img" using k by (simp add: kept_def)
  ultimately show ?case using Cons by (auto simp: l split: option.split)
qed simp

lemma kept_fresh: "fresh l pr \<Longrightarrow> kept (snd l) X pr"
  by (auto simp: fresh_def kept_def)

lemma dchain_fresh:
  assumes "list_all2 fresh ls prs" "snapshots_ok ls" "\<forall>l\<in>set ls. solid (fst l)"
  shows "dchain A 0 ls prs"
  using assms unfolding dchain_def
proof (induction rule: list_all2_induct)
  case (Cons l ls pr prs)
  have "dlevel A 0 l pr" using Cons kept_fresh [of l pr]
    by (auto simp: dlevel_def klevel_def snapshots_ok_def fresh_def pos_ok_def at_start_def front_def)
  then show ?case using Cons by (simp add: snapshots_ok_def)
qed simp

lemma not_own:
  assumes wf: "wf_pmes es" and loc: "locate es 0 a = Some (e, i)" and par: "pagemap_in_parent e"
  shows "a \<notin> own es"
proof
  assume "a \<in> own es"
  then obtain j where j: "j < length es" "covers (es ! j) a" "\<not> pagemap_in_parent (es ! j)"
    by (auto simp: own_def in_set_conv_nth)
  from wf loc obtain k where k: "k < length es" "e = es ! k" "covers e a" by (rule locate_Some)
  have "j = k" using covers_unique [OF wf j(1) k(1) j(2)] k by simp
  then show False using j(3) k(2) par by simp
qed

lemma cr_dedup_ok:
  assumes fr: "list_all2 fresh (l # ls) prs" and ok: "snapshots_ok (l # ls)" "\<forall>l\<in>set ls. solid (fst l)"
  shows "\<exists>r prs'. cr_dedup_one_pagemap sys prs = Done (r, prs') \<and>
    (\<forall>a. byte_at (zip (map fst (l # ls)) (map pi_img prs')) a = byte_at (l # ls) a)"
proof -
  obtain es img where l: "l = (es, img)" by fastforce
  obtain pr ps where p: "prs = pr # ps" "fresh l pr" "list_all2 fresh ls ps" using fr by (auto simp: list_all2_Cons1)
  have wf: "wf_pmes es" "\<forall>l\<in>set ls. wf_pmes (fst l)" "snapshots_ok ls" using ok(1) by (auto simp: snapshots_ok_def l)
  let ?X = "(img, {}) # map (\<lambda>l. (snd l, offs (fst l) (own es))) ls"
  have fin: "\<exists>prs'. close_page_read sys qs = Done prs' \<and>
      (\<forall>a. byte_at (zip (map fst (l # ls)) (map pi_img prs')) a = byte_at (l # ls) a)"
    if q: "list_all2 (\<lambda>(img, X) pr. async pr = [] \<and> kept img X pr) ?X qs" for qs
  proof -
    from close_page_read_kept [OF q, of sys] obtain pr' ps' where c: "close_page_read sys qs = Done (pr' # ps')"
        "kept img {} pr'" "list_all2 (\<lambda>l pr. kept (snd l) (offs (fst l) (own es)) pr) ls ps'"
      by (auto simp: list_all2_Cons1 list_all2_map1)
    have "pi_img pr' = img" using c(2) by (auto simp: kept_def intro: nth_equalityI)
    moreover have "byte_at (zip (map fst ls) (map pi_img ps')) a = byte_at ls a"
      if "locate es 0 a = Some (e, i)" "pagemap_in_parent e" for a e i
      using byte_at_kept [OF c(3) wf(2)] not_own [OF wf(1) that] .
    ultimately show ?thesis using c(1) by (auto simp: l split: option.split)
  qed
  show ?thesis
  proof (cases "ls = []")
    case True
    then have "list_all2 (\<lambda>(img, X) pr. async pr = [] \<and> kept img X pr) ?X prs"
      using p kept_fresh [OF p(2)] by (auto simp: fresh_def l)
    then show ?thesis using fin [of prs] True p by (auto simp: cr_dedup_one_pagemap_def)
  next
    case False
    have "\<exists>r pr' ps'. dedup_entries sys pr ps = Some (r, pr' # ps') \<and> kchain (own es) ls ps' \<and> data pr' = data pr"
      using dedup_entries_ok [OF wf(1), of pr 0 0 ls ps sys] p(2) dchain_fresh [OF p(3) wf(3) ok(2)] False
      by (simp add: fresh_def l)
    then obtain r pr' ps' where d: "dedup_entries sys pr ps = Some (r, pr' # ps')" "kchain (own es) ls ps'" "data pr' = data pr"
      by blast
    have "kept img {} pr'" "async pr' = []"
      using d(3) p(2) kept_fresh [OF p(2)] by (auto simp: data_def kept_def fresh_def l)
    then have "list_all2 (\<lambda>(img, X) pr. async pr = [] \<and> kept img X pr) ?X (pr' # ps')"
      using d(2) by (simp add: kchain_def klevel_def [abs_def] list_all2_map1)
    from fin [OF this] obtain prs' where c: "close_page_read sys (pr' # ps') = Done prs'"
        "\<forall>a. byte_at (zip (map fst (l # ls)) (map pi_img prs')) a = byte_at (l # ls) a" by blast
    have "ps \<noteq> []" using p(3) False by auto
    then have "cr_dedup_one_pagemap sys prs = Done (if r < 0 then r else 0, prs')"
      using d(1) c(1) by (simp add: cr_dedup_one_pagemap_def p(1) del: close_page_read.simps)
    with c(2) show ?thesis by blast
  qed
qed

subsection \<open>Synchronous reads leave nothing queued\<close>

definition idle :: "page_read list \<Rightarrow> bool" where
  "idle prs \<longleftrightarrow> (\<forall>pr\<in>set prs. async pr = [])"

lemma idle_simps [simp]: "idle []" "idle (pr # prs) \<longleftrightarrow> async pr = [] \<and> idle prs"
  by (auto simp: idle_def)

lemma idle_pendings: "idle prs \<Longrightarrow> pendings prs = {}"
  by (induction prs) auto

lemma process_async_reads_idle: "idle prs \<Longrightarrow> process_async_reads sys prs m = Done (0, prs, m)"
proof (induction prs)
  case (Cons pr prs)
  have "pr\<lparr>async := []\<rparr> = pr" using Cons.prems by simp
  then show ?case using Cons by simp
qed simp

lemma punch_hole_async: "punch_hole sys pr off len cl = (r, pr') \<Longrightarrow> async pr' = async pr"
  by (auto simp: punch_hole_def Let_def split: if_splits)

lemma stream_loop_async: "stream_loop sys pr len buf cur m = (r, pr', m') \<Longrightarrow> async pr' = async pr"
proof (induction sys pr len buf cur m rule: stream_loop.induct)
  case (1 sys pr len buf cur m)
  show ?case
  proof (cases "sys_pread sys pr (pi_pos pr) (len - cur)")
    case None
    then show ?thesis using 1(2) by (simp add: stream_loop.simps [of sys pr])
  next
    case (Some bs)
    let ?pr = "pr\<lparr>pi_pos := pi_pos pr + length bs\<rparr>"
    consider "bs = []" | "bs \<noteq> []" "cur + length bs = len" | "bs \<noteq> []" "cur + length bs \<noteq> len" by blast
    then show ?thesis
    proof cases
      case 3
      then have "stream_loop sys ?pr len buf (cur + length bs) (mem_write m (buf + cur) bs) = (r, pr', m')"
        using 1(2) Some by (simp add: stream_loop.simps [of sys pr] Let_def)
      then have "async pr' = async ?pr" using 1(1) Some 3 by blast
      then show ?thesis by simp
    qed (use 1(2) Some in \<open>auto simp: stream_loop.simps [of sys pr] Let_def\<close>)
  qed
qed

lemma read_page_source_idle:
  assumes "read_page_source sys prs vaddr nr buf flags m = Done (r, prs', m')" "idle prs" "prs \<noteq> []"
    "flags AND (PR_ASYNC OR PR_ASAP) \<noteq> PR_ASYNC"
  shows "idle prs'"
proof -
  obtain pr ps where p: "prs = pr # ps" using assms(3) by (cases prs) auto
  show ?thesis
    using assms process_async_reads_idle [OF assms(2), of sys m]
    by (cases "maybe_read_page pr")
      (auto simp: p read_page_source_def maybe_read_page_local_def maybe_read_page_img_streamer_def read_local_page_def Let_def
        split: prod.splits if_splits dest!: punch_hole_async stream_loop_async)
qed

text \<open>The interface of a \<open>read_pages\<close> method that, with these flags, leaves no read queued.\<close>

locale sync_reader =
  fixes rd :: reader and flags :: u32
  assumes keeps_idle: "rd prs vaddr nr buf flags m = Done (r, prs', m') \<Longrightarrow> prs \<noteq> [] \<Longrightarrow> idle prs \<Longrightarrow> idle prs'"

lemma seek_pagemap_async: "seek_pagemap pr v = (r, pr') \<Longrightarrow> async pr' = async pr"
  using seek_pagemap_data [of pr v] by (simp add: data_def)

context sync_reader
begin

lemma read_parent_page_idle:
  "read_parent_page rd prs vaddr nr buf flags m = Done (r, prs', m') \<Longrightarrow> idle prs \<Longrightarrow> idle prs'"
proof (induction nr arbitrary: prs vaddr buf m rule: less_induct)
  case (less nr)
  show ?case
  proof (cases prs)
    case (Cons pr ps)
    obtain ret pr1 where s: "seek_pagemap pr vaddr = (ret, pr1)" by fastforce
    have i: "idle (pr1 # ps)" using less.prems(2) seek_pagemap_async [OF s] Cons by simp
    show ?thesis
    proof (cases "ret \<le> 0")
      case True
      then show ?thesis using less.prems(1) s i by (auto simp: Cons)
    next
      case False
      let ?p = "parent_pages pr1 vaddr nr"
      from less.prems(1) False obtain r1 prs1 m1 where 1: "rd (pr1 # ps) vaddr ?p buf flags m = Done (r1, prs1, m1)"
        by (auto simp: Cons s Let_def bind_run_eq_Done)
      have i1: "idle prs1" using keeps_idle [OF 1 _ i] by simp
      show ?thesis
      proof (cases "r1 = -1 \<or> nr - ?p = 0")
        case True
        then show ?thesis using less.prems(1) False 1 i1 by (auto simp: Cons s Let_def split: if_splits)
      next
        case go: False
        have "0 < nr" using go by simp
        then have "0 < ?p" using parent_pages_pos [OF s] False by simp
        moreover have "read_parent_page rd prs1 (ul_add vaddr (?p * PAGE_SIZE)) (nr - ?p) (buf + ?p * PAGE_SIZE) flags m1
            = Done (r, prs', m')" using less.prems(1) False go 1 by (simp add: Cons s Let_def)
        ultimately show ?thesis using less.IH [of "nr - ?p"] i1 go by auto
      qed
    qed
  qed (use less.prems in simp)
qed

end

lemma read_pages_upto_idle:
  assumes f: "flags AND (PR_ASYNC OR PR_ASAP) \<noteq> PR_ASYNC"
  shows "sync_reader (read_pages_upto n sys) flags"
proof (induction n)
  case (Suc n)
  show ?case
  proof
    fix prs vaddr nr buf m r prs' m'
    assume rd: "read_pages_upto (Suc n) sys prs vaddr nr buf flags m = Done (r, prs', m')" and i: "prs \<noteq> []" "idle prs"
    then obtain pr ps where p: "prs = pr # ps" by (cases prs) auto
    let ?e = "the (pe pr)"
    obtain r1 prs1 m1 where s: "(if pagemap_in_parent ?e
        then bind_run (read_parent_page (read_pages_upto n sys) ps vaddr nr buf flags m)
               (\<lambda>(ret, pprs, m). Done (ret, pr # pprs, m))
        else read_page_source sys prs vaddr nr buf flags m) = Done (r1, prs1, m1)"
      using rd by (auto simp: p Let_def bind_run_eq_Done split: if_splits)
    have "idle prs1 \<and> prs1 \<noteq> []"
    proof (cases "pagemap_in_parent ?e")
      case True
      then show ?thesis using s sync_reader.read_parent_page_idle [OF Suc] i by (auto simp: p bind_run_eq_Done)
    next
      case False
      then show ?thesis using s read_page_source_idle [OF _ i(2,1) f] walk_read_page_source [OF _ i(1)] i(1) by fastforce
    qed
    then show "idle prs'" using rd s by (cases prs1) (auto simp: p Let_def split: if_splits)
  qed
qed (simp add: sync_reader_def)

interpretation sync: sync_reader "read_pages_upto n sys" 0 for n sys
  by (rule read_pages_upto_idle) (simp add: PR_ASYNC_def)

subsection \<open>Shared memory\<close>

text \<open>
  The reader has taken all of the entries before \<open>j\<close>.
\<close>

definition done_upto :: "page_read \<Rightarrow> nat \<Rightarrow> bool" where
  "done_upto pr j \<longleftrightarrow> j = 0 \<and> at_start pr \<or> (\<exists>k. j = Suc k \<and> at_entry pr k \<and> cvaddr pr = pe_end (pmes pr ! k))"

lemma level_ok_advance:
  assumes lev: "level_ok D v (es, img) pr" and d: "done_upto pr j" "j \<le> length es"
  obtains (stop) pr' where "j = length es" "advance pr = (0, pr')" "async pr' = async pr"
  | (more) pr' where "j < length es" "advance pr = (1, pr')" "at_entry pr' j" "cvaddr pr' = pe_vaddr (es ! j)"
      "level_ok D (pe_vaddr (es ! j)) (es, img) pr'" "async pr' = async pr"
proof -
  have wf: "wf_pmes (pmes pr)" and pm: "pmes pr = es" using lev by (auto simp: level_ok_def pos_ok_def)
  have frm: "data (snd (advance pr)) = data pr" by simp
  have lev': "level_ok D (pe_vaddr (es ! j)) (es, img) pr'"
    if a: "advance pr = (1, pr')" "at_entry pr' j" "cvaddr pr' = pe_vaddr (es ! j)" "pi_off pr' = pi_off pr" for pr'
  proof -
    have "data pr' = data pr" using frm a(1) by simp
    then show ?thesis using lev a by (auto simp: level_ok_def data_ok_def data_def pos_ok_def front_def kept_def)
  qed
  from d(1) consider "j = 0" "at_start pr" | k where "j = Suc k" "at_entry pr k" "cvaddr pr = pe_end (pmes pr ! k)"
    by (auto simp: done_upto_def)
  then show thesis
  proof cases
    case 1
    from wf 1(2) show ?thesis
    proof (cases rule: at_start_advance)
      case (empty pr1)
      then show ?thesis using stop [of pr1] 1 pm frm by (simp add: data_def)
    next
      case (step pr1)
      moreover have "pmes pr1 = pmes pr" using frm step(1) by (simp add: data_def)
      ultimately have "pi_off pr1 = pi_off pr" using 1(2) by (auto simp: at_start_def at_entry_def)
      then show ?thesis using more [of pr1] lev' [of pr1] step 1 pm frm by (simp add: data_def)
    qed
  next
    case (2 k)
    from wf 2(2,3) show ?thesis
    proof (cases rule: advance_at_entry)
      case (last pr1)
      then show ?thesis using stop [of pr1] 2 pm frm by (simp add: data_def)
    next
      case (step pr1)
      then show ?thesis using more [of pr1] lev' [of pr1] 2 pm frm by (simp add: data_def)
    qed
  qed
qed

definition closable :: "page_read list \<Rightarrow> bool" where
  "closable prs \<longleftrightarrow> (\<exists>imgs. list_all2 (\<lambda>(img, X) pr. async pr = [] \<and> kept img X pr) imgs prs)"

lemma closable_close: "closable prs \<Longrightarrow> \<exists>prs'. close_page_read sys prs = Done prs'"
  using close_page_read_kept unfolding closable_def by blast

lemma level_ok_kept: "level_ok D v l pr \<Longrightarrow> kept (snd l) UNIV pr"
  unfolding level_ok_def data_ok_def by (blast intro: kept_mono)

lemma chain_ok_closable: "chain_ok D v ls prs \<Longrightarrow> idle prs \<Longrightarrow> closable prs"
proof -
  assume "chain_ok D v ls prs" "idle prs"
  then have "list_all2 (\<lambda>(img, X) pr. async pr = [] \<and> kept img X pr) (map (\<lambda>l. (snd l, UNIV)) ls) prs"
    unfolding chain_ok_def
    by (induction rule: list_all2_induct) (auto intro: level_ok_kept)
  then show "closable prs" unfolding closable_def by blast
qed

lemma level_ok_data: "level_ok D v l pr \<Longrightarrow> data pr' = data pr \<Longrightarrow> closable ps \<Longrightarrow> async pr = [] \<Longrightarrow> closable (pr' # ps)"
proof -
  assume a: "level_ok D v l pr" "data pr' = data pr" "closable ps" "async pr = []"
  then have "async pr' = []" "kept (snd l) UNIV pr'" using level_ok_kept [OF a(1)] by (auto simp: data_def kept_def)
  with a(3) show ?thesis unfolding closable_def by (force intro: list_all2_Cons [THEN iffD2])
qed

text \<open>The turn of the loop for the entry \<open>j\<close>.\<close>

lemma restore_shmem_turn:
  assumes sys: "sys_ok sys" and ch: "chain_ok D v ((es, img) # ls) (pr # ps)" and i: "idle (pr # ps)"
    and at: "at_entry pr j" "cvaddr pr = pe_vaddr (es ! j)" "curr_pme pr = int j" "v \<le> pe_vaddr (es ! j)"
    and b: "\<forall>a. covers (es ! j) a \<longrightarrow> byte_at ((es, img) # ls) a = Some (D (addr + a))"
  obtains pr' ps' m' where
    "read_pagemap_page sys (pr # ps) (pe_vaddr (es ! j)) (nr_pages (es ! j)) (addr + pe_vaddr (es ! j)) 0 m = Done (1, pr' # ps', m')"
    "chain_ok D (pe_end (es ! j)) ((es, img) # ls) (pr' # ps')" "idle (pr' # ps')" "done_upto pr' (Suc j)"
    "toward D m m'" "\<forall>a. covers (es ! j) a \<longrightarrow> m' (addr + a) = D (addr + a)"
proof -
  let ?e = "es ! j"
  have lev: "level_ok D v (es, img) pr" using ch by (simp add: chain_ok_def)
  have pm: "pmes pr = es" "j < length es" "wf_pe ?e"
    using lev at(1) at_entry_wf [of pr j] by (auto simp: level_ok_def pos_ok_def at_entry_def)
  have len: "nr_pages ?e * PAGE_SIZE = pagemap_len ?e" by (simp add: pagemap_len_def)
  have pe: "pe_vaddr ?e + pagemap_len ?e = pe_end ?e" by (simp add: pe_end_def)
  have bb: "\<forall>i<pagemap_len ?e. byte_at ((es, img) # ls) (pe_vaddr ?e + i) = Some (D (addr + pe_vaddr ?e + i))"
    using b pe by (auto simp: covers_def add.assoc simp del: byte_at.simps)
  have rq: "request D ((es, img) # ls) (pr # ps) v (pe_vaddr ?e) (nr_pages ?e) (addr + pe_vaddr ?e) j"
    using ch at pm bb pe by (simp add: request_def len wf_pe_def del: byte_at.simps)
  have "reader_ok D ((es, img) # ls) (read_pages_upto (length (pr # ps)) sys)"
    by (rule read_pages_upto_ok [OF sys]) (use ch in \<open>auto simp: chain_ok_def dest: list_all2_lengthD\<close>)
  from reader_okD [OF this rq, of 0 m] obtain prs' m' where
    1: "read_pagemap_page sys (pr # ps) (pe_vaddr ?e) (nr_pages ?e) (addr + pe_vaddr ?e) 0 m = Done (1, prs', m')"
      "chain_ok D (pe_end ?e) ((es, img) # ls) prs'" "serves D (pr # ps) m prs' m' {addr + pe_vaddr ?e..<addr + pe_vaddr ?e + pagemap_len ?e}"
      "walk (hd prs') = walk pr" "cvaddr (hd prs') = pe_end ?e"
    unfolding read_pagemap_page_def len pe list.sel by blast
  obtain pr' ps' where p: "prs' = pr' # ps'" using 1(2) by (auto simp: chain_ok_def list_all2_Cons1)
  have idle: "idle prs'" using sync.keeps_idle [OF 1(1) [unfolded read_pagemap_page_def]] i by simp
  have w: "pmes pr' = es" "curr_pme pr' = int j" "pe pr' = Some ?e"
    using 1(4) pm at by (auto simp: p walk_def at_entry_def)
  have "pos_ok pr'" using 1(2) by (auto simp: p chain_ok_def level_ok_def)
  then obtain k where "at_entry pr' k" using w(3) by (auto simp: pos_ok_def at_start_def)
  moreover then have "k = j" using w(1,2) pm(2) by (auto simp: at_entry_def)
  ultimately have "done_upto pr' (Suc j)" using 1(5) w(1) by (simp add: done_upto_def p)
  moreover have "m' (addr + a) = D (addr + a)" if "covers ?e a" for a
  proof -
    have "addr + a \<in> {addr + pe_vaddr ?e..<addr + pe_vaddr ?e + pagemap_len ?e}" using that pe by (auto simp: covers_def)
    then show ?thesis using 1(3) idle_pendings [OF idle] by (auto simp: serves_def)
  qed
  ultimately show thesis using that [of pr' ps' m'] 1 idle by (auto simp: p serves_def)
qed

lemma restore_shmem_entries_ok:
  assumes sys: "sys_ok sys" and "chain_ok D v ((es, img) # ls) prs" "done_upto (hd prs) j" "j \<le> length es" "idle prs"
    "\<forall>i<length es. j \<le> i \<longrightarrow> v \<le> pe_vaddr (es ! i)"
    and sz: "\<forall>e\<in>set es. pe_end e \<le> sz" and b: "\<forall>a. mapped es a \<longrightarrow> byte_at ((es, img) # ls) a = Some (D (addr + a))"
  shows "\<exists>prs' m'. restore_shmem_entries sys prs addr sz m = Done (0, prs', m') \<and> closable prs' \<and> toward D m m' \<and>
    (\<forall>i<length es. j \<le> i \<longrightarrow> (\<forall>a. covers (es ! i) a \<longrightarrow> m' (addr + a) = D (addr + a)))"
  using assms(2-6)
proof (induction "length es - j" arbitrary: j v prs m rule: less_induct)
  case less
  obtain pr ps where p: "prs = pr # ps" "level_ok D v (es, img) pr" "chain_ok D v ls ps"
    using less.prems(1) by (auto simp: chain_ok_def list_all2_Cons1)
  have wf: "wf_pmes es" using p(2) by (auto simp: level_ok_def pos_ok_def)
  have d: "done_upto pr j" using less.prems(2) p(1) by simp
  from p(2) d less.prems(3) show ?case
  proof (cases rule: level_ok_advance)
    case (stop pr')
    have "data pr' = data pr" using advance_data [of pr] stop(2) by simp
    then have "closable (pr' # ps)"
      using level_ok_data [OF p(2)] chain_ok_closable [OF p(3)] less.prems(4) by (simp add: p(1))
    then show ?thesis using stop by (subst restore_shmem_entries.simps) (auto simp: p(1))
  next
    case (more pr')
    let ?e = "es ! j"
    have e: "?e \<in> set es" "wf_pe ?e" "pe pr' = Some ?e" and cur: "curr_pme pr' = int j"
      using more wf_pmes_nth [OF wf] p(2) by (auto simp: at_entry_def level_ok_def advance_def Let_def split: if_splits)
    have ch: "chain_ok D (pe_vaddr ?e) ((es, img) # ls) (pr' # ps)"
      using more(5) chain_ok_mono [OF p(3)] less.prems(5) more(1) by (simp add: chain_ok_def)
    have i: "idle (pr' # ps)" using less.prems(4) more(6) p(1) by simp
    have bj: "\<forall>a. covers ?e a \<longrightarrow> byte_at ((es, img) # ls) a = Some (D (addr + a))" using b e(1) by (auto simp: mapped_def)
    from restore_shmem_turn [OF sys ch i more(3,4) cur order.refl bj, of m] obtain pr2 ps2 m2 where
      1: "read_pagemap_page sys (pr' # ps) (pe_vaddr ?e) (nr_pages ?e) (addr + pe_vaddr ?e) 0 m = Done (1, pr2 # ps2, m2)"
        "chain_ok D (pe_end ?e) ((es, img) # ls) (pr2 # ps2)" "idle (pr2 # ps2)" "done_upto pr2 (Suc j)" "toward D m m2"
        "\<forall>a. covers ?e a \<longrightarrow> m2 (addr + a) = D (addr + a)" by metis
    have nxt: "\<forall>i<length es. Suc j \<le> i \<longrightarrow> pe_end ?e \<le> pe_vaddr (es ! i)" using wf_pmes_less [OF wf] by auto
    have "length es - Suc j < length es - j" using more(1) by simp
    from less.hyps [OF this 1(2) _ _ 1(3) nxt, of m2] more(1) 1(4) obtain prs3 m3 where
      2: "restore_shmem_entries sys (pr2 # ps2) addr sz m2 = Done (0, prs3, m3)" "closable prs3" "toward D m2 m3"
        "\<forall>i<length es. Suc j \<le> i \<longrightarrow> (\<forall>a. covers (es ! i) a \<longrightarrow> m3 (addr + a) = D (addr + a))" by auto
    have "\<not> sz < ul_add (pe_vaddr ?e) (nr_pages ?e * PAGE_SIZE)"
      using sz e wf_pe_end [OF e(2)] by (simp add: pagemap_len_def not_less)
    then have "restore_shmem_entries sys prs addr sz m = Done (0, prs3, m3)"
      using more(2) e(3) 1(1) 2(1) by (subst restore_shmem_entries.simps) (simp add: p(1) Let_def)
    moreover have "m3 (addr + a) = D (addr + a)" if "i < length es" "j \<le> i" "covers (es ! i) a" for i a
      using that 2(4) 1(6) toward_D [OF 2(3)] by (cases "i = j") auto
    ultimately show ?thesis using 2(2) toward_trans [OF 1(5) 2(3)] by auto
  qed
qed

lemma shmem_ok:
  assumes fr: "list_all2 fresh (l # ls) prs" and ok: "snapshots_ok (l # ls)" and sys: "sys_ok sys"
    and sz: "\<forall>e\<in>set (fst l). pe_end e \<le> sz" and full: "\<forall>a. mapped (fst l) a \<longrightarrow> byte_at (l # ls) a \<noteq> None"
  shows "\<exists>prs'. do_restore_shmem_content sys prs addr sz m = Done (0, prs', \<lambda>x. if addr \<le> x
    then (case byte_at (l # ls) (x - addr) of Some b \<Rightarrow> b | None \<Rightarrow> m x) else m x)"
proof -
  obtain es img where l: "l = (es, img)" by fastforce
  define D where "D = (\<lambda>x. if addr \<le> x then (case byte_at (l # ls) (x - addr) of Some b \<Rightarrow> b | None \<Rightarrow> m x) else m x)"
  have Da: "byte_at (l # ls) a = Some (D (addr + a))" if "mapped es a" for a
  proof -
    have "byte_at (l # ls) a \<noteq> None" using full that by (simp add: l del: byte_at.simps)
    then show ?thesis by (auto simp: D_def simp del: byte_at.simps)
  qed
  obtain pr ps where p: "prs = pr # ps" "fresh l pr" using fr by (auto simp: list_all2_Cons1)
  have "done_upto (hd prs) 0" "idle prs"
    using fr by (auto simp: p done_upto_def at_start_def fresh_def idle_def list_all2_conv_all_nth set_conv_nth)
  with restore_shmem_entries_ok [OF sys chain_ok_fresh [OF fr ok, unfolded l, of D], of 0 sz addr m] sz Da
  obtain prs' m' where 1: "restore_shmem_entries sys prs addr sz m = Done (0, prs', m')" "closable prs'" "toward D m m'"
      "\<forall>i<length es. \<forall>a. covers (es ! i) a \<longrightarrow> m' (addr + a) = D (addr + a)" by (auto simp: l)
  from closable_close [OF 1(2), of sys] obtain prs2 where c: "close_page_read sys prs' = Done prs2" by blast
  have "m' x = D x" for x
  proof (cases "addr \<le> x \<and> mapped es (x - addr)")
    case True
    then show ?thesis using 1(4) by (fastforce simp: mapped_def in_set_conv_nth)
  next
    case False
    then have "D x = m x" using locate_None [of es 0 "x - addr"] by (auto simp: D_def l split: option.split)
    then show ?thesis using 1(3) by (auto simp: toward_def)
  qed
  then have "m' = D" by auto
  then show ?thesis using 1(1) c by (simp add: do_restore_shmem_content_def D_def)
qed

subsection \<open>Reads at the end of a truncated image\<close>

text \<open>A job whose bytes the file does not have: every \<open>preadv\<close> returns 0.\<close>

definition starved :: "pr_sys \<Rightarrow> page_read \<Rightarrow> page_read_iov \<Rightarrow> bool" where
  "starved sys pr p \<longleftrightarrow> length (pi_img pr) \<le> piov_from p \<and> piov_from p < piov_end p \<and>
     0 \<le> pread_len sys (pr_id pr) (piov_from p) (iov_bytes (piov_to p))"

lemma advance_iovs_0 [simp]: "advance_iovs vs 0 = vs"
  by (cases vs) auto

lemma read_piov_starved: "starved sys pr p \<Longrightarrow> read_piov sys pr p m = None"
proof (rule ccontr)
  assume s: "starved sys pr p" and "read_piov sys pr p m \<noteq> None"
  then obtain y where y: "read_piov sys pr p m = Some y" by auto
  have "\<not> starved sys pr p"
  proof (rule read_piov.raw_induct [OF _ y, where P = "\<lambda>sys pr p m y. \<not> starved sys pr p"])
    fix rec sys pr p m y
    assume IH: "\<And>sys pr p m y. rec sys pr p m = Some y \<Longrightarrow> \<not> starved sys pr p"
      and r: "(case sys_pread sys pr (piov_from p) (iov_bytes (piov_to p)) of None \<Rightarrow> Some (-1, p, m)
        | Some bs \<Rightarrow> let m = scatter (piov_to p) bs m;
            ret = (if fi_partial_pages sys \<and> bs \<noteq> [] \<and> 2 \<le> length (piov_to p) then length bs div 2 else length bs)
          in if int ret = int (piov_end p) - int (piov_from p) then Some (int ret, p, m)
             else rec sys pr (advance_piov p ret) m) = Some y"
    show "\<not> starved sys pr p"
    proof
      assume s: "starved sys pr p"
      then have "sys_pread sys pr (piov_from p) (iov_bytes (piov_to p)) = Some []"
        by (simp add: starved_def sys_pread_def Let_def)
      then have "rec sys pr (advance_piov p 0) (scatter (piov_to p) [] m) = Some y"
        using r s by (simp add: starved_def split: if_splits)
      moreover have "advance_piov p 0 = p" by (simp add: advance_piov_def)
      ultimately show False using IH s by metis
    qed
  qed
  with s show False by blast
qed

subsection \<open>Shared memory when reading fails\<close>

lemma restore_shmem_failing:
  assumes fail: "\<forall>i off n. pread_len sys i off n < 0"
    and "maybe_read_page pr = Local_image" "async pr = []" "io_complete pr = None" "pmes pr = es" "curr_pme pr = int j - 1"
      "j \<le> length es" "bunch pr = \<lparr>iov_base = 0, iov_len = 0\<rparr>"
    and wf: "\<forall>e\<in>set es. wf_pe e \<and> \<not> pagemap_in_parent e \<and> pe_end e \<le> sz"
  shows "\<exists>pr'. restore_shmem_entries sys [pr] addr sz m = Done (0, [pr'], m) \<and> async pr' = [] \<and>
    bunch pr' = \<lparr>iov_base = 0, iov_len = 0\<rparr>"
  using assms(2-8)
proof (induction "length es - j" arbitrary: j pr rule: less_induct)
  case less
  show ?case
  proof (cases "j = length es")
    case True
    then have "advance pr = (0, pr\<lparr>curr_pme := int j\<rparr>)" using less.prems by (simp add: advance_def Let_def)
    then show ?thesis using less.prems by (subst restore_shmem_entries.simps) simp
  next
    case False
    then have j: "j < length es" using less.prems by simp
    let ?e = "es ! j"
    let ?pr = "pr\<lparr>curr_pme := int j, pe := Some ?e, cvaddr := pe_vaddr ?e\<rparr>"
    let ?pr2 = "?pr\<lparr>pi_off := pi_off pr + nr_pages ?e * PAGE_SIZE\<rparr>"
    have adv: "advance pr = (1, ?pr)" using j less.prems by (simp add: advance_def Let_def)
    have e: "wf_pe ?e" "\<not> pagemap_in_parent ?e" "pe_end ?e \<le> sz" using wf j by auto
    have z: "\<not> sz < ul_add (pe_vaddr ?e) (nr_pages ?e * PAGE_SIZE)"
      using e wf_pe_end [OF e(1)] by (simp add: pagemap_len_def not_less)
    have idle: "process_async_reads sys [?pr] m = Done (0, [?pr], m)"
      using process_async_reads_idle [of "[?pr]"] less.prems(2) by simp
    have "pread_loop sys ?pr (nr_pages ?e * PAGE_SIZE) (addr + pe_vaddr ?e) 0 m = (-1, m)"
      using fail by (subst pread_loop.simps) (simp add: sys_pread_def Let_def)
    then have "read_pagemap_page sys [?pr] (pe_vaddr ?e) (nr_pages ?e) (addr + pe_vaddr ?e) 0 m = Done (-1, [?pr2], m)"
      using less.prems e(2) idle
      by (simp add: read_pagemap_page_def pagemap_bound_check_def read_page_source_def maybe_read_page_local_def
          read_local_page_def PR_ASYNC_def Let_def del: process_async_reads.simps)
    then have "restore_shmem_entries sys [pr] addr sz m = restore_shmem_entries sys [?pr2] addr sz m"
      using adv z by (subst restore_shmem_entries.simps) (simp add: Let_def)
    moreover have "length es - Suc j < length es - j" using j by simp
    from less.hyps [OF this, of ?pr2] less.prems j obtain pr' where
      "restore_shmem_entries sys [?pr2] addr sz m = Done (0, [pr'], m)" "async pr' = []"
      "bunch pr' = \<lparr>iov_base = 0, iov_len = 0\<rparr>" by auto
    ultimately show ?thesis by auto
  qed
qed

subsection \<open>The array of entries\<close>


subsection \<open>Properties\<close>

text \<open>
  (C5) Readers opened on a directory of images, used for any series of requests at increasing
  addresses, each inside one entry of the newest pagemap, with any mix of synchronous and
  queued reads: every request succeeds, and after the final wait the buffers hold exactly the
  bytes that the series of snapshots has for the addresses, however \<open>pread\<close> splits the reads,
  also when the pages are punched out of the images behind the reads. Nothing else is written.
\<close>

theorem page_reads_correct:
  assumes "open_page_read_at sys False lazy img d i = Done (1, prs, j)" "snapshots_ok (snapshots d)" "sys_ok sys"
    "requests_ok D (snapshots d) 0 reqs"
  shows "\<exists>prs' m'. read_requests sys prs reqs m = Done (0, prs', m') \<and> (\<forall>x\<in>requested reqs. m' x = D x) \<and>
    (\<forall>x. m' x = m x \<or> m' x = D x)"
proof -
  from open_page_read_at_fresh [OF assms(1)] have fr: "list_all2 fresh (snapshots d) prs" "snapshots d \<noteq> []" by auto
  then obtain l ls where ls: "snapshots d = l # ls" by (cases "snapshots d") auto
  from read_requests_ok [OF assms(3) ls chain_ok_fresh [OF fr(1) assms(2)] assms(4), of m] show ?thesis
    by (auto simp: serves_def toward_def)
qed

definition demo_pr_sys :: pr_sys where
  "demo_pr_sys = \<lparr>pread_len = (\<lambda>_ _ n. int n), falloc_ok = (\<lambda>_ _ _. True), xalloc_ok = True, auto_dedup = True,
     fi_partial_pages = False\<rparr>"

definition demo_entry :: "nat \<Rightarrow> nat \<Rightarrow> u32 \<Rightarrow> pagemap_entry" where
  "demo_entry a n f = \<lparr>pe_vaddr = a, nr_pages = n, pe_flags = f, has_flags = True, pe_in_parent = None\<rparr>"

definition demo_es :: "pagemap_entry list" where
  "demo_es = [demo_entry 4096 1 PE_PRESENT, demo_entry 8192 1 PE_PARENT]"

definition demo_old :: "pagemap_entry list" where
  "demo_old = [demo_entry 4096 2 PE_PRESENT]"

definition demo_dir :: image_dir where
  "demo_dir = Image_dir (Some (64, demo_es, False)) False (Some (replicate 4096 9))
     (Some (Image_dir (Some (64, demo_old, False)) False (Some (replicate 4096 1 @ replicate 4096 2)) None))"

definition demo_ls :: "(pagemap_entry list \<times> byte list) list" where
  "demo_ls = [(demo_es, replicate 4096 9), (demo_old, replicate 4096 1 @ replicate 4096 2)]"

definition demo_prs :: "page_read list" where
  "demo_prs = [new_page_read 1 5 demo_es (replicate 4096 9) False False True,
     new_page_read 0 5 demo_old (replicate 4096 1 @ replicate 4096 2) False False False]"

lemmas demo_pe_simps = demo_entry_def pe_end_def pagemap_len_def covers_def PAGE_SIZE_def pagemap_in_parent_def
  pagemap_present_def PE_PRESENT_def PE_PARENT_def

lemma demo_snapshots: "snapshots demo_dir = demo_ls"
  by (simp add: demo_dir_def demo_ls_def demo_es_def demo_old_def demo_entry_def init_compat_pagemap_entry_def)

lemma demo_snapshots_ok: "snapshots_ok demo_ls"
  by (simp add: snapshots_ok_def demo_ls_def wf_pmes_def wf_pe_def demo_es_def demo_old_def img_off_def stored_def
      demo_pe_simps ULONG_MOD_def)

lemma demo_open: "open_page_read_at demo_pr_sys False False 5 demo_dir 0 = Done (1, demo_prs, 2)"
  by (simp add: demo_dir_def demo_pr_sys_def demo_prs_def demo_es_def demo_old_def demo_entry_def init_pagemaps_def
      PAGEMAP_ENTRY_SIZE_ESTIMATE_def init_compat_pagemap_entry_def numeral_2_eq_2)

lemma demo_pr_sys_ok: "sys_ok demo_pr_sys"
  by (simp add: sys_ok_def pread_ok_def punch_all_def demo_pr_sys_def)

lemma demo_byte_at:
  "a < 4096 \<Longrightarrow> byte_at demo_ls (4096 + a) = Some 9" "a < 4096 \<Longrightarrow> byte_at demo_ls (8192 + a) = Some 2"
  by (simp_all add: demo_ls_def demo_es_def demo_old_def stored_def demo_pe_simps nth_append)

theorem page_reads_correct_witness:
  "\<exists>prs' m'. read_requests demo_pr_sys demo_prs [(4096, 1, 0, PR_ASYNC), (8192, 1, 4096, 0)] (\<lambda>_. 0) = Done (0, prs', m')
     \<and> m' 17 = 9 \<and> m' 4097 = 2 \<and> m' 8192 = 0"
proof -
  let ?D = "\<lambda>x. if x < 4096 then 9 else if x < 8192 then 2 else 0 :: byte"
  let ?reqs = "[(4096, 1, 0, PR_ASYNC), (8192, 1, 4096, 0)]"
  have "requests_ok ?D demo_ls 0 ?reqs"
    using demo_byte_at by (simp add: PAGE_SIZE_def) (simp add: demo_ls_def demo_es_def demo_pe_simps)
  with page_reads_correct [OF demo_open, unfolded demo_snapshots, OF demo_snapshots_ok demo_pr_sys_ok, of ?D ?reqs "\<lambda>_. 0"]
  obtain prs' m' where r: "read_requests demo_pr_sys demo_prs ?reqs (\<lambda>_. 0) = Done (0, prs', m')"
    "\<forall>x\<in>requested ?reqs. m' x = ?D x" "\<forall>x. m' x = 0 \<or> m' x = ?D x" by auto
  have "17 \<in> requested ?reqs" "4097 \<in> requested ?reqs" by (auto simp: requested_def PAGE_SIZE_def)
  then have "m' 17 = 9" "m' 4097 = 2" "m' 8192 = 0" using r(2) spec [OF r(3), of 8192] by auto
  with r(1) show ?thesis by blast
qed

text \<open>
  (C15) \<open>seek_pagemap\<close> finds what a search of the whole pagemap finds: for an address that has
  not been passed, it returns 1 exactly when an entry holds the address, and then stands at
  that entry, at the address, and at the right offset of the pages image.
\<close>

theorem seek_pagemap_correct:
  assumes "pos_ok pr" "front v pr" "v < ULONG_MOD" "seek_pagemap pr v = (r, pr')"
  shows "pos_ok pr' \<and> front v pr' \<and>
    (case locate (pmes pr) 0 v of
       None \<Rightarrow> r = 0
     | Some (e, off) \<Rightarrow> r = 1 \<and> pe pr' = Some e \<and> cvaddr pr' = v \<and> (pagemap_present e \<longrightarrow> pi_off pr' = off))"
proof -
  note post = seek_pagemap_ok [OF assms(1-3), unfolded assms(4) seek_post_def fst_conv snd_conv]
  have wf: "wf_pmes (pmes pr)" and pm: "pmes pr' = pmes pr"
    using assms(1) seek_pagemap_data [of pr v] assms(4) by (auto simp: pos_ok_def data_def)
  show ?thesis
  proof (cases "r = 1")
    case True
    then obtain k where k: "at_entry pr' k" "covers (pmes pr ! k) v" "cvaddr pr' = v" using post by auto
    then have "k < length (pmes pr)" by (simp add: at_entry_def pm)
    then show ?thesis using True post k locate_nth [OF wf _ k(2), of 0] by (auto simp: at_entry_def pm)
  next
    case False
    then show ?thesis using post locate_None [of "pmes pr" 0 v] by auto
  qed
qed

theorem seek_pagemap_correct_witness:
  "fst (seek_pagemap (hd demo_prs) 8192) = 1 \<and> fst (seek_pagemap (hd demo_prs) 12288) = 0"
proof -
  let ?pr = "hd demo_prs"
  have pm: "pmes ?pr = demo_es" by (simp add: demo_prs_def new_page_read_def)
  have "wf_pmes demo_es" using demo_snapshots_ok by (simp add: snapshots_ok_def demo_ls_def)
  then have ok: "pos_ok ?pr" "front v ?pr" for v
    by (simp_all add: pos_ok_def front_def at_start_def demo_prs_def new_page_read_def)
  have "locate demo_es 0 8192 = Some (demo_entry 8192 1 PE_PARENT, 4096)" "locate demo_es 0 12288 = None"
    by (simp_all add: demo_es_def demo_pe_simps stored_def)
  then show ?thesis
    using seek_pagemap_correct [OF ok, of 8192] seek_pagemap_correct [OF ok, of 12288]
    by (cases "seek_pagemap ?pr 8192"; cases "seek_pagemap ?pr 12288") (auto simp: pm ULONG_MOD_def)
qed

text \<open>
  (C7) Deduplication of a series of snapshots never loses data: whether or not \<open>fallocate\<close>
  succeeds, it ends, and for every address the series then has the same byte as before. Every
  entry of the older snapshots must have its pages there or in a parent.
\<close>

theorem cr_dedup_preserves:
  assumes "open_page_read_at sys False lazy img d i = Done (1, prs, j)" "snapshots_ok (snapshots d)"
    "\<forall>l\<in>set (tl (snapshots d)). solid (fst l)"
  shows "\<exists>r prs'. cr_dedup_one_pagemap sys prs = Done (r, prs') \<and>
    (\<forall>a. byte_at (zip (map fst (snapshots d)) (map pi_img prs')) a = byte_at (snapshots d) a)"
proof -
  from open_page_read_at_fresh [OF assms(1)] have fr: "list_all2 fresh (snapshots d) prs" "snapshots d \<noteq> []" by auto
  then obtain l ls where ls: "snapshots d = l # ls" by (cases "snapshots d") auto
  show ?thesis using cr_dedup_ok [OF fr(1) [unfolded ls] assms(2) [unfolded ls], of sys] assms(3) by (simp only: ls list.sel)
qed

theorem cr_dedup_preserves_witness:
  "\<exists>r prs'. cr_dedup_one_pagemap demo_pr_sys demo_prs = Done (r, prs') \<and>
     byte_at (zip [demo_es, demo_old] (map pi_img prs')) 8193 = Some 2"
proof -
  have "\<forall>l\<in>set (tl demo_ls). solid (fst l)" by (simp add: demo_ls_def demo_old_def solid_def demo_pe_simps)
  with cr_dedup_preserves [OF demo_open, unfolded demo_snapshots, OF demo_snapshots_ok]
  obtain r prs' where "cr_dedup_one_pagemap demo_pr_sys demo_prs = Done (r, prs')"
    "\<forall>a. byte_at (zip (map fst demo_ls) (map pi_img prs')) a = byte_at demo_ls a" by blast
  moreover have "map fst demo_ls = [demo_es, demo_old]" by (simp add: demo_ls_def)
  ultimately show ?thesis using demo_byte_at(2) [of 1] by auto
qed

text \<open>
  (C8) Restoring the content of a shared memory segment: when the environment does not fail and
  every entry lies inside the segment and has its data, the call returns 0 and the mapping holds at
  every address of the segment exactly the byte of the snapshots, the rest of memory as before.
\<close>

theorem shmem_restore_correct:
  assumes "open_page_read_at sys False lazy img d i = Done (1, prs, j)" "snapshots_ok (snapshots d)" "sys_ok sys"
    "\<forall>e\<in>set (fst (hd (snapshots d))). pe_end e \<le> sz"
    "\<forall>a. mapped (fst (hd (snapshots d))) a \<longrightarrow> byte_at (snapshots d) a \<noteq> None"
  shows "\<exists>prs'. do_restore_shmem_content sys prs addr sz m = Done (0, prs', \<lambda>x. if addr \<le> x
    then (case byte_at (snapshots d) (x - addr) of Some b \<Rightarrow> b | None \<Rightarrow> m x) else m x)"
proof -
  from open_page_read_at_fresh [OF assms(1)] have fr: "list_all2 fresh (snapshots d) prs" "snapshots d \<noteq> []" by auto
  then obtain l ls where ls: "snapshots d = l # ls" by (cases "snapshots d") auto
  show ?thesis
    using shmem_ok [OF fr(1) [unfolded ls] assms(2) [unfolded ls] assms(3), of sz addr m] assms(4,5)
    by (simp only: ls list.sel)
qed

theorem shmem_restore_correct_witness:
  "\<exists>prs' m'. do_restore_shmem_content demo_pr_sys demo_prs 0 12288 (\<lambda>_. 0) = Done (0, prs', m') \<and> m' 8192 = 2 \<and> m' 4096 = 9"
proof -
  have "\<forall>e\<in>set (fst (hd demo_ls)). pe_end e \<le> 12288" by (simp add: demo_ls_def demo_es_def demo_pe_simps)
  moreover have "byte_at demo_ls a \<noteq> None" if "mapped (fst (hd demo_ls)) a" for a
  proof -
    have "4096 \<le> a \<and> a < 8192 \<or> 8192 \<le> a \<and> a < 12288"
      using that by (auto simp: demo_ls_def mapped_def demo_es_def demo_pe_simps)
    then show ?thesis using demo_byte_at(1) [of "a - 4096"] demo_byte_at(2) [of "a - 8192"] by auto
  qed
  ultimately show ?thesis
    using shmem_restore_correct [OF demo_open, unfolded demo_snapshots, OF demo_snapshots_ok demo_pr_sys_ok, of 12288 0 "\<lambda>_. 0"]
      demo_byte_at(1) [of 0] demo_byte_at(2) [of 0] by auto
qed

text \<open>
  (C30) \<open>do_restore_shmem_content\<close> does not look at the results of its reads: when every
  \<open>pread\<close> fails it still returns 0, with nothing restored.
\<close>

theorem shmem_restore_ignores_errors:
  assumes "open_page_read_at sys False lazy img d i = Done (1, [pr], j)" "\<forall>k off n. pread_len sys k off n < 0"
    "\<forall>e\<in>set (pmes pr). wf_pe e \<and> \<not> pagemap_in_parent e \<and> pe_end e \<le> sz"
  shows "\<exists>prs'. do_restore_shmem_content sys [pr] addr sz m = Done (0, prs', m)"
proof -
  from open_page_read_at_fresh [OF assms(1)] obtain l where "fresh l pr" by (auto simp: list_all2_Cons2)
  with restore_shmem_failing [OF assms(2), of pr "pmes pr" 0 sz addr m] assms(3) show ?thesis
    by (auto simp: fresh_def do_restore_shmem_content_def)
qed

theorem shmem_restore_ignores_errors_witness:
  "\<exists>prs'. do_restore_shmem_content (demo_pr_sys\<lparr>pread_len := \<lambda>_ _ _. -1\<rparr>)
     [new_page_read 0 5 demo_old (replicate 8192 1) False False False] 0 12288 (\<lambda>_. 0) = Done (0, prs', \<lambda>_. 0)"
proof (rule shmem_restore_ignores_errors)
  show "open_page_read_at (demo_pr_sys\<lparr>pread_len := \<lambda>_ _ _. -1\<rparr>) False False 5
      (Image_dir (Some (64, demo_old, False)) False (Some (replicate 8192 1)) None) 0
    = Done (1, [new_page_read 0 5 demo_old (replicate 8192 1) False False False], 1)"
    by (simp add: demo_pr_sys_def demo_old_def demo_entry_def init_pagemaps_def PAGEMAP_ENTRY_SIZE_ESTIMATE_def
        init_compat_pagemap_entry_def)
qed (simp_all add: new_page_read_def demo_old_def demo_pe_simps wf_pe_def ULONG_MOD_def)

text \<open>
  (C31) When the pages image ends before the pages that a queued read wants, \<open>preadv\<close> returns 0
  and \<open>process_async_reads\<close> retries forever.
\<close>

theorem async_read_truncated_loops:
  assumes "async pr = p # ps" "starved sys pr p"
  shows "process_async_reads sys (pr # prs) m = Loops"
  using assms read_piov_starved [of sys pr p m] by simp

theorem async_read_truncated_loops_witness:
  "process_async_reads demo_pr_sys
     [(new_page_read 0 5 demo_old [] False False False)\<lparr>async :=
        [\<lparr>piov_from = 0, piov_end = 4096, piov_to = [\<lparr>iov_base = 0, iov_len = 4096\<rparr>]\<rparr>]\<rparr>] (\<lambda>_. 0) = Loops"
  by (rule async_read_truncated_loops) (auto simp: new_page_read_def starved_def demo_pr_sys_def)


end
