(* ===== verification/Uffd.thy ===== *)
theory Uffd
  imports PageRead
begin

unbundle bit_operations_syntax

text \<open>
  The lazy pages daemon, \<open>criu/uffd.c\<close>.

  For every restored task the daemon keeps the ranges of memory that are still to be filled
  in: \<open>iovs\<close>, in the order of addresses, and \<open>reqs\<close>, the ranges that have been asked for. A range
  has its current address and the address it had at the dump, which is where its pages are in
  the images. Page faults, unmaps and remaps of the task, forks, background transfer and
  arriving pages change the lists.

  The lists are HOL lists and a loop over a list that moves, splits or frees elements is a
  recursion that returns the new list. Allocation results are arguments (\<open>alloc\<close>). A page fault
  or transfer ends in a request to the page reader, whose answer calls
  \<open>uffd_io_complete\<close>, at once or later; requests and answers are separate steps here.
\<close>

subsection \<open>Data\<close>

record lazy_iov =
  li_start :: ulong
  li_end :: ulong
  li_img :: ulong

record lazy_pages_info =
  exited :: bool
  iovs :: "lazy_iov list"
  reqs :: "lazy_iov list"
  xfer_len :: nat
  total_pages :: nat
  copied_pages :: nat
  buf_size :: nat

definition DEFAULT_XFER_LEN :: nat where "DEFAULT_XFER_LEN = 64 * 2 ^ 10"
definition MAX_XFER_LEN :: nat where "MAX_XFER_LEN = 4 * 2 ^ 20"

definition lpi_init :: "bool \<Rightarrow> lazy_pages_info option" where
  "lpi_init alloc =
     (if \<not> alloc then None
      else Some \<lparr>exited = False, iovs = [], reqs = [], xfer_len = DEFAULT_XFER_LEN, total_pages = 0, copied_pages = 0,
                 buf_size = 0\<rparr>)"

definition free_iovs :: "lazy_pages_info \<Rightarrow> lazy_pages_info" where
  "free_iovs lpi = lpi\<lparr>iovs := [], reqs := []\<rparr>"

subsection \<open>C arithmetic on a range\<close>

text \<open>The length of a range is an \<open>int\<close> in some of the functions.\<close>

definition int32 :: "int \<Rightarrow> int" where
  "int32 x = (x + 2 ^ 31) mod 2 ^ 32 - 2 ^ 31"

definition addr_plus :: "ulong \<Rightarrow> int \<Rightarrow> ulong" where
  "addr_plus a len = nat ((int a + len) mod int ULONG_MOD)"

subsection \<open>Lists of ranges\<close>

text \<open>\<open>find_iov\<close> returns the position of the range that holds the address.\<close>

fun find_iov :: "lazy_iov list \<Rightarrow> ulong \<Rightarrow> nat option" where
  "find_iov [] addr = None"
| "find_iov (v # vs) addr =
     (if li_start v \<le> addr \<and> addr < li_end v then Some 0 else map_option Suc (find_iov vs addr))"

text \<open>\<open>split_iov\<close>: the range cut at the address, and the new one that follows it in the list.\<close>

definition split_iov :: "bool \<Rightarrow> lazy_iov \<Rightarrow> ulong \<Rightarrow> (lazy_iov \<times> lazy_iov) option" where
  "split_iov alloc v addr =
     (if \<not> alloc then None
      else Some (v\<lparr>li_end := addr\<rparr>,
                 \<lparr>li_start = addr, li_end = li_end v, li_img = ul_sub (ul_add (li_img v) addr) (li_start v)\<rparr>))"

text \<open>The loop of \<open>iov_list_insert\<close>; \<open>None\<close> when the new range is left where it was.\<close>

fun insert_loop :: "lazy_iov \<Rightarrow> lazy_iov list \<Rightarrow> lazy_iov list option" where
  "insert_loop nw [] = None"
| "insert_loop nw (v # vs) =
     (if li_start nw < li_start v then Some (nw # v # vs)
      else if vs = [] \<and> li_start v < li_start nw then Some [v, nw]
      else map_option (Cons v) (insert_loop nw vs))"

definition iov_list_insert :: "lazy_iov \<Rightarrow> lazy_iov list \<Rightarrow> lazy_iov list option" where
  "iov_list_insert nw dst = (if dst = [] then Some [nw] else insert_loop nw dst)"

text \<open>\<open>merge_iov_lists\<close>: what is left in the source list, and the destination.\<close>

fun merge_iov_lists :: "lazy_iov list \<Rightarrow> lazy_iov list \<Rightarrow> lazy_iov list \<times> lazy_iov list" where
  "merge_iov_lists [] dst = ([], dst)"
| "merge_iov_lists (v # src) dst =
     (case iov_list_insert v dst of
        Some dst \<Rightarrow> merge_iov_lists src dst
      | None \<Rightarrow> (let (left, dst) = merge_iov_lists src dst in (v # left, dst)))"

fun copy_iov_list :: "(nat \<Rightarrow> bool) \<Rightarrow> lazy_iov list \<Rightarrow> lazy_iov list \<Rightarrow> int \<times> lazy_iov list" where
  "copy_iov_list alloc [] dst = (0, dst)"
| "copy_iov_list alloc (v # src) dst =
     (if \<not> alloc (length dst) then (-1, dst)
      else copy_iov_list alloc src (dst @ [\<lparr>li_start = li_start v, li_end = li_end v, li_img = li_img v\<rparr>]))"

text \<open>\<open>copy_iovs\<close>: \<open>alloc\<close> for the ranges and \<open>memalign\<close> for the buffer.\<close>

definition copy_iovs :: "(nat \<Rightarrow> bool) \<Rightarrow> bool \<Rightarrow> lazy_pages_info \<Rightarrow> lazy_pages_info \<Rightarrow> int \<times> lazy_pages_info" where
  "copy_iovs alloc memalign src dst =
     (let (r1, is) = copy_iov_list alloc (iovs src) (iovs dst);
          (r2, rs) = copy_iov_list alloc (reqs src) (reqs dst)
      in if r1 \<noteq> 0 then (-1, free_iovs dst)
         else if r2 \<noteq> 0 then (-1, free_iovs dst)
         else (let (left, is) = merge_iov_lists rs is;
                   dst = dst\<lparr>iovs := is, reqs := left, buf_size := buf_size src\<rparr>
               in if \<not> memalign then (-1, free_iovs dst) else (0, dst)))"

text \<open>\<open>__drop_iovs\<close>.\<close>

fun drop_loop :: "bool \<Rightarrow> lazy_iov list \<Rightarrow> ulong \<Rightarrow> int \<Rightarrow> int \<times> lazy_iov list" where
  "drop_loop alloc [] addr len = (0, [])"
| "drop_loop alloc (v # vs) addr len =
     (let start = li_start v; en = li_end v
      in if len \<le> 0 \<or> addr_plus addr len < start then (0, v # vs)
         else if en \<le> addr then (let (r, vs) = drop_loop alloc vs addr len in (r, v # vs))
         else (let len = (if addr < start then int32 (len - (int start - int addr)) else len);
                   addr = (if addr < start then start else addr)
               in if addr_plus addr len < en
                  then (if addr = start
                        then (0, v\<lparr>li_start := addr_plus start len, li_img := addr_plus (li_img v) len\<rparr> # vs)
                        else (case split_iov alloc v (addr_plus addr len) of
                                None \<Rightarrow> (-1, v # vs)
                              | Some (v1, v2) \<Rightarrow> (0, v1\<lparr>li_end := addr\<rparr> # v2 # vs)))
                  else (let (r, vs) = drop_loop alloc vs en (int32 (len - (int en - int addr)))
                        in (r, if addr = start then vs else v\<lparr>li_end := addr\<rparr> # vs))))"

definition drop_iovs :: "bool \<Rightarrow> lazy_pages_info \<Rightarrow> ulong \<Rightarrow> int \<Rightarrow> int \<times> lazy_pages_info" where
  "drop_iovs alloc lpi addr len =
     (let (r, is) = drop_loop alloc (iovs lpi) addr len;
          lpi = lpi\<lparr>iovs := is\<rparr>
      in if r \<noteq> 0 then (-1, lpi)
         else (let (r, rs) = drop_loop alloc (reqs lpi) addr len
               in (if r \<noteq> 0 then -1 else 0, lpi\<lparr>reqs := rs\<rparr>)))"

text \<open>
  \<open>extract_range\<close> for the range at position \<open>k\<close> of the list, which the callers then take out of
  it: the piece, and the list without it.
\<close>

definition extract_range :: "bool \<Rightarrow> bool \<Rightarrow> lazy_iov list \<Rightarrow> nat \<Rightarrow> ulong \<Rightarrow> ulong \<Rightarrow> lazy_iov option \<times> lazy_iov list" where
  "extract_range alloc1 alloc2 vs k start en =
     (let v = vs ! k; pre = take k vs; post = drop (Suc k) vs
      in case (if en < li_end v then map_option (\<lambda>(v1, v2). (v1, [v2])) (split_iov alloc1 v en) else Some (v, [])) of
           None \<Rightarrow> (None, vs)
         | Some (v, tail) \<Rightarrow>
             if start = li_start v then (Some v, pre @ tail @ post)
             else (case split_iov alloc2 v start of
                     None \<Rightarrow> (None, pre @ v # tail @ post)
                   | Some (v1, v2) \<Rightarrow> (Some v2, pre @ v1 # tail @ post)))"

lemma ul_sub_whole: "ul_sub len (ul_sub (ul_add a len) a) = 0"
proof -
  have "int (ul_sub len (ul_sub (ul_add a len) a)) = 0" by (simp add: int_ul_sub int_ul_add mod_simps)
  then show ?thesis by simp
qed

text \<open>
  \<open>__remap_iovs\<close>: the loop returns the ranges that stay and those that move. A split puts the
  new range next in the loop.
\<close>

function remap_loop :: "bool \<Rightarrow> lazy_iov list \<Rightarrow> ulong \<Rightarrow> ulong \<Rightarrow> ulong \<Rightarrow> int \<times> lazy_iov list \<times> lazy_iov list" where
  "remap_loop alloc [] from len off = (0, [], [])"
| "remap_loop alloc (v # vs) from len off =
     (if li_end v \<le> from
      then (let (r, stay, moved) = remap_loop alloc vs from len off in (r, v # stay, moved))
      else if len = 0 \<or> ul_add from len \<le> li_start v then (0, v # vs, [])
      else (let len = (if from < li_start v then ul_sub len (li_start v - from) else len);
                from = (if from < li_start v then li_start v else from)
            in if li_start v < from
               then (case split_iov alloc v from of
                       None \<Rightarrow> (-1, v # vs, [])
                     | Some (v1, v2) \<Rightarrow>
                         (let (r, stay, moved) = remap_loop alloc (v2 # vs) from len off in (r, v1 # stay, moved)))
               else if ul_add from len < li_end v
               then (case split_iov alloc v (ul_add from len) of
                       None \<Rightarrow> (-1, v # vs, [])
                     | Some (v1, v2) \<Rightarrow>
                         (let (r, stay, moved) =
                                remap_loop alloc (v2 # vs) (li_end v1) (ul_sub len (ul_sub (li_end v1) (li_start v1))) off
                          in (r, stay, v1\<lparr>li_start := ul_add (li_start v1) off, li_end := ul_add (li_end v1) off\<rparr> # moved)))
               else (let (r, stay, moved) =
                           remap_loop alloc vs (li_end v) (ul_sub len (ul_sub (li_end v) (li_start v))) off
                     in (r, stay, v\<lparr>li_start := ul_add (li_start v) off, li_end := ul_add (li_end v) off\<rparr> # moved))))"
  by pat_completeness auto

termination
proof (relation "measure (\<lambda>(_, vs, from, len, _). 3 * length vs + (if len = 0 then 0 else 1) +
    (case vs of [] \<Rightarrow> 0 | v # _ \<Rightarrow> if li_start v < from then 1 else 0))", goal_cases)
  case 3
  then show ?case by (auto simp: split_iov_def split: if_splits list.split)
next
  case 4
  then show ?case by (auto simp: split_iov_def ul_sub_whole split: if_splits list.split)
qed (auto split: list.split)

definition remap_list :: "bool \<Rightarrow> lazy_iov list \<Rightarrow> ulong \<Rightarrow> ulong \<Rightarrow> ulong \<Rightarrow> int \<times> lazy_iov list" where
  "remap_list alloc vs from to len =
     (let (r, stay, moved) = remap_loop alloc vs from len (ul_sub to from)
      in if r \<noteq> 0 then (-1, stay) else (0, snd (merge_iov_lists moved stay)))"

definition remap_iovs :: "bool \<Rightarrow> lazy_pages_info \<Rightarrow> ulong \<Rightarrow> ulong \<Rightarrow> ulong \<Rightarrow> int \<times> lazy_pages_info" where
  "remap_iovs alloc lpi from to len =
     (let (r, is) = remap_list alloc (iovs lpi) from to len;
          lpi = lpi\<lparr>iovs := is\<rparr>
      in if r \<noteq> 0 then (-1, lpi)
         else (let (r, rs) = remap_list alloc (reqs lpi) from to len
               in (if r \<noteq> 0 then -1 else 0, lpi\<lparr>reqs := rs\<rparr>)))"

subsection \<open>Collecting the ranges\<close>

text \<open>
  The inner loop of \<open>collect_iovs\<close> over the VMAs that are left: the result, these VMAs, the ranges
  and the longest range, which the code keeps in an \<open>int\<close>.
\<close>

fun collect_vmas :: "bool \<Rightarrow> (ulong \<times> ulong) list \<Rightarrow> ulong \<Rightarrow> ulong \<Rightarrow> lazy_iov list \<Rightarrow> int \<Rightarrow>
    int \<times> (ulong \<times> ulong) list \<times> lazy_iov list \<times> int" where
  "collect_vmas alloc [] start en acc mx = (0, [], acc, mx)"
| "collect_vmas alloc ((vstart, vend) # vmas) start en acc mx =
     (if vend \<le> start then collect_vmas alloc vmas start en acc mx
      else if \<not> alloc then (-1, (vstart, vend) # vmas, acc, mx)
      else (let len = ul_sub (min en vend) start;
                acc = acc @ [\<lparr>li_start = start, li_end = ul_add start len, li_img = start\<rparr>];
                mx = (if addr_plus 0 mx < len then int32 (int len) else mx)
            in if en \<le> vend then (0, (vstart, vend) # vmas, acc, mx)
               else collect_vmas alloc vmas vend en acc mx))"

fun collect_entries :: "bool \<Rightarrow> pagemap_entry list \<Rightarrow> (ulong \<times> ulong) list \<Rightarrow> nat \<Rightarrow> lazy_iov list \<Rightarrow> int \<Rightarrow>
    int \<times> nat \<times> lazy_iov list \<times> int" where
  "collect_entries alloc [] vmas nr acc mx = (0, nr, acc, mx)"
| "collect_entries alloc (e # es) vmas nr acc mx =
     (if \<not> pagemap_lazy e then collect_entries alloc es vmas nr acc mx
      else (let (r, vmas, acc, mx) =
                  collect_vmas alloc vmas (pe_vaddr e) (ul_add (pe_vaddr e) (nr_pages e * PAGE_SIZE)) acc mx
            in if r < 0 then (-1, nr, acc, mx) else collect_entries alloc es vmas (nr + nr_pages e) acc mx))"

definition collect_iovs :: "bool \<Rightarrow> bool \<Rightarrow> (ulong \<times> ulong) list option \<Rightarrow> pagemap_entry list \<Rightarrow> lazy_pages_info \<Rightarrow>
    int \<times> lazy_pages_info" where
  "collect_iovs alloc memalign mm es lpi =
     (case mm of
        None \<Rightarrow> (-1, lpi)
      | Some vmas \<Rightarrow>
          (let (r, nr, is, mx) = collect_entries alloc es vmas 0 (iovs lpi) 0
           in if r < 0 then (-1, free_iovs lpi)
              else (let lpi = lpi\<lparr>iovs := is, buf_size := addr_plus 0 mx\<rparr>
                    in if \<not> memalign then (-1, free_iovs lpi) else (int32 (int nr), lpi))))"

subsection \<open>Copying pages\<close>

definition ENOENT :: int where "ENOENT = 2"
definition ESRCH :: int where "ESRCH = 3"
definition EAGAIN :: int where "EAGAIN = 11"
definition ENOMEM :: int where "ENOMEM = 12"
definition EEXIST :: int where "EEXIST = 17"
definition ENOSPC :: int where "ENOSPC = 28"

text \<open>\<open>epoll_del\<close> tells whether the descriptor could be taken out of the poll set.\<close>

definition handle_exit :: "bool \<Rightarrow> lazy_pages_info \<Rightarrow> int \<times> lazy_pages_info" where
  "handle_exit epoll_del lpi = (if \<not> epoll_del then (-1, lpi) else (0, (free_iovs lpi)\<lparr>exited := True\<rparr>))"

definition uffd_recoverable_error :: "int \<Rightarrow> int \<Rightarrow> bool" where
  "uffd_recoverable_error errno mcopy_rc \<longleftrightarrow>
     errno = EAGAIN \<or> errno = ENOENT \<or> errno = EEXIST \<or> mcopy_rc = - ENOENT \<or> mcopy_rc = - EEXIST"

text \<open>The result, the number of pages and the state.\<close>

definition uffd_check_op_error :: "bool \<Rightarrow> lazy_pages_info \<Rightarrow> int \<Rightarrow> int \<Rightarrow> int \<Rightarrow> int \<times> int \<times> lazy_pages_info" where
  "uffd_check_op_error epoll_del lpi errno nr mcopy_rc =
     (if errno = ENOSPC \<or> errno = ESRCH then (0, nr, snd (handle_exit epoll_del lpi))
      else if \<not> uffd_recoverable_error errno (int32 mcopy_rc) then (-1, nr, lpi)
      else (0, if mcopy_rc \<le> 0 then 0 else int32 (mcopy_rc div int PAGE_SIZE), lpi))"

text \<open>
  The answer of \<open>UFFDIO_COPY\<close> and \<open>UFFDIO_ZEROPAGE\<close>: \<open>None\<close> for success, or the error and the field of the
  structure that tells how much was done.
\<close>

type_synonym uffd_answer = "(int \<times> int) option"

definition uffd_copy :: "bool \<Rightarrow> uffd_answer \<Rightarrow> lazy_pages_info \<Rightarrow> int \<Rightarrow> int \<times> int \<times> lazy_pages_info" where
  "uffd_copy epoll_del ans lpi nr =
     (let (r, nr, lpi) = (case ans of
                            None \<Rightarrow> (0, nr, lpi)
                          | Some (errno, mcopy_rc) \<Rightarrow> uffd_check_op_error epoll_del lpi errno nr mcopy_rc)
      in if r \<noteq> 0 then (-1, nr, lpi) else (0, nr, lpi\<lparr>copied_pages := addr_plus (copied_pages lpi) nr\<rparr>))"

text \<open>The first request for the image address.\<close>

fun find_req :: "lazy_iov list \<Rightarrow> ulong \<Rightarrow> nat option" where
  "find_req [] img = None"
| "find_req (v # vs) img = (if li_img v = img then Some 0 else map_option Suc (find_req vs img))"

text \<open>
  What a handler does to the outside: asks the page reader for pages, copies received pages (to
  an address, from an image address, so many pages), puts in a zero page.
\<close>

datatype uffd_io = NoIO | Ask ulong nat | CopyTo ulong ulong int | ZeroAt ulong

definition uffd_io_complete :: "bool \<Rightarrow> bool \<Rightarrow> uffd_answer \<Rightarrow> lazy_pages_info \<Rightarrow> ulong \<Rightarrow> int \<Rightarrow>
    int \<times> lazy_pages_info \<times> uffd_io" where
  "uffd_io_complete alloc epoll_del ans lpi img_addr nr =
     (if exited lpi then (0, lpi, NoIO)
      else case find_req (reqs lpi) img_addr of
        None \<Rightarrow> (0, lpi, NoIO)
      | Some k \<Rightarrow>
          (let req = reqs lpi ! k;
               addr = li_start req
           in if addr = 0 then (0, lpi, NoIO)
              else (let req_pages = int32 (int (ul_sub (li_end req) (li_start req) div PAGE_SIZE));
                        (ret, nr, lpi) = uffd_copy epoll_del ans lpi (min nr req_pages)
                    in if ret < 0 then (ret, lpi, NoIO)
                       else if exited lpi then (0, lpi, NoIO)
                       else (let lpi = (case iov_list_insert req (iovs lpi) of
                                          None \<Rightarrow> lpi
                                        | Some is \<Rightarrow> lpi\<lparr>iovs := is, reqs := take k (reqs lpi) @ drop (Suc k) (reqs lpi)\<rparr>);
                                 (ret, lpi) = drop_iovs alloc lpi addr (int32 (nr * int PAGE_SIZE))
                             in (ret, lpi, CopyTo addr img_addr nr)))))"

definition uffd_zero :: "bool \<Rightarrow> uffd_answer \<Rightarrow> lazy_pages_info \<Rightarrow> ulong \<Rightarrow> int \<Rightarrow> int \<times> lazy_pages_info \<times> uffd_io" where
  "uffd_zero epoll_del ans lpi address nr =
     (case ans of
        None \<Rightarrow> (0, lpi, ZeroAt address)
      | Some (errno, zeropage) \<Rightarrow>
          (let (r, _, lpi) = uffd_check_op_error epoll_del lpi errno nr zeropage
           in (if r \<noteq> 0 then -1 else 0, lpi, NoIO)))"

subsection \<open>Asking for pages\<close>

definition uffd_seek_pages :: "page_read list \<Rightarrow> ulong \<Rightarrow> int \<times> page_read list" where
  "uffd_seek_pages prs address =
     (let prs = reset_pagemap prs;
          (ret, pr) = seek_pagemap (hd prs) address
      in (if ret = 0 then -1 else 0, pr # tl prs))"

definition uffd_handle_pages :: "pr_sys \<Rightarrow> page_read list \<Rightarrow> ulong \<Rightarrow> nat \<Rightarrow> nat \<Rightarrow> u32 \<Rightarrow> mem \<Rightarrow>
    (int \<times> page_read list \<times> mem) run" where
  "uffd_handle_pages sys prs address nr buf flags m =
     (let (ret, prs) = uffd_seek_pages prs address
      in if ret \<noteq> 0 then Done (ret, prs, m)
         else bind_run (read_pagemap_page sys prs address nr buf flags m) (\<lambda>(ret, prs, m).
                if ret \<le> 0 then Done (ret, prs, m) else Done (0, prs, m)))"

definition update_xfer_len :: "lazy_pages_info \<Rightarrow> bool \<Rightarrow> lazy_pages_info" where
  "update_xfer_len lpi pf =
     (let n = (if pf then DEFAULT_XFER_LEN else ul_add (xfer_len lpi) DEFAULT_XFER_LEN)
      in lpi\<lparr>xfer_len := if MAX_XFER_LEN < n then MAX_XFER_LEN else n\<rparr>)"

definition pick_next_range :: "lazy_pages_info \<Rightarrow> nat" where
  "pick_next_range lpi = 0"

text \<open>
  \<open>xfer_pages\<close> on a task with ranges left. \<open>hp\<close> is the answer of \<open>uffd_handle_pages\<close> to the request.
\<close>

definition xfer_pages :: "bool \<Rightarrow> bool \<Rightarrow> (ulong \<Rightarrow> nat \<Rightarrow> int) \<Rightarrow> lazy_pages_info \<Rightarrow> int \<times> lazy_pages_info \<times> uffd_io" where
  "xfer_pages alloc1 alloc2 hp lpi =
     (let k = pick_next_range lpi;
          v = iovs lpi ! k;
          len = min (ul_sub (li_end v) (li_start v)) (xfer_len lpi)
      in case extract_range alloc1 alloc2 (iovs lpi) k (li_start v) (ul_add (li_start v) len) of
           (None, is) \<Rightarrow> (-1, lpi\<lparr>iovs := is\<rparr>, NoIO)
         | (Some v, is) \<Rightarrow>
             (let lpi = lpi\<lparr>iovs := is, reqs := v # reqs lpi\<rparr>;
                  nr = ul_sub (li_end v) (li_start v) div PAGE_SIZE;
                  lpi = update_xfer_len lpi False
              in (if hp (li_img v) nr < 0 then -1 else 0, lpi, Ask (li_img v) nr)))"

definition is_page_queued :: "lazy_pages_info \<Rightarrow> ulong \<Rightarrow> bool" where
  "is_page_queued lpi addr \<longleftrightarrow> (\<exists>v\<in>set (reqs lpi). li_start v \<le> addr \<and> addr < li_end v)"

definition page_of :: "ulong \<Rightarrow> ulong" where
  "page_of a = a div PAGE_SIZE * PAGE_SIZE"

definition handle_page_fault :: "bool \<Rightarrow> bool \<Rightarrow> bool \<Rightarrow> uffd_answer \<Rightarrow> (ulong \<Rightarrow> nat \<Rightarrow> int) \<Rightarrow>
    lazy_pages_info \<Rightarrow> ulong \<Rightarrow> int \<times> lazy_pages_info \<times> uffd_io" where
  "handle_page_fault alloc1 alloc2 epoll_del ans hp lpi fault =
     (let address = page_of fault
      in if is_page_queued lpi address then (0, lpi, NoIO)
         else case find_iov (iovs lpi) address of
           None \<Rightarrow> uffd_zero epoll_del ans lpi address 1
         | Some k \<Rightarrow>
             (case extract_range alloc1 alloc2 (iovs lpi) k address (ul_add address PAGE_SIZE) of
                (None, is) \<Rightarrow> (-1, lpi\<lparr>iovs := is\<rparr>, NoIO)
              | (Some v, is) \<Rightarrow>
                  (let lpi = update_xfer_len (lpi\<lparr>iovs := is, reqs := v # reqs lpi\<rparr>) True
                   in (if hp (li_img v) 1 < 0 then -1 else 0, lpi, Ask (li_img v) 1))))"

subsection \<open>Other events\<close>

text \<open>
  \<open>handle_remove\<close>: \<open>unreg\<close> is the error of \<open>UFFDIO_UNREGISTER\<close>, if any; it is only asked for a
  \<open>REMOVE\<close> event. The length of the range goes through an \<open>int\<close>.
\<close>

definition handle_remove :: "bool \<Rightarrow> bool \<Rightarrow> int option \<Rightarrow> bool \<Rightarrow> lazy_pages_info \<Rightarrow> ulong \<Rightarrow> ulong \<Rightarrow>
    int \<times> lazy_pages_info" where
  "handle_remove alloc epoll_del unreg is_remove lpi start en =
     (let len = ul_sub en start
      in case (if is_remove then unreg else None) of
           Some errno \<Rightarrow> (if errno = ENOMEM then (0, snd (handle_exit epoll_del lpi)) else (-1, lpi))
         | None \<Rightarrow> drop_iovs alloc lpi start (int32 (int len)))"

definition handle_remap :: "bool \<Rightarrow> lazy_pages_info \<Rightarrow> ulong \<Rightarrow> ulong \<Rightarrow> ulong \<Rightarrow> int \<times> lazy_pages_info" where
  "handle_remap alloc lpi from to len = remap_iovs alloc lpi from to len"

text \<open>\<open>handle_fork\<close>: the state of the child. \<open>parent\<close> is the parent of the task that forks, if it is a child itself.\<close>

definition handle_fork :: "bool \<Rightarrow> (nat \<Rightarrow> bool) \<Rightarrow> bool \<Rightarrow> lazy_pages_info option \<Rightarrow> lazy_pages_info \<Rightarrow>
    int \<times> lazy_pages_info option" where
  "handle_fork alloc1 alloc memalign parent parent_lpi =
     (case lpi_init alloc1 of
        None \<Rightarrow> (-1, None)
      | Some lpi \<Rightarrow>
          (let (r, lpi) = copy_iovs alloc memalign parent_lpi lpi
           in if r \<noteq> 0 then (-1, None)
              else (let p = (case parent of Some p \<Rightarrow> p | None \<Rightarrow> parent_lpi)
                    in (1, Some (lpi\<lparr>copied_pages := copied_pages p, total_pages := total_pages p\<rparr>)))))"

text \<open>A message of the descriptor, and what \<open>read\<close> returns: the end, a message, or an error.\<close>

datatype uffd_msg =
    PageFault ulong
  | Remove ulong ulong
  | Unmap ulong ulong
  | Remap ulong ulong ulong
  | Fork
  | Unexpected

datatype uffd_read = Eof | ReadErr int | Msg uffd_msg

text \<open>
  What the world answers to the calls of a handler: allocations, polling, the three requests to the
  descriptor, and the page reader.
\<close>

record uffd_env =
  e_alloc :: bool
  e_epoll_del :: bool
  e_answer :: uffd_answer
  e_unreg :: "int option"
  e_pages :: "ulong \<Rightarrow> nat \<Rightarrow> int"

text \<open>The result, the state, what was done, and the new task of a fork.\<close>

definition handle_uffd_event :: "uffd_env \<Rightarrow> uffd_read \<Rightarrow> lazy_pages_info option \<Rightarrow> lazy_pages_info \<Rightarrow>
    int \<times> lazy_pages_info \<times> uffd_io \<times> lazy_pages_info option" where
  "handle_uffd_event e rd parent lpi =
     (case rd of
        Eof \<Rightarrow> (1, lpi, NoIO, None)
      | ReadErr errno \<Rightarrow> (if errno = EAGAIN then 0 else -1, lpi, NoIO, None)
      | Msg msg \<Rightarrow>
          (case msg of
             PageFault a \<Rightarrow>
               (let (r, lpi, io) = handle_page_fault (e_alloc e) (e_alloc e) (e_epoll_del e) (e_answer e) (e_pages e) lpi a
                in (r, lpi, io, None))
           | Remove s t \<Rightarrow> (let (r, lpi) = handle_remove (e_alloc e) (e_epoll_del e) (e_unreg e) True lpi s t in (r, lpi, NoIO, None))
           | Unmap s t \<Rightarrow> (let (r, lpi) = handle_remove (e_alloc e) (e_epoll_del e) (e_unreg e) False lpi s t in (r, lpi, NoIO, None))
           | Remap f t l \<Rightarrow> (let (r, lpi) = handle_remap (e_alloc e) lpi f t l in (r, lpi, NoIO, None))
           | Fork \<Rightarrow>
               (let (r, child) = handle_fork (e_alloc e) (\<lambda>_. e_alloc e) (e_alloc e) parent lpi in (r, lpi, NoIO, child))
           | Unexpected \<Rightarrow> (-1, lpi, NoIO, None)))"

subsection \<open>The main loop\<close>

text \<open>
  \<open>complete_forks\<close>: the result, the number of descriptors, the tasks still pending and the tasks
  served. \<open>add\<close> tells whether a descriptor could be put in the poll set.
\<close>

fun add_pending :: "(lazy_pages_info \<Rightarrow> bool) \<Rightarrow> lazy_pages_info list \<Rightarrow> lazy_pages_info list \<Rightarrow>
    int \<times> lazy_pages_info list \<times> lazy_pages_info list" where
  "add_pending add [] lpis = (0, [], lpis)"
| "add_pending add (p # ps) lpis = (if \<not> add p then (-1, p # ps, lpis) else add_pending add ps (lpis @ [p]))"

definition complete_forks :: "bool \<Rightarrow> (lazy_pages_info \<Rightarrow> bool) \<Rightarrow> nat \<Rightarrow> lazy_pages_info list \<Rightarrow> lazy_pages_info list \<Rightarrow>
    int \<times> nat \<times> lazy_pages_info list \<times> lazy_pages_info list" where
  "complete_forks alloc add nr_fds pending lpis =
     (if pending = [] then (1, nr_fds, pending, lpis)
      else (let nr_fds = nr_fds + length pending
            in if \<not> alloc then (-1, nr_fds, pending, lpis)
               else (let (r, pending, lpis) = add_pending add pending lpis in (r, nr_fds, pending, lpis))))"

text \<open>
  One pass of \<open>handle_requests\<close> over the tasks: a task with ranges left and no request in flight gets
  the next transfer, and the pass ends; a task with neither is done and leaves the list.
\<close>

fun requests_pass :: "(lazy_pages_info \<Rightarrow> int \<times> lazy_pages_info \<times> uffd_io) \<Rightarrow> lazy_pages_info list \<Rightarrow>
    int \<times> lazy_pages_info list \<times> uffd_io" where
  "requests_pass xfer [] = (0, [], NoIO)"
| "requests_pass xfer (lpi # lpis) =
     (if iovs lpi \<noteq> [] \<and> reqs lpi = [] then (let (r, lpi, io) = xfer lpi in (r, lpi # lpis, io))
      else if reqs lpi = [] then requests_pass xfer lpis
      else (let (r, lpis, io) = requests_pass xfer lpis in (r, lpi # lpis, io)))"

end
