(* ===== verification/UffdCorrect.thy ===== *)
theory UffdCorrect
  imports Uffd
begin

text \<open>
  The lists of the lazy pages daemon as a map from run-time addresses to image addresses, and
  the operations of \<open>criu/uffd.c\<close> as operations on this map.
\<close>

subsection \<open>The map of a list\<close>

definition holds :: "lazy_iov \<Rightarrow> nat \<Rightarrow> bool" where
  "holds v a \<longleftrightarrow> li_start v \<le> a \<and> a < li_end v"

fun lmap :: "lazy_iov list \<Rightarrow> nat \<Rightarrow> nat option" where
  "lmap [] a = None"
| "lmap (v # vs) a = (if holds v a then Some (li_img v + (a - li_start v)) else lmap vs a)"

definition iov_ok :: "lazy_iov \<Rightarrow> bool" where
  "iov_ok v \<longleftrightarrow> li_start v < li_end v \<and> li_end v < ULONG_MOD \<and> li_img v + (li_end v - li_start v) < ULONG_MOD \<and>
     PAGE_SIZE dvd li_start v \<and> PAGE_SIZE dvd li_end v \<and> PAGE_SIZE dvd li_img v"

definition apart :: "lazy_iov \<Rightarrow> lazy_iov \<Rightarrow> bool" where
  "apart v w \<longleftrightarrow> li_end v \<le> li_start w \<or> li_end w \<le> li_start v"

fun lsorted :: "lazy_iov list \<Rightarrow> bool" where
  "lsorted [] \<longleftrightarrow> True"
| "lsorted (v # vs) \<longleftrightarrow> iov_ok v \<and> (\<forall>w\<in>set vs. li_end v \<le> li_start w) \<and> lsorted vs"

fun ldisjoint :: "lazy_iov list \<Rightarrow> bool" where
  "ldisjoint [] \<longleftrightarrow> True"
| "ldisjoint (v # vs) \<longleftrightarrow> iov_ok v \<and> (\<forall>w\<in>set vs. apart v w) \<and> ldisjoint vs"

lemma lsorted_disjoint: "lsorted vs \<Longrightarrow> ldisjoint vs"
  by (induction vs) (auto simp: apart_def)

lemma iov_ok_bounds: "iov_ok v \<Longrightarrow> li_start v < li_end v \<and> li_end v < ULONG_MOD"
  by (simp add: iov_ok_def)

lemma lsorted_all_ok: "lsorted vs \<Longrightarrow> v \<in> set vs \<Longrightarrow> iov_ok v"
  by (induction vs) auto

lemma ldisjoint_all_ok: "ldisjoint vs \<Longrightarrow> v \<in> set vs \<Longrightarrow> iov_ok v"
  by (induction vs) auto

lemma lmap_none: "lmap vs a = None \<longleftrightarrow> (\<forall>v\<in>set vs. \<not> holds v a)"
  by (induction vs) auto

lemma lmap_append: "lmap (vs @ ws) a = (case lmap vs a of None \<Rightarrow> lmap ws a | Some i \<Rightarrow> Some i)"
  by (induction vs) (auto split: option.split)

lemma lmap_below: "\<lbrakk>\<forall>v\<in>set vs. b \<le> li_start v; a < b\<rbrakk> \<Longrightarrow> lmap vs a = None"
  by (force simp: lmap_none holds_def)

lemma lsorted_append:
  "lsorted (vs @ ws) \<longleftrightarrow> lsorted vs \<and> lsorted ws \<and> (\<forall>v\<in>set vs. \<forall>w\<in>set ws. li_end v \<le> li_start w)"
  by (induction vs) auto

lemma lmap_mem:
  "\<lbrakk>ldisjoint vs; v \<in> set vs; holds v a\<rbrakk> \<Longrightarrow> lmap vs a = Some (li_img v + (a - li_start v))"
  by (induction vs) (auto simp: apart_def holds_def)

text \<open>A part of the map taken away, and moved.\<close>

definition without :: "(nat \<Rightarrow> 'a option) \<Rightarrow> nat \<Rightarrow> nat \<Rightarrow> nat \<Rightarrow> 'a option" where
  "without m s t = (\<lambda>a. if s \<le> a \<and> a < t then None else m a)"

definition shifted :: "(nat \<Rightarrow> 'a option) \<Rightarrow> nat \<Rightarrow> nat \<Rightarrow> nat \<Rightarrow> nat \<Rightarrow> 'a option" where
  "shifted m from to len =
     (\<lambda>a. if to \<le> a \<and> a < to + len then m (a - to + from) else if from \<le> a \<and> a < from + len then None else m a)"

subsection \<open>Splitting\<close>

lemma split_iov_ok:
  assumes "iov_ok v" "li_start v < a" "a < li_end v" "PAGE_SIZE dvd a"
  shows "\<exists>v1 v2. split_iov True v a = Some (v1, v2) \<and> iov_ok v1 \<and> iov_ok v2 \<and>
     li_start v1 = li_start v \<and> li_end v1 = a \<and> li_start v2 = a \<and> li_end v2 = li_end v \<and>
     li_img v1 = li_img v \<and> li_img v2 = li_img v + (a - li_start v)"
proof -
  have img: "ul_sub (ul_add (li_img v) a) (li_start v) = li_img v + (a - li_start v)"
  proof -
    have "int (ul_sub (ul_add (li_img v) a) (li_start v)) = int (li_img v + (a - li_start v)) mod int ULONG_MOD"
      using assms(2) by (simp add: int_ul_sub int_ul_add mod_simps of_nat_diff algebra_simps)
    moreover have "li_img v + (a - li_start v) < ULONG_MOD" using assms by (auto simp: iov_ok_def)
    ultimately show ?thesis by (simp del: of_nat_add)
  qed
  show ?thesis using assms by (auto simp: split_iov_def iov_ok_def img intro!: dvd_add dvd_diff_nat)
qed

lemma lmap_split:
  assumes "li_start v1 = li_start v" "li_end v1 = a" "li_start v2 = a" "li_end v2 = li_end v"
    "li_img v1 = li_img v" "li_img v2 = li_img v + (a - li_start v)" "li_start v < a" "a < li_end v"
  shows "lmap (v1 # v2 # vs) = lmap (v # vs)"
  using assms by (auto simp: holds_def fun_eq_iff)

subsection \<open>Dropping a range\<close>

lemma int32_small: "\<lbrakk>0 \<le> x; x < 2 ^ 31\<rbrakk> \<Longrightarrow> int32 x = x"
  by (simp add: int32_def)

lemma addr_plus_small: "a + n < ULONG_MOD \<Longrightarrow> addr_plus a (int n) = a + n"
  by (simp add: addr_plus_def flip: of_nat_add of_nat_mod)

lemma addr_plus_small': "\<lbrakk>0 \<le> x; a + nat x < ULONG_MOD\<rbrakk> \<Longrightarrow> addr_plus a x = a + nat x"
  using addr_plus_small [of a "nat x"] by simp

text \<open>Every range of one list lies in a range of the other.\<close>

definition within :: "lazy_iov list \<Rightarrow> lazy_iov list \<Rightarrow> bool" where
  "within vs' vs \<longleftrightarrow> (\<forall>w\<in>set vs'. \<exists>v\<in>set vs. li_start v \<le> li_start w \<and> li_end w \<le> li_end v)"

lemma within_refl [simp]: "within vs vs"
  by (auto simp: within_def)

lemma within_Cons: "within vs' vs \<Longrightarrow> within (v # vs') (v # vs)"
  by (auto simp: within_def)

lemma within_more: "within vs' vs \<Longrightarrow> within vs' (v # vs)"
  by (auto simp: within_def)

lemma within_above: "\<lbrakk>within vs' vs; \<forall>v\<in>set vs. b \<le> li_start v\<rbrakk> \<Longrightarrow> \<forall>w\<in>set vs'. b \<le> li_start w"
  by (fastforce simp: within_def)

lemma within_apart: "\<lbrakk>within vs' vs; \<forall>v\<in>set vs. apart u v\<rbrakk> \<Longrightarrow> \<forall>w\<in>set vs'. apart u w"
  by (fastforce simp: within_def apart_def)

lemma lsorted_Cons_within:
  "\<lbrakk>iov_ok v; lsorted vs'; within vs' vs; \<forall>w\<in>set vs. li_end v \<le> li_start w\<rbrakk> \<Longrightarrow> lsorted (v # vs')"
  using within_above by auto

text \<open>The loop without wrap-around.\<close>

lemma drop_loop_exact:
  assumes ok: "iov_ok v" and fits: "addr + n < ULONG_MOD" and small: "n < 2 ^ 31"
  shows "drop_loop True (v # vs) addr (int n) =
     (if n = 0 \<or> addr + n < li_start v then (0, v # vs)
      else if li_end v \<le> addr then (let (r, vs) = drop_loop True vs addr (int n) in (r, v # vs))
      else (let a = max addr (li_start v); t = addr + n
            in if t < li_end v
               then (if a = li_start v then (0, v\<lparr>li_start := t, li_img := li_img v + (t - li_start v)\<rparr> # vs)
                     else (case split_iov True v t of
                             None \<Rightarrow> (-1, v # vs)
                           | Some (v1, v2) \<Rightarrow> (0, v1\<lparr>li_end := a\<rparr> # v2 # vs)))
               else (let (r, vs) = drop_loop True vs (li_end v) (int (t - li_end v))
                     in (r, if a = li_start v then vs else v\<lparr>li_end := a\<rparr> # vs))))"
proof -
  have plus: "addr_plus addr (int n) = addr + n" using fits by (rule addr_plus_small)
  have below: "int32 (int n - (int (li_start v) - int addr)) = int (addr + n - li_start v)"
    if "addr < li_start v" "li_start v \<le> addr + n"
    using that small by (subst int32_small) auto
  have rest: "int32 (int n - (int (li_end v) - int addr)) = int (addr + n - li_end v)"
    if "addr < li_end v" "li_end v \<le> addr + n"
    using that small by (subst int32_small) auto
  have img: "addr_plus (li_img v) (int k) = li_img v + k" if "k \<le> li_end v - li_start v" for k
    using that ok by (intro addr_plus_small) (auto simp: iov_ok_def)
  have at: "addr_plus (li_start v) (int (addr + n - li_start v)) = addr + n" if "li_start v \<le> addr + n"
    using that fits by (subst addr_plus_small) auto
  have rest': "int32 (int (addr + n - li_start v) - (int (li_end v) - int (li_start v))) = int (addr + n - li_end v)"
    if "li_end v \<le> addr + n" "addr < li_start v"
    using that small iov_ok_bounds [OF ok] by (subst int32_small) auto
  show ?thesis
  proof (cases "addr < li_start v \<and> li_start v \<le> addr + n \<and> n \<noteq> 0")
    case True
    show ?thesis
    proof (cases "addr + n < li_end v")
      case tl: True
      have "addr + n - li_start v \<le> li_end v - li_start v" using tl by simp
      then show ?thesis using True tl iov_ok_bounds [OF ok]
        by (simp add: Let_def plus below at img max_def del: of_nat_diff of_nat_add)
    next
      case False
      then show ?thesis using True iov_ok_bounds [OF ok]
        by (simp add: Let_def plus below at rest' max_def del: of_nat_diff of_nat_add)
    qed
  next
    case False
    then show ?thesis using iov_ok_bounds [OF ok] img [of n] rest fits addr_plus_small [of "li_start v" n]
      by (auto simp: Let_def plus max_def not_less not_le simp del: of_nat_diff of_nat_add)
  qed
qed

text \<open>What is left of the first range when the range that is dropped ends in it, and when it goes on behind it.\<close>

definition dropped :: "lazy_iov list \<Rightarrow> nat \<Rightarrow> nat \<Rightarrow> lazy_iov list \<Rightarrow> bool" where
  "dropped vs s t vs' \<longleftrightarrow> lsorted vs' \<and> within vs' vs \<and> lmap vs' = without (lmap vs) s t"

lemma dropped_head:
  assumes v: "iov_ok v" "\<forall>w\<in>set vs. li_end v \<le> li_start w" "lsorted vs"
    and t: "s \<le> li_start v" "li_start v \<le> t" "t < li_end v" "PAGE_SIZE dvd t"
  shows "dropped (v # vs) s t (v\<lparr>li_start := t, li_img := li_img v + (t - li_start v)\<rparr> # vs)"
  unfolding dropped_def
proof (intro conjI)
  show "lsorted (v\<lparr>li_start := t, li_img := li_img v + (t - li_start v)\<rparr> # vs)"
    using t v by (auto simp: iov_ok_def intro!: dvd_add dvd_diff_nat)
  show "lmap (v\<lparr>li_start := t, li_img := li_img v + (t - li_start v)\<rparr> # vs) = without (lmap (v # vs)) s t"
    using t lmap_below [OF v(2)] by (auto simp: without_def fun_eq_iff holds_def)
qed (use t in \<open>auto simp: within_def\<close>)

lemma dropped_mid:
  assumes v: "iov_ok v" "\<forall>w\<in>set vs. li_end v \<le> li_start w" "lsorted vs"
    and t: "li_start v < s" "s \<le> t" "t < li_end v" "PAGE_SIZE dvd s" "PAGE_SIZE dvd t"
  shows "\<exists>v1 v2. split_iov True v t = Some (v1, v2) \<and> dropped (v # vs) s t (v1\<lparr>li_end := s\<rparr> # v2 # vs)"
proof -
  obtain v1 v2 where sp: "split_iov True v t = Some (v1, v2)" "iov_ok v1" "iov_ok v2" "li_start v1 = li_start v"
      "li_end v1 = t" "li_start v2 = t" "li_end v2 = li_end v" "li_img v1 = li_img v" "li_img v2 = li_img v + (t - li_start v)"
    using split_iov_ok [OF v(1) _ t(3,5)] t by auto
  have "lmap (v1\<lparr>li_end := s\<rparr> # v2 # vs) = without (lmap (v # vs)) s t"
    using t sp lmap_below [OF v(2)] by (auto simp: without_def fun_eq_iff holds_def)
  moreover have "lsorted (v1\<lparr>li_end := s\<rparr> # v2 # vs)" using t v sp by (auto simp: iov_ok_def)
  moreover have "within (v1\<lparr>li_end := s\<rparr> # v2 # vs) (v # vs)" using t sp by (auto simp: within_def)
  ultimately show ?thesis using sp(1) by (auto simp: dropped_def)
qed

lemma dropped_over:
  assumes v: "iov_ok v" "\<forall>w\<in>set vs. li_end v \<le> li_start w" "lsorted vs"
    and t: "s < li_end v" "li_end v \<le> t" "PAGE_SIZE dvd s" and d: "dropped vs (li_end v) t vs'"
  shows "dropped (v # vs) s t (if s \<le> li_start v then vs' else v\<lparr>li_end := s\<rparr> # vs')"
proof -
  let ?w = "v\<lparr>li_end := s\<rparr>"
  have m: "lmap vs' = without (lmap vs) (li_end v) t" "lsorted vs'" "within vs' vs" using d by (auto simp: dropped_def)
  have "lmap vs' = without (lmap (v # vs)) s t" if "s \<le> li_start v"
    using that t m(1) lmap_below [OF v(2)] by (auto simp: without_def fun_eq_iff holds_def)
  moreover have "lmap (?w # vs') = without (lmap (v # vs)) s t"
    using t m(1) lmap_below [OF v(2)] by (auto simp: without_def fun_eq_iff holds_def)
  moreover have "lsorted (?w # vs')" if "li_start v < s"
    using that t v(1) m(2) within_above [OF m(3) v(2)] by (fastforce simp: iov_ok_def)
  moreover have "within (?w # vs') (v # vs)" using t m(3) by (auto simp: within_def)
  ultimately show ?thesis using m within_more [OF m(3)] by (simp add: dropped_def not_le)
qed

lemma dropped_none:
  assumes "lsorted vs" "t \<le> s \<or> (\<forall>v\<in>set vs. t \<le> li_start v)"
  shows "dropped vs s t vs"
  using assms lmap_below [of vs t] by (auto simp: dropped_def without_def fun_eq_iff)

lemma dropped_skip:
  assumes v: "iov_ok v" "\<forall>w\<in>set vs. li_end v \<le> li_start w" and "li_end v \<le> s" "dropped vs s t vs'"
  shows "dropped (v # vs) s t (v # vs')"
  using assms lsorted_Cons_within [OF v(1) _ _ v(2)] within_Cons
  by (auto simp: dropped_def without_def fun_eq_iff holds_def)

lemma drop_loop_correct:
  assumes "lsorted vs" "addr + n < ULONG_MOD" "n < 2 ^ 31" "PAGE_SIZE dvd addr" "PAGE_SIZE dvd n"
  shows "\<exists>vs'. drop_loop True vs addr (int n) = (0, vs') \<and> dropped vs addr (addr + n) vs'"
  using assms
proof (induction vs arbitrary: addr n)
  case Nil
  then show ?case by (auto simp: dropped_def without_def)
next
  case (Cons v vs)
  have v: "iov_ok v" "\<forall>w\<in>set vs. li_end v \<le> li_start w" "lsorted vs" using Cons.prems(1) by auto
  note eq = drop_loop_exact [OF v(1) Cons.prems(2,3), of vs]
  have dt: "PAGE_SIZE dvd addr + n" using Cons.prems by auto
  consider (stop) "n = 0 \<or> addr + n < li_start v" | (before) "n \<noteq> 0" "li_start v \<le> addr + n" "li_end v \<le> addr"
    | (head) "n \<noteq> 0" "li_start v \<le> addr + n" "addr \<le> li_start v" "addr + n < li_end v"
    | (mid) "n \<noteq> 0" "li_start v < addr" "addr + n < li_end v"
    | (over) "n \<noteq> 0" "addr < li_end v" "li_end v \<le> addr + n"
    by force
  then show ?case
  proof cases
    case stop
    have "dropped (v # vs) addr (addr + n) (v # vs)"
      using stop iov_ok_bounds [OF v(1)] v(2) Cons.prems(1) by (intro dropped_none) fastforce+
    then show ?thesis unfolding eq using stop by simp
  next
    case before
    obtain vs' where "drop_loop True vs addr (int n) = (0, vs')" "dropped vs addr (addr + n) vs'"
      using Cons.IH [OF v(3) Cons.prems(2-5)] by auto
    then show ?thesis unfolding eq using before dropped_skip [OF v(1,2) before(3)] by simp
  next
    case head
    then show ?thesis unfolding eq using dropped_head [OF v head(3,2,4) dt] iov_ok_bounds [OF v(1)]
      by (simp add: Let_def max_def)
  next
    case mid
    obtain v1 v2 where "split_iov True v (addr + n) = Some (v1, v2)"
        "dropped (v # vs) addr (addr + n) (v1\<lparr>li_end := addr\<rparr> # v2 # vs)"
      using dropped_mid [OF v mid(2) _ mid(3) Cons.prems(4) dt] by auto
    then show ?thesis unfolding eq using mid by (simp add: Let_def max_def)
  next
    case over
    define k where "k = addr + n - li_end v"
    have k: "li_end v + k = addr + n" "k < 2 ^ 31" "PAGE_SIZE dvd li_end v" "PAGE_SIZE dvd k"
      using over Cons.prems v(1) dt by (auto simp: k_def iov_ok_def intro!: dvd_diff_nat)
    obtain vs' where IH: "drop_loop True vs (li_end v) (int k) = (0, vs')" "dropped vs (li_end v) (addr + n) vs'"
      using Cons.IH [OF v(3) _ k(2-4)] k(1) Cons.prems(2) by auto
    then show ?thesis unfolding eq
      using over dropped_over [OF v over(2,3) Cons.prems(4) IH(2)] iov_ok_bounds [OF v(1)]
      by (auto simp: Let_def max_def k_def [symmetric] split: if_splits)
  qed
qed

text \<open>A range that no range of the list meets: nothing happens, in whatever order the list is.\<close>

lemma drop_loop_apart:
  assumes "\<forall>v\<in>set vs. iov_ok v \<and> (addr + n \<le> li_start v \<or> li_end v \<le> addr)" "addr + n < ULONG_MOD" "n < 2 ^ 31"
  shows "drop_loop True vs addr (int n) = (0, vs)"
  using assms
proof (induction vs)
  case (Cons v vs)
  have v: "iov_ok v" "addr + n \<le> li_start v \<or> li_end v \<le> addr" using Cons.prems by auto
  show ?case unfolding drop_loop_exact [OF v(1) Cons.prems(2,3)]
    using v(2) iov_ok_bounds [OF v(1)] Cons by (auto simp: Let_def)
qed simp

subsection \<open>Inserting and merging\<close>

lemma apart_sym: "apart v w \<longleftrightarrow> apart w v"
  by (auto simp: apart_def)

lemma apartI: "\<lbrakk>iov_ok v; iov_ok w; \<And>a. \<not> (holds v a \<and> holds w a)\<rbrakk> \<Longrightarrow> apart v w"
  using iov_ok_bounds [of v] iov_ok_bounds [of w] unfolding apart_def holds_def
  by (metis le_less_linear less_imp_le_nat linorder_not_le nle_le)

lemma apart_holds: "\<lbrakk>apart v w; holds v a\<rbrakk> \<Longrightarrow> \<not> holds w a"
  by (auto simp: apart_def holds_def)

text \<open>The map does not depend on the order of disjoint ranges.\<close>

lemma lmap_cong_set:
  assumes "ldisjoint vs" "ldisjoint ws" "set vs = set ws"
  shows "lmap vs = lmap ws"
proof
  fix a
  show "lmap vs a = lmap ws a"
  proof (cases "\<exists>v\<in>set vs. holds v a")
    case True
    then obtain v where "v \<in> set vs" "holds v a" by auto
    then show ?thesis using lmap_mem [OF assms(1)] lmap_mem [OF assms(2)] assms(3) by simp
  next
    case False
    then have "lmap vs a = None" "lmap ws a = None" using assms(3) by (auto simp: lmap_none)
    then show ?thesis by simp
  qed
qed

lemma ldisjoint_append:
  "ldisjoint (vs @ ws) \<longleftrightarrow> ldisjoint vs \<and> ldisjoint ws \<and> (\<forall>v\<in>set vs. \<forall>w\<in>set ws. apart v w)"
  by (induction vs) auto

lemma insert_loop_correct:
  assumes "lsorted vs" "iov_ok nw" "\<forall>v\<in>set vs. apart nw v" "vs \<noteq> []"
  shows "\<exists>vs'. insert_loop nw vs = Some vs' \<and> lsorted vs' \<and> set vs' = insert nw (set vs)"
  using assms
proof (induction vs)
  case (Cons v vs)
  have ok: "iov_ok v" "iov_ok nw" using Cons.prems by auto
  consider (here) "li_start nw < li_start v" | (behind) "li_start v < li_start nw"
    using Cons.prems ok iov_ok_bounds [of v] iov_ok_bounds [of nw] by (fastforce simp: apart_def)
  then show ?case
  proof cases
    case here
    then have "li_end nw \<le> li_start v" using Cons.prems iov_ok_bounds [OF ok(1)] by (auto simp: apart_def)
    then show ?thesis using here Cons.prems iov_ok_bounds [OF ok(1)] by fastforce
  next
    case behind
    then have le: "li_end v \<le> li_start nw" using Cons.prems iov_ok_bounds [OF ok(2)] by (auto simp: apart_def)
    show ?thesis
    proof (cases "vs = []")
      case False
      then obtain vs' where "insert_loop nw vs = Some vs'" "lsorted vs'" "set vs' = insert nw (set vs)"
        using Cons by auto
      then show ?thesis using behind False le Cons.prems(1) by auto
    qed (use behind le ok in auto)
  qed
qed simp

lemma iov_list_insert_correct:
  assumes "lsorted vs" "iov_ok nw" "\<forall>v\<in>set vs. apart nw v"
  shows "\<exists>vs'. iov_list_insert nw vs = Some vs' \<and> lsorted vs' \<and> set vs' = insert nw (set vs)"
  using insert_loop_correct [OF assms] assms(2) by (auto simp: iov_list_insert_def)

lemma merge_correct:
  assumes "lsorted dst" "ldisjoint src" "\<forall>v\<in>set src. \<forall>w\<in>set dst. apart v w"
  shows "\<exists>dst'. merge_iov_lists src dst = ([], dst') \<and> lsorted dst' \<and> set dst' = set src \<union> set dst"
  using assms
proof (induction src arbitrary: dst)
  case (Cons v src)
  obtain d where d: "iov_list_insert v dst = Some d" "lsorted d" "set d = insert v (set dst)"
    using iov_list_insert_correct [of dst v] Cons.prems by auto
  have "\<forall>u\<in>set src. \<forall>w\<in>set d. apart u w" using Cons.prems d(3) by (auto simp: apart_sym [of v])
  then show ?case using Cons.IH [OF d(2)] Cons.prems(2) d by auto
qed simp

lemma lmap_merged:
  assumes "lsorted dst" "ldisjoint src" "\<forall>v\<in>set src. \<forall>w\<in>set dst. apart v w" "lsorted d" "set d = set src \<union> set dst"
  shows "lmap d = lmap (src @ dst)"
  using assms lsorted_disjoint by (intro lmap_cong_set) (auto simp: ldisjoint_append)

lemma copy_iov_list_all: "copy_iov_list (\<lambda>_. True) src dst = (0, dst @ src)"
  by (induction src arbitrary: dst) auto

subsection \<open>Taking a range out\<close>

text \<open>What is left of a range in front of the piece and behind it.\<close>

definition front_of :: "lazy_iov \<Rightarrow> nat \<Rightarrow> lazy_iov list" where
  "front_of v s = (if s = li_start v then [] else [v\<lparr>li_end := s\<rparr>])"

definition back_of :: "lazy_iov \<Rightarrow> nat \<Rightarrow> lazy_iov list" where
  "back_of v t = (if t = li_end v then [] else [\<lparr>li_start = t, li_end = li_end v, li_img = li_img v + (t - li_start v)\<rparr>])"

definition piece_of :: "lazy_iov \<Rightarrow> nat \<Rightarrow> nat \<Rightarrow> lazy_iov" where
  "piece_of v s t = \<lparr>li_start = s, li_end = t, li_img = li_img v + (s - li_start v)\<rparr>"

lemma piece_of_sel [simp]:
  "li_start (piece_of v s t) = s" "li_end (piece_of v s t) = t" "li_img (piece_of v s t) = li_img v + (s - li_start v)"
  by (simp_all add: piece_of_def)

lemma cut_out:
  assumes vs: "lsorted (pre @ v # post)"
    and st: "li_start v \<le> s" "s < t" "t \<le> li_end v" "PAGE_SIZE dvd s" "PAGE_SIZE dvd t"
  shows "iov_ok (piece_of v s t)" "lsorted (pre @ front_of v s @ back_of v t @ post)"
    "\<forall>u\<in>set (pre @ front_of v s @ back_of v t @ post). apart (piece_of v s t) u"
    "within (pre @ front_of v s @ back_of v t @ post) (pre @ v # post)"
    "lmap (piece_of v s t # pre @ front_of v s @ back_of v t @ post) = lmap (pre @ v # post)"
proof -
  have ok: "iov_ok v" "lsorted pre" "lsorted post" "\<forall>u\<in>set pre. li_end u \<le> li_start v" "\<forall>u\<in>set post. li_end v \<le> li_start u"
    "\<forall>u\<in>set pre. \<forall>w\<in>set post. li_end u \<le> li_start w"
    using vs by (auto simp: lsorted_append)
  show "iov_ok (piece_of v s t)" using ok(1) st by (auto simp: piece_of_def iov_ok_def intro!: dvd_add dvd_diff_nat)
  have mid: "lsorted (front_of v s @ back_of v t)"
    using ok(1) st by (auto simp: front_of_def back_of_def iov_ok_def intro!: dvd_add dvd_diff_nat)
  have in_v: "li_start v \<le> li_start u" "li_end u \<le> li_end v" "apart (piece_of v s t) u"
    if "u \<in> set (front_of v s @ back_of v t)" for u
    using that st by (auto simp: front_of_def back_of_def piece_of_def apart_def split: if_splits)
  have "\<forall>u\<in>set pre. \<forall>w\<in>set (front_of v s @ back_of v t). li_end u \<le> li_start w"
    using ok(4) in_v(1) le_trans by blast
  moreover have "\<forall>u\<in>set (front_of v s @ back_of v t). \<forall>w\<in>set post. li_end u \<le> li_start w"
    using ok(5) in_v(2) le_trans by blast
  ultimately have "lsorted (pre @ (front_of v s @ back_of v t) @ post)"
    unfolding lsorted_append [of pre] lsorted_append [of "front_of v s @ back_of v t"] using ok mid by (auto simp: set_append)
  then show "lsorted (pre @ front_of v s @ back_of v t @ post)" by simp
  have "apart (piece_of v s t) u" if "u \<in> set pre" for u
    using that ok(4) st(1) by (auto simp: apart_def piece_of_def intro: le_trans)
  moreover have "apart (piece_of v s t) u" if "u \<in> set post" for u
    using that ok(5) st(3) by (auto simp: apart_def piece_of_def intro: le_trans)
  ultimately show "\<forall>u\<in>set (pre @ front_of v s @ back_of v t @ post). apart (piece_of v s t) u"
    using in_v by auto
  show "within (pre @ front_of v s @ back_of v t @ post) (pre @ v # post)" using in_v by (auto simp: within_def)
  show "lmap (piece_of v s t # pre @ front_of v s @ back_of v t @ post) = lmap (pre @ v # post)"
  proof
    fix a
    have "lmap pre a = None" if "li_start v \<le> a" using that ok(4) by (force simp: lmap_none holds_def)
    then show "lmap (piece_of v s t # pre @ front_of v s @ back_of v t @ post) a = lmap (pre @ v # post) a"
      using st by (auto simp: lmap_append front_of_def back_of_def piece_of_def holds_def split: option.split)
  qed
qed

lemma extract_range_pieces:
  assumes vs: "lsorted vs" "k < length vs"
    and st: "li_start (vs ! k) \<le> s" "s < t" "t \<le> li_end (vs ! k)" "PAGE_SIZE dvd s" "PAGE_SIZE dvd t"
  shows "extract_range True True vs k s t =
    (Some (piece_of (vs ! k) s t), take k vs @ front_of (vs ! k) s @ back_of (vs ! k) t @ drop (Suc k) vs)"
proof -
  let ?v = "vs ! k"
  have ok: "iov_ok ?v" using lsorted_all_ok [OF vs(1)] vs(2) by simp
  have sp: "split_iov True ?v t = Some (?v\<lparr>li_end := t\<rparr>, \<lparr>li_start = t, li_end = li_end ?v, li_img = li_img ?v + (t - li_start ?v)\<rparr>)"
    if "t < li_end ?v" using split_iov_ok [OF ok, of t] that st by (auto simp: split_iov_def)
  have okt: "iov_ok (?v\<lparr>li_end := t\<rparr>)" using ok st by (auto simp: iov_ok_def)
  have sp2: "split_iov True (?v\<lparr>li_end := t\<rparr>) s = Some (?v\<lparr>li_end := s\<rparr>, piece_of ?v s t)"
    if "li_start ?v < s" using split_iov_ok [OF okt, of s] that st by (auto simp: split_iov_def piece_of_def)
  have whole: "?v\<lparr>li_end := t\<rparr> = ?v" if "t = li_end ?v" using that by simp
  have same: "?v\<lparr>li_end := t\<rparr> = piece_of ?v s t" if "s = li_start ?v" using that by (simp add: piece_of_def)
  show ?thesis
  proof (cases "t < li_end ?v")
    case True
    then show ?thesis using sp sp2 st same
      by (cases "s = li_start ?v") (auto simp: extract_range_def Let_def front_of_def back_of_def)
  next
    case False
    then have t: "t = li_end ?v" using st by simp
    show ?thesis using sp2 st same unfolding whole [OF t]
      by (cases "s = li_start ?v") (auto simp: extract_range_def Let_def front_of_def back_of_def t)
  qed
qed

lemma extract_range_correct:
  assumes vs: "lsorted vs" "k < length vs"
    and st: "li_start (vs ! k) \<le> s" "s < t" "t \<le> li_end (vs ! k)" "PAGE_SIZE dvd s" "PAGE_SIZE dvd t"
  shows "\<exists>vs'. extract_range True True vs k s t = (Some (piece_of (vs ! k) s t), vs') \<and> iov_ok (piece_of (vs ! k) s t) \<and>
     lsorted vs' \<and> (\<forall>u\<in>set vs'. apart (piece_of (vs ! k) s t) u) \<and> within vs' vs \<and> lmap (piece_of (vs ! k) s t # vs') = lmap vs"
proof -
  have split: "vs = take k vs @ vs ! k # drop (Suc k) vs" by (rule id_take_nth_drop [OF vs(2)])
  have "lsorted (take k vs @ vs ! k # drop (Suc k) vs)" using vs(1) split by simp
  from cut_out [OF this st] show ?thesis
    unfolding extract_range_pieces [OF assms] by (simp only: split [symmetric]) simp
qed

subsection \<open>Moving a range\<close>

definition only :: "(nat \<Rightarrow> 'a option) \<Rightarrow> nat \<Rightarrow> nat \<Rightarrow> nat \<Rightarrow> 'a option" where
  "only m s t = (\<lambda>a. if s \<le> a \<and> a < t then m a else None)"

definition shiftv :: "ulong \<Rightarrow> lazy_iov \<Rightarrow> lazy_iov" where
  "shiftv off v = v\<lparr>li_start := ul_add (li_start v) off, li_end := ul_add (li_end v) off\<rparr>"

text \<open>The part of a list in a range.\<close>

definition picked :: "lazy_iov list \<Rightarrow> nat \<Rightarrow> nat \<Rightarrow> lazy_iov list \<Rightarrow> bool" where
  "picked vs s t mv \<longleftrightarrow> lsorted mv \<and> within mv vs \<and> lmap mv = only (lmap vs) s t"

definition remapped :: "lazy_iov list \<Rightarrow> nat \<Rightarrow> nat \<Rightarrow> ulong \<Rightarrow> int \<times> lazy_iov list \<times> lazy_iov list \<Rightarrow> bool" where
  "remapped vs s t off res \<longleftrightarrow>
     (\<exists>stay mv. res = (0, stay, map (shiftv off) mv) \<and> dropped vs s t stay \<and> picked vs s t mv)"

lemma remapped_none:
  assumes "lsorted vs" "t \<le> s \<or> (\<forall>v\<in>set vs. t \<le> li_start v)"
  shows "remapped vs s t off (0, vs, [])"
proof -
  have "picked vs s t []" using assms(2) lmap_below [of vs t] by (auto simp: picked_def within_def only_def fun_eq_iff)
  then show ?thesis using dropped_none [OF assms] unfolding remapped_def by (intro exI [of _ vs] exI [of _ "[]"]) simp
qed

lemma picked_skip: "\<lbrakk>li_end v \<le> s; picked vs s t mv\<rbrakk> \<Longrightarrow> picked (v # vs) s t mv"
  using within_more by (auto simp: picked_def only_def fun_eq_iff holds_def)

lemma remapped_skip:
  assumes v: "iov_ok v" "\<forall>w\<in>set vs. li_end v \<le> li_start w" "li_end v \<le> s" and r: "remapped vs s t off (r, stay, moved)"
  shows "remapped (v # vs) s t off (r, v # stay, moved)"
  using r dropped_skip [OF v] picked_skip [OF v(3)] by (auto simp: remapped_def)

text \<open>The range begins in front of the first range of the list and ends in it.\<close>

lemma remapped_split:
  assumes v: "iov_ok v" "\<forall>w\<in>set vs. li_end v \<le> li_start w" "lsorted vs"
    and t: "s \<le> li_start v" "li_start v < t" "t < li_end v" "PAGE_SIZE dvd t"
  shows "\<exists>v1 v2. split_iov True v t = Some (v1, v2) \<and> li_start v1 = li_start v \<and> li_end v1 = t \<and> li_start v2 = t \<and>
    li_end v2 = li_end v \<and> remapped (v # vs) s t off (0, v2 # vs, [shiftv off v1])"
proof -
  obtain v1 v2 where sp: "split_iov True v t = Some (v1, v2)" "iov_ok v1" "iov_ok v2" "li_start v1 = li_start v"
      "li_end v1 = t" "li_start v2 = t" "li_end v2 = li_end v" "li_img v1 = li_img v" "li_img v2 = li_img v + (t - li_start v)"
    using split_iov_ok [OF v(1) t(2-4)] by auto
  have "lmap (v2 # vs) = without (lmap (v # vs)) s t"
    using t sp lmap_below [OF v(2)] by (auto simp: without_def fun_eq_iff holds_def)
  then have "dropped (v # vs) s t (v2 # vs)" using sp t v by (auto simp: dropped_def within_def)
  moreover have "lmap [v1] = only (lmap (v # vs)) s t"
    using t sp lmap_below [OF v(2)] by (auto simp: only_def fun_eq_iff holds_def)
  then have "picked (v # vs) s t [v1]" using sp t by (auto simp: picked_def within_def)
  ultimately have "remapped (v # vs) s t off (0, v2 # vs, [shiftv off v1])"
    unfolding remapped_def by (intro exI [of _ "v2 # vs"] exI [of _ "[v1]"]) simp
  then show ?thesis using sp by blast
qed

lemma remapped_whole:
  assumes v: "iov_ok v" "\<forall>w\<in>set vs. li_end v \<le> li_start w" "lsorted vs"
    and t: "s \<le> li_start v" "li_end v \<le> t" and r: "remapped vs (li_end v) t off (r, stay, moved)"
  shows "remapped (v # vs) s t off (r, stay, shiftv off v # moved)"
proof -
  obtain mv where c: "r = 0" "moved = map (shiftv off) mv" "dropped vs (li_end v) t stay" "picked vs (li_end v) t mv"
    using r by (auto simp: remapped_def)
  have m: "lmap mv = only (lmap vs) (li_end v) t" "lmap stay = without (lmap vs) (li_end v) t" "lsorted mv" "within mv vs"
      "lsorted stay" "within stay vs"
    using c by (auto simp: picked_def dropped_def)
  have "lmap stay = without (lmap (v # vs)) s t"
    using t m(2) lmap_below [OF v(2)] iov_ok_bounds [OF v(1)] by (auto simp: without_def fun_eq_iff holds_def)
  then have "dropped (v # vs) s t stay" using m within_more by (auto simp: dropped_def)
  moreover have "lmap (v # mv) = only (lmap (v # vs)) s t"
    using t m(1) lmap_below [OF v(2)] iov_ok_bounds [OF v(1)] by (auto simp: only_def fun_eq_iff holds_def)
  then have "picked (v # vs) s t (v # mv)"
    using lsorted_Cons_within [OF v(1) m(3,4) v(2)] within_Cons [OF m(4)] unfolding picked_def by blast
  ultimately show ?thesis unfolding remapped_def using c(1,2) by (intro exI [of _ stay] exI [of _ "v # mv"]) simp
qed

text \<open>The loop, first when it reaches the first range at or before its beginning.\<close>

lemma remap_loop_exact:
  assumes v: "iov_ok v" and s: "s \<le> li_start v" "li_start v < s + n" "s + n < ULONG_MOD"
  shows "remap_loop True (v # vs) s n off =
     (if s + n < li_end v
      then (case split_iov True v (s + n) of
              None \<Rightarrow> (-1, v # vs, [])
            | Some (v1, v2) \<Rightarrow>
                (let (r, stay, moved) =
                       remap_loop True (v2 # vs) (li_end v1) (ul_sub (s + n - li_start v) (ul_sub (li_end v1) (li_start v1))) off
                 in (r, stay, shiftv off v1 # moved)))
      else (let (r, stay, moved) = remap_loop True vs (li_end v) (s + n - li_end v) off
            in (r, stay, shiftv off v # moved)))"
proof -
  have b: "li_start v < li_end v" "li_end v < ULONG_MOD" using iov_ok_bounds [OF v] by auto
  have len: "(if s < li_start v then ul_sub n (li_start v - s) else n) = s + n - li_start v"
    using s by (auto simp: c_arith)
  have fr: "(if s < li_start v then li_start v else s) = li_start v" using s by auto
  have all: "ul_add s n = s + n" "ul_add (li_start v) (s + n - li_start v) = s + n" using s by (simp_all add: c_arith)
  have rest: "ul_sub (s + n - li_start v) (ul_sub (li_end v) (li_start v)) = s + n - li_end v" if "li_end v \<le> s + n"
    using that b s by (simp add: c_arith)
  have not: "\<not> li_end v \<le> s" "\<not> (n = 0 \<or> s + n \<le> li_start v)" using s b by auto
  show ?thesis
    unfolding remap_loop.simps(2) [of True v vs s n off] len fr all Let_def [of "li_start v"] Let_def [of "s + n - li_start v"]
    using not rest by (auto simp: shiftv_def simp del: remap_loop.simps split: option.split)
qed

lemma remap_loop_at:
  assumes v: "iov_ok v" "\<forall>w\<in>set vs. li_end v \<le> li_start w" "lsorted vs"
    and IH: "\<And>s n. \<lbrakk>s + n < ULONG_MOD; PAGE_SIZE dvd s; PAGE_SIZE dvd n\<rbrakk> \<Longrightarrow> remapped vs s (s + n) off (remap_loop True vs s n off)"
    and s: "s \<le> li_start v" "s + n < ULONG_MOD" "PAGE_SIZE dvd s" "PAGE_SIZE dvd n"
  shows "remapped (v # vs) s (s + n) off (remap_loop True (v # vs) s n off)"
proof -
  have b: "li_start v < li_end v" "li_end v < ULONG_MOD" using iov_ok_bounds [OF v(1)] by auto
  have dt: "PAGE_SIZE dvd s + n" using s by auto
  consider (stop) "n = 0 \<or> s + n \<le> li_start v" | (split) "n \<noteq> 0" "li_start v < s + n" "s + n < li_end v"
    | (whole) "n \<noteq> 0" "li_start v < s + n" "li_end v \<le> s + n" by force
  then show ?thesis
  proof cases
    case stop
    then have "remap_loop True (v # vs) s n off = (0, v # vs, [])" using s b by (simp add: c_arith)
    moreover have "\<forall>w\<in>set (v # vs). s + n \<le> li_start w" if "s + n \<le> li_start v" using that v b by fastforce
    ultimately show ?thesis using remapped_none [of "v # vs" "s + n" s] stop v s by auto
  next
    case split
    obtain v1 v2 where sp: "split_iov True v (s + n) = Some (v1, v2)" "li_start v1 = li_start v" "li_end v1 = s + n"
        "li_start v2 = s + n" "li_end v2 = li_end v" "remapped (v # vs) s (s + n) off (0, v2 # vs, [shiftv off v1])"
      using remapped_split [OF v s(1) split(2,3) dt, of off] by auto
    have "remap_loop True (v2 # vs) (s + n) 0 off = (0, v2 # vs, [])" using sp split by simp
    then have "remap_loop True (v # vs) s n off = (0, v2 # vs, [shiftv off v1])"
      unfolding remap_loop_exact [OF v(1) s(1) split(2) s(2)] using sp(1-5) split s b
      by (simp add: c_arith)
    then show ?thesis using sp(6) by simp
  next
    case whole
    define k where "k = s + n - li_end v"
    have k: "li_end v + k = s + n" "PAGE_SIZE dvd li_end v" "PAGE_SIZE dvd k"
      using whole v(1) dt by (auto simp: k_def iov_ok_def intro!: dvd_diff_nat)
    obtain r stay moved where rec: "remap_loop True vs (li_end v) k off = (r, stay, moved)" by (cases "remap_loop True vs (li_end v) k off") auto
    have "remap_loop True (v # vs) s n off = (r, stay, shiftv off v # moved)"
      unfolding remap_loop_exact [OF v(1) s(1) whole(2) s(2)] using whole rec by (simp add: k_def)
    moreover have "remapped vs (li_end v) (s + n) off (r, stay, moved)" using IH [of "li_end v" k] k s(2) rec by simp
    ultimately show ?thesis using remapped_whole [OF v s(1) whole(3)] by simp
  qed
qed

lemma remapped_inside:
  assumes v: "iov_ok v" "li_start v < s" "s < li_end v"
    and sp: "li_start v1 = li_start v" "li_end v1 = s" "li_start v2 = s" "li_end v2 = li_end v" "li_img v1 = li_img v"
      "li_img v2 = li_img v + (s - li_start v)" "iov_ok v1" "\<forall>w\<in>set vs. li_end v \<le> li_start w"
    and r: "remapped (v2 # vs) s t off (r, stay, moved)"
  shows "remapped (v # vs) s t off (r, v1 # stay, moved)"
proof -
  have "lmap (v1 # v2 # vs) = lmap (v # vs)" using v sp by (intro lmap_split) auto
  moreover have "remapped (v1 # v2 # vs) s t off (r, v1 # stay, moved)"
    using v sp by (intro remapped_skip [OF _ _ _ r]) auto
  moreover have "within vs' (v # vs)" if "within vs' (v1 # v2 # vs)" for vs'
    using that v sp unfolding within_def by (auto; fastforce)
  ultimately show ?thesis unfolding remapped_def dropped_def picked_def by metis
qed

lemma remap_loop_correct:
  assumes "lsorted vs" "s + n < ULONG_MOD" "PAGE_SIZE dvd s" "PAGE_SIZE dvd n"
  shows "remapped vs s (s + n) off (remap_loop True vs s n off)"
  using assms
proof (induction vs arbitrary: s n)
  case Nil
  then show ?case using remapped_none [of "[]"] by simp
next
  case (Cons v vs)
  have v: "iov_ok v" "\<forall>w\<in>set vs. li_end v \<le> li_start w" "lsorted vs" using Cons.prems(1) by auto
  note IH = Cons.IH [OF v(3)]
  consider (before) "li_end v \<le> s" | (at) "s \<le> li_start v" | (inside) "li_start v < s" "s < li_end v" by force
  then show ?case
  proof cases
    case before
    obtain r stay moved where rec: "remap_loop True vs s n off = (r, stay, moved)" by (cases "remap_loop True vs s n off") auto
    have "remap_loop True (v # vs) s n off = (r, v # stay, moved)" using before rec by simp
    then show ?thesis using remapped_skip [OF v(1,2) before] IH [OF Cons.prems(2-4)] rec by simp
  next
    case at
    show ?thesis by (rule remap_loop_at [OF v IH at Cons.prems(2-4)])
  next
    case inside
    show ?thesis
    proof (cases "n = 0")
      case True
      then show ?thesis using inside remapped_none [OF Cons.prems(1), of "s + n" s off] by simp
    next
      case False
      obtain v1 v2 where sp: "split_iov True v s = Some (v1, v2)" "li_start v1 = li_start v" "li_end v1 = s"
          "li_start v2 = s" "li_end v2 = li_end v" "li_img v1 = li_img v" "li_img v2 = li_img v + (s - li_start v)"
          "iov_ok v1" "iov_ok v2"
        using split_iov_ok [OF v(1) inside Cons.prems(3)] by auto
      obtain r stay moved where rec: "remap_loop True (v2 # vs) s n off = (r, stay, moved)"
        by (cases "remap_loop True (v2 # vs) s n off") auto
      have "remap_loop True (v # vs) s n off = (r, v1 # stay, moved)"
        using inside False sp(1) rec Cons.prems(2)
        by (simp add: remap_loop.simps(2) [of True v vs s n off] c_arith Let_def del: remap_loop.simps)
      moreover have "remapped (v2 # vs) s (s + n) off (r, stay, moved)"
        using remap_loop_at [OF sp(9) _ v(3) IH _ Cons.prems(2-4)] sp v(2) rec by simp
      ultimately show ?thesis using remapped_inside [OF v(1) inside sp(2-8) v(2)] by simp
    qed
  qed
qed

text \<open>The ranges that move, at their new place.\<close>

lemma picked_inside:
  assumes "picked vs s t mv" "v \<in> set mv"
  shows "s \<le> li_start v" "li_end v \<le> t"
proof -
  have ok: "iov_ok v" "ldisjoint mv" using assms lsorted_all_ok lsorted_disjoint by (auto simp: picked_def)
  have "holds v (li_start v)" "holds v (li_end v - 1)" using iov_ok_bounds [OF ok(1)] by (auto simp: holds_def)
  then have "lmap mv (li_start v) \<noteq> None" "lmap mv (li_end v - 1) \<noteq> None" using assms(2) by (auto simp: lmap_none)
  then show "s \<le> li_start v" "li_end v \<le> t" using assms(1) iov_ok_bounds [OF ok(1)]
    by (auto simp: picked_def only_def split: if_splits)
qed

lemma shiftv_sel:
  assumes "from \<le> li_start v" "li_end v \<le> from + len" "to + len < ULONG_MOD" "from + len < ULONG_MOD" "iov_ok v"
  shows "li_start (shiftv (ul_sub to from) v) = li_start v - from + to" "li_end (shiftv (ul_sub to from) v) = li_end v - from + to"
    "li_img (shiftv (ul_sub to from) v) = li_img v"
proof -
  have "ul_add a (ul_sub to from) = a - from + to" if "from \<le> a" "a \<le> from + len" for a
  proof -
    have "int (ul_add a (ul_sub to from)) = int (a - from + to) mod int ULONG_MOD"
      using that by (simp add: int_ul_sub int_ul_add mod_simps of_nat_diff algebra_simps)
    moreover have "a - from + to < ULONG_MOD" using that assms(3) by simp
    ultimately show ?thesis by (simp del: of_nat_add)
  qed
  then show "li_start (shiftv (ul_sub to from) v) = li_start v - from + to" "li_end (shiftv (ul_sub to from) v) = li_end v - from + to"
    "li_img (shiftv (ul_sub to from) v) = li_img v"
    using assms iov_ok_bounds [OF assms(5)] by (auto simp: shiftv_def)
qed

lemma shiftv_list:
  assumes mv: "lsorted mv" "\<forall>v\<in>set mv. from \<le> li_start v \<and> li_end v \<le> from + len"
    and to: "to + len < ULONG_MOD" "from + len < ULONG_MOD" "PAGE_SIZE dvd from" "PAGE_SIZE dvd to"
  shows "lsorted (map (shiftv (ul_sub to from)) mv) \<and>
    (\<forall>a. lmap (map (shiftv (ul_sub to from)) mv) a = (if to \<le> a then lmap mv (a - to + from) else None))"
  using mv
proof (induction mv)
  case (Cons v mv)
  note sel = shiftv_sel [of "from" _ len to]
  have v: "iov_ok v" "from \<le> li_start v" "li_end v \<le> from + len" using Cons.prems by auto
  note vs = sel [OF v(2,3) to(1,2) v(1)]
  have ws: "li_start (shiftv (ul_sub to from) w) = li_start w - from + to" if "w \<in> set mv" for w
    using sel(1) [of w] that Cons.prems to lsorted_all_ok [of mv] by auto
  have "iov_ok (shiftv (ul_sub to from) v)"
    using v to vs by (auto simp: iov_ok_def intro!: dvd_add dvd_diff_nat)
  moreover have "\<forall>w\<in>set mv. li_end (shiftv (ul_sub to from) v) \<le> li_start (shiftv (ul_sub to from) w)"
  proof
    fix w assume w: "w \<in> set mv"
    then have "li_end v \<le> li_start w" "from \<le> li_start w" using Cons.prems by auto
    then show "li_end (shiftv (ul_sub to from) v) \<le> li_start (shiftv (ul_sub to from) w)"
      unfolding vs(2) ws [OF w] by simp
  qed
  moreover have "lmap (map (shiftv (ul_sub to from)) (v # mv)) a = (if to \<le> a then lmap (v # mv) (a - to + from) else None)" for a
    using Cons.IH Cons.prems vs v by (cases "to \<le> a") (auto simp: holds_def)
  ultimately show ?case using Cons by simp
qed auto

text \<open>No range of one list is longer than all of the other.\<close>

definition shorter :: "lazy_iov list \<Rightarrow> lazy_iov list \<Rightarrow> bool" where
  "shorter vs' vs \<longleftrightarrow> (\<forall>w\<in>set vs'. \<exists>v\<in>set vs. li_end w - li_start w \<le> li_end v - li_start v)"

lemma within_shorter: "within vs' vs \<Longrightarrow> shorter vs' vs"
  unfolding within_def shorter_def by (meson diff_le_mono diff_le_mono2 le_trans)

lemma shorter_shiftv:
  assumes mv: "within mv vs" "\<forall>v\<in>set mv. iov_ok v \<and> from \<le> li_start v \<and> li_end v \<le> from + len"
    and to: "to + len < ULONG_MOD" "from + len < ULONG_MOD"
  shows "shorter (map (shiftv (ul_sub to from)) mv) vs"
  unfolding shorter_def
proof
  fix w assume "w \<in> set (map (shiftv (ul_sub to from)) mv)"
  then obtain v where v: "w = shiftv (ul_sub to from) v" "v \<in> set mv" by auto
  then have ok: "iov_ok v" "from \<le> li_start v" "li_end v \<le> from + len" using mv(2) by auto
  have "li_end w - li_start w = li_end v - li_start v"
    unfolding v(1) shiftv_sel [OF ok(2,3) to ok(1)] using ok(2) iov_ok_bounds [OF ok(1)] by linarith
  then show "\<exists>v\<in>set vs. li_end w - li_start w \<le> li_end v - li_start v"
    using within_shorter [OF mv(1)] v(2) by (simp add: shorter_def)
qed

lemma remap_list_correct:
  assumes vs: "lsorted vs" and len: "from + len < ULONG_MOD" "to + len < ULONG_MOD"
      "PAGE_SIZE dvd from" "PAGE_SIZE dvd to" "PAGE_SIZE dvd len"
    and free: "\<forall>a. to \<le> a \<and> a < to + len \<longrightarrow> lmap vs a = None"
  shows "\<exists>vs'. remap_list True vs from to len = (0, vs') \<and> lsorted vs' \<and> shorter vs' vs \<and>
     lmap vs' = shifted (lmap vs) from to len"
proof -
  define sh where "sh = shiftv (ul_sub to from)"
  obtain stay mv where loop: "remap_loop True vs from len (ul_sub to from) = (0, stay, map sh mv)"
      and st: "dropped vs from (from + len) stay" and pk: "picked vs from (from + len) mv"
    using remap_loop_correct [OF vs len(1,3,5), of "ul_sub to from"] by (auto simp: remapped_def sh_def)
  have ins: "\<forall>v\<in>set mv. from \<le> li_start v \<and> li_end v \<le> from + len" using picked_inside [OF pk] by blast
  have mv: "lsorted mv" "lmap mv = only (lmap vs) from (from + len)" using pk by (auto simp: picked_def)
  have stay: "lsorted stay" "lmap stay = without (lmap vs) from (from + len)" using st by (auto simp: dropped_def)
  note sl = conjunct1 [OF shiftv_list [OF mv(1) ins len(2,1,3,4)], folded sh_def]
    conjunct2 [OF shiftv_list [OF mv(1) ins len(2,1,3,4)], folded sh_def, rule_format]
  have new: "lmap (map sh mv) a = (if to \<le> a \<and> a < to + len then lmap vs (a - to + from) else None)" for a
    using sl(2) [of a] by (auto simp: mv(2) only_def)
  have ap: "\<forall>v\<in>set (map sh mv). \<forall>w\<in>set stay. apart v w"
  proof (intro ballI apartI)
    fix v w a assume "v \<in> set (map sh mv)" "w \<in> set stay"
    then have "holds v a \<Longrightarrow> lmap (map sh mv) a \<noteq> None" "holds w a \<Longrightarrow> lmap stay a \<noteq> None"
      unfolding lmap_none by blast+
    then show "\<not> (holds v a \<and> holds w a)" using new [of a] free by (auto simp: stay(2) without_def split: if_splits)
  qed (use sl(1) stay(1) lsorted_all_ok in blast)+
  obtain d where d: "merge_iov_lists (map sh mv) stay = ([], d)" "lsorted d" "set d = set (map sh mv) \<union> set stay"
    using merge_correct [OF stay(1) lsorted_disjoint [OF sl(1)] ap] by auto
  have "lmap d = lmap (map sh mv @ stay)" by (rule lmap_merged [OF stay(1) lsorted_disjoint [OF sl(1)] ap d(2,3)])
  then have "lmap d = shifted (lmap vs) from to len"
    using free by (auto simp: fun_eq_iff lmap_append new stay(2) shifted_def without_def split: option.split)
  moreover have "shorter (map sh mv) vs"
    using pk ins lsorted_all_ok [OF mv(1)] len unfolding sh_def by (intro shorter_shiftv) (auto simp: picked_def)
  then have "shorter d vs" using within_shorter [of stay vs] st d(3) by (auto simp: shorter_def dropped_def)
  ultimately show ?thesis using d(1,2) loop by (auto simp: remap_list_def)
qed

end
