(* ===== verification/UffdRun.thy ===== *)
theory UffdRun
  imports UffdCorrect
begin

text \<open>
  The lazy pages daemon and the task it serves, \<open>criu/uffd.c\<close>: the invariant of a
  \<open>lazy_pages_info\<close>, what every handler does to the map of the pages that are still owed, and runs of
  events, arrivals and background transfers.
\<close>

subsection \<open>The invariant\<close>

text \<open>The pages that are still owed to the task, and where they are in the image.\<close>

definition remaining :: "lazy_pages_info \<Rightarrow> nat \<Rightarrow> nat option" where
  "remaining lpi = lmap (iovs lpi @ reqs lpi)"

definition no_longer :: "nat \<Rightarrow> lazy_iov list \<Rightarrow> bool" where
  "no_longer n vs \<longleftrightarrow> (\<forall>v\<in>set vs. li_end v - li_start v \<le> n)"

definition lpi_ok :: "lazy_pages_info \<Rightarrow> bool" where
  "lpi_ok lpi \<longleftrightarrow> lsorted (iovs lpi) \<and> ldisjoint (reqs lpi) \<and> (\<forall>v\<in>set (iovs lpi). \<forall>w\<in>set (reqs lpi). apart v w) \<and>
     no_longer MAX_XFER_LEN (reqs lpi) \<and> 0 < xfer_len lpi \<and> xfer_len lpi \<le> MAX_XFER_LEN \<and> PAGE_SIZE dvd xfer_len lpi"

lemma lpi_okD:
  assumes "lpi_ok lpi"
  shows "lsorted (iovs lpi)" "ldisjoint (reqs lpi)" "\<forall>v\<in>set (iovs lpi). \<forall>w\<in>set (reqs lpi). apart v w"
    "no_longer MAX_XFER_LEN (reqs lpi)" "0 < xfer_len lpi" "xfer_len lpi \<le> MAX_XFER_LEN" "PAGE_SIZE dvd xfer_len lpi"
  using assms by (auto simp: lpi_ok_def)

lemma lpi_ok_disjoint: "lpi_ok lpi \<Longrightarrow> ldisjoint (iovs lpi @ reqs lpi)"
  using lsorted_disjoint by (auto simp: lpi_ok_def ldisjoint_append)

lemma shorter_no_longer: "\<lbrakk>shorter vs' vs; no_longer n vs\<rbrakk> \<Longrightarrow> no_longer n vs'"
  unfolding shorter_def no_longer_def by (meson le_trans)

lemma no_longer_Cons [simp]: "no_longer n (v # vs) \<longleftrightarrow> li_end v - li_start v \<le> n \<and> no_longer n vs"
  by (auto simp: no_longer_def)

lemma update_xfer_len_ok:
  assumes "0 < xfer_len lpi" "xfer_len lpi \<le> MAX_XFER_LEN" "PAGE_SIZE dvd xfer_len lpi"
  shows "0 < xfer_len (update_xfer_len lpi pf)" "xfer_len (update_xfer_len lpi pf) \<le> MAX_XFER_LEN"
    "PAGE_SIZE dvd xfer_len (update_xfer_len lpi pf)"
proof -
  have "PAGE_SIZE dvd DEFAULT_XFER_LEN" "PAGE_SIZE dvd MAX_XFER_LEN"
    by (simp_all add: PAGE_SIZE_def DEFAULT_XFER_LEN_def MAX_XFER_LEN_def)
  moreover have "ul_add (xfer_len lpi) DEFAULT_XFER_LEN = xfer_len lpi + DEFAULT_XFER_LEN"
    using assms(2) by (intro ul_add_exact) (simp add: DEFAULT_XFER_LEN_def MAX_XFER_LEN_def ULONG_MOD_def)
  ultimately show "0 < xfer_len (update_xfer_len lpi pf)" "xfer_len (update_xfer_len lpi pf) \<le> MAX_XFER_LEN"
    "PAGE_SIZE dvd xfer_len (update_xfer_len lpi pf)"
    using assms by (auto simp: update_xfer_len_def Let_def DEFAULT_XFER_LEN_def MAX_XFER_LEN_def)
qed

lemma update_xfer_len_sel [simp]:
  "iovs (update_xfer_len lpi pf) = iovs lpi" "reqs (update_xfer_len lpi pf) = reqs lpi"
  "exited (update_xfer_len lpi pf) = exited lpi" "buf_size (update_xfer_len lpi pf) = buf_size lpi"
  by (simp_all add: update_xfer_len_def Let_def)

text \<open>Taking a piece of the ranges into the requests.\<close>

lemma request_ok:
  assumes ok: "lpi_ok lpi" and k: "k < length (iovs lpi)" and v: "v = iovs lpi ! k"
    and st: "li_start v \<le> s" "s < t" "t \<le> li_end v" "PAGE_SIZE dvd s" "PAGE_SIZE dvd t" "t - s \<le> MAX_XFER_LEN"
  shows "\<exists>vs. extract_range True True (iovs lpi) k s t = (Some (piece_of v s t), vs) \<and>
    lpi_ok (update_xfer_len (lpi\<lparr>iovs := vs, reqs := piece_of v s t # reqs lpi\<rparr>) pf) \<and> within vs (iovs lpi) \<and>
    remaining (update_xfer_len (lpi\<lparr>iovs := vs, reqs := piece_of v s t # reqs lpi\<rparr>) pf) = remaining lpi"
proof -
  let ?w = "piece_of v s t"
  obtain vs where e: "extract_range True True (iovs lpi) k s t = (Some ?w, vs)" "iov_ok ?w" "lsorted vs"
      "\<forall>u\<in>set vs. apart ?w u" "within vs (iovs lpi)" "lmap (?w # vs) = lmap (iovs lpi)"
    using extract_range_correct [OF lpi_okD(1) [OF ok] k st(1-5) [unfolded v]] v by blast
  have w: "\<forall>u\<in>set (reqs lpi). apart ?w u"
    using lpi_okD(3) [OF ok] nth_mem [OF k] st by (fastforce simp: v apart_def)
  have "\<forall>u\<in>set (reqs lpi). \<forall>w\<in>set vs. apart u w"
    using lpi_okD(3) [OF ok] within_apart [OF e(5)] apart_sym by blast
  then have "\<forall>v\<in>set vs. \<forall>u\<in>set (?w # reqs lpi). apart v u" using e(4) apart_sym by (metis set_ConsD)
  then have ok': "lpi_ok (update_xfer_len (lpi\<lparr>iovs := vs, reqs := ?w # reqs lpi\<rparr>) pf)"
    using lpi_okD [OF ok] e(2,3) w st(6) update_xfer_len_ok [of "lpi\<lparr>iovs := vs, reqs := ?w # reqs lpi\<rparr>" pf]
    by (simp add: lpi_ok_def)
  have "lmap (vs @ ?w # reqs lpi) = lmap ((?w # vs) @ reqs lpi)"
    using lpi_ok_disjoint [OF ok'] e(2,4) w lsorted_disjoint [OF e(3)] lpi_okD(2) [OF ok]
    by (intro lmap_cong_set) (auto simp: ldisjoint_append)
  then have "remaining (update_xfer_len (lpi\<lparr>iovs := vs, reqs := ?w # reqs lpi\<rparr>) pf) = remaining lpi"
    by (simp add: remaining_def fun_eq_iff lmap_append e(6) del: lmap.simps append_Cons)
  then show ?thesis using e(1,5) ok' by blast
qed

subsection \<open>Page faults and background transfer\<close>

lemma page_of_dvd [simp]: "PAGE_SIZE dvd page_of a"
  by (simp add: page_of_def)

text \<open>A page is in a range as a whole or not at all.\<close>

lemma page_whole:
  assumes "PAGE_SIZE dvd s" "PAGE_SIZE dvd a" "a \<le> b" "b < a + PAGE_SIZE"
  shows "s \<le> b \<longleftrightarrow> s \<le> a"
proof -
  obtain i j where "s = PAGE_SIZE * i" "a = PAGE_SIZE * j" using assms by (auto elim!: dvdE)
  then show ?thesis using assms(3,4) by (auto simp: PAGE_SIZE_def)
qed

lemma page_fits:
  assumes "PAGE_SIZE dvd a" "PAGE_SIZE dvd t" "a < t"
  shows "a + PAGE_SIZE \<le> t"
proof -
  obtain i j where "a = PAGE_SIZE * i" "t = PAGE_SIZE * j" using assms by (auto elim!: dvdE)
  then show ?thesis using assms(3) by (auto simp: PAGE_SIZE_def)
qed

lemma holds_page:
  "\<lbrakk>iov_ok v; PAGE_SIZE dvd a; a \<le> b; b < a + PAGE_SIZE\<rbrakk> \<Longrightarrow> holds v b = holds v a"
  using page_whole [of "li_start v" a b] page_whole [of "li_end v" a b] by (auto simp: holds_def iov_ok_def not_le)

lemma lmap_page:
  assumes "ldisjoint vs" "PAGE_SIZE dvd a" "a \<le> b" "b < a + PAGE_SIZE" "lmap vs a = None"
  shows "lmap vs b = None"
  unfolding lmap_none
proof
  fix v assume v: "v \<in> set vs"
  show "\<not> holds v b"
    using holds_page [OF ldisjoint_all_ok [OF assms(1) v] assms(2-4)] assms(5) v by (simp add: lmap_none)
qed

lemma find_iov_none: "find_iov vs a = None \<longleftrightarrow> lmap vs a = None"
  by (induction vs) (auto simp: holds_def)

lemma find_iov_some: "find_iov vs a = Some k \<Longrightarrow> k < length vs \<and> holds (vs ! k) a"
  by (induction vs arbitrary: k) (auto simp: holds_def split: if_splits)

lemma is_page_queued_lmap: "is_page_queued lpi a \<longleftrightarrow> lmap (reqs lpi) a \<noteq> None"
  by (auto simp: is_page_queued_def lmap_none holds_def)

text \<open>What a handler asks for is the image of ranges it has put among the requests, and a zero page goes where nothing is owed.\<close>

fun io_ok :: "lazy_pages_info \<Rightarrow> lazy_pages_info \<Rightarrow> uffd_io \<Rightarrow> bool" where
  "io_ok lpi lpi' NoIO \<longleftrightarrow> True"
| "io_ok lpi lpi' (Ask i n) \<longleftrightarrow>
     (\<exists>v\<in>set (reqs lpi'). li_img v = i \<and> li_end v - li_start v = n * PAGE_SIZE \<and>
        (\<exists>w\<in>set (iovs lpi). li_start w \<le> li_start v \<and> li_end v \<le> li_end w))"
| "io_ok lpi lpi' (ZeroAt a) \<longleftrightarrow> PAGE_SIZE dvd a \<and> (\<forall>b. a \<le> b \<and> b < a + PAGE_SIZE \<longrightarrow> remaining lpi b = None)"
| "io_ok lpi lpi' (CopyTo a i n) \<longleftrightarrow> False"

definition keeps :: "lazy_pages_info \<Rightarrow> lazy_pages_info \<Rightarrow> uffd_io \<Rightarrow> bool" where
  "keeps lpi lpi' io \<longleftrightarrow> lpi_ok lpi' \<and> \<not> exited lpi' \<and> remaining lpi' = remaining lpi \<and> io_ok lpi lpi' io"

lemma request_keeps:
  assumes ok: "lpi_ok lpi" "\<not> exited lpi" and k: "k < length (iovs lpi)" and v: "v = iovs lpi ! k"
    and st: "li_start v \<le> s" "s < t" "t \<le> li_end v" "PAGE_SIZE dvd s" "PAGE_SIZE dvd t" "t - s \<le> MAX_XFER_LEN"
  shows "\<exists>vs. extract_range True True (iovs lpi) k s t = (Some (piece_of v s t), vs) \<and>
    keeps lpi (update_xfer_len (lpi\<lparr>iovs := vs, reqs := piece_of v s t # reqs lpi\<rparr>) pf) (Ask (li_img (piece_of v s t)) ((t - s) div PAGE_SIZE))"
proof -
  have "(t - s) div PAGE_SIZE * PAGE_SIZE = t - s" using st(4,5) by (simp add: dvd_diff_nat)
  moreover have "v \<in> set (iovs lpi)" using k v by simp
  ultimately have "io_ok lpi (update_xfer_len (lpi\<lparr>iovs := vs, reqs := piece_of v s t # reqs lpi\<rparr>) pf)
      (Ask (li_img (piece_of v s t)) ((t - s) div PAGE_SIZE))" for vs
    using st(1,3) unfolding io_ok.simps(2) by (intro bexI [of _ "piece_of v s t"]) auto
  then show ?thesis using request_ok [OF ok(1) k v st, of pf] ok(2) unfolding keeps_def by auto
qed

lemma uffd_check_op_error_keeps:
  assumes "uffd_check_op_error True lpi e n rc = (r, n', l)"
  shows "exited l \<or> l = lpi"
  using assms by (auto simp: uffd_check_op_error_def handle_exit_def split: if_splits)

lemma handle_page_fault_ok:
  assumes ok: "lpi_ok lpi" "\<not> exited lpi" and f: "handle_page_fault True True True ans hp lpi fault = (r, l, io)"
  shows "exited l \<or> keeps lpi l io"
proof -
  let ?a = "page_of fault"
  consider (queued) "is_page_queued lpi ?a" | (zero) "\<not> is_page_queued lpi ?a" "find_iov (iovs lpi) ?a = None"
    | (ask) k where "\<not> is_page_queued lpi ?a" "find_iov (iovs lpi) ?a = Some k" by force
  then show ?thesis
  proof cases
    case queued
    then have "l = lpi" "io = NoIO" using f by (auto simp: handle_page_fault_def)
    then show ?thesis using ok by (simp add: keeps_def)
  next
    case zero
    then have "remaining lpi ?a = None"
      by (simp add: remaining_def lmap_append find_iov_none is_page_queued_lmap)
    then have "io_ok lpi lpi (ZeroAt ?a)"
      using lmap_page [OF lpi_ok_disjoint [OF ok(1)] page_of_dvd] by (auto simp: remaining_def)
    moreover have "io = ZeroAt ?a \<and> l = lpi \<or> io = NoIO \<and> (exited l \<or> l = lpi)"
      using f zero uffd_check_op_error_keeps
      by (auto simp: handle_page_fault_def uffd_zero_def split: option.splits prod.splits if_splits)
    ultimately show ?thesis using ok by (auto simp: keeps_def)
  next
    case ask
    let ?v = "iovs lpi ! k"
    have k: "k < length (iovs lpi)" "holds ?v ?a" using find_iov_some [OF ask(2)] by auto
    have v: "iov_ok ?v" using lsorted_all_ok [OF lpi_okD(1) [OF ok(1)]] k(1) by simp
    have fits: "?a + PAGE_SIZE \<le> li_end ?v"
      using page_fits [of ?a "li_end ?v"] k(2) v by (auto simp: holds_def iov_ok_def)
    have add: "ul_add ?a PAGE_SIZE = ?a + PAGE_SIZE" using fits v by (intro ul_add_exact) (simp add: iov_ok_def)
    have dt: "PAGE_SIZE dvd ?a + PAGE_SIZE" by simp
    have small: "?a + PAGE_SIZE - ?a \<le> MAX_XFER_LEN" by (simp add: MAX_XFER_LEN_def PAGE_SIZE_def)
    obtain vs where "extract_range True True (iovs lpi) k ?a (?a + PAGE_SIZE) = (Some (piece_of ?v ?a (?a + PAGE_SIZE)), vs)"
        "keeps lpi (update_xfer_len (lpi\<lparr>iovs := vs, reqs := piece_of ?v ?a (?a + PAGE_SIZE) # reqs lpi\<rparr>) True)
           (Ask (li_img (piece_of ?v ?a (?a + PAGE_SIZE))) ((?a + PAGE_SIZE - ?a) div PAGE_SIZE))"
      using request_keeps [OF ok k(1) refl _ _ fits page_of_dvd dt small, of True] k(2) by (auto simp: holds_def)
    then show ?thesis using f ask by (auto simp: handle_page_fault_def add Let_def)
  qed
qed

lemma xfer_pages_ok:
  assumes ok: "lpi_ok lpi" "\<not> exited lpi" and ne: "iovs lpi \<noteq> []" and f: "xfer_pages True True hp lpi = (r, l, io)"
  shows "keeps lpi l io"
proof -
  define v where "v = iovs lpi ! 0"
  define t where "t = li_start v + min (li_end v - li_start v) (xfer_len lpi)"
  have v: "iov_ok v" using lsorted_all_ok [OF lpi_okD(1) [OF ok(1)]] ne by (simp add: v_def)
  then have b: "li_start v < li_end v" "li_end v < ULONG_MOD" "PAGE_SIZE dvd li_start v" "PAGE_SIZE dvd li_end v"
    by (auto simp: iov_ok_def)
  have sub: "ul_sub (li_end v) (li_start v) = li_end v - li_start v" using b by (simp add: c_arith)
  have t: "li_start v < t" "t \<le> li_end v" "PAGE_SIZE dvd t" "t - li_start v \<le> MAX_XFER_LEN"
    using b lpi_okD(5-7) [OF ok(1)] by (auto simp: t_def min_def dvd_diff_nat)
  have add: "ul_add (li_start v) (min (li_end v - li_start v) (xfer_len lpi)) = t"
    using t b by (simp add: t_def c_arith)
  have sub': "ul_sub t (li_start v) = t - li_start v" using t b by (simp add: c_arith)
  obtain vs where "extract_range True True (iovs lpi) 0 (li_start v) t = (Some (piece_of v (li_start v) t), vs)"
      "keeps lpi (update_xfer_len (lpi\<lparr>iovs := vs, reqs := piece_of v (li_start v) t # reqs lpi\<rparr>) False)
         (Ask (li_img (piece_of v (li_start v) t)) ((t - li_start v) div PAGE_SIZE))"
    using request_keeps [OF ok _ v_def le_refl t(1,2) b(3) t(3,4), of False] ne by auto
  then show ?thesis
    using f by (auto simp: xfer_pages_def pick_next_range_def Let_def v_def [symmetric] sub add sub')
qed

subsection \<open>Pages that arrive\<close>

text \<open>The kernel does not claim to have copied more than it was asked for.\<close>

definition copy_answer :: "uffd_answer \<Rightarrow> int \<Rightarrow> bool" where
  "copy_answer ans n \<longleftrightarrow> (case ans of None \<Rightarrow> True | Some (e, rc) \<Rightarrow> rc \<le> n * int PAGE_SIZE)"

lemma uffd_copy_cases:
  assumes "uffd_copy True ans lpi n = (ret, n', l)" "copy_answer ans n" "0 \<le> n" "n < 2 ^ 31"
  shows "ret < 0 \<and> l = lpi \<or> exited l \<or> ret = 0 \<and> 0 \<le> n' \<and> n' \<le> n \<and> l = lpi\<lparr>copied_pages := copied_pages l\<rparr>"
proof -
  have "int32 (rc div int PAGE_SIZE) = rc div int PAGE_SIZE \<and> 0 \<le> rc div int PAGE_SIZE \<and> rc div int PAGE_SIZE \<le> n"
    if "0 < rc" "rc \<le> n * int PAGE_SIZE" for rc
  proof -
    have "rc div int PAGE_SIZE \<le> n * int PAGE_SIZE div int PAGE_SIZE" using that by (intro zdiv_mono1) auto
    then have "rc div int PAGE_SIZE \<le> n" by simp
    moreover have "0 \<le> rc div int PAGE_SIZE" using that by (simp add: pos_imp_zdiv_nonneg_iff)
    ultimately show ?thesis using assms(4) by (auto intro!: int32_small)
  qed
  note rc = this
  show ?thesis
  proof (cases ans)
    case None
    then show ?thesis using assms by (auto simp: uffd_copy_def)
  next
    case (Some a)
    then obtain e c where ans: "ans = Some (e, c)" by (cases a) auto
    then have c: "c \<le> n * int PAGE_SIZE" using assms(2) by (simp add: copy_answer_def)
    consider "e = ENOSPC \<or> e = ESRCH" | "\<not> (e = ENOSPC \<or> e = ESRCH)" "\<not> uffd_recoverable_error e (int32 c)"
      | "\<not> (e = ENOSPC \<or> e = ESRCH)" "uffd_recoverable_error e (int32 c)" by blast
    then show ?thesis
      using assms(1,3) rc [OF _ c] unfolding uffd_copy_def uffd_check_op_error_def ans
      by cases (auto simp: handle_exit_def)
  qed
qed

lemma find_req_some: "find_req vs i = Some k \<Longrightarrow> k < length vs \<and> li_img (vs ! k) = i"
  by (induction vs arbitrary: k) (auto split: if_splits)

definition del_nth :: "nat \<Rightarrow> 'a list \<Rightarrow> 'a list" where
  "del_nth k vs = take k vs @ drop (Suc k) vs"

lemma del_nth_disjoint:
  assumes "ldisjoint vs" "k < length vs"
  shows "ldisjoint (vs ! k # del_nth k vs)" "set (vs ! k # del_nth k vs) = set vs"
proof -
  have split: "vs = take k vs @ vs ! k # drop (Suc k) vs" by (rule id_take_nth_drop [OF assms(2)])
  have "ldisjoint (take k vs @ vs ! k # drop (Suc k) vs)" using assms(1) split by simp
  then show "ldisjoint (vs ! k # del_nth k vs)" by (auto simp: ldisjoint_append del_nth_def apart_sym)
  have "set vs = set (take k vs @ vs ! k # drop (Suc k) vs)" using split by simp
  then show "set (vs ! k # del_nth k vs) = set vs" by (auto simp: del_nth_def)
qed

text \<open>The request goes back to the ranges and the part that has arrived is dropped.\<close>

lemma del_nth_sub: "set (del_nth k vs) \<subseteq> set vs"
  using set_take_subset [of k vs] set_drop_subset [of "Suc k" vs] by (auto simp: del_nth_def)

lemma request_back:
  assumes ok: "lpi_ok lpi" and k: "k < length (reqs lpi)" and v: "v = reqs lpi ! k"
  shows "\<exists>vs. iov_list_insert v (iovs lpi) = Some vs \<and> lsorted vs \<and>
    (\<forall>u\<in>set (del_nth k (reqs lpi)). \<forall>w\<in>set vs. apart u w) \<and> lmap (vs @ del_nth k (reqs lpi)) = remaining lpi"
proof -
  note d = del_nth_disjoint [OF lpi_okD(2) [OF ok] k, folded v]
  let ?rs = "del_nth k (reqs lpi)"
  have vr: "v \<in> set (reqs lpi)" using k v by simp
  have vi: "\<forall>u\<in>set (iovs lpi). apart v u" using lpi_okD(3) [OF ok] vr apart_sym by blast
  obtain vs where ins: "iov_list_insert v (iovs lpi) = Some vs" "lsorted vs" "set vs = insert v (set (iovs lpi))"
    using iov_list_insert_correct [OF lpi_okD(1) [OF ok] _ vi] d(1) by auto
  have ap: "apart u w" if "u \<in> set vs" "w \<in> set ?rs" for u w
  proof (cases "u = v")
    case True
    then show ?thesis using that(2) d(1) by auto
  next
    case False
    then have "u \<in> set (iovs lpi)" using that(1) ins(3) by simp
    then show ?thesis using lpi_okD(3) [OF ok] subsetD [OF del_nth_sub that(2)] by blast
  qed
  have "lmap (vs @ ?rs) = lmap (iovs lpi @ reqs lpi)"
  proof (rule lmap_cong_set [OF _ lpi_ok_disjoint [OF ok]])
    show "ldisjoint (vs @ ?rs)" unfolding ldisjoint_append using lsorted_disjoint [OF ins(2)] d(1) ap by auto
    show "set (vs @ ?rs) = set (iovs lpi @ reqs lpi)" using ins(3) d(2) by auto
  qed
  then show ?thesis using ins(1,2) ap apart_sym unfolding remaining_def by blast
qed

lemma reinsert_ok:
  assumes ok: "lpi_ok lpi" and k: "k < length (reqs lpi)" and v: "v = reqs lpi ! k"
    and m: "li_start v + m \<le> li_end v" "PAGE_SIZE dvd m"
  shows "\<exists>vs vs'. iov_list_insert v (iovs lpi) = Some vs \<and>
    drop_iovs True (lpi\<lparr>iovs := vs, reqs := del_nth k (reqs lpi)\<rparr>) (li_start v) (int m) =
      (0, lpi\<lparr>iovs := vs', reqs := del_nth k (reqs lpi)\<rparr>) \<and>
    lpi_ok (lpi\<lparr>iovs := vs', reqs := del_nth k (reqs lpi)\<rparr>) \<and>
    remaining (lpi\<lparr>iovs := vs', reqs := del_nth k (reqs lpi)\<rparr>) = without (remaining lpi) (li_start v) (li_start v + m)"
proof -
  let ?rs = "del_nth k (reqs lpi)"
  have okv: "iov_ok v" "\<forall>u\<in>set ?rs. apart v u" "ldisjoint ?rs"
    using del_nth_disjoint(1) [OF lpi_okD(2) [OF ok] k, folded v] by auto
  obtain vs where ins: "iov_list_insert v (iovs lpi) = Some vs" "lsorted vs" "\<forall>u\<in>set ?rs. \<forall>w\<in>set vs. apart u w"
      "lmap (vs @ ?rs) = remaining lpi"
    using request_back [OF ok k v] by blast
  have big: "li_start v + m < ULONG_MOD" "m < 2 ^ 31" "PAGE_SIZE dvd li_start v"
    using m okv(1) lpi_okD(4) [OF ok] nth_mem [OF k] by (auto simp: v iov_ok_def no_longer_def MAX_XFER_LEN_def dest: bspec)
  obtain vs' where dr: "drop_loop True vs (li_start v) (int m) = (0, vs')" "dropped vs (li_start v) (li_start v + m) vs'"
    using drop_loop_correct [OF ins(2) big m(2)] by blast
  have "\<forall>u\<in>set ?rs. iov_ok u \<and> (li_start v + m \<le> li_start u \<or> li_end u \<le> li_start v)"
    using okv m(1) ldisjoint_all_ok [OF okv(3)] by (fastforce simp: apart_def)
  then have rs: "drop_loop True ?rs (li_start v) (int m) = (0, ?rs)" using drop_loop_apart big by blast
  have "\<forall>u\<in>set vs'. \<forall>w\<in>set ?rs. apart u w"
    using dr(2) within_apart [of vs' vs] ins(3) apart_sym unfolding dropped_def by blast
  moreover have "no_longer MAX_XFER_LEN ?rs" using lpi_okD(4) [OF ok] del_nth_sub by (fastforce simp: no_longer_def)
  ultimately have ok': "lpi_ok (lpi\<lparr>iovs := vs', reqs := ?rs\<rparr>)"
    using lpi_okD(5-7) [OF ok] okv(3) dr(2) by (simp add: lpi_ok_def dropped_def)
  have "lmap ?rs b = None" if "li_start v \<le> b" "b < li_start v + m" for b
    using that m(1) okv(2) unfolding lmap_none by (auto simp: apart_def holds_def)
  then have "remaining (lpi\<lparr>iovs := vs', reqs := ?rs\<rparr>) = without (remaining lpi) (li_start v) (li_start v + m)"
    using dr(2) ins(4) [symmetric] by (auto simp: remaining_def lmap_append fun_eq_iff dropped_def without_def)
  then show ?thesis using ins(1) dr(1) rs ok' by (intro exI [of _ vs] exI [of _ vs']) (simp add: drop_iovs_def)
qed

lemma copied_pages_irrelevant [simp]:
  "lpi_ok (lpi\<lparr>copied_pages := c\<rparr>) = lpi_ok lpi" "remaining (lpi\<lparr>copied_pages := c\<rparr>) = remaining lpi"
  by (simp_all add: lpi_ok_def remaining_def)

text \<open>The pages are copied to where they are owed, and only these are owed no more.\<close>

definition arrived :: "lazy_pages_info \<Rightarrow> lazy_pages_info \<Rightarrow> ulong \<Rightarrow> uffd_io \<Rightarrow> bool" where
  "arrived lpi l img io \<longleftrightarrow> lpi_ok l \<and> \<not> exited l \<and>
     (io = NoIO \<and> remaining l = remaining lpi \<or>
      (\<exists>a n. io = CopyTo a img (int n) \<and>
         (\<forall>b. a \<le> b \<and> b < a + n * PAGE_SIZE \<longrightarrow> remaining lpi b = Some (img + (b - a))) \<and>
         remaining l = without (remaining lpi) a (a + n * PAGE_SIZE)))"

definition req_pages :: "lazy_iov \<Rightarrow> nat" where
  "req_pages v = (li_end v - li_start v) div PAGE_SIZE"

lemma request_pages:
  assumes ok: "lpi_ok lpi" and v: "v \<in> set (reqs lpi)"
  shows "iov_ok v" "req_pages v * PAGE_SIZE = li_end v - li_start v" "req_pages v \<le> 1024"
    "int32 (int (ul_sub (li_end v) (li_start v) div PAGE_SIZE)) = int (req_pages v)"
proof -
  show okv: "iov_ok v" by (rule ldisjoint_all_ok [OF lpi_okD(2) [OF ok] v])
  then show eq: "req_pages v * PAGE_SIZE = li_end v - li_start v" by (auto simp: req_pages_def iov_ok_def dvd_diff_nat)
  have "li_end v - li_start v \<le> MAX_XFER_LEN" using lpi_okD(4) [OF ok] v by (simp add: no_longer_def)
  then show le: "req_pages v \<le> 1024" unfolding eq [symmetric] by (simp add: PAGE_SIZE_def MAX_XFER_LEN_def)
  then show "int32 (int (ul_sub (li_end v) (li_start v) div PAGE_SIZE)) = int (req_pages v)"
    using iov_ok_bounds [OF okv] by (simp add: c_arith int32_small req_pages_def)
qed

lemma copied_ok:
  assumes ok: "lpi_ok lpi" "\<not> exited lpi" and k: "k < length (reqs lpi)" and v: "v = reqs lpi ! k"
    and m: "m \<le> req_pages v"
  shows "\<exists>vs l. iov_list_insert v (iovs lpi) = Some vs \<and>
    drop_iovs True (lpi\<lparr>iovs := vs, reqs := del_nth k (reqs lpi)\<rparr>) (li_start v) (int32 (int m * int PAGE_SIZE)) = (0, l) \<and>
    arrived lpi l (li_img v) (CopyTo (li_start v) (li_img v) (int m))"
proof -
  have vr: "v \<in> set (reqs lpi)" using k v by simp
  note p = request_pages [OF ok(1) vr]
  have fit: "li_start v + m * PAGE_SIZE \<le> li_end v" "PAGE_SIZE dvd m * PAGE_SIZE"
    using p(2) iov_ok_bounds [OF p(1)] mult_le_mono1 [OF m, of PAGE_SIZE] by auto
  have "int m * int PAGE_SIZE < 2 ^ 31" using m p(3) by (simp add: PAGE_SIZE_def)
  then have small: "int32 (int m * int PAGE_SIZE) = int (m * PAGE_SIZE)" by (subst int32_small) auto
  obtain vs vs' where ins: "iov_list_insert v (iovs lpi) = Some vs"
      "drop_iovs True (lpi\<lparr>iovs := vs, reqs := del_nth k (reqs lpi)\<rparr>) (li_start v) (int (m * PAGE_SIZE)) =
         (0, lpi\<lparr>iovs := vs', reqs := del_nth k (reqs lpi)\<rparr>)"
      "lpi_ok (lpi\<lparr>iovs := vs', reqs := del_nth k (reqs lpi)\<rparr>)"
      "remaining (lpi\<lparr>iovs := vs', reqs := del_nth k (reqs lpi)\<rparr>) = without (remaining lpi) (li_start v) (li_start v + m * PAGE_SIZE)"
    using reinsert_ok [OF ok(1) k v fit] by blast
  have "remaining lpi b = Some (li_img v + (b - li_start v))" if "li_start v \<le> b" "b < li_start v + m * PAGE_SIZE" for b
    using lmap_mem [OF lpi_ok_disjoint [OF ok(1)], of v b] vr that fit(1) by (simp add: remaining_def holds_def)
  then have "arrived lpi (lpi\<lparr>iovs := vs', reqs := del_nth k (reqs lpi)\<rparr>) (li_img v) (CopyTo (li_start v) (li_img v) (int m))"
    using ins(3,4) ok(2) unfolding arrived_def by auto
  then show ?thesis using ins(1,2) unfolding small by blast
qed

lemma arrived_copied_pages: "arrived (lpi\<lparr>copied_pages := c\<rparr>) l img io = arrived lpi l img io"
  by (simp add: arrived_def)

lemma uffd_io_complete_ok:
  assumes ok: "lpi_ok lpi" "\<not> exited lpi" and nr: "0 \<le> nr"
    and ans: "\<forall>v\<in>set (reqs lpi). copy_answer ans (min nr (int (req_pages v)))"
    and f: "uffd_io_complete True True ans lpi img nr = (r, l, io)"
  shows "exited l \<or> arrived lpi l img io"
proof -
  have unch: "arrived lpi lpi img NoIO" using ok by (simp add: arrived_def)
  consider "find_req (reqs lpi) img = None" | k where "find_req (reqs lpi) img = Some k" "li_start (reqs lpi ! k) = 0"
    | (found) k where "find_req (reqs lpi) img = Some k" "li_start (reqs lpi ! k) \<noteq> 0" by fastforce
  then show ?thesis
  proof cases
    case found
    define v where "v = reqs lpi ! k"
    have k: "k < length (reqs lpi)" "li_img v = img" using find_req_some [OF found(1)] by (auto simp: v_def)
    have vr: "v \<in> set (reqs lpi)" using k(1) by (simp add: v_def)
    note p = request_pages [OF ok(1) vr]
    obtain ret n c where cp: "uffd_copy True ans lpi (min nr (int (req_pages v))) = (ret, n, c)"
      by (cases "uffd_copy True ans lpi (min nr (int (req_pages v)))") auto
    have f': "(if ret < 0 then (ret, c, NoIO) else if exited c then (0, c, NoIO)
        else (let c = (case iov_list_insert v (iovs c) of
                         None \<Rightarrow> c
                       | Some is \<Rightarrow> c\<lparr>iovs := is, reqs := del_nth k (reqs c)\<rparr>);
                  (ret, c) = drop_iovs True c (li_start v) (int32 (n * int PAGE_SIZE))
              in (ret, c, CopyTo (li_start v) img n))) = (r, l, io)"
      using f ok found(2) unfolding del_nth_def
      by (simp add: uffd_io_complete_def found(1) v_def [symmetric] Let_def p(4) cp)
    have "copy_answer ans (min nr (int (req_pages v)))" using ans vr by simp
    then consider "ret < 0" "c = lpi" | "exited c"
      | (copied) cc where "ret = 0" "\<not> exited c" "0 \<le> n" "n \<le> int (req_pages v)" "c = lpi\<lparr>copied_pages := cc\<rparr>"
      using uffd_copy_cases [OF cp] nr p(3) by fastforce
    then show ?thesis
    proof cases
      case 1
      then have l: "l = lpi" "io = NoIO" using f' by auto
      show ?thesis unfolding l by (rule disjI2, rule unch)
    next
      case 2
      then show ?thesis using f' by (auto split: if_splits)
    next
      case copied
      define m where "m = nat n"
      have m: "n = int m" "m \<le> req_pages v" using copied(3,4) by (auto simp: m_def)
      have c: "lpi_ok c" "k < length (reqs c)" "v = reqs c ! k" using copied(5) ok k(1) by (auto simp: v_def)
      obtain vs l' where "iov_list_insert v (iovs c) = Some vs"
          "drop_iovs True (c\<lparr>iovs := vs, reqs := del_nth k (reqs c)\<rparr>) (li_start v) (int32 (int m * int PAGE_SIZE)) = (0, l')"
          and a: "arrived c l' (li_img v) (CopyTo (li_start v) (li_img v) (int m))"
        using copied_ok [OF c(1) copied(2) c(2,3) m(2)] by blast
      then have "l = l'" "io = CopyTo (li_start v) img (int m)" using f' copied(1,2) m(1) by auto
      then show ?thesis using a k(2) copied(5) arrived_copied_pages by simp
    qed
  qed (use f ok unch in \<open>auto simp: uffd_io_complete_def\<close>)
qed

subsection \<open>Unmapped and moved ranges, forks\<close>

text \<open>
  The loops over the requests stop at the first range behind the one they look for, so these lemmas need
  the requests in the order of addresses.
\<close>

lemma drop_iovs_ok:
  assumes ok: "lpi_ok lpi" "lsorted (reqs lpi)"
    and n: "s + n < ULONG_MOD" "n < 2 ^ 31" "PAGE_SIZE dvd s" "PAGE_SIZE dvd n"
  shows "\<exists>vs rs. drop_iovs True lpi s (int n) = (0, lpi\<lparr>iovs := vs, reqs := rs\<rparr>) \<and> lpi_ok (lpi\<lparr>iovs := vs, reqs := rs\<rparr>) \<and>
    lsorted rs \<and> remaining (lpi\<lparr>iovs := vs, reqs := rs\<rparr>) = without (remaining lpi) s (s + n)"
proof -
  obtain vs where vs: "drop_loop True (iovs lpi) s (int n) = (0, vs)" "dropped (iovs lpi) s (s + n) vs"
    using drop_loop_correct [OF lpi_okD(1) [OF ok(1)] n] by blast
  obtain rs where rs: "drop_loop True (reqs lpi) s (int n) = (0, rs)" "dropped (reqs lpi) s (s + n) rs"
    using drop_loop_correct [OF ok(2) n] by blast
  have w: "within vs (iovs lpi)" "within rs (reqs lpi)" using vs(2) rs(2) by (auto simp: dropped_def)
  have "\<forall>u\<in>set vs. \<forall>w\<in>set (reqs lpi). apart u w"
    using within_apart [OF w(1)] lpi_okD(3) [OF ok(1)] apart_sym by blast
  then have "\<forall>u\<in>set vs. \<forall>w\<in>set rs. apart u w" using within_apart [OF w(2)] by blast
  then have "lpi_ok (lpi\<lparr>iovs := vs, reqs := rs\<rparr>)"
    using lpi_okD [OF ok(1)] vs(2) rs(2) lsorted_disjoint shorter_no_longer [OF within_shorter [OF w(2)]]
    by (simp add: lpi_ok_def dropped_def)
  moreover have "remaining (lpi\<lparr>iovs := vs, reqs := rs\<rparr>) = without (remaining lpi) s (s + n)"
    using vs(2) rs(2) by (auto simp: remaining_def lmap_append fun_eq_iff dropped_def without_def split: option.split)
  ultimately show ?thesis using vs(1) rs by (auto simp: drop_iovs_def dropped_def)
qed

lemma handle_remove_ok:
  assumes ok: "lpi_ok lpi" "lsorted (reqs lpi)" and st: "s \<le> t" "t < ULONG_MOD" "t - s < 2 ^ 31" "PAGE_SIZE dvd s" "PAGE_SIZE dvd t"
    and f: "handle_remove True True unreg rem lpi s t = (r, l)"
  shows "exited l \<or> l = lpi \<and> r < 0 \<or>
    (\<exists>vs rs. l = lpi\<lparr>iovs := vs, reqs := rs\<rparr>) \<and> lpi_ok l \<and> lsorted (reqs l) \<and> remaining l = without (remaining lpi) s t"
proof -
  have len: "int32 (int (ul_sub t s)) = int (t - s)" using st by (simp add: c_arith int32_small of_nat_diff [symmetric] del: of_nat_diff)
  obtain vs rs where d: "drop_iovs True lpi s (int (t - s)) = (0, lpi\<lparr>iovs := vs, reqs := rs\<rparr>)" "lpi_ok (lpi\<lparr>iovs := vs, reqs := rs\<rparr>)"
      "lsorted rs" "remaining (lpi\<lparr>iovs := vs, reqs := rs\<rparr>) = without (remaining lpi) s (s + (t - s))"
    using drop_iovs_ok [OF ok, of s "t - s"] st by (auto simp: dvd_diff_nat)
  show ?thesis
  proof (cases "if rem then unreg else None")
    case None
    then have "l = lpi\<lparr>iovs := vs, reqs := rs\<rparr>"
      using f d(1) unfolding handle_remove_def Let_def len by (simp del: of_nat_diff)
    moreover have "s + (t - s) = t" using st by simp
    ultimately show ?thesis using d(2-4) by auto
  next
    case (Some e)
    then show ?thesis using f unfolding handle_remove_def Let_def by (auto simp: handle_exit_def split: if_splits)
  qed
qed

lemma shifted_dom:
  assumes "\<forall>a. lmap vs a = None \<or> lmap ws a = None"
  shows "\<forall>a. shifted (lmap vs) f t n a = None \<or> shifted (lmap ws) f t n a = None"
  using assms by (auto simp: shifted_def)

lemma apart_dom:
  assumes "ldisjoint vs" "ldisjoint ws"
  shows "(\<forall>v\<in>set vs. \<forall>w\<in>set ws. apart v w) \<longleftrightarrow> (\<forall>a. lmap vs a = None \<or> lmap ws a = None)"
proof
  assume "\<forall>v\<in>set vs. \<forall>w\<in>set ws. apart v w"
  then show "\<forall>a. lmap vs a = None \<or> lmap ws a = None" unfolding lmap_none using apart_holds by blast
next
  assume "\<forall>a. lmap vs a = None \<or> lmap ws a = None"
  then show "\<forall>v\<in>set vs. \<forall>w\<in>set ws. apart v w"
    unfolding lmap_none using apartI ldisjoint_all_ok [OF assms(1)] ldisjoint_all_ok [OF assms(2)] by meson
qed

lemma remap_iovs_ok:
  assumes ok: "lpi_ok lpi" "lsorted (reqs lpi)" and len: "from + len < ULONG_MOD" "to + len < ULONG_MOD"
      "PAGE_SIZE dvd from" "PAGE_SIZE dvd to" "PAGE_SIZE dvd len"
    and free: "\<forall>a. to \<le> a \<and> a < to + len \<longrightarrow> remaining lpi a = None"
  shows "\<exists>vs rs. remap_iovs True lpi from to len = (0, lpi\<lparr>iovs := vs, reqs := rs\<rparr>) \<and> lpi_ok (lpi\<lparr>iovs := vs, reqs := rs\<rparr>) \<and>
    lsorted rs \<and> remaining (lpi\<lparr>iovs := vs, reqs := rs\<rparr>) = shifted (remaining lpi) from to len"
proof -
  have free': "\<forall>a. to \<le> a \<and> a < to + len \<longrightarrow> lmap (iovs lpi) a = None" "\<forall>a. to \<le> a \<and> a < to + len \<longrightarrow> lmap (reqs lpi) a = None"
    using free by (auto simp: remaining_def lmap_append split: option.splits)
  obtain vs where vs: "remap_list True (iovs lpi) from to len = (0, vs)" "lsorted vs" "lmap vs = shifted (lmap (iovs lpi)) from to len"
    using remap_list_correct [OF lpi_okD(1) [OF ok(1)] len free'(1)] by blast
  obtain rs where rs: "remap_list True (reqs lpi) from to len = (0, rs)" "lsorted rs" "shorter rs (reqs lpi)"
      "lmap rs = shifted (lmap (reqs lpi)) from to len"
    using remap_list_correct [OF ok(2) len free'(2)] by blast
  note dj = lsorted_disjoint [OF lpi_okD(1) [OF ok(1)]] lsorted_disjoint [OF vs(2)] lsorted_disjoint [OF rs(2)]
  have "\<forall>a. lmap (iovs lpi) a = None \<or> lmap (reqs lpi) a = None"
    by (rule iffD1 [OF apart_dom [OF dj(1) lpi_okD(2) [OF ok(1)]] lpi_okD(3) [OF ok(1)]])
  then have "\<forall>a. lmap vs a = None \<or> lmap rs a = None" unfolding vs(3) rs(4) by (rule shifted_dom)
  then have "\<forall>u\<in>set vs. \<forall>w\<in>set rs. apart u w" by (rule iffD2 [OF apart_dom [OF dj(2,3)]])
  then have "lpi_ok (lpi\<lparr>iovs := vs, reqs := rs\<rparr>)"
    using lpi_okD [OF ok(1)] vs(2) dj(3) shorter_no_longer [OF rs(3)] by (simp add: lpi_ok_def)
  moreover have "remaining (lpi\<lparr>iovs := vs, reqs := rs\<rparr>) = shifted (remaining lpi) from to len"
    by (auto simp: remaining_def lmap_append fun_eq_iff vs(3) rs(4) shifted_def split: option.split)
  ultimately show ?thesis using vs(1) rs(1,2) by (auto simp: remap_iovs_def)
qed

text \<open>The child of a fork is owed what its parent is owed, in flight or not.\<close>

lemma handle_fork_ok:
  assumes ok: "lpi_ok lpi"
  shows "\<exists>c. handle_fork True (\<lambda>_. True) True parent lpi = (1, Some c) \<and> lpi_ok c \<and> \<not> exited c \<and> reqs c = [] \<and>
    buf_size c = buf_size lpi \<and> remaining c = remaining lpi"
proof -
  have ap: "\<forall>v\<in>set (reqs lpi). \<forall>w\<in>set (iovs lpi). apart v w" using lpi_okD(3) [OF ok] apart_sym by blast
  obtain d where d: "merge_iov_lists (reqs lpi) (iovs lpi) = ([], d)" "lsorted d" "set d = set (reqs lpi) \<union> set (iovs lpi)"
    using merge_correct [OF lpi_okD(1,2) [OF ok] ap] by blast
  have "lmap d = remaining lpi"
    unfolding remaining_def using d lsorted_disjoint lpi_ok_disjoint [OF ok] by (intro lmap_cong_set) auto
  then show ?thesis
    using d by (auto simp: handle_fork_def lpi_init_def copy_iovs_def copy_iov_list_all lpi_ok_def remaining_def
        no_longer_def DEFAULT_XFER_LEN_def MAX_XFER_LEN_def PAGE_SIZE_def Let_def)
qed

subsection \<open>Runs\<close>

text \<open>
  A task and the daemon. \<open>lz_mem\<close> is what has been put in the memory of the task: the byte of an image
  address, or zero. \<open>lz_want\<close> is the image address that every address of the restored memory has to come from;
  it follows the unmaps and the remaps of the task.
\<close>

datatype fill = Img nat | Zero

record lz =
  lz_lpi :: lazy_pages_info
  lz_mem :: "nat \<Rightarrow> fill option"
  lz_want :: "nat \<Rightarrow> nat option"

fun fill_io :: "uffd_io \<Rightarrow> (nat \<Rightarrow> fill option) \<Rightarrow> nat \<Rightarrow> fill option" where
  "fill_io (CopyTo a i n) m = (\<lambda>b. if a \<le> b \<and> b < a + nat n * PAGE_SIZE then Some (Img (i + (b - a))) else m b)"
| "fill_io (ZeroAt a) m = (\<lambda>b. if a \<le> b \<and> b < a + PAGE_SIZE then Some Zero else m b)"
| "fill_io NoIO m = m"
| "fill_io (Ask i n) m = m"

text \<open>
  When the kernel sends an event, and what the task has done to its memory then. A fault is on a page that
  is not there. Ranges are made of pages and the destination of a remap is free.
\<close>

fun event_pre :: "uffd_msg \<Rightarrow> lz \<Rightarrow> bool" where
  "event_pre (PageFault f) s \<longleftrightarrow> (\<forall>b. page_of f \<le> b \<and> b < page_of f + PAGE_SIZE \<longrightarrow> lz_mem s b = None)"
| "event_pre (Remove a b) s \<longleftrightarrow> a \<le> b \<and> b < ULONG_MOD \<and> PAGE_SIZE dvd a \<and> PAGE_SIZE dvd b"
| "event_pre (Unmap a b) s \<longleftrightarrow> a \<le> b \<and> b < ULONG_MOD \<and> PAGE_SIZE dvd a \<and> PAGE_SIZE dvd b"
| "event_pre (Remap f t n) s \<longleftrightarrow>
     f + n < ULONG_MOD \<and> t + n < ULONG_MOD \<and> PAGE_SIZE dvd f \<and> PAGE_SIZE dvd t \<and> PAGE_SIZE dvd n \<and>
     (\<forall>a. t \<le> a \<and> a < t + n \<longrightarrow> lz_mem s a = None \<and> lz_want s a = None)"
| "event_pre Fork s \<longleftrightarrow> True"
| "event_pre Unexpected s \<longleftrightarrow> False"

fun event_world :: "uffd_msg \<Rightarrow> (nat \<Rightarrow> 'a option) \<Rightarrow> nat \<Rightarrow> 'a option" where
  "event_world (Remove a b) m = without m a b"
| "event_world (Unmap a b) m = without m a b"
| "event_world (Remap f t n) m = shifted m f t n"
| "event_world _ m = m"

inductive lz_step :: "uffd_msg option \<Rightarrow> lz \<Rightarrow> lz \<Rightarrow> bool" where
  event: "\<lbrakk>\<not> exited (lz_lpi s); e_alloc env; e_epoll_del env; event_pre msg s;
     handle_uffd_event env (Msg msg) parent (lz_lpi s) = (r, l, io, child); 0 \<le> r\<rbrakk>
   \<Longrightarrow> lz_step (Some msg) s (s\<lparr>lz_lpi := l, lz_mem := fill_io io (event_world msg (lz_mem s)), lz_want := event_world msg (lz_want s)\<rparr>)"
| child: "\<lbrakk>\<not> exited (lz_lpi s); e_alloc env; handle_uffd_event env (Msg Fork) parent (lz_lpi s) = (r, l, io, Some c)\<rbrakk>
   \<Longrightarrow> lz_step (Some Fork) s (s\<lparr>lz_lpi := c\<rparr>)"
| arrive: "\<lbrakk>\<not> exited (lz_lpi s); 0 \<le> nr; \<forall>v\<in>set (reqs (lz_lpi s)). copy_answer ans (min nr (int (req_pages v)));
     uffd_io_complete True True ans (lz_lpi s) img nr = (r, l, io)\<rbrakk>
   \<Longrightarrow> lz_step None s (s\<lparr>lz_lpi := l, lz_mem := fill_io io (lz_mem s)\<rparr>)"
| xfer: "\<lbrakk>\<not> exited (lz_lpi s); iovs (lz_lpi s) \<noteq> []; reqs (lz_lpi s) = []; xfer_pages True True hp (lz_lpi s) = (r, l, io)\<rbrakk>
   \<Longrightarrow> lz_step None s (s\<lparr>lz_lpi := l\<rparr>)"

text \<open>A run, with the message of every step and the state in which it came.\<close>

inductive lz_run :: "(uffd_msg option \<times> lz) list \<Rightarrow> lz \<Rightarrow> lz \<Rightarrow> bool" where
  start: "lz_run [] s s"
| step: "\<lbrakk>lz_run tr s t; lz_step m t u\<rbrakk> \<Longrightarrow> lz_run (tr @ [(m, t)]) s u"

text \<open>
  What the handlers of unmaps and remaps need and do not check. The length of a removed range goes through an \<open>int\<close>, and the loops over the requests in flight
  stop at the first one behind the range. Requests are put at the head of their list, so they are in the order of addresses when each
  was made below those before it, in particular when there is one at most.
\<close>

fun orderly :: "uffd_msg option \<Rightarrow> lz \<Rightarrow> bool" where
  "orderly (Some (Remove a b)) s \<longleftrightarrow> b - a < 2 ^ 31 \<and> lsorted (reqs (lz_lpi s))"
| "orderly (Some (Unmap a b)) s \<longleftrightarrow> b - a < 2 ^ 31 \<and> lsorted (reqs (lz_lpi s))"
| "orderly (Some (Remap f t n)) s \<longleftrightarrow> lsorted (reqs (lz_lpi s))"
| "orderly _ s \<longleftrightarrow> True"

text \<open>Every address has what it should have, or is still owed it.\<close>

definition cell_ok :: "nat option \<Rightarrow> fill option \<Rightarrow> nat option \<Rightarrow> bool" where
  "cell_ok w m r \<longleftrightarrow>
     (case w of
        Some i \<Rightarrow> m = Some (Img i) \<and> r = None \<or> m = None \<and> r = Some i
      | None \<Rightarrow> r = None \<and> (m = None \<or> m = Some Zero))"

definition lz_ok :: "lz \<Rightarrow> bool" where
  "lz_ok s \<longleftrightarrow> exited (lz_lpi s) \<or>
     lpi_ok (lz_lpi s) \<and> (\<forall>a. cell_ok (lz_want s a) (lz_mem s a) (remaining (lz_lpi s) a))"

lemma cells_keep:
  assumes "\<forall>a. cell_ok (w a) (m a) (remaining l a)" "keeps l l' io"
    and "\<And>a b. \<lbrakk>io = ZeroAt a; a \<le> b; b < a + PAGE_SIZE\<rbrakk> \<Longrightarrow> m b = None"
  shows "\<forall>a. cell_ok (w a) (fill_io io m a) (remaining l' a)"
proof (cases io)
  case (ZeroAt a)
  show ?thesis
  proof
    fix b
    have "cell_ok (w b) (m b) (remaining l b)" using assms(1) by blast
    then show "cell_ok (w b) (fill_io io m b) (remaining l' b)"
      using assms(2) assms(3) [OF ZeroAt, of b] ZeroAt by (auto simp: keeps_def cell_ok_def split: option.splits)
  qed
qed (use assms in \<open>auto simp: keeps_def\<close>)

lemma cells_without:
  "\<lbrakk>\<forall>a. cell_ok (w a) (m a) (r a); r' = without r s t\<rbrakk> \<Longrightarrow> \<forall>a. cell_ok (without w s t a) (without m s t a) (r' a)"
  by (auto simp: without_def cell_ok_def)

lemma cells_shifted:
  "\<lbrakk>\<forall>a. cell_ok (w a) (m a) (r a); r' = shifted r f t n\<rbrakk> \<Longrightarrow> \<forall>a. cell_ok (shifted w f t n a) (shifted m f t n a) (r' a)"
proof
  fix a
  assume c: "\<forall>a. cell_ok (w a) (m a) (r a)" and r: "r' = shifted r f t n"
  have "cell_ok (w (a - t + f)) (m (a - t + f)) (r (a - t + f))" "cell_ok (w a) (m a) (r a)" "cell_ok None None None"
    using c by (auto simp: cell_ok_def)
  then show "cell_ok (shifted w f t n a) (shifted m f t n a) (r' a)" unfolding r shifted_def by (simp only: split: if_split) blast
qed

lemma cells_arrived:
  assumes "\<forall>a. cell_ok (w a) (m a) (remaining l a)" "arrived l l' img io"
  shows "\<forall>a. cell_ok (w a) (fill_io io m a) (remaining l' a)"
proof
  fix b
  have c: "cell_ok (w b) (m b) (remaining l b)" using assms(1) by blast
  consider "io = NoIO" "remaining l' = remaining l" | (copy) a n where "io = CopyTo a img (int n)"
    "\<forall>b. a \<le> b \<and> b < a + n * PAGE_SIZE \<longrightarrow> remaining l b = Some (img + (b - a))" "remaining l' = without (remaining l) a (a + n * PAGE_SIZE)"
    using assms(2) by (auto simp: arrived_def)
  then show "cell_ok (w b) (fill_io io m b) (remaining l' b)"
  proof cases
    case copy
    then show ?thesis using c copy(2) [rule_format, of b] by (auto simp: without_def cell_ok_def split: option.splits)
  qed (use c in simp)
qed

lemma event_ok:
  assumes ok: "lz_ok s" "\<not> exited (lz_lpi s)" and env: "e_alloc env" "e_epoll_del env" and pre: "event_pre msg s" and ord: "orderly (Some msg) s"
    and ev: "handle_uffd_event env (Msg msg) parent (lz_lpi s) = (r, l, io, c)" "0 \<le> r"
  shows "lz_ok (s\<lparr>lz_lpi := l, lz_mem := fill_io io (event_world msg (lz_mem s)), lz_want := event_world msg (lz_want s)\<rparr>)"
proof -
  let ?l = "lz_lpi s"
  have lok: "lpi_ok ?l" and cells: "\<forall>a. cell_ok (lz_want s a) (lz_mem s a) (remaining ?l a)"
    using ok by (auto simp: lz_ok_def)
  have removed: "exited l \<or> lpi_ok l \<and> (\<forall>a. cell_ok (without (lz_want s) u v a) (without (lz_mem s) u v a) (remaining l a))"
    if "handle_remove True True (e_unreg env) rem ?l u v = (r, l)" "event_pre (Remove u v) s" "orderly (Some (Remove u v)) s" for rem u v
    using handle_remove_ok [OF lok _ _ _ _ _ _ that(1)] that(2,3) ev(2) cells_without [OF cells] by auto
  show ?thesis
  proof (cases msg)
    case (PageFault f)
    then have hp: "handle_page_fault True True True (e_answer env) (e_pages env) ?l f = (r, l, io)"
      using ev(1) env by (auto simp: handle_uffd_event_def split: prod.splits)
    have zero: "lz_mem s b = None" if "io = ZeroAt a" "a \<le> b" "b < a + PAGE_SIZE" for a b
    proof -
      have "a = page_of f" using hp that(1)
        by (auto simp: handle_page_fault_def uffd_zero_def Let_def split: if_splits option.splits prod.splits)
      then show ?thesis using pre PageFault that by simp
    qed
    have "exited l \<or> keeps ?l l io" by (rule handle_page_fault_ok [OF lok ok(2) hp])
    then show ?thesis
      using cells_keep [OF cells _ zero] PageFault by (auto simp: lz_ok_def keeps_def)
  next
    case (Remove u v)
    then show ?thesis using removed [of True u v] pre ord ev env
      by (auto simp: handle_uffd_event_def lz_ok_def split: prod.splits)
  next
    case (Unmap u v)
    then show ?thesis using removed [of False u v] pre ord ev env
      by (auto simp: handle_uffd_event_def lz_ok_def split: prod.splits)
  next
    case (Remap f t n)
    then have free: "\<forall>a. t \<le> a \<and> a < t + n \<longrightarrow> remaining ?l a = None"
      using pre cells by (auto simp: cell_ok_def split: option.splits) (metis option.distinct(1))
    have p: "f + n < ULONG_MOD" "t + n < ULONG_MOD" "PAGE_SIZE dvd f" "PAGE_SIZE dvd t" "PAGE_SIZE dvd n" "lsorted (reqs ?l)"
      using pre ord Remap by auto
    obtain vs rs where m: "remap_iovs True ?l f t n = (0, ?l\<lparr>iovs := vs, reqs := rs\<rparr>)" "lpi_ok (?l\<lparr>iovs := vs, reqs := rs\<rparr>)"
        "remaining (?l\<lparr>iovs := vs, reqs := rs\<rparr>) = shifted (remaining ?l) f t n"
      using remap_iovs_ok [OF lok p(6,1-5) free] by blast
    have "l = ?l\<lparr>iovs := vs, reqs := rs\<rparr>" "io = NoIO"
      using ev(1) env m(1) Remap by (auto simp: handle_uffd_event_def handle_remap_def)
    then show ?thesis using m(2) cells_shifted [OF cells m(3)] Remap by (simp add: lz_ok_def)
  next
    case Fork
    then have "l = ?l" "io = NoIO" using ev(1) by (auto simp: handle_uffd_event_def split: prod.splits)
    then show ?thesis using ok Fork by (simp add: lz_ok_def)
  next
    case Unexpected
    then show ?thesis using pre by simp
  qed
qed

lemma lz_step_ok:
  assumes "lz_step m s t" "lz_ok s" "orderly m s"
  shows "lz_ok t"
  using assms
proof (induction rule: lz_step.induct)
  case (event s env msg parent r l io child)
  then show ?case by (intro event_ok) auto
next
  case (child s env parent r l io c)
  then have ok: "lpi_ok (lz_lpi s)" "\<forall>a. cell_ok (lz_want s a) (lz_mem s a) (remaining (lz_lpi s) a)" by (auto simp: lz_ok_def)
  obtain c' where "handle_fork True (\<lambda>_. True) True parent (lz_lpi s) = (1, Some c')" "lpi_ok c'" "remaining c' = remaining (lz_lpi s)"
    using handle_fork_ok [OF ok(1)] by blast
  then show ?case using child ok(2) by (auto simp: handle_uffd_event_def lz_ok_def)
next
  case (arrive s nr ans img r l io)
  then have ok: "lpi_ok (lz_lpi s)" "\<forall>a. cell_ok (lz_want s a) (lz_mem s a) (remaining (lz_lpi s) a)" by (auto simp: lz_ok_def)
  have "exited l \<or> arrived (lz_lpi s) l img io" using uffd_io_complete_ok [OF ok(1) arrive.hyps] .
  moreover have "lpi_ok l" if "arrived (lz_lpi s) l img io" using that by (simp add: arrived_def)
  ultimately show ?case using cells_arrived [OF ok(2)] unfolding lz_ok_def by auto
next
  case (xfer s hp r l io)
  then have "keeps (lz_lpi s) l io" by (intro xfer_pages_ok) (auto simp: lz_ok_def)
  then show ?case using xfer by (auto simp: lz_ok_def keeps_def)
qed

text \<open>A task as it is before its first event: nothing is there and everything is owed.\<close>

definition lz_start :: "lazy_pages_info \<Rightarrow> lz" where
  "lz_start l = \<lparr>lz_lpi = l, lz_mem = (\<lambda>a. None), lz_want = remaining l\<rparr>"

lemma lz_start_ok: "lpi_ok l \<Longrightarrow> lz_ok (lz_start l)"
  by (auto simp: lz_ok_def lz_start_def cell_ok_def split: option.split)

lemma lz_run_ok: "\<lbrakk>lz_run tr s t; lz_ok s; \<forall>(m, s)\<in>set tr. orderly m s\<rbrakk> \<Longrightarrow> lz_ok t"
  by (induction rule: lz_run.induct) (auto intro: lz_step_ok)

text \<open>Two pages at 0x1000, asked for in the background and then copied.\<close>

definition demo_lpi :: lazy_pages_info where
  "demo_lpi = \<lparr>exited = False, iovs = [\<lparr>li_start = 4096, li_end = 12288, li_img = 4096\<rparr>], reqs = [], xfer_len = 65536,
     total_pages = 2, copied_pages = 0, buf_size = 8192\<rparr>"

lemma demo_lpi_ok: "lpi_ok demo_lpi"
  by (simp add: demo_lpi_def lpi_ok_def iov_ok_def no_longer_def PAGE_SIZE_def ULONG_MOD_def MAX_XFER_LEN_def)

definition demo_asked :: lz where
  "demo_asked = (lz_start demo_lpi)\<lparr>lz_lpi := demo_lpi\<lparr>iovs := [], reqs := iovs demo_lpi, xfer_len := 131072\<rparr>\<rparr>"

definition demo_done :: lz where
  "demo_done = (lz_start demo_lpi)\<lparr>lz_lpi := demo_lpi\<lparr>iovs := [], reqs := [], xfer_len := 131072, copied_pages := 2\<rparr>,
     lz_mem := fill_io (CopyTo 4096 4096 2) (\<lambda>a. None)\<rparr>"

lemmas demo_eval = demo_lpi_def lz_start_def PAGE_SIZE_def ULONG_MOD_def

lemma demo_xfer: "xfer_pages True True (\<lambda>_ _. 0) demo_lpi = (0, lz_lpi demo_asked, Ask 4096 2)"
  by (simp add: xfer_pages_def pick_next_range_def extract_range_def update_xfer_len_def DEFAULT_XFER_LEN_def MAX_XFER_LEN_def
      demo_asked_def demo_eval c_arith)

lemma demo_arrive: "uffd_io_complete True True None (lz_lpi demo_asked) 4096 2 = (0, lz_lpi demo_done, CopyTo 4096 4096 2)"
  by (simp add: uffd_io_complete_def uffd_copy_def iov_list_insert_def drop_iovs_def int32_def addr_plus_def
      demo_asked_def demo_done_def demo_eval c_arith)

lemma demo_steps: "lz_run [(None, lz_start demo_lpi), (None, demo_asked)] (lz_start demo_lpi) demo_done"
proof -
  have "lz_step None (lz_start demo_lpi) ((lz_start demo_lpi)\<lparr>lz_lpi := lz_lpi demo_asked\<rparr>)"
    by (rule lz_step.xfer [of _ "\<lambda>_ _. 0" 0 _ "Ask 4096 2"]) (use demo_xfer in \<open>simp_all add: lz_start_def demo_lpi_def\<close>)
  then have 1: "lz_step None (lz_start demo_lpi) demo_asked" by (simp add: demo_asked_def lz_start_def)
  have "lz_step None demo_asked (demo_asked\<lparr>lz_lpi := lz_lpi demo_done, lz_mem := fill_io (CopyTo 4096 4096 2) (lz_mem demo_asked)\<rparr>)"
    by (rule lz_step.arrive [OF _ _ _ demo_arrive]) (simp_all add: demo_asked_def demo_lpi_def copy_answer_def)
  then have 2: "lz_step None demo_asked demo_done" by (simp add: demo_asked_def demo_done_def lz_start_def)
  show ?thesis using lz_run.step [OF lz_run.step [OF lz_run.start 1] 2] by simp
qed

text \<open>
  (C1) Restored tasks see the memory they had. From the start of a task on, through page faults, pages that
  arrive (in full, in part, or refused by the kernel), background transfers, unmaps, remaps and forks:
  an address of the restored memory that has been filled has the byte of its image address, one that has
  not been filled is still owed it, and no other address gets anything but zeros. When the lists of the
  daemon are empty, all of the restored memory has been filled. This is for runs in which, whenever the task unmaps, removes or moves memory,
  the requests in flight are in the order of addresses, for instance one at most, and in which no range of 2 GB or more is unmapped or removed at once.
\<close>

theorem lazy_pages_correct:
  assumes "lpi_ok l" "lz_run tr (lz_start l) t" "\<forall>(m, s)\<in>set tr. orderly m s" "\<not> exited (lz_lpi t)"
  shows "(\<forall>a i. lz_want t a = Some i \<longrightarrow> lz_mem t a = Some (Img i) \<or> lz_mem t a = None \<and> remaining (lz_lpi t) a = Some i) \<and>
    (\<forall>a. lz_want t a = None \<longrightarrow> lz_mem t a \<in> {None, Some Zero}) \<and>
    (iovs (lz_lpi t) = [] \<and> reqs (lz_lpi t) = [] \<longrightarrow> (\<forall>a i. lz_want t a = Some i \<longrightarrow> lz_mem t a = Some (Img i)))"
proof -
  have "lz_ok t" using lz_run_ok [OF assms(2) lz_start_ok [OF assms(1)] assms(3)] .
  then have c: "cell_ok (lz_want t a) (lz_mem t a) (remaining (lz_lpi t) a)" for a using assms(4) by (simp add: lz_ok_def)
  have "lz_mem t a = Some (Img i) \<or> lz_mem t a = None \<and> remaining (lz_lpi t) a = Some i" if "lz_want t a = Some i" for a i
    using c [of a] that by (auto simp: cell_ok_def)
  moreover have "lz_mem t a \<in> {None, Some Zero}" if "lz_want t a = None" for a
    using c [of a] that by (auto simp: cell_ok_def)
  moreover have "remaining (lz_lpi t) = (\<lambda>a. None)" if "iovs (lz_lpi t) = [] \<and> reqs (lz_lpi t) = []"
    using that by (simp add: remaining_def fun_eq_iff)
  ultimately show ?thesis by (metis option.distinct(1))
qed

theorem lazy_pages_correct_witness:
  "lpi_ok demo_lpi \<and> lz_run [(None, lz_start demo_lpi), (None, demo_asked)] (lz_start demo_lpi) demo_done \<and> \<not> exited (lz_lpi demo_done) \<and>
   lz_want demo_done 5000 = Some 5000 \<and> lz_mem demo_done 5000 = Some (Img 5000)"
proof -
  have e: "\<not> exited (lz_lpi demo_done)" "lz_want demo_done 5000 = Some 5000" "iovs (lz_lpi demo_done) = [] \<and> reqs (lz_lpi demo_done) = []"
    by (simp_all add: demo_done_def lz_start_def demo_lpi_def remaining_def holds_def)
  show ?thesis using lazy_pages_correct [OF demo_lpi_ok demo_steps _ e(1)] e demo_lpi_ok demo_steps by simp
qed

end
