(* ===== verification/UffdCollect.thy ===== *)
theory UffdCollect
  imports UffdRun
begin

text \<open>
  The start of the lazy restore of a task, \<open>collect_iovs\<close> in \<open>criu/uffd.c\<close>: the ranges it makes of the lazy entries of
  the pagemap and of the VMAs.
\<close>

subsection \<open>One entry\<close>

definition in_vma :: "(ulong \<times> ulong) list \<Rightarrow> nat \<Rightarrow> bool" where
  "in_vma vmas a \<longleftrightarrow> (\<exists>(s, t)\<in>set vmas. s \<le> a \<and> a < t)"

fun vmas_ok :: "(ulong \<times> ulong) list \<Rightarrow> bool" where
  "vmas_ok [] \<longleftrightarrow> True"
| "vmas_ok ((s, t) # vmas) \<longleftrightarrow> s < t \<and> t < ULONG_MOD \<and> PAGE_SIZE dvd t \<and> (\<forall>(s', t')\<in>set vmas. t \<le> s') \<and> vmas_ok vmas"

text \<open>The ranges of a piece of memory: the identity, each in one VMA and none longer than the buffer.\<close>

definition covers :: "(ulong \<times> ulong) list \<Rightarrow> nat \<Rightarrow> nat \<Rightarrow> lazy_iov list \<Rightarrow> bool" where
  "covers vmas s t vs \<longleftrightarrow> lsorted vs \<and> (\<forall>a. lmap vs a = (if s \<le> a \<and> a < t then Some a else None)) \<and>
     (\<forall>v\<in>set vs. s \<le> li_start v \<and> li_end v \<le> t \<and> (\<exists>(x, y)\<in>set vmas. x \<le> li_start v \<and> li_end v \<le> y))"

definition ident :: "nat \<Rightarrow> nat \<Rightarrow> lazy_iov" where
  "ident s t = \<lparr>li_start = s, li_end = t, li_img = s\<rparr>"

lemma covers_one:
  assumes "s < t" "t < ULONG_MOD" "PAGE_SIZE dvd s" "PAGE_SIZE dvd t" "(x, y) \<in> set vmas" "x \<le> s" "t \<le> y"
  shows "covers vmas s t [ident s t]"
  using assms by (auto simp: covers_def ident_def iov_ok_def holds_def intro!: bexI [of _ "(x, y)"])

lemma covers_Cons:
  assumes "s < m" "m \<le> t" "t < ULONG_MOD" "PAGE_SIZE dvd s" "PAGE_SIZE dvd m" "(x, y) \<in> set vmas" "x \<le> s" "m \<le> y"
    and "covers vmas m t vs"
  shows "covers vmas s t (ident s m # vs)"
proof -
  have "lsorted (ident s m # vs)" using assms by (auto simp: covers_def ident_def iov_ok_def)
  moreover have "lmap (ident s m # vs) a = (if s \<le> a \<and> a < t then Some a else None)" for a
    using assms by (auto simp: covers_def ident_def holds_def)
  moreover have "\<forall>v\<in>set (ident s m # vs). s \<le> li_start v \<and> li_end v \<le> t \<and> (\<exists>(x, y)\<in>set vmas. x \<le> li_start v \<and> li_end v \<le> y)"
    using assms by (fastforce simp: covers_def ident_def)
  ultimately show ?thesis by (simp add: covers_def)
qed

lemma covers_more: "covers vmas s t vs \<Longrightarrow> covers (v # vmas) s t vs"
  by (fastforce simp: covers_def)

lemma vmas_ok_above: "\<lbrakk>vmas_ok ((s, t) # vmas); in_vma vmas a\<rbrakk> \<Longrightarrow> t \<le> a"
  by (fastforce simp: in_vma_def)

text \<open>The VMAs the loop leaves for the next entry are enough for it.\<close>

definition collected :: "(ulong \<times> ulong) list \<Rightarrow> nat \<Rightarrow> nat \<Rightarrow> lazy_iov list \<Rightarrow> int \<Rightarrow>
    int \<times> (ulong \<times> ulong) list \<times> lazy_iov list \<times> int \<Rightarrow> bool" where
  "collected vmas s t acc mx res \<longleftrightarrow> (\<exists>vmas' vs mx'. res = (0, vmas', acc @ vs, mx') \<and> vmas_ok vmas' \<and> set vmas' \<subseteq> set vmas \<and>
    (\<forall>a\<ge>t. in_vma vmas a \<longrightarrow> in_vma vmas' a) \<and> covers vmas s t vs \<and> mx \<le> mx' \<and> mx' < 2 ^ 31 \<and> no_longer (nat mx') vs)"

lemma collected_skip:
  assumes "collected vmas s t acc mx res" "vt \<le> t"
  shows "collected ((vs, vt) # vmas) s t acc mx res"
proof -
  have "in_vma vmas a" if "in_vma ((vs, vt) # vmas) a" "t \<le> a" for a using that assms(2) by (auto simp: in_vma_def)
  moreover obtain vmas' ws mx2 where "res = (0, vmas', acc @ ws, mx2)" "vmas_ok vmas'" "set vmas' \<subseteq> set vmas"
      "\<forall>a\<ge>t. in_vma vmas a \<longrightarrow> in_vma vmas' a" "covers vmas s t ws" "mx \<le> mx2" "mx2 < 2 ^ 31" "no_longer (nat mx2) ws"
    using assms(1) unfolding collected_def by blast
  ultimately show ?thesis using covers_more [of vmas s t ws] unfolding collected_def
    by (intro exI [of _ vmas'] exI [of _ ws] exI [of _ mx2]) auto
qed

lemma collected_Cons:
  assumes "collected vmas m t (acc @ [ident s m]) mx' res" "s < m" "m < t" "t < ULONG_MOD" "PAGE_SIZE dvd s" "PAGE_SIZE dvd m"
    "x \<le> s" "mx \<le> mx'" "int (m - s) \<le> mx'"
  shows "collected ((x, m) # vmas) s t acc mx res"
proof -
  obtain vmas' vs mx2 where r: "res = (0, vmas', (acc @ [ident s m]) @ vs, mx2)" "vmas_ok vmas'" "set vmas' \<subseteq> set vmas"
      "\<forall>a\<ge>t. in_vma vmas a \<longrightarrow> in_vma vmas' a" "covers vmas m t vs" "mx' \<le> mx2" "mx2 < 2 ^ 31" "no_longer (nat mx2) vs"
    using assms(1) unfolding collected_def by blast
  have "covers ((x, m) # vmas) s t (ident s m # vs)"
    using assms covers_more [OF r(5)] by (intro covers_Cons [where x = x and y = m]) auto
  moreover have "no_longer (nat mx2) (ident s m # vs)" using r(6,8) assms(9) by (auto simp: ident_def)
  moreover have "\<forall>a\<ge>t. in_vma ((x, m) # vmas) a \<longrightarrow> in_vma vmas' a" using r(4) assms(3) by (auto simp: in_vma_def)
  ultimately show ?thesis using r assms(8) unfolding collected_def
    by (intro exI [of _ vmas'] exI [of _ "ident s m # vs"] exI [of _ mx2]) auto
qed

lemma collect_vmas_correct:
  assumes "vmas_ok vmas" "\<forall>a. s \<le> a \<and> a < t \<longrightarrow> in_vma vmas a" "s < t" "t < ULONG_MOD" "t - s < 2 ^ 31"
    "PAGE_SIZE dvd s" "PAGE_SIZE dvd t" "0 \<le> mx" "mx < 2 ^ 31"
  shows "collected vmas s t acc mx (collect_vmas True vmas s t acc mx)"
  using assms
proof (induction vmas arbitrary: s acc mx)
  case Nil
  then show ?case by (auto simp: in_vma_def)
next
  case (Cons w vmas)
  obtain x y where w: "w = (x, y)" by (cases w)
  have v: "x < y" "y < ULONG_MOD" "PAGE_SIZE dvd y" "vmas_ok vmas" using Cons.prems(1) by (auto simp: w)
  show ?case
  proof (cases "y \<le> s")
    case True
    have "\<forall>a. s \<le> a \<and> a < t \<longrightarrow> in_vma vmas a" using Cons.prems(2) True by (auto simp: in_vma_def w)
    then have "collected vmas s t acc mx (collect_vmas True vmas s t acc mx)" using Cons.IH [OF v(4) _ Cons.prems(3-9)] by blast
    then show ?thesis using collected_skip [of vmas s t acc mx _ y x] True Cons.prems(3) by (simp add: w)
  next
    case False
    have x: "x \<le> s" using Cons.prems(2) [rule_format, of s] Cons.prems(1,3) False vmas_ok_above [of x y vmas s]
      by (auto simp: in_vma_def w)
    define m where "m = min t y"
    define mx' where "mx' = max mx (int (m - s))"
    have m: "s < m" "m \<le> t" "m \<le> y" "PAGE_SIZE dvd m" "m < ULONG_MOD" "m - s < 2 ^ 31"
      using False Cons.prems v by (auto simp: m_def min_def)
    have mx: "0 \<le> mx'" "mx' < 2 ^ 31" using m(6) Cons.prems(8,9) by (auto simp: mx'_def)
    have upd: "(if addr_plus 0 mx < m - s then int32 (int (m - s)) else mx) = mx'"
    proof -
      have "addr_plus 0 mx = nat mx" using Cons.prems(8,9) by (subst addr_plus_small') (auto simp: ULONG_MOD_def)
      then show ?thesis using m(6) Cons.prems(8) by (auto simp: mx'_def max_def int32_small)
    qed
    have sub: "ul_sub (min t y) s = m - s" "ul_add s (m - s) = m" using m by (simp_all add: m_def [symmetric] c_arith)
    have step: "collect_vmas True ((x, y) # vmas) s t acc mx =
        (if t \<le> y then (0, (x, y) # vmas, acc @ [ident s m], mx') else collect_vmas True vmas y t (acc @ [ident s m]) mx')"
      using False by (simp add: sub upd Let_def ident_def)
    show ?thesis
    proof (cases "t \<le> y")
      case True
      then have mt: "m = t" by (simp add: m_def)
      have "covers (w # vmas) s t [ident s t]" using m x mt Cons.prems(6) by (intro covers_one [where x = x and y = y]) (auto simp: w)
      moreover have "no_longer (nat mx') [ident s t]" by (simp add: ident_def no_longer_def mx'_def mt)
      ultimately show ?thesis using True Cons.prems(1) mx unfolding w step collected_def
        by (intro exI [of _ "(x, y) # vmas"] exI [of _ "[ident s t]"] exI [of _ mx']) (auto simp: mt mx'_def)
    next
      case False
      then have my: "m = y" by (simp add: m_def)
      have "\<forall>a. y \<le> a \<and> a < t \<longrightarrow> in_vma vmas a"
      proof (intro allI impI)
        fix a assume a: "y \<le> a \<and> a < t"
        then have "in_vma (w # vmas) a" using Cons.prems(2) [rule_format, of a] m(1) my by simp
        then show "in_vma vmas a" using a by (auto simp: in_vma_def w)
      qed
      then have "collected vmas y t (acc @ [ident s y]) mx' (collect_vmas True vmas y t (acc @ [ident s y]) mx')"
        using Cons.prems False m by (intro Cons.IH [OF v(4) _ _ _ _ v(3) _ mx]) (auto simp: my)
      then show ?thesis unfolding w step using False m x Cons.prems(4,6) collected_Cons [of vmas y t acc s mx' _ x mx]
        by (simp add: my mx'_def)
    qed
  qed
qed

subsection \<open>All entries\<close>

definition entry_end :: "pagemap_entry \<Rightarrow> nat" where
  "entry_end e = pe_vaddr e + nr_pages e * PAGE_SIZE"

fun entries_ok :: "pagemap_entry list \<Rightarrow> bool" where
  "entries_ok [] \<longleftrightarrow> True"
| "entries_ok (e # es) \<longleftrightarrow> 0 < nr_pages e \<and> nr_pages e * PAGE_SIZE < 2 ^ 31 \<and> PAGE_SIZE dvd pe_vaddr e \<and> entry_end e < ULONG_MOD \<and>
     (\<forall>e'\<in>set es. entry_end e \<le> pe_vaddr e') \<and> entries_ok es"

definition lazy_at :: "pagemap_entry list \<Rightarrow> nat \<Rightarrow> bool" where
  "lazy_at es a \<longleftrightarrow> (\<exists>e\<in>set es. pagemap_lazy e \<and> pe_vaddr e \<le> a \<and> a < entry_end e)"

definition gathered :: "(ulong \<times> ulong) list \<Rightarrow> pagemap_entry list \<Rightarrow> lazy_iov list \<Rightarrow> bool" where
  "gathered vmas es vs \<longleftrightarrow> lsorted vs \<and> (\<forall>a. lmap vs a = (if lazy_at es a then Some a else None)) \<and>
     (\<forall>v\<in>set vs. \<exists>(x, y)\<in>set vmas. x \<le> li_start v \<and> li_end v \<le> y)"

lemma lmap_start:
  assumes "lsorted vs" "v \<in> set vs"
  shows "lmap vs (li_start v) \<noteq> None"
proof -
  have "holds v (li_start v)" using iov_ok_bounds [OF lsorted_all_ok [OF assms]] by (simp add: holds_def)
  then show ?thesis using assms(2) unfolding lmap_none by blast
qed

lemma gathered_Cons:
  assumes e: "pagemap_lazy e" "\<forall>e'\<in>set es. entry_end e \<le> pe_vaddr e'"
    and c: "covers vmas (pe_vaddr e) (entry_end e) vs" and g: "gathered vmas' es ws" "set vmas' \<subseteq> set vmas"
  shows "gathered vmas (e # es) (vs @ ws)"
proof -
  have above: "entry_end e \<le> li_start w" if "w \<in> set ws" for w
  proof -
    have "lazy_at es (li_start w)" using g(1) lmap_start [of ws w] that by (auto simp: gathered_def split: if_splits)
    then show ?thesis using e(2) by (fastforce simp: lazy_at_def)
  qed
  have "lsorted (vs @ ws)" using c g(1) above unfolding lsorted_append by (fastforce simp: covers_def gathered_def)
  moreover have "lmap (vs @ ws) a = (if lazy_at (e # es) a then Some a else None)" for a
    using c g(1) e(1) by (auto simp: lmap_append covers_def gathered_def lazy_at_def)
  ultimately show ?thesis using c g unfolding gathered_def covers_def by fastforce
qed

lemma collect_entries_correct:
  assumes "entries_ok es" "vmas_ok vmas" "\<forall>a. lazy_at es a \<longrightarrow> in_vma vmas a" "0 \<le> mx" "mx < 2 ^ 31"
  shows "\<exists>vs mx'. collect_entries True es vmas nr acc mx = (0, nr + sum_list (map nr_pages (filter pagemap_lazy es)), acc @ vs, mx') \<and>
    gathered vmas es vs \<and> mx \<le> mx' \<and> mx' < 2 ^ 31 \<and> no_longer (nat mx') vs"
  using assms
proof (induction es arbitrary: vmas nr acc mx)
  case Nil
  then show ?case by (auto simp: gathered_def lazy_at_def no_longer_def)
next
  case (Cons e es)
  show ?case
  proof (cases "pagemap_lazy e")
    case False
    then have "lazy_at (e # es) = lazy_at es" by (auto simp: lazy_at_def fun_eq_iff)
    then show ?thesis using Cons False by (simp add: gathered_def)
  next
    case True
    let ?s = "pe_vaddr e" and ?t = "entry_end e"
    have e: "?s < ?t" "?t < ULONG_MOD" "?t - ?s < 2 ^ 31" "PAGE_SIZE dvd ?s" "PAGE_SIZE dvd ?t" "\<forall>e'\<in>set es. ?t \<le> pe_vaddr e'"
      using Cons.prems(1) by (auto simp: entry_end_def)
    have "\<forall>a. ?s \<le> a \<and> a < ?t \<longrightarrow> in_vma vmas a" using Cons.prems(3) True by (auto simp: lazy_at_def)
    then obtain vmas' vs mx' where v: "collect_vmas True vmas ?s ?t acc mx = (0, vmas', acc @ vs, mx')" "vmas_ok vmas'"
        "set vmas' \<subseteq> set vmas" "\<forall>a\<ge>?t. in_vma vmas a \<longrightarrow> in_vma vmas' a" "covers vmas ?s ?t vs" "mx \<le> mx'" "mx' < 2 ^ 31" "no_longer (nat mx') vs"
      using collect_vmas_correct [OF Cons.prems(2) _ e(1-5) Cons.prems(4,5), of acc] unfolding collected_def by blast
    have "\<forall>a. lazy_at es a \<longrightarrow> in_vma vmas' a"
    proof (intro allI impI)
      fix a assume a: "lazy_at es a"
      then have "in_vma vmas a" "?t \<le> a" using Cons.prems(3) e(6) by (fastforce simp: lazy_at_def)+
      then show "in_vma vmas' a" using v(4) by blast
    qed
    then obtain ws mx2 where r: "collect_entries True es vmas' (nr + nr_pages e) (acc @ vs) mx' =
          (0, nr + nr_pages e + sum_list (map nr_pages (filter pagemap_lazy es)), (acc @ vs) @ ws, mx2)"
        "gathered vmas' es ws" "mx' \<le> mx2" "mx2 < 2 ^ 31" "no_longer (nat mx2) ws"
      using Cons.IH [OF _ v(2), of mx' "nr + nr_pages e" "acc @ vs"] Cons.prems(1,4) v(6,7) by auto
    have "ul_add ?s (nr_pages e * PAGE_SIZE) = ?t" using e(2) by (simp add: entry_end_def c_arith)
    then have "collect_entries True (e # es) vmas nr acc mx =
        (0, nr + sum_list (map nr_pages (filter pagemap_lazy (e # es))), acc @ (vs @ ws), mx2)"
      using True v(1) r(1) by simp
    moreover have "no_longer (nat mx2) (vs @ ws)" using v(8) r(3,5) by (fastforce simp: no_longer_def)
    ultimately show ?thesis using gathered_Cons [OF True e(6) v(5) r(2) v(3)] v(6) r(3,4)
      by (intro exI [of _ "vs @ ws"] exI [of _ mx2]) simp
  qed
qed

text \<open>Two VMAs side by side, one lazy entry over both and one that is not lazy.\<close>

definition demo_es :: "pagemap_entry list" where
  "demo_es = [\<lparr>pe_vaddr = 4096, nr_pages = 3, pe_flags = 6, has_flags = True, pe_in_parent = None\<rparr>, \<lparr>pe_vaddr = 65536, nr_pages = 1, pe_flags = 4, has_flags = True, pe_in_parent = None\<rparr>]"

text \<open>
  (C16) The daemon starts with the right ranges: when the entries of the pagemap and the VMAs are sorted and every
  lazy page is in some VMA, \<open>collect_iovs\<close> returns the number of lazy pages and leaves sorted ranges that
  hold exactly the lazy addresses, each at its own place in the image, no range reaches over the end of a
  VMA, and the buffer has room for the longest range (entries are shorter than 2 GB).
\<close>

theorem collect_iovs_correct:
  assumes "entries_ok es" "vmas_ok vmas" "\<forall>a. lazy_at es a \<longrightarrow> in_vma vmas a" "iovs lpi = []"
  shows "\<exists>vs n. collect_iovs True True (Some vmas) es lpi =
      (int32 (int (sum_list (map nr_pages (filter pagemap_lazy es)))), lpi\<lparr>iovs := vs, buf_size := n\<rparr>) \<and>
    lsorted vs \<and> (\<forall>a. lmap vs a = (if lazy_at es a then Some a else None)) \<and>
    (\<forall>v\<in>set vs. li_end v - li_start v \<le> n \<and> (\<exists>(x, y)\<in>set vmas. x \<le> li_start v \<and> li_end v \<le> y))"
proof -
  obtain vs mx where c: "collect_entries True es vmas 0 [] 0 = (0, 0 + sum_list (map nr_pages (filter pagemap_lazy es)), [] @ vs, mx)"
      "gathered vmas es vs" "0 \<le> mx" "mx < 2 ^ 31" "no_longer (nat mx) vs"
    using collect_entries_correct [OF assms(1-3), of 0 0 "[]"] by auto
  have "addr_plus 0 mx = nat mx" using c(3,4) by (subst addr_plus_small') (auto simp: ULONG_MOD_def)
  then show ?thesis using c assms(4)
    by (intro exI [of _ vs] exI [of _ "nat mx"]) (simp add: collect_iovs_def gathered_def no_longer_def Let_def)
qed

theorem collect_iovs_correct_witness:
  "\<exists>vs n. collect_iovs True True (Some [(4096, 8192), (8192, 16384)]) demo_es (demo_lpi\<lparr>iovs := []\<rparr>) =
      (3, demo_lpi\<lparr>iovs := vs, buf_size := n\<rparr>) \<and> lmap vs 9000 = Some 9000 \<and> lmap vs 65536 = None"
proof -
  have f: "pagemap_lazy (demo_es ! 0)" "\<not> pagemap_lazy (demo_es ! 1)" by (simp_all add: demo_es_def pagemap_lazy_def PE_LAZY_def)
  have ok: "entries_ok demo_es" "vmas_ok [(4096, 8192), (8192, 16384)]"
    by (simp_all add: demo_es_def entry_end_def PAGE_SIZE_def ULONG_MOD_def)
  have lz: "lazy_at demo_es a \<longleftrightarrow> 4096 \<le> a \<and> a < 16384" for a
    using f by (auto simp: lazy_at_def demo_es_def entry_end_def PAGE_SIZE_def)
  have cov: "\<forall>a. lazy_at demo_es a \<longrightarrow> in_vma [(4096, 8192), (8192, 16384)] a" by (auto simp: lz in_vma_def)
  have sum: "sum_list (map nr_pages (filter pagemap_lazy demo_es)) = 3" using f by (simp add: demo_es_def)
  show ?thesis
    using collect_iovs_correct [OF ok cov, of "demo_lpi\<lparr>iovs := []\<rparr>"] unfolding sum lz by (auto simp: int32_def)
qed

end
