(* ===== verification/UffdLimits.thy ===== *)
theory UffdLimits
  imports UffdCollect
begin

text \<open>
  What bounds the requests of the lazy pages daemon, \<open>criu/uffd.c\<close>, when a task is done, and the inputs on
  which its handlers do not do what they are meant to do.
\<close>

subsection \<open>The size of a request\<close>

text \<open>
  (C28) A background transfer asks for at least one page and for no more than 4 MB, the request fits in the
  buffer of the task when all its ranges do, and the size of the next transfer stays between one page and
  4 MB.
\<close>

theorem xfer_pages_bounded:
  assumes "lpi_ok lpi" "\<not> exited lpi" "iovs lpi \<noteq> []" "no_longer (buf_size lpi) (iovs lpi)" "xfer_pages True True hp lpi = (r, l, io)"
  shows "\<exists>i n. io = Ask i n \<and> 0 < n \<and> n * PAGE_SIZE \<le> buf_size lpi \<and> n * PAGE_SIZE \<le> MAX_XFER_LEN \<and>
    PAGE_SIZE \<le> xfer_len l \<and> xfer_len l \<le> MAX_XFER_LEN"
proof -
  have k: "lpi_ok l" "io_ok lpi l io" using xfer_pages_ok [OF assms(1-3,5)] by (auto simp: keeps_def)
  have "\<exists>i n. io = Ask i n \<or> (io = NoIO \<and> (\<exists>vs. extract_range True True (iovs lpi) 0 (li_start (iovs lpi ! 0))
      (ul_add (li_start (iovs lpi ! 0)) (min (ul_sub (li_end (iovs lpi ! 0)) (li_start (iovs lpi ! 0))) (xfer_len lpi))) = (None, vs)))"
    using assms(5) by (auto simp: xfer_pages_def pick_next_range_def Let_def split: prod.splits option.splits)
  then obtain i n where io: "io = Ask i n" by (auto simp: extract_range_def Let_def split_iov_def split: if_splits)
  obtain v w where v: "v \<in> set (reqs l)" "li_end v - li_start v = n * PAGE_SIZE" and w: "w \<in> set (iovs lpi)"
      "li_start w \<le> li_start v" "li_end v \<le> li_end w"
    using k(2) io by auto
  have "iov_ok v" by (rule ldisjoint_all_ok [OF lpi_okD(2) [OF k(1)] v(1)])
  then have "0 < n" using v(2) iov_ok_bounds [of v] by (cases n) auto
  moreover have "n * PAGE_SIZE \<le> buf_size lpi" using assms(4) w v(2) by (fastforce simp: no_longer_def)
  moreover have "n * PAGE_SIZE \<le> MAX_XFER_LEN" using lpi_okD(4) [OF k(1)] v by (auto simp: no_longer_def)
  moreover have "PAGE_SIZE \<le> xfer_len l" using lpi_okD(5,7) [OF k(1)] by (rule dvd_imp_le [rotated])
  ultimately show ?thesis using io lpi_okD(6) [OF k(1)] by blast
qed

theorem xfer_pages_bounded_witness:
  "\<exists>i n. Ask 4096 2 = Ask i n \<and> 0 < n \<and> n * PAGE_SIZE \<le> buf_size demo_lpi \<and> PAGE_SIZE \<le> xfer_len (lz_lpi demo_asked)"
proof -
  have "\<not> exited demo_lpi" "iovs demo_lpi \<noteq> []" "no_longer (buf_size demo_lpi) (iovs demo_lpi)"
    by (simp_all add: demo_lpi_def no_longer_def)
  then show ?thesis using xfer_pages_bounded [OF demo_lpi_ok _ _ _ demo_xfer] by blast
qed

subsection \<open>Tasks that are done\<close>

text \<open>
  A pass of \<open>handle_requests\<close> drops from the list only tasks that are owed no page: every other task is
  still served, and when the list is empty, the daemon has nothing left to send to any task.
\<close>

theorem requests_pass_done:
  assumes "requests_pass xfer lpis = (r, lpis', io)"
  shows "(\<forall>l\<in>set lpis. iovs l = [] \<and> reqs l = [] \<or> l \<in> set lpis' \<or> (\<exists>l'\<in>set lpis'. xfer l = (r, l', io))) \<and>
    (lpis' = [] \<longrightarrow> (\<forall>l\<in>set lpis. remaining l = (\<lambda>a. None)))"
proof -
  have gone: "\<forall>l\<in>set lpis. iovs l = [] \<and> reqs l = [] \<or> l \<in> set lpis' \<or> (\<exists>l'\<in>set lpis'. xfer l = (r, l', io))"
    using assms
  proof (induction xfer lpis arbitrary: lpis' rule: requests_pass.induct)
    case (2 xfer lpi lpis)
    then show ?case by (auto split: if_splits prod.splits)
  qed simp
  have "remaining l = (\<lambda>a. None)" if "iovs l = [] \<and> reqs l = []" for l
    using that by (simp add: remaining_def fun_eq_iff)
  then show ?thesis using gone by fastforce
qed

theorem requests_pass_done_witness:
  "requests_pass (xfer_pages True True (\<lambda>_ _. 0)) [demo_lpi\<lparr>iovs := []\<rparr>] = (0, [], NoIO) \<and>
   remaining (demo_lpi\<lparr>iovs := []\<rparr>) = (\<lambda>a. None)"
proof -
  have "requests_pass (xfer_pages True True (\<lambda>_ _. 0)) [demo_lpi\<lparr>iovs := []\<rparr>] = (0, [], NoIO)" by (simp add: demo_lpi_def)
  then show ?thesis using requests_pass_done by fastforce
qed

subsection \<open>Ranges of 2 GB and more\<close>

lemma drop_loop_empty: "len \<le> 0 \<Longrightarrow> drop_loop alloc vs addr len = (0, vs)"
  by (cases vs) (auto simp: Let_def)

text \<open>
  (C32) \<open>drop_iovs\<close> takes the length of the range as an \<open>int\<close>. When a task unmaps or discards between 2 and 4 GB at
  once, \<open>handle_remove\<close> reports success and drops no range at all, so pages that are gone stay owed.
\<close>

theorem remove_2gb_ignored:
  assumes "s \<le> t" "t < ULONG_MOD" "2 ^ 31 \<le> t - s" "t - s < 2 ^ 32"
  shows "handle_remove alloc epoll_del None rem lpi s t = (0, lpi)"
proof -
  have "ul_sub t s = t - s" using assms by (simp add: c_arith)
  moreover have "int32 (int (t - s)) \<le> 0"
  proof -
    have "(int (t - s) + 2 ^ 31) mod 2 ^ 32 = (int (t - s) + 2 ^ 31 - 2 ^ 32) mod 2 ^ 32" by (rule minus_mod_self2 [symmetric])
    also have "\<dots> = int (t - s) + 2 ^ 31 - 2 ^ 32" using assms(3,4) by (intro mod_pos_pos_trivial) auto
    finally have "int32 (int (t - s)) = int (t - s) - 2 ^ 32" unfolding int32_def by linarith
    moreover have "int (t - s) < 2 ^ 32" using assms(4) by (metis of_nat_less_numeral_power_cancel_iff)
    ultimately show ?thesis by linarith
  qed
  ultimately show ?thesis by (simp add: handle_remove_def drop_iovs_def drop_loop_empty del: of_nat_diff)
qed

theorem remove_2gb_ignored_witness:
  "handle_remove True True None False demo_lpi 0 (2 ^ 31) = (0, demo_lpi) \<and> remaining demo_lpi 5000 = Some 5000"
proof -
  have "handle_remove True True None False demo_lpi 0 (2 ^ 31) = (0, demo_lpi)"
    by (rule remove_2gb_ignored) (simp_all add: ULONG_MOD_def)
  then show ?thesis by (simp add: demo_lpi_def remaining_def holds_def)
qed

lemma int32_mod: "int32 (int n) = int (n mod 2 ^ 32)" if "n mod 2 ^ 32 < 2 ^ 31"
proof -
  have m: "int (n mod 2 ^ 32) < 2 ^ 31" using that by (metis of_nat_less_numeral_power_cancel_iff)
  have "(int n + 2 ^ 31) mod 2 ^ 32 = (int (n mod 2 ^ 32) + 2 ^ 31) mod 2 ^ 32" by (simp add: zmod_int mod_add_left_eq)
  also have "\<dots> = int (n mod 2 ^ 32) + 2 ^ 31" using m by (intro mod_pos_pos_trivial) simp_all
  finally show ?thesis by (simp add: int32_def)
qed

text \<open>
  (C33) \<open>collect_iovs\<close> keeps the length of the longest range in an \<open>int\<close>. For a task whose lazy memory is one range with a length of 4 GB or more
  whose lower 32 bits are below 2 GB, the buffer gets the length modulo 4 GB. When this is less than a transfer, the first background transfer reads more
  into the buffer than it holds.
\<close>

theorem collect_iovs_small_buffer:
  assumes e: "pagemap_lazy e" "len = nr_pages e * PAGE_SIZE" "2 ^ 32 \<le> len" "len mod 2 ^ 32 < 2 ^ 31"
    and v: "pe_vaddr e + len \<le> vend" "vend < ULONG_MOD"
    and l: "iovs lpi = []" "len mod 2 ^ 32 < xfer_len lpi" "xfer_len lpi < len"
  shows "\<exists>r l l'. collect_iovs True True (Some [(vstart, vend)]) [e] lpi = (r, l) \<and> buf_size l = len mod 2 ^ 32 \<and>
     xfer_pages True True (\<lambda>_ _. 0) l = (0, l', Ask (pe_vaddr e) (xfer_len lpi div PAGE_SIZE))"
proof -
  let ?s = "pe_vaddr e"
  let ?v = "\<lparr>li_start = ?s, li_end = ?s + len, li_img = ?s\<rparr>"
  let ?l = "lpi\<lparr>iovs := [?v], buf_size := len mod 2 ^ 32\<rparr>"
  have pos: "0 < len" using e(3) by (rule less_le_trans [rotated]) simp
  have en: "ul_add ?s (nr_pages e * PAGE_SIZE) = ?s + len" "min (?s + len) vend = ?s + len" using v e(2) by (simp_all add: c_arith)
  have ne: "\<not> vend \<le> ?s" using v(1) pos by linarith
  have ln: "ul_sub (?s + len) ?s = len" "ul_add ?s len = ?s + len" using v by (simp_all add: c_arith)
  have mx: "addr_plus 0 0 < len" "addr_plus 0 (int32 (int len)) = len mod 2 ^ 32"
  proof -
    have "len mod 2 ^ 32 < ULONG_MOD" using mod_less_divisor [of "2 ^ 32" len] by (simp add: ULONG_MOD_def)
    then show "addr_plus 0 0 < len" "addr_plus 0 (int32 (int len)) = len mod 2 ^ 32"
      using pos unfolding int32_mod [OF e(4)] addr_plus_def by (simp_all add: nat_mod_distrib)
  qed
  have "collect_iovs True True (Some [(vstart, vend)]) [e] lpi = (int32 (int (nr_pages e)), ?l)"
    using e(1) l(1) by (simp add: collect_iovs_def en ln mx ne Let_def v(1))
  moreover have "ul_add ?s (xfer_len lpi) = ?s + xfer_len lpi" "ul_sub (?s + xfer_len lpi) ?s = xfer_len lpi" using v l(3) by (simp_all add: c_arith)
  then have "\<exists>l'. xfer_pages True True (\<lambda>_ _. 0) ?l = (0, l', Ask ?s (xfer_len lpi div PAGE_SIZE))"
    using l(3) by (simp add: xfer_pages_def pick_next_range_def extract_range_def split_iov_def ln(1) Let_def)
  ultimately show ?thesis by auto
qed

theorem collect_iovs_small_buffer_witness:
  "\<exists>r l l'. collect_iovs True True (Some [(4096, 4096 + 2 ^ 32)]) [\<lparr>pe_vaddr = 4096, nr_pages = 1048576, pe_flags = 6, has_flags = True, pe_in_parent = None\<rparr>]
       (demo_lpi\<lparr>iovs := []\<rparr>) = (r, l) \<and> buf_size l = 0 \<and> xfer_pages True True (\<lambda>_ _. 0) l = (0, l', Ask 4096 16)"
proof -
  let ?e = "\<lparr>pe_vaddr = 4096, nr_pages = 1048576, pe_flags = 6, has_flags = True, pe_in_parent = None\<rparr>"
  have "pagemap_lazy ?e" by (simp add: pagemap_lazy_def PE_LAZY_def)
  from collect_iovs_small_buffer [OF this, of "2 ^ 32" "4096 + 2 ^ 32" "demo_lpi\<lparr>iovs := []\<rparr>" 4096]
  show ?thesis by (simp add: PAGE_SIZE_def demo_lpi_def ULONG_MOD_def)
qed

subsection \<open>Changes to a range that has been asked for\<close>



text \<open>
  (C35) Requests are kept in the order in which they were made, but \<open>__remap_iovs\<close> stops at the first range behind the one it
  looks for. When a task moves pages that have been asked for, and the newest request is for higher addresses, then the request for the
  moved pages stays at the old address, and every fault on the new one is answered with a zero page: the contents of the pages are lost.
\<close>

theorem unsorted_requests_lose_page:
  assumes ok: "lpi_ok lpi" and rq: "reqs lpi = w # rs" "from + len \<le> li_start w" "v \<in> set rs" "li_start v \<le> from" "from + len \<le> li_end v"
    and pg: "0 < len" "PAGE_SIZE dvd from" "PAGE_SIZE dvd to" "PAGE_SIZE dvd len" "to + len < ULONG_MOD"
    and free: "\<forall>a. to \<le> a \<and> a < to + len \<longrightarrow> remaining lpi a = None"
  shows "\<exists>l. handle_remap True lpi from to len = (0, l) \<and>
    (\<forall>f hp. to \<le> f \<and> f < to + len \<longrightarrow>
       remaining lpi (from + (f - to)) \<noteq> None \<and> handle_page_fault True True True None hp l f = (0, l, ZeroAt (page_of f)))"
proof -
  have wv: "iov_ok w" "iov_ok v" using ldisjoint_all_ok [OF lpi_okD(2) [OF ok]] rq(1,3) by auto
  have fr: "from + len < ULONG_MOD" "from < li_end w" using wv(1) rq(2) pg(1) iov_ok_bounds [OF wv(1)] by (auto simp: iov_ok_def)
  have dj: "ldisjoint (iovs lpi @ reqs lpi)" by (rule lpi_ok_disjoint [OF ok])
  have rf: "\<forall>a. to \<le> a \<and> a < to + len \<longrightarrow> lmap (iovs lpi) a = None" "\<And>a. to \<le> a \<Longrightarrow> a < to + len \<Longrightarrow> lmap (reqs lpi) a = None"
    using free by (auto simp: remaining_def lmap_append split: option.splits)
  obtain vs where vs: "remap_list True (iovs lpi) from to len = (0, vs)" "lmap vs = shifted (lmap (iovs lpi)) from to len"
    using remap_list_correct [OF lpi_okD(1) [OF ok] fr(1) pg(5,2-4) rf(1)] by blast
  have "remap_list True (reqs lpi) from to len = (0, reqs lpi)"
    using fr rq(1,2) by (simp add: remap_list_def c_arith)
  then have m: "handle_remap True lpi from to len = (0, lpi\<lparr>iovs := vs\<rparr>)" using vs(1) by (simp add: handle_remap_def remap_iovs_def)
  have owed: "remaining lpi (from + (f - to)) \<noteq> None" "lmap (iovs lpi) (from + (f - to)) = None" if "to \<le> f" "f < to + len" for f
  proof -
    have h: "holds v (from + (f - to))" unfolding holds_def using that rq(4,5) by (intro conjI) linarith+
    then show "remaining lpi (from + (f - to)) \<noteq> None" using lmap_mem [OF dj, of v] rq(1,3) by (simp add: remaining_def)
    show "lmap (iovs lpi) (from + (f - to)) = None"
      unfolding lmap_none using h lpi_okD(3) [OF ok] rq(1,3) apart_holds by (metis list.set_intros(2))
  qed
  have "handle_page_fault True True True None hp (lpi\<lparr>iovs := vs\<rparr>) f = (0, lpi\<lparr>iovs := vs\<rparr>, ZeroAt (page_of f))"
    if f: "to \<le> f" "f < to + len" for f hp
  proof -
    let ?a = "page_of f"
    have "?a \<le> f" "f < ?a + PAGE_SIZE"
      using div_mult_mod_eq [of f PAGE_SIZE] mod_less_divisor [OF PAGE_SIZE_pos, of f] unfolding page_of_def by linarith+
    then have a: "to \<le> ?a" "?a < to + len" using f page_whole [OF pg(3) page_of_dvd, of f f] by auto
    have "lmap vs ?a = None" unfolding vs(2) shifted_def using a owed(2) [OF a] by (simp add: add.commute)
    then have "find_iov vs ?a = None" "\<not> is_page_queued (lpi\<lparr>iovs := vs\<rparr>) ?a"
      using rf(2) [OF a] by (simp_all add: find_iov_none is_page_queued_lmap)
    then show ?thesis by (simp add: handle_page_fault_def uffd_zero_def)
  qed
  then show ?thesis using m owed(1) by blast
qed

theorem unsorted_requests_lose_page_witness:
  "\<exists>l1 l2 l3. handle_page_fault True True True None (\<lambda>_ _. 0) demo_lpi 4096 = (0, l1, Ask 4096 1) \<and>
     handle_page_fault True True True None (\<lambda>_ _. 0) l1 8192 = (0, l2, Ask 8192 1) \<and>
     handle_remap True l2 4096 65536 4096 = (0, l3) \<and>
     handle_page_fault True True True None (\<lambda>_ _. 0) l3 65536 = (0, l3, ZeroAt (page_of 65536))"
proof -
  let ?v = "\<lparr>li_start = 4096, li_end = 8192, li_img = 4096\<rparr>"
  let ?w = "\<lparr>li_start = 8192, li_end = 12288, li_img = 8192\<rparr>"
  let ?l1 = "demo_lpi\<lparr>iovs := [?w], reqs := [?v]\<rparr>" and ?l2 = "demo_lpi\<lparr>iovs := [], reqs := [?w, ?v]\<rparr>"
  note ev = handle_page_fault_def page_of_def is_page_queued_def extract_range_def split_iov_def update_xfer_len_def
    DEFAULT_XFER_LEN_def MAX_XFER_LEN_def demo_lpi_def PAGE_SIZE_def ULONG_MOD_def c_arith
  have f: "handle_page_fault True True True None (\<lambda>_ _. 0) demo_lpi 4096 = (0, ?l1, Ask 4096 1)"
    "handle_page_fault True True True None (\<lambda>_ _. 0) ?l1 8192 = (0, ?l2, Ask 8192 1)" by (simp_all add: ev)
  have ok: "lpi_ok ?l2"
    by (simp add: demo_lpi_def lpi_ok_def iov_ok_def apart_def no_longer_def PAGE_SIZE_def ULONG_MOD_def MAX_XFER_LEN_def)
  obtain l where "handle_remap True ?l2 4096 65536 4096 = (0, l)"
    "\<forall>f hp. 65536 \<le> f \<and> f < 65536 + 4096 \<longrightarrow> handle_page_fault True True True None hp l f = (0, l, ZeroAt (page_of f))"
    using unsorted_requests_lose_page [OF ok, of ?w "[?v]" 4096 4096 ?v 65536]
    by (auto simp: PAGE_SIZE_def ULONG_MOD_def remaining_def demo_lpi_def holds_def)
  then show ?thesis using f by (intro exI [of _ ?l1] exI [of _ ?l2] exI [of _ l]) simp
qed

end
