(* ===== verification/PageXfer.thy ===== *)
theory PageXfer
  imports PagePipe PageRead
begin

unbundle bit_operations_syntax

text \<open>
  Writing pages to the images, \<open>criu/page-xfer.c\<close>.

  A \<open>page_xfer\<close> takes the entries and the pages of a page pipe either to the image files of this
  machine or, as messages, to a page server, which writes them to its image files with the
  local methods. The images are kept in the record of the transfer: the entries of
  the pagemap image and the bytes of the pages image, in the order of writing. A kernel pipe is the
  list of its bytes; a socket is the list of what has been sent, messages and bytes of pages.
  TLS sessions, statistics and log messages are left out.

  \<open>xfer_sys\<close> has the choices of the environment: how many bytes a \<open>splice\<close> moves (of a pipe, with so
  many bytes at the destination), and whether an entry or a message can be written. A splice never moves
  more than it is asked for or than there is.
\<close>

subsection \<open>Messages\<close>

record page_server_iov =
  psi_cmd :: u32
  psi_nr_pages :: nat
  psi_vaddr :: ulong
  psi_dst_id :: u64

datatype sk_item = Psi page_server_iov | Data byte

definition psi2iovec :: "page_server_iov \<Rightarrow> iovec" where
  "psi2iovec pi = \<lparr>iov_base = psi_vaddr pi, iov_len = ul_mul (psi_nr_pages pi) PAGE_SIZE\<rparr>"

definition PS_IOV_ADD :: u32 where "PS_IOV_ADD = 1"
definition PS_IOV_HOLE :: u32 where "PS_IOV_HOLE = 2"
definition PS_IOV_OPEN :: u32 where "PS_IOV_OPEN = 3"
definition PS_IOV_OPEN2 :: u32 where "PS_IOV_OPEN2 = 4"
definition PS_IOV_PARENT :: u32 where "PS_IOV_PARENT = 5"
definition PS_IOV_ADD_F :: u32 where "PS_IOV_ADD_F = 6"
definition PS_IOV_GET :: u32 where "PS_IOV_GET = 7"
definition PS_IOV_FLUSH :: u32 where "PS_IOV_FLUSH = 0x1023"
definition PS_IOV_FLUSH_N_CLOSE :: u32 where "PS_IOV_FLUSH_N_CLOSE = 0x1024"
definition PS_CMD_BITS :: nat where "PS_CMD_BITS = 16"
definition PS_CMD_MASK :: u32 where "PS_CMD_MASK = push_bit PS_CMD_BITS 1 - 1"
definition PS_TYPE_BITS :: nat where "PS_TYPE_BITS = 8"
definition PS_TYPE_MASK :: u64 where "PS_TYPE_MASK = push_bit PS_TYPE_BITS 1 - 1"
definition PS_TYPE_PID :: u64 where "PS_TYPE_PID = 1"
definition PS_TYPE_SHMEM :: u64 where "PS_TYPE_SHMEM = 2"

text \<open>The image types that the functions below tell apart.\<close>

datatype fd_type = CR_FD_PAGEMAP | CR_FD_SHMEM_PAGEMAP | CR_FD_OTHER

definition encode_pm :: "fd_type \<Rightarrow> ulong \<Rightarrow> u64 outcome" where
  "encode_pm type i =
     (case type of
        CR_FD_PAGEMAP \<Rightarrow> Ret (push_bit PS_TYPE_BITS (of_nat i) OR PS_TYPE_PID)
      | CR_FD_SHMEM_PAGEMAP \<Rightarrow> Ret (push_bit PS_TYPE_BITS (of_nat i) OR PS_TYPE_SHMEM)
      | CR_FD_OTHER \<Rightarrow> Bug)"

text \<open>\<open>decode_pm\<close>: \<open>None\<close> for the type -1.\<close>

definition decode_pm :: "u64 \<Rightarrow> (fd_type \<times> ulong) option" where
  "decode_pm dst_id =
     (let type = dst_id AND PS_TYPE_MASK
      in if type \<in> {10, 11, 16, 17, PS_TYPE_PID} then Some (CR_FD_PAGEMAP, unat (drop_bit PS_TYPE_BITS dst_id))
         else if type \<in> {27, 28, 29, 32, 33, 34, PS_TYPE_SHMEM} then Some (CR_FD_SHMEM_PAGEMAP, unat (drop_bit PS_TYPE_BITS dst_id))
         else None)"

definition encode_ps_cmd :: "u32 \<Rightarrow> u32 \<Rightarrow> u32" where
  "encode_ps_cmd cmd flags = push_bit PS_CMD_BITS flags OR cmd"

definition decode_ps_cmd :: "u32 \<Rightarrow> u32" where
  "decode_ps_cmd cmd = cmd AND PS_CMD_MASK"

definition decode_ps_flags :: "u32 \<Rightarrow> u32" where
  "decode_ps_flags cmd = drop_bit PS_CMD_BITS cmd"

subsection \<open>The two ways of writing\<close>

record page_xfer =
  x_offset :: ulong
  transfer_lazy :: bool
  x_server :: bool
  x_parent :: "page_read list"
  x_has_parent :: bool
  x_pmi :: "pagemap_entry list"
  x_pi :: "byte list"
  x_dst_id :: u64
  x_sk :: "sk_item list"

record xfer_sys =
  x_prs :: pr_sys
  x_splice :: "nat \<Rightarrow> nat \<Rightarrow> nat \<Rightarrow> int"
  x_pb_ok :: "nat \<Rightarrow> bool"
  x_send_ok :: "nat \<Rightarrow> bool"

definition sys_splice :: "xfer_sys \<Rightarrow> nat \<Rightarrow> nat \<Rightarrow> nat \<Rightarrow> byte list \<Rightarrow> byte list option" where
  "sys_splice sys p at n bs =
     (let r = x_splice sys p at n in if r < 0 then None else Some (take (min (nat r) n) bs))"

lemma length_sys_splice: "sys_splice sys p at n bs = Some c \<Longrightarrow> length c \<le> n"
  by (auto simp: sys_splice_def Let_def split: if_splits)

definition send_psi :: "xfer_sys \<Rightarrow> page_xfer \<Rightarrow> page_server_iov \<Rightarrow> int \<times> page_xfer" where
  "send_psi sys xfer pi =
     (if x_send_ok sys (length (x_sk xfer)) then (0, xfer\<lparr>x_sk := x_sk xfer @ [Psi pi]\<rparr>) else (-1, xfer))"

text \<open>The two functions that move pages return the result, what is left in the pipe, and the destination.\<close>

function write_pages_to_server :: "xfer_sys \<Rightarrow> nat \<Rightarrow> nat \<Rightarrow> byte list \<Rightarrow> sk_item list \<Rightarrow> int \<times> byte list \<times> sk_item list" where
  "write_pages_to_server sys p left bs sk =
     (if left = 0 then (0, bs, sk)
      else case sys_splice sys p (length sk) left bs of
             None \<Rightarrow> (-1, bs, sk)
           | Some c \<Rightarrow> if c = [] then (-1, bs, sk)
                       else write_pages_to_server sys p (left - length c) (drop (length c) bs) (sk @ map Data c))"
  by pat_completeness auto
termination
  by (relation "measure (\<lambda>(_, _, left, _, _). left)") auto

definition write_pagemap_to_server :: "xfer_sys \<Rightarrow> page_xfer \<Rightarrow> iovec \<Rightarrow> u32 \<Rightarrow> int \<times> page_xfer" where
  "write_pagemap_to_server sys xfer iov flags =
     send_psi sys xfer \<lparr>psi_cmd = encode_ps_cmd PS_IOV_ADD_F flags, psi_nr_pages = iov_len iov div PAGE_SIZE mod 2 ^ 32,
       psi_vaddr = iov_base iov, psi_dst_id = x_dst_id xfer\<rparr>"

text \<open>\<open>open_page_server_xfer\<close>; \<open>answer\<close> is the byte the server sends back.\<close>

definition open_page_server_xfer :: "xfer_sys \<Rightarrow> byte option \<Rightarrow> page_xfer \<Rightarrow> fd_type \<Rightarrow> ulong \<Rightarrow> (int \<times> page_xfer) outcome" where
  "open_page_server_xfer sys answer xfer fd_type img =
     (case encode_pm fd_type img of
        Bug \<Rightarrow> Bug
      | Ret dst \<Rightarrow>
          (let xfer = xfer\<lparr>x_server := True, x_dst_id := dst, x_has_parent := False\<rparr>;
               (ret, xfer) = send_psi sys xfer \<lparr>psi_cmd = PS_IOV_OPEN2, psi_nr_pages = 0, psi_vaddr = 0, psi_dst_id = dst\<rparr>
           in if ret \<noteq> 0 then Ret (-1, xfer)
              else case answer of
                     None \<Rightarrow> Ret (-1, xfer)
                   | Some has_parent \<Rightarrow> Ret (0, xfer\<lparr>x_has_parent := has_parent \<noteq> 0\<rparr>)))"

function write_pages_loc :: "xfer_sys \<Rightarrow> nat \<Rightarrow> nat \<Rightarrow> byte list \<Rightarrow> byte list \<Rightarrow> int \<times> byte list \<times> byte list" where
  "write_pages_loc sys p len bs img =
     (case sys_splice sys p (length img) len bs of
        None \<Rightarrow> (-1, bs, img)
      | Some c \<Rightarrow> if c = [] then (-1, bs, img)
                  else if length c = len then (0, drop (length c) bs, img @ c)
                  else write_pages_loc sys p (len - length c) (drop (length c) bs) (img @ c))"
  by pat_completeness auto
termination
proof (relation "measure (\<lambda>(_, _, len, _, _). len)", goal_cases)
  case (2 sys p len bs img c)
  then show ?case using length_sys_splice [of sys p "length img" len bs c] by (cases c) auto
qed simp

text \<open>\<open>check_pagehole_in_parent\<close>; the loop need not end.\<close>

partial_function (option) check_pagehole_loop :: "page_read \<Rightarrow> ulong \<Rightarrow> ulong \<Rightarrow> (int \<times> page_read) option" where
  "check_pagehole_loop pr off en =
     (let (ret, pr) = seek_pagemap pr off
      in if ret \<le> 0 then Some (-1, pr)
         else case pe pr of
                None \<Rightarrow> Some (-1, pr)
              | Some e \<Rightarrow>
                  (let pend = ul_add (pe_vaddr e) (pagemap_len e)
                   in if en \<le> pend then Some (0, pr) else check_pagehole_loop pr pend en))"

definition check_pagehole_in_parent :: "page_read \<Rightarrow> iovec \<Rightarrow> (int \<times> page_read) option" where
  "check_pagehole_in_parent pr iov = check_pagehole_loop pr (iov_base iov) (ul_add (iov_base iov) (iov_len iov))"

text \<open>What is done with the parent before an entry is written.\<close>

definition parent_checks :: "xfer_sys \<Rightarrow> page_xfer \<Rightarrow> pagemap_entry \<Rightarrow> iovec \<Rightarrow> u32 \<Rightarrow> (int \<times> page_xfer) run" where
  "parent_checks sys xfer e iov flags =
     (if flags AND PE_PRESENT \<noteq> 0
      then (if auto_dedup (x_prs sys) \<and> x_parent xfer \<noteq> []
            then (case dedup_one_iovec (x_prs sys) (x_parent xfer) (pe_vaddr e) (pagemap_len e) of
                    None \<Rightarrow> Loops
                  | Some (ret, prs) \<Rightarrow> Done (if ret = -1 then -1 else 0, xfer\<lparr>x_parent := prs\<rparr>))
            else Done (0, xfer))
      else if flags AND PE_PARENT \<noteq> 0
      then (if x_parent xfer \<noteq> []
            then (case check_pagehole_in_parent (hd (x_parent xfer)) iov of
                    None \<Rightarrow> Loops
                  | Some (ret, pr) \<Rightarrow> Done (if ret \<noteq> 0 then -1 else 0, xfer\<lparr>x_parent := pr # tl (x_parent xfer)\<rparr>))
            else Done (0, xfer))
      else Done (0, xfer))"

definition write_pagemap_loc :: "xfer_sys \<Rightarrow> page_xfer \<Rightarrow> iovec \<Rightarrow> u32 \<Rightarrow> (int \<times> page_xfer) run" where
  "write_pagemap_loc sys xfer iov flags =
     (let e = \<lparr>pe_vaddr = iov_base iov, nr_pages = iov_len iov div PAGE_SIZE mod 2 ^ 32, pe_flags = flags, has_flags = True,
               pe_in_parent = None\<rparr>
      in bind_run (parent_checks sys xfer e iov flags) (\<lambda>(ret, xfer).
           if ret \<noteq> 0 then Done (-1, xfer)
           else if x_pb_ok sys (length (x_pmi xfer)) then Done (0, xfer\<lparr>x_pmi := x_pmi xfer @ [e]\<rparr>)
           else Done (-1, xfer)))"

text \<open>
  \<open>open_page_local_xfer\<close>: \<open>pmi\<close> and \<open>pi\<close> tell whether the images could be created, and \<open>i\<close> is the counter of the readers.
  \<open>par\<close> is the directory of the parent link, \<open>None\<close> when the link does not exist (\<open>ENOENT\<close>). After another error of \<open>openat\<close> the
  code goes on with the descriptor -1, on which no image can be opened: this is a directory whose \<open>d_pagemap\<close> is \<open>None\<close>.
\<close>

definition open_page_local_xfer :: "xfer_sys \<Rightarrow> bool \<Rightarrow> bool \<Rightarrow> bool \<Rightarrow> image_dir option \<Rightarrow> page_xfer \<Rightarrow> fd_type \<Rightarrow> ulong \<Rightarrow> nat \<Rightarrow>
    (int \<times> page_xfer \<times> nat) run" where
  "open_page_local_xfer sys stream pmi pi par xfer fd_type img i =
     (if \<not> pmi \<or> \<not> pi then Done (-1, xfer, i)
      else (let xfer = xfer\<lparr>x_pmi := [], x_pi := [], x_parent := [], x_has_parent := False, x_server := False\<rparr>
            in if fd_type = CR_FD_OTHER \<or> stream then Done (0, xfer, i)
               else case par of
                      None \<Rightarrow> Done (0, xfer, i)
                    | Some d \<Rightarrow>
                        if \<not> xalloc_ok (x_prs sys) then Done (-1, xfer, i)
                        else bind_run (open_page_read_at (x_prs sys) stream False img d i) (\<lambda>(ret, prs, i).
                               if ret \<le> 0 then Done (0, xfer, i)
                               else Done (0, xfer\<lparr>x_parent := prs, x_has_parent := True\<rparr>, i))))"

text \<open>\<open>open_page_xfer\<close>; \<open>use_page_server\<close> is the option of this name.\<close>

definition open_page_xfer :: "xfer_sys \<Rightarrow> bool \<Rightarrow> byte option \<Rightarrow> bool \<Rightarrow> bool \<Rightarrow> bool \<Rightarrow> image_dir option \<Rightarrow> page_xfer \<Rightarrow> fd_type \<Rightarrow> ulong \<Rightarrow> nat \<Rightarrow>
    (int \<times> page_xfer \<times> nat) run" where
  "open_page_xfer sys use_page_server answer stream pmi pi par xfer fd_type img i =
     (let xfer = xfer\<lparr>x_offset := 0, transfer_lazy := True\<rparr>
      in if use_page_server
         then (case open_page_server_xfer sys answer xfer fd_type img of Bug \<Rightarrow> Abort | Ret (ret, xfer) \<Rightarrow> Done (ret, xfer, i))
         else open_page_local_xfer sys stream pmi pi par xfer fd_type img i)"

text \<open>\<open>close_page_xfer\<close>, with what is then in the files of the parents.\<close>

definition close_page_xfer :: "xfer_sys \<Rightarrow> page_xfer \<Rightarrow> (page_xfer \<times> page_read list) run" where
  "close_page_xfer sys xfer =
     (if x_parent xfer = [] then Done (xfer, [])
      else bind_run (close_page_read (x_prs sys) (x_parent xfer)) (\<lambda>prs. Done (xfer\<lparr>x_parent := [], x_has_parent := False\<rparr>, prs)))"

text \<open>The methods of a transfer. Pipes are named by numbers.\<close>

type_synonym pipes = "nat \<Rightarrow> byte list"

definition write_pagemap :: "xfer_sys \<Rightarrow> page_xfer \<Rightarrow> iovec \<Rightarrow> u32 \<Rightarrow> (int \<times> page_xfer) run" where
  "write_pagemap sys xfer iov flags =
     (if x_server xfer then Done (write_pagemap_to_server sys xfer iov flags) else write_pagemap_loc sys xfer iov flags)"

definition write_pages :: "xfer_sys \<Rightarrow> page_xfer \<Rightarrow> pipes \<Rightarrow> nat \<Rightarrow> nat \<Rightarrow> int \<times> page_xfer \<times> pipes" where
  "write_pages sys xfer ks p len =
     (if x_server xfer
      then (let (ret, bs, sk) = write_pages_to_server sys p len (ks p) (x_sk xfer) in (ret, xfer\<lparr>x_sk := sk\<rparr>, ks(p := bs)))
      else (let (ret, bs, img) = write_pages_loc sys p len (ks p) (x_pi xfer) in (ret, xfer\<lparr>x_pi := img\<rparr>, ks(p := bs))))"

text \<open>
  The end of the connection: \<open>connected\<close> tells whether there is a socket, \<open>ps_socket\<close> whether it was passed in with the option of this
  name, and \<open>status\<close> what the server answers.
\<close>

definition disconnect_from_page_server :: "xfer_sys \<Rightarrow> bool \<Rightarrow> bool \<Rightarrow> bool \<Rightarrow> int option \<Rightarrow> page_xfer \<Rightarrow> int \<times> page_xfer" where
  "disconnect_from_page_server sys use_page_server connected ps_socket status xfer =
     (if \<not> use_page_server \<or> \<not> connected then (0, xfer)
      else (let (ret, xfer) = send_psi sys xfer \<lparr>psi_cmd = (if ps_socket then PS_IOV_FLUSH_N_CLOSE else PS_IOV_FLUSH), psi_nr_pages = 0,
                                psi_vaddr = 0, psi_dst_id = 0\<rparr>
            in if ret \<noteq> 0 then (-1, xfer) else case status of None \<Rightarrow> (-1, xfer) | Some st \<Rightarrow> (st, xfer)))"

subsection \<open>Dumping a page pipe\<close>

definition page_xfer_dump_hole :: "xfer_sys \<Rightarrow> page_xfer \<Rightarrow> iovec \<Rightarrow> u32 \<Rightarrow> (int \<times> page_xfer) run" where
  "page_xfer_dump_hole sys xfer hole flags =
     (if iov_base hole < x_offset xfer then Abort
      else bind_run (write_pagemap sys xfer (hole\<lparr>iov_base := iov_base hole - x_offset xfer\<rparr>) flags) (\<lambda>(ret, xfer).
             Done (if ret \<noteq> 0 then -1 else 0, xfer)))"

definition get_hole_flags :: "page_pipe \<Rightarrow> nat \<Rightarrow> u32 outcome" where
  "get_hole_flags pp n = (if hole_flags pp ! n = PP_HOLE_PARENT then Ret PE_PARENT else Bug)"

function dump_holes :: "xfer_sys \<Rightarrow> page_xfer \<Rightarrow> page_pipe \<Rightarrow> nat \<Rightarrow> ulong \<Rightarrow> (int \<times> page_xfer \<times> nat) run" where
  "dump_holes sys xfer pp cur_hole limit =
     (if \<not> cur_hole < free_hole pp then Done (0, xfer, cur_hole)
      else (let hole = holes pp ! cur_hole
            in if limit \<noteq> 0 \<and> limit \<le> iov_base hole then Done (0, xfer, cur_hole)
               else case get_hole_flags pp cur_hole of
                      Bug \<Rightarrow> Abort
                    | Ret flags \<Rightarrow>
                        bind_run (page_xfer_dump_hole sys xfer hole flags) (\<lambda>(ret, xfer).
                          if ret \<noteq> 0 then Done (ret, xfer, cur_hole)
                          else dump_holes sys xfer pp (cur_hole + 1) limit)))"
  by pat_completeness auto
termination
  by (relation "measure (\<lambda>(_, _, pp, cur, _). free_hole pp - cur)") auto

definition ppb_xfer_flags :: "page_xfer \<Rightarrow> page_pipe_buf \<Rightarrow> u32" where
  "ppb_xfer_flags xfer b =
     (if ppb_flags b AND PPB_LAZY \<noteq> 0 then (if transfer_lazy xfer then PE_PRESENT else 0) OR PE_LAZY else PE_PRESENT)"

text \<open>The loop over the segments of one buffer, and the loop over the buffers.\<close>

fun dump_segs :: "xfer_sys \<Rightarrow> page_xfer \<Rightarrow> page_pipe \<Rightarrow> page_pipe_buf \<Rightarrow> iovec list \<Rightarrow> nat \<Rightarrow> pipes \<Rightarrow>
    (int \<times> page_xfer \<times> nat \<times> pipes) run" where
  "dump_segs sys xfer pp b [] cur ks = Done (0, xfer, cur, ks)"
| "dump_segs sys xfer pp b (iov # vs) cur ks =
     bind_run (dump_holes sys xfer pp cur (iov_base iov)) (\<lambda>(ret, xfer, cur).
       if ret \<noteq> 0 then Done (ret, xfer, cur, ks)
       else if iov_base iov < x_offset xfer then Abort
       else (let flags = ppb_xfer_flags xfer b
             in bind_run (write_pagemap sys xfer (iov\<lparr>iov_base := iov_base iov - x_offset xfer\<rparr>) flags) (\<lambda>(ret, xfer).
                  if ret \<noteq> 0 then Done (-1, xfer, cur, ks)
                  else if flags AND PE_PRESENT \<noteq> 0
                  then (let (ret, xfer, ks) = write_pages sys xfer ks (ppb_p b) (iov_len iov)
                        in if ret \<noteq> 0 then Done (-1, xfer, cur, ks) else dump_segs sys xfer pp b vs cur ks)
                  else dump_segs sys xfer pp b vs cur ks)))"

fun dump_bufs :: "xfer_sys \<Rightarrow> page_xfer \<Rightarrow> page_pipe \<Rightarrow> nat list \<Rightarrow> nat \<Rightarrow> pipes \<Rightarrow> (int \<times> page_xfer \<times> nat \<times> pipes) run" where
  "dump_bufs sys xfer pp [] cur ks = Done (0, xfer, cur, ks)"
| "dump_bufs sys xfer pp (i # is) cur ks =
     bind_run (dump_segs sys xfer pp (store pp i) (ppb_iovs pp i) cur ks) (\<lambda>(ret, xfer, cur, ks).
       if ret \<noteq> 0 then Done (ret, xfer, cur, ks) else dump_bufs sys xfer pp is cur ks)"

definition page_xfer_dump_pages :: "xfer_sys \<Rightarrow> page_xfer \<Rightarrow> page_pipe \<Rightarrow> pipes \<Rightarrow> (int \<times> page_xfer \<times> pipes) run" where
  "page_xfer_dump_pages sys xfer pp ks =
     bind_run (dump_bufs sys xfer pp (bufs pp) 0 ks) (\<lambda>(ret, xfer, cur, ks).
       if ret \<noteq> 0 then Done (ret, xfer, ks)
       else bind_run (dump_holes sys xfer pp cur 0) (\<lambda>(ret, xfer, cur). Done (ret, xfer, ks)))"

subsection \<open>The page server\<close>

text \<open>
  The server. \<open>s_img\<close> is the image whose files the transfer has open, \<open>s_files\<close> the images it has closed so far, and
  \<open>s_out\<close> what it has sent back.

  The environment: the parent directory of an image (as for \<open>open_page_local_xfer\<close>) and the answer of \<open>fstatat\<close> for its name there; the size of the
  kernel pipe of the server, if it can be created; how much a wait for data and a splice from the socket move (\<open>s_recv\<close>, negative when one of the two fails); whether the
  \<open>n\<close>-th answer can be sent; whether the receive behind the last message returns 0, as it does for a closed connection, and not an error or a part of a message;
  whether \<open>opts.ps_socket\<close> is set, and whether the final \<open>read\<close> returns 0 when no data are left. The connection is not encrypted.
\<close>

datatype stat_result = Stat_ok | Stat_enoent | Stat_error

record page_server =
  s_dst_id :: u64
  s_pipe_size :: nat
  s_xfer :: page_xfer
  s_img :: "(fd_type \<times> ulong) option"
  s_files :: "fd_type \<times> ulong \<Rightarrow> (pagemap_entry list \<times> byte list) option"
  s_ids :: nat
  s_out :: "int list"

record server_sys =
  s_sys :: xfer_sys
  s_stream :: bool
  s_images_ok :: bool
  s_dirs :: "fd_type \<times> ulong \<Rightarrow> image_dir option"
  s_stat :: "fd_type \<times> ulong \<Rightarrow> stat_result"
  s_pipe :: "nat option"
  s_recv :: "nat \<Rightarrow> nat \<Rightarrow> int"
  s_send :: "nat \<Rightarrow> bool"
  s_eof :: bool
  s_ps_socket :: bool
  s_final :: bool

definition empty_xfer :: page_xfer where
  "empty_xfer = \<lparr>x_offset = 0, transfer_lazy = True, x_server = False, x_parent = [], x_has_parent = False, x_pmi = [], x_pi = [],
     x_dst_id = 0, x_sk = []\<rparr>"

text \<open>
  An answer to the other side; the result is whether it was sent.
\<close>

definition sk_send :: "server_sys \<Rightarrow> int \<Rightarrow> page_server \<Rightarrow> bool \<times> page_server" where
  "sk_send sys v s = (if s_send sys (length (s_out s)) then (True, s\<lparr>s_out := s_out s @ [v]\<rparr>) else (False, s))"

text \<open>The \<open>close\<close> method of the open transfer: its images are complete. Closing it a second time frees the images twice.\<close>

definition close_loc_xfer :: "server_sys \<Rightarrow> page_server \<Rightarrow> page_server run" where
  "close_loc_xfer sys s =
     (case s_img s of
        None \<Rightarrow> Abort
      | Some k \<Rightarrow>
          bind_run (close_page_xfer (s_sys sys) (s_xfer s)) (\<lambda>(xfer, _).
            Done (s\<lparr>s_xfer := xfer, s_img := None, s_files := (s_files s)(k := Some (x_pmi xfer, x_pi xfer))\<rparr>)))"

definition page_server_close :: "server_sys \<Rightarrow> page_server \<Rightarrow> page_server run" where
  "page_server_close sys s = (if s_dst_id s = -1 then Done s else close_loc_xfer sys s)"

definition page_server_open :: "server_sys \<Rightarrow> bool \<Rightarrow> page_server_iov \<Rightarrow> page_server \<Rightarrow> (int \<times> page_server) run" where
  "page_server_open sys reply pi s =
     (case decode_pm (psi_dst_id pi) of
        None \<Rightarrow> Done (-1, s)
      | Some (type, i) \<Rightarrow>
          bind_run (page_server_close sys s) (\<lambda>s.
          bind_run (open_page_local_xfer (s_sys sys) (s_stream sys) (s_images_ok sys) (s_images_ok sys) (s_dirs sys (type, i))
                      (s_xfer s) type i (s_ids s)) (\<lambda>(ret, xfer, ids).
            let s = s\<lparr>s_xfer := xfer, s_img := (if s_images_ok sys then Some (type, i) else None), s_ids := ids\<rparr>
            in if ret \<noteq> 0 then Done (-1, s)
               else (let s = s\<lparr>s_dst_id := psi_dst_id pi\<rparr>
                     in if \<not> reply then Done (0, s)
                        else (let (sent, s) = sk_send sys (if x_parent xfer \<noteq> [] then 1 else 0) s
                              in if sent then Done (0, s)
                                 else bind_run (close_loc_xfer sys s) (\<lambda>s. Done (-1, s)))))))"

definition prep_loc_xfer :: "server_sys \<Rightarrow> page_server_iov \<Rightarrow> page_server \<Rightarrow> (int \<times> page_server) run" where
  "prep_loc_xfer sys pi s = (if s_dst_id s \<noteq> psi_dst_id pi then page_server_open sys False pi s else Done (0, s))"

text \<open>The bytes of pages at the front of the socket.\<close>

fun sk_data :: "sk_item list \<Rightarrow> byte list" where
  "sk_data (Data b # sk) = b # sk_data sk"
| "sk_data sk = []"

text \<open>
  The loop of \<open>page_server_add\<close>: a chunk goes from the socket to the pipe of the server and from there to the pages
  image. \<open>s_recv\<close> is what the wait for data and the splice from the socket give, for the number of bytes written and the
  number asked for.
\<close>

function add_loop :: "server_sys \<Rightarrow> page_server \<Rightarrow> nat \<Rightarrow> sk_item list \<Rightarrow> int \<times> page_server \<times> sk_item list" where
  "add_loop sys s len sk =
     (if len = 0 then (0, s, sk)
      else (let chunk = min len (s_pipe_size s);
                r = s_recv sys (length (x_pi (s_xfer s))) chunk;
                c = take (min (nat r) chunk) (sk_data sk)
            in if r < 0 \<or> c = [] then (-1, s, sk)
               else (let (ret, bs, img) = write_pages_loc (s_sys sys) 0 (length c) c (x_pi (s_xfer s));
                         s = s\<lparr>s_xfer := (s_xfer s)\<lparr>x_pi := img\<rparr>\<rparr>;
                         sk = drop (length c) sk
                     in if ret \<noteq> 0 then (-1, s, sk) else add_loop sys s (len - length c) sk)))"
  by pat_completeness auto
termination
proof (relation "measure (\<lambda>(_, _, len, _). len)", goal_cases)
  case (2 sys s len sk chunk r c x ret y bs img s' sk')
  from 2(5) have "c \<noteq> []" by blast
  then have "0 < length c" by (rule length_greater_0_conv [THEN iffD2])
  then show ?case using 2(1) by (simp only: in_measure prod.case neq0_conv diff_less)
qed simp

definition page_server_add :: "server_sys \<Rightarrow> page_server_iov \<Rightarrow> u32 \<Rightarrow> page_server \<Rightarrow> sk_item list \<Rightarrow>
    (int \<times> page_server \<times> sk_item list) run" where
  "page_server_add sys pi flags s sk =
     bind_run (prep_loc_xfer sys pi s) (\<lambda>(ret, s).
       if ret \<noteq> 0 then Done (-1, s, sk)
       else (let iov = psi2iovec pi
             in bind_run (write_pagemap_loc (s_sys sys) (s_xfer s) iov flags) (\<lambda>(ret, xfer).
                  let s = s\<lparr>s_xfer := xfer\<rparr>
                  in if ret \<noteq> 0 then Done (-1, s, sk)
                     else if flags AND PE_PRESENT = 0 then Done (0, s, sk)
                     else Done (add_loop sys s (iov_len iov) sk))))"

text \<open>Is there an image of this name in the parent directory?\<close>

definition check_parent_local_xfer :: "server_sys \<Rightarrow> fd_type \<Rightarrow> ulong \<Rightarrow> int" where
  "check_parent_local_xfer sys type i =
     (if s_stream sys then 0
      else if s_dirs sys (type, i) = None then 0
      else (case s_stat sys (type, i) of Stat_ok \<Rightarrow> 1 | Stat_enoent \<Rightarrow> 0 | Stat_error \<Rightarrow> -1))"

definition page_server_check_parent :: "server_sys \<Rightarrow> page_server_iov \<Rightarrow> page_server \<Rightarrow> int \<times> page_server" where
  "page_server_check_parent sys pi s =
     (case decode_pm (psi_dst_id pi) of
        None \<Rightarrow> (-1, s)
      | Some (type, i) \<Rightarrow>
          (let ret = check_parent_local_xfer sys type i
           in if ret < 0 then (-1, s)
              else (let (sent, s) = sk_send sys ret s in (if sent then 0 else -1, s))))"

text \<open>
  One turn of the loop of \<open>page_server_serve\<close> for a server that receives pages: the result, whether the data were flushed, the
  server and the rest of the socket. A server that receives pages has no page pipe to answer \<open>PS_IOV_GET\<close> from.
\<close>

definition serve_cmd :: "server_sys \<Rightarrow> page_server_iov \<Rightarrow> page_server \<Rightarrow> sk_item list \<Rightarrow>
    (int \<times> bool \<times> page_server \<times> sk_item list) run" where
  "serve_cmd sys pi s sk =
     (let cmd = decode_ps_cmd (psi_cmd pi)
      in if cmd = PS_IOV_OPEN then bind_run (page_server_open sys False pi s) (\<lambda>(ret, s). Done (ret, False, s, sk))
         else if cmd = PS_IOV_OPEN2 then bind_run (page_server_open sys True pi s) (\<lambda>(ret, s). Done (ret, False, s, sk))
         else if cmd = PS_IOV_PARENT then (let (ret, s) = page_server_check_parent sys pi s in Done (ret, False, s, sk))
         else if cmd = PS_IOV_ADD_F \<or> cmd = PS_IOV_ADD \<or> cmd = PS_IOV_HOLE
         then (let flags = (if cmd = PS_IOV_ADD_F then decode_ps_flags (psi_cmd pi)
                            else if cmd = PS_IOV_ADD then PE_PRESENT else PE_PARENT)
               in bind_run (page_server_add sys pi flags s sk) (\<lambda>(ret, s, sk). Done (ret, False, s, sk)))
         else if cmd = PS_IOV_FLUSH \<or> cmd = PS_IOV_FLUSH_N_CLOSE 
         then (let (sent, s) = sk_send sys 0 s in Done (if sent then 0 else -1, True, s, sk))
         else if cmd = PS_IOV_GET then Abort
         else Done (-1, False, s, sk))"

declare write_pages_loc.simps [simp del] write_pages_to_server.simps [simp del] dump_holes.simps [simp del] add_loop.simps [simp del]

lemma add_loop_rest: "add_loop sys s len sk = (ret, s', sk') \<Longrightarrow> length sk' \<le> length sk"
proof (induction sys s len sk rule: add_loop.induct)
  case (1 sys s len sk)
  show ?case
  proof (cases "len = 0")
    case True
    then show ?thesis using "1.prems" by (simp add: add_loop.simps)
  next
    case False
    define c where "c = take (min (nat (s_recv sys (length (x_pi (s_xfer s))) (min len (s_pipe_size s)))) (min len (s_pipe_size s))) (sk_data sk)"
    obtain r bs img where w: "write_pages_loc (s_sys sys) 0 (length c) c (x_pi (s_xfer s)) = (r, bs, img)"
      by (cases "write_pages_loc (s_sys sys) 0 (length c) c (x_pi (s_xfer s))") auto
    define s1 where "s1 = s\<lparr>s_xfer := (s_xfer s)\<lparr>x_pi := img\<rparr>\<rparr>"
    have step: "add_loop sys s len sk = (if s_recv sys (length (x_pi (s_xfer s))) (min len (s_pipe_size s)) < 0 \<or> c = [] then (-1, s, sk)
        else if r \<noteq> 0 then (-1, s1, drop (length c) sk) else add_loop sys s1 (len - length c) (drop (length c) sk))"
      by (subst add_loop.simps) (simp only: False if_False Let_def c_def [symmetric] w s1_def [symmetric] prod.case)
    have "add_loop sys s1 (len - length c) (drop (length c) sk) = (ret, s', sk') \<Longrightarrow> length sk' \<le> length (drop (length c) sk)"
      if "\<not> (s_recv sys (length (x_pi (s_xfer s))) (min len (s_pipe_size s)) < 0 \<or> c = [])" "\<not> r \<noteq> 0"
      by (rule "1.IH" [OF False refl refl c_def that(1) refl w [symmetric] refl s1_def refl that(2)])
    then show ?thesis using "1.prems" unfolding step by (auto split: if_splits)
  qed
qed

lemma page_server_add_rest: "page_server_add sys pi flags s sk = Done (ret, s', sk') \<Longrightarrow> length sk' \<le> length sk"
  by (auto simp: page_server_add_def Let_def bind_run_eq_Done split: if_splits dest: add_loop_rest)

lemma serve_cmd_rest: "serve_cmd sys pi s sk = Done (ret, fl, s', sk') \<Longrightarrow> length sk' \<le> length sk"
  unfolding serve_cmd_def Let_def
  by (auto simp: bind_run_eq_Done split: if_splits prod.splits dest: page_server_add_rest)

text \<open>
  The loop of \<open>page_server_serve\<close>. A byte of a page where a message should start means that the two sides
  are out of step; the model ends with an error there.
\<close>

function serve_loop :: "server_sys \<Rightarrow> page_server \<Rightarrow> sk_item list \<Rightarrow> bool \<Rightarrow>
    (int \<times> bool \<times> page_server \<times> sk_item list) run" where
  "serve_loop sys s [] flushed = Done (if s_eof sys then 0 else -1, flushed, s, [])"
| "serve_loop sys s (Data b # sk) flushed = Done (-1, flushed, s, sk)"
| "serve_loop sys s (Psi pi # sk) flushed =
     bind_run (serve_cmd sys pi s sk) (\<lambda>(ret, flushed, s, sk).
       if ret \<noteq> 0 \<or> psi_cmd pi = PS_IOV_FLUSH_N_CLOSE then Done (ret, flushed, s, sk) else serve_loop sys s sk flushed)"
  by pat_completeness auto
termination
  by (relation "measure (\<lambda>(_, _, sk, _). length sk)") (auto dest: serve_cmd_rest)

text \<open>\<open>page_server_serve\<close> for a server that receives pages.\<close>

definition page_server_serve :: "server_sys \<Rightarrow> page_server \<Rightarrow> sk_item list \<Rightarrow> (int \<times> page_server) run" where
  "page_server_serve sys s sk =
     (case s_pipe sys of
        None \<Rightarrow> Done (-1, s)
      | Some n \<Rightarrow>
          bind_run (serve_loop sys (s\<lparr>s_pipe_size := n\<rparr>) sk False) (\<lambda>(ret, flushed, s, sk).
            let ret = (if ret = 0 \<and> \<not> flushed then -1 else ret);
                ret = (if ret = 0 \<and> \<not> s_ps_socket sys \<and> (sk \<noteq> [] \<or> \<not> s_final sys) then -1 else ret)
            in bind_run (page_server_close sys s) (\<lambda>s. Done (ret, s))))"

subsection \<open>Pre-dump without stopping the task\<close>

text \<open>
  The task runs while its memory is read, so pages can vanish at any time. At the call \<open>t\<close> of \<open>process_vm_readv\<close>,
  \<open>vm_mapped t\<close> tells which pages can be read, \<open>vm_mem t\<close> what is in them, and \<open>vm_gone t\<close> whether the task has
  exited (\<open>ESRCH\<close>). The call copies page after page until the buffer is full or a page cannot be read,
  and fails when this is the first one.
\<close>

record vm_sys =
  vm_mapped :: "nat \<Rightarrow> nat \<Rightarrow> bool"
  vm_mem :: "nat \<Rightarrow> mem"
  vm_gone :: "nat \<Rightarrow> bool"

definition ESRCH :: int where "ESRCH = 3"

definition BUFFER_SIZE :: nat where
  "BUFFER_SIZE = PIPE_MAX_SIZE * PAGE_SIZE"

definition page_bytes :: "mem \<Rightarrow> nat list \<Rightarrow> byte list" where
  "page_bytes m ps = concat (map (\<lambda>a. mem_read m a PAGE_SIZE) ps)"

definition readable :: "vm_sys \<Rightarrow> nat \<Rightarrow> nat \<Rightarrow> iovec list \<Rightarrow> nat list" where
  "readable sys t room vs = takeWhile (vm_mapped sys t) (take (room div PAGE_SIZE) (concat (map iov_pages vs)))"

definition process_vm_readv :: "vm_sys \<Rightarrow> nat \<Rightarrow> nat \<Rightarrow> iovec list \<Rightarrow> int \<times> byte list" where
  "process_vm_readv sys t room vs =
     (let ps = readable sys t room vs
      in if vm_gone sys t \<or> ps = [] \<and> PAGE_SIZE \<le> room then (-1, [])
         else (int (length ps * PAGE_SIZE), page_bytes (vm_mem sys t) ps))"

text \<open>
  A page range goes to the auxiliary array, or extends its last element. Before the first element the code
  looks at what is in memory in front of the array (\<open>junk\<close>).
\<close>

definition aux_add :: "iovec \<Rightarrow> iovec list \<Rightarrow> ulong \<Rightarrow> nat \<Rightarrow> iovec list" where
  "aux_add junk aux base n =
     (if aux = []
      then (if ul_add (iov_base junk) (iov_len junk) = base then [] else [\<lparr>iov_base = base, iov_len = n\<rparr>])
      else if ul_add (iov_base (last aux)) (iov_len (last aux)) = base
      then butlast aux @ [(last aux)\<lparr>iov_len := ul_add (iov_len (last aux)) n\<rparr>]
      else aux @ [\<lparr>iov_base = base, iov_len = n\<rparr>])"

text \<open>
  The loop of \<open>handle_faulty_iov\<close> over the rest of a range. The buffer is the list of the bytes read so far, so
  the room that is left in it is what \<open>bufvec->iov_len\<close> counts.
\<close>

partial_function (option) faulty_loop :: "vm_sys \<Rightarrow> iovec \<Rightarrow> ulong \<Rightarrow> ulong \<Rightarrow> nat \<Rightarrow> byte list \<Rightarrow> iovec list \<Rightarrow>
    (nat \<times> byte list \<times> iovec list) option" where
  "faulty_loop sys junk base len t buf aux =
     (if len = 0 then Some (t, buf, aux)
      else (let (r, bs) = process_vm_readv sys t (BUFFER_SIZE - length buf) [\<lparr>iov_base = base, iov_len = len\<rparr>]
            in if r = -1 then faulty_loop sys junk (ul_add base PAGE_SIZE) (ul_sub len PAGE_SIZE) (t + 1) buf aux
               else faulty_loop sys junk (ul_add base (nat r)) (ul_sub len (nat r)) (t + 1) (buf @ bs) (aux_add junk aux base (nat r))))"

definition handle_faulty_iov :: "vm_sys \<Rightarrow> iovec \<Rightarrow> iovec \<Rightarrow> nat \<Rightarrow> byte list \<Rightarrow> iovec list \<Rightarrow> nat \<Rightarrow>
    (nat \<times> byte list \<times> iovec list) option" where
  "handle_faulty_iov sys junk v t buf aux partial_read_bytes =
     (if iov_len v = PAGE_SIZE then Some (t, buf, aux)
      else (let offset = (if partial_read_bytes \<noteq> 0 then partial_read_bytes else PAGE_SIZE)
            in faulty_loop sys junk (ul_add (iov_base v) offset) (ul_sub (iov_len v) offset) t buf aux))"

text \<open>\<open>analyze_iov\<close> on the ranges from \<open>start\<close> on: the number of ranges passed, the auxiliary array and the partial read.\<close>

fun analyze_loop :: "nat \<Rightarrow> iovec list \<Rightarrow> nat \<Rightarrow> nat \<Rightarrow> iovec list \<Rightarrow> nat \<times> nat \<times> iovec list" where
  "analyze_loop bytes_read [] processed index aux = (processed, index, aux)"
| "analyze_loop bytes_read (v # vs) processed index aux =
     (if processed < bytes_read then analyze_loop bytes_read vs (processed + iov_len v) (index + 1) (aux @ [v])
      else (processed, index, aux))"

definition analyze_iov :: "nat \<Rightarrow> iovec list \<Rightarrow> iovec list \<Rightarrow> nat \<times> iovec list \<times> nat" where
  "analyze_iov bytes_read vs aux =
     (let (processed, index, aux) = analyze_loop bytes_read vs 0 0 aux
      in if processed - bytes_read \<noteq> 0
         then (let index = index - 1;
                   partial = iov_len (vs ! index) - (processed - bytes_read)
               in (index, butlast aux @ [(last aux)\<lparr>iov_len := partial\<rparr>], partial))
         else (index, aux, 0))"

text \<open>\<open>fill_userbuf\<close>: the result (\<open>ESRCH\<close> or the number of bytes), the next call, the buffer and the auxiliary array.\<close>

partial_function (option) fill_loop :: "vm_sys \<Rightarrow> iovec \<Rightarrow> iovec list \<Rightarrow> nat \<Rightarrow> byte list \<Rightarrow> iovec list \<Rightarrow>
    (int \<times> nat \<times> byte list \<times> iovec list) option" where
  "fill_loop sys junk vs t buf aux =
     (if vs = [] then Some (int (length buf), t, buf, aux)
      else (let (r, bs) = process_vm_readv sys t (BUFFER_SIZE - length buf) vs
            in if r = -1 \<and> iov_len (hd vs) = PAGE_SIZE then fill_loop sys junk (tl vs) (t + 1) buf aux
               else if r = -1 \<and> vm_gone sys t then Some (ESRCH, t + 1, buf, aux)
               else (let (index, aux, partial) = (if 0 < r then analyze_iov (nat r) vs aux else (0, aux, 0));
                         buf = buf @ bs
                     in case (if index < length vs then handle_faulty_iov sys junk (vs ! index) (t + 1) buf aux partial
                              else Some (t + 1, buf, aux)) of
                          None \<Rightarrow> None
                        | Some (t, buf, aux) \<Rightarrow> fill_loop sys junk (drop (index + 1) vs) t buf aux)))"

definition fill_userbuf :: "vm_sys \<Rightarrow> iovec \<Rightarrow> page_pipe \<Rightarrow> nat \<Rightarrow> nat \<Rightarrow> (int \<times> nat \<times> byte list \<times> iovec list) option" where
  "fill_userbuf sys junk pp i t = fill_loop sys junk (ppb_iovs pp i) t [] []"

text \<open>
  \<open>page_xfer_predump_pages\<close>: the entries of one buffer, then the loop over the buffers. \<open>vmsplice\<close> is how many bytes
  the call of this name puts into the pipe of the buffer.
\<close>

fun predump_segs :: "xfer_sys \<Rightarrow> page_xfer \<Rightarrow> page_pipe \<Rightarrow> page_pipe_buf \<Rightarrow> iovec list \<Rightarrow> nat \<Rightarrow> pipes \<Rightarrow>
    (int \<times> page_xfer \<times> nat \<times> pipes) run" where
  "predump_segs sys xfer pp b [] cur ks = Done (0, xfer, cur, ks)"
| "predump_segs sys xfer pp b (iov # vs) cur ks =
     bind_run (dump_holes sys xfer pp cur (iov_base iov)) (\<lambda>(ret, xfer, cur).
       if ret \<noteq> 0 then Done (ret, xfer, cur, ks)
       else if iov_base iov < x_offset xfer then Abort
       else bind_run (write_pagemap sys xfer (iov\<lparr>iov_base := iov_base iov - x_offset xfer\<rparr>) (ppb_xfer_flags xfer b)) (\<lambda>(ret, xfer).
              if ret \<noteq> 0 then Done (-1, xfer, cur, ks)
              else (let (ret, xfer, ks) = write_pages sys xfer ks (ppb_p b) (iov_len iov)
                    in if ret \<noteq> 0 then Done (-1, xfer, cur, ks) else predump_segs sys xfer pp b vs cur ks)))"

fun predump_bufs :: "xfer_sys \<Rightarrow> vm_sys \<Rightarrow> (nat \<Rightarrow> nat \<Rightarrow> int) \<Rightarrow> iovec \<Rightarrow> page_xfer \<Rightarrow> page_pipe \<Rightarrow> nat list \<Rightarrow> nat \<Rightarrow> nat \<Rightarrow> pipes \<Rightarrow>
    (int \<times> page_xfer \<times> nat \<times> pipes) run" where
  "predump_bufs sys vm vmsplice junk xfer pp [] cur t ks = Done (0, xfer, cur, ks)"
| "predump_bufs sys vm vmsplice junk xfer pp (i # is) cur t ks =
     (case fill_userbuf vm junk pp i t of
        None \<Rightarrow> Loops
      | Some (r, t, buf, aux) \<Rightarrow>
          if r = ESRCH then Done (-1, xfer, cur, ks)
          else (let p = ppb_p (store pp i)
                in if vmsplice p (length buf) \<noteq> int (length buf) then Done (-1, xfer, cur, ks)
                   else bind_run (predump_segs sys xfer pp (store pp i) aux cur (ks(p := ks p @ buf))) (\<lambda>(ret, xfer, cur, ks).
                          if ret \<noteq> 0 then Done (ret, xfer, cur, ks)
                          else predump_bufs sys vm vmsplice junk xfer pp is cur t ks)))"

definition page_xfer_predump_pages :: "xfer_sys \<Rightarrow> vm_sys \<Rightarrow> (nat \<Rightarrow> nat \<Rightarrow> int) \<Rightarrow> bool \<Rightarrow> iovec \<Rightarrow> page_xfer \<Rightarrow> page_pipe \<Rightarrow> pipes \<Rightarrow>
    (int \<times> page_xfer \<times> pipes) run" where
  "page_xfer_predump_pages sys vm vmsplice mmap_ok junk xfer pp ks =
     (if \<not> mmap_ok then Done (-1, xfer, ks)
      else bind_run (predump_bufs sys vm vmsplice junk xfer pp (bufs pp) 0 0 ks) (\<lambda>(ret, xfer, cur, ks).
             if ret \<noteq> 0 then Done (ret, xfer, ks)
             else bind_run (dump_holes sys xfer pp cur 0) (\<lambda>(ret, xfer, cur). Done (ret, xfer, ks))))"

end
