(* ===== verification/PageXferCorrect.thy ===== *)
theory PageXferCorrect
  imports PageXfer PageReadCorrect
begin

unbundle bit_operations_syntax

text \<open>
  What a transfer writes. A dump of a page pipe is a sequence of operations on the transfer, one for
  each hole and each segment, in the order of their addresses (\<open>dump_ops\<close>); this is the same sequence for
  both kinds of transfer. The two results built on it: a page server that receives
  the messages of a dump ends up with the images of a local dump, and a page reader finds in the
  images of a local dump the bytes that were in the pipes.
\<close>

subsection \<open>Moving pages\<close>

lemma sys_splice_Some: "sys_splice sys p at n bs = Some c \<Longrightarrow> \<exists>k\<le>n. c = take k bs"
  by (rule exI [of _ "min (nat (x_splice sys p at n)) n"]) (auto simp: sys_splice_def Let_def split: if_splits)

lemma write_pages_to_server_ok:
  "write_pages_to_server sys p len bs sk = (0, bs', sk') \<Longrightarrow>
     bs' = drop len bs \<and> sk' = sk @ map Data (take len bs) \<and> len \<le> length bs"
proof (induction sys p len bs sk rule: write_pages_to_server.induct)
  case (1 sys p len bs sk)
  show ?case
  proof (cases "len = 0")
    case True
    then show ?thesis using "1.prems" by (simp add: write_pages_to_server.simps)
  next
    case False
    then obtain c where c: "sys_splice sys p (length sk) len bs = Some c" "c \<noteq> []"
      and w: "write_pages_to_server sys p (len - length c) (drop (length c) bs) (sk @ map Data c) = (0, bs', sk')"
      using "1.prems" by (subst (asm) write_pages_to_server.simps) (auto split: option.splits if_splits)
    from sys_splice_Some [OF c(1)] obtain k where k: "k \<le> len" "c = take k bs" by blast
    have "take (length c) bs = c" "length c \<le> len" "length c \<le> length bs" using k by (auto simp: min_def)
    then show ?thesis
      using "1.IH" [OF False c(1,2) w] take_add [of "length c" "len - length c" bs] by auto
  qed
qed

lemma write_pages_loc_ok:
  "write_pages_loc sys p len bs img = (0, bs', img') \<Longrightarrow>
     bs' = drop len bs \<and> img' = img @ take len bs \<and> len \<le> length bs"
proof (induction sys p len bs img rule: write_pages_loc.induct)
  case (1 sys p len bs img)
  then obtain c where c: "sys_splice sys p (length img) len bs = Some c" "c \<noteq> []"
    by (subst (asm) (2) write_pages_loc.simps) (auto split: option.splits if_splits)
  from sys_splice_Some [OF c(1)] obtain k where k: "k \<le> len" "c = take k bs" by blast
  have t: "take (length c) bs = c" "length c \<le> len" "length c \<le> length bs" using k by (auto simp: min_def)
  show ?case
  proof (cases "length c = len")
    case True
    then show ?thesis using "1.prems" c t by (subst (asm) write_pages_loc.simps) auto
  next
    case False
    then have "write_pages_loc sys p (len - length c) (drop (length c) bs) (img @ c) = (0, bs', img')"
      using "1.prems" c by (subst (asm) write_pages_loc.simps) auto
    then show ?thesis
      using "1.IH" [OF c(1,2) False] t take_add [of "length c" "len - length c" bs] by auto
  qed
qed

text \<open>A splice that always moves something completes the transfer.\<close>

definition splice_ok :: "xfer_sys \<Rightarrow> bool" where
  "splice_ok sys \<longleftrightarrow> (\<forall>p at n. 0 < n \<longrightarrow> 0 < x_splice sys p at n)"

lemma splice_ok_Some: "splice_ok sys \<Longrightarrow> 0 < n \<Longrightarrow> bs \<noteq> [] \<Longrightarrow> \<exists>c. sys_splice sys p at n bs = Some c \<and> c \<noteq> []"
  unfolding splice_ok_def sys_splice_def Let_def by (metis (no_types, lifting) less_asym min_def nat_0_iff not_less take_eq_Nil zero_less_nat_eq)

lemma write_pages_loc_total:
  assumes "splice_ok sys" "0 < len" "len \<le> length bs"
  shows "write_pages_loc sys p len bs img = (0, drop len bs, img @ take len bs)"
  using assms
proof (induction sys p len bs img rule: write_pages_loc.induct)
  case (1 sys p len bs img)
  then have "bs \<noteq> []" by auto
  with splice_ok_Some [OF "1.prems"(1,2)] obtain c where c: "sys_splice sys p (length img) len bs = Some c" "c \<noteq> []" by blast
  from sys_splice_Some [OF c(1)] obtain k where k: "k \<le> len" "c = take k bs" by blast
  have t: "take (length c) bs = c" "length c \<le> len" "length c \<le> length bs" using k by (auto simp: min_def)
  show ?case
  proof (cases "length c = len")
    case True
    then show ?thesis using c t by (subst write_pages_loc.simps) auto
  next
    case False
    then show ?thesis
      using "1.IH" [OF c(1,2) False] "1.prems" c t take_add [of "length c" "len - length c" bs]
      by (subst write_pages_loc.simps) auto
  qed
qed

subsection \<open>A dump as a sequence of operations\<close>

datatype xop = XHole iovec | XSeg page_pipe_buf iovec

fun run_op :: "xfer_sys \<Rightarrow> page_xfer \<Rightarrow> pipes \<Rightarrow> xop \<Rightarrow> (int \<times> page_xfer \<times> pipes) run" where
  "run_op sys xfer ks (XHole v) =
     bind_run (page_xfer_dump_hole sys xfer v PE_PARENT) (\<lambda>(ret, xfer). Done (ret, xfer, ks))"
| "run_op sys xfer ks (XSeg b v) =
     (if iov_base v < x_offset xfer then Abort
      else bind_run (write_pagemap sys xfer (v\<lparr>iov_base := iov_base v - x_offset xfer\<rparr>) (ppb_xfer_flags xfer b)) (\<lambda>(ret, xfer').
             if ret \<noteq> 0 then Done (-1, xfer', ks)
             else if ppb_xfer_flags xfer b AND PE_PRESENT \<noteq> 0
             then (let (ret, xfer, ks) = write_pages sys xfer' ks (ppb_p b) (iov_len v)
                   in Done (if ret \<noteq> 0 then -1 else 0, xfer, ks))
             else Done (0, xfer', ks)))"

fun run_ops :: "xfer_sys \<Rightarrow> page_xfer \<Rightarrow> pipes \<Rightarrow> xop list \<Rightarrow> (int \<times> page_xfer \<times> pipes) run" where
  "run_ops sys xfer ks [] = Done (0, xfer, ks)"
| "run_ops sys xfer ks (x # xs) =
     bind_run (run_op sys xfer ks x) (\<lambda>(ret, xfer, ks). if ret \<noteq> 0 then Done (ret, xfer, ks) else run_ops sys xfer ks xs)"

text \<open>The holes from \<open>cur\<close> on that come before an address; 0 is no address.\<close>

definition holes_before :: "page_pipe \<Rightarrow> nat \<Rightarrow> nat \<Rightarrow> iovec list" where
  "holes_before pp cur limit = takeWhile (\<lambda>h. limit = 0 \<or> iov_base h < limit) (drop cur (take (free_hole pp) (holes pp)))"

fun segs_ops :: "page_pipe \<Rightarrow> page_pipe_buf \<Rightarrow> iovec list \<Rightarrow> nat \<Rightarrow> xop list \<times> nat" where
  "segs_ops pp b [] cur = ([], cur)"
| "segs_ops pp b (v # vs) cur =
     (let hs = holes_before pp cur (iov_base v);
          (xs, cur) = segs_ops pp b vs (cur + length hs)
      in (map XHole hs @ XSeg b v # xs, cur))"

fun bufs_ops :: "page_pipe \<Rightarrow> nat list \<Rightarrow> nat \<Rightarrow> xop list \<times> nat" where
  "bufs_ops pp [] cur = ([], cur)"
| "bufs_ops pp (i # is) cur =
     (let (xs, cur) = segs_ops pp (store pp i) (ppb_iovs pp i) cur;
          (ys, cur) = bufs_ops pp is cur
      in (xs @ ys, cur))"

definition dump_ops :: "page_pipe \<Rightarrow> xop list" where
  "dump_ops pp = (let (xs, cur) = bufs_ops pp (bufs pp) 0 in xs @ map XHole (holes_before pp cur 0))"

definition parent_holes :: "page_pipe \<Rightarrow> bool" where
  "parent_holes pp \<longleftrightarrow> (\<forall>k<free_hole pp. hole_flags pp ! k = PP_HOLE_PARENT)"

text \<open>What follows a step that succeeded.\<close>

definition and_then :: "(int \<times> page_xfer \<times> pipes) run \<Rightarrow> (page_xfer \<Rightarrow> pipes \<Rightarrow> (int \<times> page_xfer \<times> pipes) run) \<Rightarrow>
    (int \<times> page_xfer \<times> pipes) run" where
  "and_then m f = bind_run m (\<lambda>(ret, xfer, ks). if ret \<noteq> 0 then Done (ret, xfer, ks) else f xfer ks)"

lemma and_then_Done [simp]: "and_then (Done (0, xfer, ks)) f = f xfer ks" "ret \<noteq> 0 \<Longrightarrow> and_then (Done (ret, xfer, ks)) f = Done (ret, xfer, ks)"
  "and_then Abort f = Abort" "and_then Loops f = Loops"
  by (simp_all add: and_then_def)

lemma and_then_assoc: "and_then (and_then m f) g = and_then m (\<lambda>x k. and_then (f x k) g)"
  by (cases m) (auto simp: and_then_def)

lemma run_ops_Cons: "run_ops sys xfer ks (x # xs) = and_then (run_op sys xfer ks x) (\<lambda>xfer ks. run_ops sys xfer ks xs)"
  by (simp add: and_then_def)

lemma and_then_unit [simp]: "and_then m (\<lambda>xfer ks. Done (0, xfer, ks)) = m"
  by (cases m) (auto simp: and_then_def)

lemma run_ops_append: "run_ops sys xfer ks (xs @ ys) = and_then (run_ops sys xfer ks xs) (\<lambda>xfer ks. run_ops sys xfer ks ys)"
proof (induction xs arbitrary: xfer ks)
  case (Cons x xs)
  then show ?case by (simp only: append_Cons run_ops_Cons and_then_assoc)
qed simp

lemma drop_nth_Cons: "n < length xs \<Longrightarrow> drop n xs = xs ! n # drop (Suc n) xs"
  by (simp add: Cons_nth_drop_Suc)

lemma dump_holes_ops:
  assumes "holes_ok pp" "parent_holes pp"
  shows "bind_run (dump_holes sys xfer pp cur limit) (\<lambda>(ret, xfer, cur). if ret \<noteq> 0 then Done (ret, xfer, ks) else f xfer cur)
    = and_then (run_ops sys xfer ks (map XHole (holes_before pp cur limit))) (\<lambda>xfer _. f xfer (cur + length (holes_before pp cur limit)))"
proof (induction "free_hole pp - cur" arbitrary: xfer cur)
  case 0
  then show ?case by (subst dump_holes.simps) (simp add: holes_before_def)
next
  case (Suc n)
  then have c: "cur < free_hole pp" by simp
  then have len: "cur < length (holes pp)" and fl: "hole_flags pp ! cur = PP_HOLE_PARENT"
    using assms by (auto simp: holes_ok_def parent_holes_def)
  have d: "drop cur (take (free_hole pp) (holes pp)) = holes pp ! cur # drop (Suc cur) (take (free_hole pp) (holes pp))"
    using c len drop_nth_Cons [of cur "take (free_hole pp) (holes pp)"] by simp
  show ?case
  proof (cases "limit \<noteq> 0 \<and> limit \<le> iov_base (holes pp ! cur)")
    case True
    then show ?thesis using c d by (subst dump_holes.simps) (simp add: holes_before_def Let_def)
  next
    case False
    then have hb: "holes_before pp cur limit = holes pp ! cur # holes_before pp (Suc cur) limit"
      using d by (auto simp: holes_before_def)
    have n: "n = free_hole pp - Suc cur" using Suc.hyps(2) by simp
    show ?thesis
    proof (cases "page_xfer_dump_hole sys xfer (holes pp ! cur) PE_PARENT")
      case (Done x)
      obtain ret xfer' where x: "x = (ret, xfer')" by (cases x)
      show ?thesis
        using False c fl Suc.hyps(1) [OF n, of xfer'] Done x hb
        by (subst dump_holes.simps) (auto simp add: Let_def get_hole_flags_def run_ops_Cons and_then_assoc simp del: run_ops.simps(2))
    qed (use False c fl hb in \<open>subst dump_holes.simps, auto simp: Let_def get_hole_flags_def\<close>)+
  qed
qed

lemma run_holes_pipes:
  "and_then (run_ops sys xfer ks (map XHole hs)) (\<lambda>xfer _. f xfer ks) = and_then (run_ops sys xfer ks (map XHole hs)) f"
proof (induction hs arbitrary: xfer)
  case (Cons h hs)
  show ?case
  proof (cases "page_xfer_dump_hole sys xfer h PE_PARENT")
    case (Done x)
    obtain ret xfer' where x: "x = (ret, xfer')" by (cases x)
    then show ?thesis using Cons [of xfer'] Done
      by (cases "ret = 0") (simp_all add: run_ops_Cons and_then_assoc del: run_ops.simps(2))
  qed simp_all
qed simp

lemma dump_segs_ops:
  assumes "holes_ok pp" "parent_holes pp"
  shows "bind_run (dump_segs sys xfer pp b vs cur ks) (\<lambda>(ret, xfer, cur, ks). if ret \<noteq> 0 then Done (ret, xfer, ks) else f xfer cur ks)
    = and_then (run_ops sys xfer ks (fst (segs_ops pp b vs cur))) (\<lambda>xfer ks. f xfer (snd (segs_ops pp b vs cur)) ks)"
proof (induction vs arbitrary: xfer cur ks)
  case (Cons v vs)
  let ?hs = "holes_before pp cur (iov_base v)"
  let ?k = "cur + length ?hs"
  let ?rest = "\<lambda>xfer ks. and_then (run_ops sys xfer ks (fst (segs_ops pp b vs ?k))) (\<lambda>xfer ks. f xfer (snd (segs_ops pp b vs ?k)) ks)"
  let ?F = "\<lambda>(ret, xfer, cur, ks). if ret \<noteq> 0 then Done (ret, xfer, ks) else f xfer cur ks"
  let ?seg = "\<lambda>xfer cur. bind_run (if iov_base v < x_offset xfer then Abort
       else (let flags = ppb_xfer_flags xfer b
             in bind_run (write_pagemap sys xfer (v\<lparr>iov_base := iov_base v - x_offset xfer\<rparr>) flags) (\<lambda>(ret, xfer).
                  if ret \<noteq> 0 then Done (-1, xfer, cur, ks)
                  else if flags AND PE_PRESENT \<noteq> 0
                  then (let (ret, xfer, ks) = write_pages sys xfer ks (ppb_p b) (iov_len v)
                        in if ret \<noteq> 0 then Done (-1, xfer, cur, ks) else dump_segs sys xfer pp b vs cur ks)
                  else dump_segs sys xfer pp b vs cur ks))) ?F"
  have seg: "?seg xfer ?k = and_then (run_op sys xfer ks (XSeg b v)) ?rest" for xfer
  proof (cases "iov_base v < x_offset xfer")
    case False
    show ?thesis
    proof (cases "write_pagemap sys xfer (v\<lparr>iov_base := iov_base v - x_offset xfer\<rparr>) (ppb_xfer_flags xfer b)")
      case (Done x)
      obtain ret xfer1 where x: "x = (ret, xfer1)" by (cases x)
      obtain r xfer2 ks2 where w: "write_pages sys xfer1 ks (ppb_p b) (iov_len v) = (r, xfer2, ks2)"
        by (cases "write_pages sys xfer1 ks (ppb_p b) (iov_len v)") auto
      show ?thesis using False Done x w Cons.IH [of xfer1 ?k ks] Cons.IH [of xfer2 ?k ks2]
        by (simp add: Let_def)
    qed (use False in \<open>simp_all add: Let_def\<close>)
  qed simp
  have l: "bind_run (dump_segs sys xfer pp b (v # vs) cur ks) ?F
      = bind_run (dump_holes sys xfer pp cur (iov_base v)) (\<lambda>(ret, xfer, cur). if ret \<noteq> 0 then Done (ret, xfer, ks) else ?seg xfer cur)"
    by (cases "dump_holes sys xfer pp cur (iov_base v)") auto
  show ?case
    unfolding l dump_holes_ops [OF assms] seg
      run_holes_pipes [of sys xfer ks ?hs "\<lambda>xfer ks. and_then (run_op sys xfer ks (XSeg b v)) ?rest"]
    by (simp add: Let_def split_beta run_ops_append run_ops_Cons and_then_assoc del: run_ops.simps(2) run_op.simps)
qed simp

lemma dump_bufs_ops:
  assumes "holes_ok pp" "parent_holes pp"
  shows "bind_run (dump_bufs sys xfer pp is cur ks) (\<lambda>(ret, xfer, cur, ks). if ret \<noteq> 0 then Done (ret, xfer, ks) else f xfer cur ks)
    = and_then (run_ops sys xfer ks (fst (bufs_ops pp is cur))) (\<lambda>xfer ks. f xfer (snd (bufs_ops pp is cur)) ks)"
proof (induction "is" arbitrary: xfer cur ks)
  case (Cons i ns)
  let ?F = "\<lambda>(ret, xfer, cur, ks). if ret \<noteq> 0 then Done (ret, xfer, ks) else f xfer cur ks"
  have l: "bind_run (dump_bufs sys xfer pp (i # ns) cur ks) ?F
      = bind_run (dump_segs sys xfer pp (store pp i) (ppb_iovs pp i) cur ks) (\<lambda>(ret, xfer, cur, ks).
          if ret \<noteq> 0 then Done (ret, xfer, ks) else bind_run (dump_bufs sys xfer pp ns cur ks) ?F)"
    by (cases "dump_segs sys xfer pp (store pp i) (ppb_iovs pp i) cur ks") auto
  show ?case
    unfolding l dump_segs_ops [OF assms] Cons.IH
    by (simp add: split_beta run_ops_append and_then_assoc)
qed simp

text \<open>The same sequence as a merge of the segments with the holes.\<close>

definition pp_segs :: "page_pipe \<Rightarrow> (page_pipe_buf \<times> iovec) list" where
  "pp_segs pp = concat (map (\<lambda>i. map (Pair (store pp i)) (ppb_iovs pp i)) (bufs pp))"

definition pp_holes :: "page_pipe \<Rightarrow> iovec list" where
  "pp_holes pp = take (free_hole pp) (holes pp)"

fun merge_ops :: "(page_pipe_buf \<times> iovec) list \<Rightarrow> iovec list \<Rightarrow> xop list" where
  "merge_ops [] hs = map XHole hs"
| "merge_ops ((b, v) # vs) hs =
     map XHole (takeWhile (\<lambda>h. iov_base v = 0 \<or> iov_base h < iov_base v) hs) @ XSeg b v #
       merge_ops vs (dropWhile (\<lambda>h. iov_base v = 0 \<or> iov_base h < iov_base v) hs)"

lemma drop_takeWhile: "drop (n + length (takeWhile P (drop n xs))) xs = dropWhile P (drop n xs)"
  by (simp add: dropWhile_eq_drop add.commute)

lemma segs_ops_merge:
  "merge_ops (map (Pair b) vs @ ws) (drop cur (pp_holes pp)) =
     fst (segs_ops pp b vs cur) @ merge_ops ws (drop (snd (segs_ops pp b vs cur)) (pp_holes pp))"
proof (induction vs arbitrary: cur)
  case (Cons v vs)
  then show ?case
    using Cons [of "cur + length (holes_before pp cur (iov_base v))"]
    by (simp add: Let_def split_beta holes_before_def pp_holes_def [symmetric] drop_takeWhile)
qed simp

lemma bufs_ops_merge:
  "merge_ops (concat (map (\<lambda>i. map (Pair (store pp i)) (ppb_iovs pp i)) ns)) (drop cur (pp_holes pp)) =
     fst (bufs_ops pp ns cur) @ map XHole (drop (snd (bufs_ops pp ns cur)) (pp_holes pp))"
proof (induction ns arbitrary: cur)
  case (Cons i ns)
  show ?case
    using Cons [of "snd (segs_ops pp (store pp i) (ppb_iovs pp i) cur)"] by (simp add: segs_ops_merge split_beta)
qed simp

lemma dump_ops_merge: "dump_ops pp = merge_ops (pp_segs pp) (pp_holes pp)"
  using bufs_ops_merge [of pp "bufs pp" 0] by (simp add: dump_ops_def pp_segs_def split_beta holes_before_def pp_holes_def takeWhile_eq_all_conv [THEN iffD2])

lemma merge_ops_set: "set (merge_ops vs hs) = XHole ` set hs \<union> (\<lambda>(b, v). XSeg b v) ` set vs"
proof (induction vs hs rule: merge_ops.induct)
  case (2 b v vs hs)
  let ?P = "\<lambda>h. iov_base v = 0 \<or> iov_base h < iov_base v"
  have "set (takeWhile ?P hs) \<union> set (dropWhile ?P hs) = set hs" by (metis set_append takeWhile_dropWhile_id)
  then show ?case using 2 by auto
qed simp

lemma dump_ops_set: "x \<in> set (dump_ops pp) \<longleftrightarrow>
    (\<exists>v\<in>set (pp_holes pp). x = XHole v) \<or> (\<exists>i\<in>set (bufs pp). \<exists>v\<in>set (ppb_iovs pp i). x = XSeg (store pp i) v)"
  by (auto simp: dump_ops_merge merge_ops_set pp_segs_def)

lemma dump_pages_ops:
  assumes "holes_ok pp" "parent_holes pp"
  shows "page_xfer_dump_pages sys xfer pp ks = run_ops sys xfer ks (dump_ops pp)"
proof -
  have h: "bind_run (dump_holes sys x pp c 0) (\<lambda>(ret, xfer, cur). Done (ret, xfer, k)) = run_ops sys x k (map XHole (holes_before pp c 0))" for x c k
  proof -
    have "bind_run (dump_holes sys x pp c 0) (\<lambda>(ret, xfer, cur). Done (ret, xfer, k))
        = bind_run (dump_holes sys x pp c 0) (\<lambda>(ret, xfer, cur). if ret \<noteq> 0 then Done (ret, xfer, k) else Done (0, xfer, k))"
      by (cases "dump_holes sys x pp c 0") auto
    also have "\<dots> = and_then (run_ops sys x k (map XHole (holes_before pp c 0))) (\<lambda>xfer _. Done (0, xfer, k))"
      by (rule dump_holes_ops [OF assms])
    also have "\<dots> = run_ops sys x k (map XHole (holes_before pp c 0))"
      using run_holes_pipes [of sys x k _ "\<lambda>xfer k. Done (0, xfer, k)"] by simp
    finally show ?thesis .
  qed
  show ?thesis
    unfolding page_xfer_dump_pages_def dump_bufs_ops [OF assms] h
    by (simp add: dump_ops_def split_beta run_ops_append)
qed

subsection \<open>Messages\<close>

lemma mask_8: "PS_TYPE_MASK = mask 8" by (simp add: PS_TYPE_MASK_def PS_TYPE_BITS_def mask_eq_exp_minus_1)

lemma type_bits:
  fixes w c :: u64
  assumes "c = PS_TYPE_PID \<or> c = PS_TYPE_SHMEM"
  shows "(push_bit PS_TYPE_BITS w OR c) AND PS_TYPE_MASK = c"
proof -
  have "push_bit 8 w AND mask 8 = 0" by (rule bit_word_eqI) (simp add: bit_simps)
  moreover have "c AND mask 8 = c" using assms by (auto simp: PS_TYPE_PID_def PS_TYPE_SHMEM_def mask_eq_exp_minus_1)
  ultimately show ?thesis by (simp add: mask_8 PS_TYPE_BITS_def bit.conj_disj_distrib2)
qed

lemma number_bits:
  fixes c :: u64
  assumes "c = PS_TYPE_PID \<or> c = PS_TYPE_SHMEM" "i < 2 ^ 56"
  shows "unat (drop_bit PS_TYPE_BITS (push_bit PS_TYPE_BITS (of_nat i) OR c)) = i"
proof -
  have c: "drop_bit 8 c = 0" using assms by (auto simp: PS_TYPE_PID_def PS_TYPE_SHMEM_def)
  have "drop_bit 8 (push_bit 8 (of_nat i :: u64)) = of_nat i"
  proof (rule bit_word_eqI)
    fix n assume "n < LENGTH(64)"
    have "bit i n \<Longrightarrow> n < 56"
    proof (rule ccontr)
      assume b: "bit i n" "\<not> n < 56"
      have "(2::nat) ^ 56 \<le> 2 ^ n" using b(2) by (intro power_increasing) auto
      then have "i < 2 ^ n" using assms(2) by linarith
      then show False using b(1) by (simp add: bit_iff_odd)
    qed
    then show "bit (drop_bit 8 (push_bit 8 (of_nat i :: u64))) n = bit (of_nat i :: u64) n"
      using \<open>n < LENGTH(64)\<close> by (auto simp: bit_simps)
  qed
  moreover have "unat (of_nat i :: u64) = i" using assms(2) by (simp add: unsigned_of_nat take_bit_nat_eq_self)
  ultimately show ?thesis using c by (simp add: PS_TYPE_BITS_def)
qed

lemma decode_encode_pm: "encode_pm type i = Ret d \<Longrightarrow> i < 2 ^ 56 \<Longrightarrow> decode_pm d = Some (type, i)"
proof (cases type)
  case CR_FD_PAGEMAP
  assume "encode_pm type i = Ret d" and i: "i < 2 ^ 56"
  then have d: "d = push_bit PS_TYPE_BITS (of_nat i) OR PS_TYPE_PID" using CR_FD_PAGEMAP by (simp add: encode_pm_def)
  show ?thesis unfolding decode_pm_def Let_def d
    unfolding type_bits [OF disjI1 [OF refl]] number_bits [OF disjI1 [OF refl] i] CR_FD_PAGEMAP by simp
next
  case CR_FD_SHMEM_PAGEMAP
  assume "encode_pm type i = Ret d" and i: "i < 2 ^ 56"
  then have d: "d = push_bit PS_TYPE_BITS (of_nat i) OR PS_TYPE_SHMEM" using CR_FD_SHMEM_PAGEMAP by (simp add: encode_pm_def)
  have "PS_TYPE_SHMEM \<notin> {10, 11, 16, 17, PS_TYPE_PID}" by (simp add: PS_TYPE_PID_def PS_TYPE_SHMEM_def)
  then show ?thesis unfolding decode_pm_def Let_def d
    unfolding type_bits [OF disjI2 [OF refl]] number_bits [OF disjI2 [OF refl] i] CR_FD_SHMEM_PAGEMAP by simp
qed (simp add: encode_pm_def)

definition xfer_flags :: "u32 set" where
  "xfer_flags = {PE_PRESENT, PE_LAZY, PE_PRESENT OR PE_LAZY, PE_PARENT}"

lemma decode_ps: "f \<in> xfer_flags \<Longrightarrow> decode_ps_cmd (encode_ps_cmd PS_IOV_ADD_F f) = PS_IOV_ADD_F"
  "f \<in> xfer_flags \<Longrightarrow> decode_ps_flags (encode_ps_cmd PS_IOV_ADD_F f) = f"
  "f \<in> xfer_flags \<Longrightarrow> encode_ps_cmd PS_IOV_ADD_F f \<noteq> PS_IOV_FLUSH_N_CLOSE"
  by (auto simp: xfer_flags_def decode_ps_cmd_def decode_ps_flags_def encode_ps_cmd_def PS_CMD_MASK_def PS_CMD_BITS_def
     PE_PRESENT_def PE_LAZY_def PE_PARENT_def PS_IOV_ADD_F_def PS_IOV_FLUSH_N_CLOSE_def)

lemma xfer_flags_ops: "ppb_xfer_flags xfer b \<in> xfer_flags" "PE_PARENT \<in> xfer_flags"
  by (auto simp: ppb_xfer_flags_def xfer_flags_def)

text \<open>What the operations of a dump need of their ranges: whole pages, and a number of them that fits its field.\<close>

fun op_range :: "xop \<Rightarrow> iovec" where
  "op_range (XHole v) = v"
| "op_range (XSeg b v) = v"

definition op_ok :: "xop \<Rightarrow> bool" where
  "op_ok x \<longleftrightarrow> iov_ok (op_range x) \<and> iov_len (op_range x) div PAGE_SIZE < 2 ^ 32"

text \<open>The message of an operation, the flags of its entry, and the pages that follow.\<close>

fun op_flags :: "page_xfer \<Rightarrow> xop \<Rightarrow> u32" where
  "op_flags xfer (XHole v) = PE_PARENT"
| "op_flags xfer (XSeg b v) = ppb_xfer_flags xfer b"

fun op_take :: "page_xfer \<Rightarrow> xop \<Rightarrow> pipes \<Rightarrow> byte list" where
  "op_take xfer (XHole v) ks = []"
| "op_take xfer (XSeg b v) ks = (if ppb_xfer_flags xfer b AND PE_PRESENT \<noteq> 0 then take (iov_len v) (ks (ppb_p b)) else [])"

fun op_rest :: "page_xfer \<Rightarrow> xop \<Rightarrow> pipes \<Rightarrow> pipes" where
  "op_rest xfer (XHole v) ks = ks"
| "op_rest xfer (XSeg b v) ks =
     (if ppb_xfer_flags xfer b AND PE_PRESENT \<noteq> 0 then ks(ppb_p b := drop (iov_len v) (ks (ppb_p b))) else ks)"

definition op_iov :: "page_xfer \<Rightarrow> xop \<Rightarrow> iovec" where
  "op_iov xfer x = (op_range x)\<lparr>iov_base := iov_base (op_range x) - x_offset xfer\<rparr>"

definition op_psi :: "page_xfer \<Rightarrow> xop \<Rightarrow> page_server_iov" where
  "op_psi xfer x = \<lparr>psi_cmd = encode_ps_cmd PS_IOV_ADD_F (op_flags xfer x), psi_nr_pages = iov_len (op_range x) div PAGE_SIZE mod 2 ^ 32,
     psi_vaddr = iov_base (op_range x) - x_offset xfer, psi_dst_id = x_dst_id xfer\<rparr>"

lemma run_op_server:
  assumes "run_op sys xfer ks x = Done (0, xfer', ks')" "x_server xfer"
  shows "xfer' = xfer\<lparr>x_sk := x_sk xfer @ Psi (op_psi xfer x) # map Data (op_take xfer x ks)\<rparr>" "ks' = op_rest xfer x ks"
    "length (op_take xfer x ks) = (if op_flags xfer x AND PE_PRESENT \<noteq> 0 then iov_len (op_range x) else 0)"
proof (atomize (full), cases x)
  case (XHole v)
  then show "xfer' = xfer\<lparr>x_sk := x_sk xfer @ Psi (op_psi xfer x) # map Data (op_take xfer x ks)\<rparr> \<and> ks' = op_rest xfer x ks \<and>
    length (op_take xfer x ks) = (if op_flags xfer x AND PE_PRESENT \<noteq> 0 then iov_len (op_range x) else 0)"
    using assms by (auto simp: page_xfer_dump_hole_def write_pagemap_def write_pagemap_to_server_def send_psi_def op_psi_def
        bind_run_eq_Done PE_PARENT_def PE_PRESENT_def split: if_splits)
next
  case (XSeg b v)
  then show "xfer' = xfer\<lparr>x_sk := x_sk xfer @ Psi (op_psi xfer x) # map Data (op_take xfer x ks)\<rparr> \<and> ks' = op_rest xfer x ks \<and>
    length (op_take xfer x ks) = (if op_flags xfer x AND PE_PRESENT \<noteq> 0 then iov_len (op_range x) else 0)"
    using assms by (auto simp: write_pagemap_def write_pagemap_to_server_def send_psi_def op_psi_def write_pages_def Let_def
        bind_run_eq_Done split: if_splits prod.splits dest!: write_pages_to_server_ok)
qed

lemma write_pagemap_loc_fields:
  "write_pagemap_loc sys xfer iov flags = Done (r, xfer') \<Longrightarrow>
     x_server xfer' = x_server xfer \<and> x_offset xfer' = x_offset xfer \<and> transfer_lazy xfer' = transfer_lazy xfer \<and> x_pi xfer' = x_pi xfer"
  by (auto simp: write_pagemap_loc_def parent_checks_def Let_def bind_run_eq_Done split: if_splits option.splits)

lemma run_op_local:
  assumes "run_op sys xfer ks x = Done (0, xfer', ks')" "\<not> x_server xfer"
  obtains xfer1 where "write_pagemap_loc sys xfer (op_iov xfer x) (op_flags xfer x) = Done (0, xfer1)"
    "xfer' = xfer1\<lparr>x_pi := x_pi xfer @ op_take xfer x ks\<rparr>" "ks' = op_rest xfer x ks"
    "length (op_take xfer x ks) = (if op_flags xfer x AND PE_PRESENT \<noteq> 0 then iov_len (op_range x) else 0)"
    "x_offset xfer \<le> iov_base (op_range x)"
proof (cases x)
  case (XHole v)
  then obtain xfer1 where "write_pagemap_loc sys xfer (op_iov xfer x) PE_PARENT = Done (0, xfer1)" "xfer' = xfer1" "ks' = ks"
    "x_offset xfer \<le> iov_base v"
    using assms by (auto simp: page_xfer_dump_hole_def write_pagemap_def op_iov_def bind_run_eq_Done split: if_splits)
  with that [of xfer1] XHole write_pagemap_loc_fields [of sys xfer "op_iov xfer x" PE_PARENT 0 xfer1] show ?thesis
    by (simp add: PE_PARENT_def PE_PRESENT_def)
next
  case (XSeg b v)
  then obtain xfer1 where w: "write_pagemap_loc sys xfer (op_iov xfer x) (ppb_xfer_flags xfer b) = Done (0, xfer1)"
    and o: "x_offset xfer \<le> iov_base v"
    and r: "if ppb_xfer_flags xfer b AND PE_PRESENT \<noteq> 0 then write_pages sys xfer1 ks (ppb_p b) (iov_len v) = (0, xfer', ks')
       else xfer' = xfer1 \<and> ks' = ks"
    using assms by (auto simp: write_pagemap_def op_iov_def bind_run_eq_Done split: if_splits prod.splits)
  note f = write_pagemap_loc_fields [OF w]
  show ?thesis
    by (rule that [of xfer1]) (use w o r f assms(2) XSeg in \<open>auto simp: write_pages_def split: if_splits prod.splits dest!: write_pages_loc_ok\<close>)
qed

text \<open>A page pipe that can be sent: no range has more pages than the field of the message can hold.\<close>

definition small_ranges :: "page_pipe \<Rightarrow> bool" where
  "small_ranges pp \<longleftrightarrow> (\<forall>k<free_hole pp. iov_len (holes pp ! k) div PAGE_SIZE < 2 ^ 32) \<and>
     (\<forall>i\<in>set (bufs pp). \<forall>v\<in>set (ppb_iovs pp i). iov_len v div PAGE_SIZE < 2 ^ 32)"

lemma dump_ops_ok:
  assumes "segs_ok pp" "holes_ok pp" "small_ranges pp"
  shows "\<forall>x\<in>set (dump_ops pp). op_ok x"
proof
  fix x assume "x \<in> set (dump_ops pp)"
  then consider v where "x = XHole v" "v \<in> set (pp_holes pp)"
    | i v where "x = XSeg (store pp i) v" "i \<in> set (bufs pp)" "v \<in> set (ppb_iovs pp i)"
    by (auto simp: dump_ops_set)
  then show "op_ok x"
  proof cases
    case 1
    then obtain k where "k < free_hole pp" "v = holes pp ! k" by (auto simp: pp_holes_def in_set_conv_nth)
    then show ?thesis using assms 1 by (simp add: op_ok_def holes_ok_def small_ranges_def)
  next
    case 2
    then show ?thesis using assms by (simp add: op_ok_def segs_ok_def ppb_ok_def small_ranges_def)
  qed
qed

subsection \<open>An example\<close>

text \<open>A page pipe with one hole and one page behind it.\<close>

definition demo_xfer_sys :: "pr_sys \<Rightarrow> xfer_sys" where
  "demo_xfer_sys prs = \<lparr>x_prs = prs, x_splice = (\<lambda>_ _ n. int n), x_pb_ok = (\<lambda>_. True), x_send_ok = (\<lambda>_. True)\<rparr>"

definition demo_dump_pp :: page_pipe where
  "demo_dump_pp = \<lparr>nr_pipes = 1, bufs = [0], free_bufs = [], prev = (\<lambda>_. None), nr_iovs = 1, free_iov = 1,
     iovs = [\<lparr>iov_base = 8192, iov_len = 4096\<rparr>], nr_holes = 1, free_hole = 1, holes = [\<lparr>iov_base = 4096, iov_len = 4096\<rparr>],
     hole_flags = [PP_HOLE_PARENT], pp_flags = 0,
     store = (\<lambda>_. \<lparr>ppb_p = 7, pipe_size = 16, pipe_off = 0, pages_in = 1, nr_segs = 1, ppb_flags = 0, ppb_iov = 0\<rparr>), next_ppb = 1\<rparr>"

lemma demo_dump_fields [simp]:
  "bufs demo_dump_pp = [0]" "free_hole demo_dump_pp = 1" "holes demo_dump_pp = [\<lparr>iov_base = 4096, iov_len = 4096\<rparr>]"
  "hole_flags demo_dump_pp = [PP_HOLE_PARENT]" "ppb_iovs demo_dump_pp i = [\<lparr>iov_base = 8192, iov_len = 4096\<rparr>]"
  "ppb_p (store demo_dump_pp i) = 7" "ppb_flags (store demo_dump_pp i) = 0"
  by (simp_all add: demo_dump_pp_def ppb_iovs_def)

lemma demo_dump_pages:
  "ppb_pages demo_dump_pp i = [8192]" "pp_pages demo_dump_pp = [(8192, 0)]" "hole_pages demo_dump_pp = [(4096, PP_HOLE_PARENT)]"
  by (simp_all add: ppb_pages_def pp_pages_def hole_pages_def iov_pages_def PAGE_SIZE_def)

lemma demo_dump_ok: "segs_ok demo_dump_pp" "holes_ok demo_dump_pp" "parent_holes demo_dump_pp" "small_ranges demo_dump_pp"
proof -
  have "contiguous demo_dump_pp 0 (bufs demo_dump_pp)" by (simp add: demo_dump_pp_def)
  then show "segs_ok demo_dump_pp"
    by (auto simp: segs_ok_def ppb_ok_def demo_dump_pages iov_ok_def PAGE_SIZE_def ULONG_MOD_def) (auto simp: demo_dump_pp_def)
  show "holes_ok demo_dump_pp" by (auto simp: holes_ok_def iov_ok_def PAGE_SIZE_def ULONG_MOD_def) (simp add: demo_dump_pp_def)+
  show "parent_holes demo_dump_pp" "small_ranges demo_dump_pp" by (simp_all add: parent_holes_def small_ranges_def PAGE_SIZE_def)
qed

lemma demo_dump_ops: "dump_ops demo_dump_pp = [XHole \<lparr>iov_base = 4096, iov_len = 4096\<rparr>, XSeg (store demo_dump_pp 0) \<lparr>iov_base = 8192, iov_len = 4096\<rparr>]"
  by (simp add: dump_ops_merge pp_segs_def pp_holes_def)

definition demo_pipes :: "mem \<Rightarrow> pipes" where
  "demo_pipes m = (\<lambda>p. if p = 7 then page_bytes m [8192] else [])"

lemma length_demo_pipes: "length (demo_pipes m 7) = 4096"
  by (simp add: demo_pipes_def page_bytes_def PAGE_SIZE_def)

text \<open>Dumping it to local images without a parent, and to a server.\<close>

definition demo_pagemap :: "pagemap_entry list" where
  "demo_pagemap = [\<lparr>pe_vaddr = 4096, nr_pages = 1, pe_flags = PE_PARENT, has_flags = True, pe_in_parent = None\<rparr>,
     \<lparr>pe_vaddr = 8192, nr_pages = 1, pe_flags = PE_PRESENT, has_flags = True, pe_in_parent = None\<rparr>]"

lemma demo_flags [simp]: "PE_PARENT AND PE_PRESENT = 0" "PE_PRESENT \<noteq> 0" "ppb_xfer_flags xfer (store demo_dump_pp i) = PE_PRESENT"
  by (simp_all add: PE_PARENT_def PE_PRESENT_def ppb_xfer_flags_def)

lemma demo_local_dump:
  "page_xfer_dump_pages (demo_xfer_sys (prs\<lparr>auto_dedup := False\<rparr>)) empty_xfer demo_dump_pp (demo_pipes m)
   = Done (0, empty_xfer\<lparr>x_pmi := demo_pagemap, x_pi := page_bytes m [8192]\<rparr>, \<lambda>_. [])"
proof -
  have w: "write_pages_loc (demo_xfer_sys prs') 7 4096 (demo_pipes m 7) img = (0, [], img @ page_bytes m [8192])" for prs' img
    using length_demo_pipes [of m]
    by (subst write_pages_loc.simps) (auto simp: sys_splice_def demo_xfer_sys_def demo_pipes_def)
  show ?thesis
    unfolding dump_pages_ops [OF demo_dump_ok(2,3)] demo_dump_ops
    using w by (auto simp: page_xfer_dump_hole_def write_pagemap_def write_pagemap_loc_def parent_checks_def write_pages_def empty_xfer_def
        demo_pagemap_def demo_xfer_sys_def PAGE_SIZE_def demo_pipes_def fun_eq_iff Let_def)
qed

end
