(* ===== verification/PageServer.thy ===== *)
theory PageServer
  imports PageXferCorrect PageReadClients
begin

unbundle bit_operations_syntax

text \<open>
  The page server and its client. The messages that a dump sends make the server write the entries and the pages
  that a local dump of the same page pipe writes.
\<close>

subsection \<open>The page server\<close>

definition recv_ok :: "server_sys \<Rightarrow> bool" where
  "recv_ok sys \<longleftrightarrow> (\<forall>a n. 0 < n \<longrightarrow> 0 < s_recv sys a n)"

lemma sk_data_append: "sk_data (map Data bs @ sk) = bs @ sk_data sk"
  by (induction bs) auto

lemma add_loop_total:
  assumes "recv_ok sys" "splice_ok (s_sys sys)" "0 < s_pipe_size s"
  shows "add_loop sys s (length bs) (map Data bs @ rest) = (0, s\<lparr>s_xfer := (s_xfer s)\<lparr>x_pi := x_pi (s_xfer s) @ bs\<rparr>\<rparr>, rest)"
  using assms(3)
proof (induction "length bs" arbitrary: bs s rule: less_induct)
  case less
  show ?case
  proof (cases "bs = []")
    case False
    define n where "n = min (length bs) (s_pipe_size s)"
    have n: "0 < n" "n \<le> length bs" using False less.prems by (auto simp: n_def)
    define r where "r = s_recv sys (length (x_pi (s_xfer s))) n"
    have r: "0 < r" using assms(1) n(1) by (simp add: recv_ok_def r_def)
    define c where "c = take (min (nat r) n) bs"
    have c: "c \<noteq> []" "length c \<le> length bs" "bs = c @ drop (length c) bs" "length c = min (nat r) n"
      using n r False by (auto simp: c_def min_def)
    have ct: "take (min (nat r) n) (sk_data (map Data bs @ rest)) = c" using n by (simp add: sk_data_append c_def)
    have w: "write_pages_loc (s_sys sys) 0 (length c) c (x_pi (s_xfer s)) = (0, [], x_pi (s_xfer s) @ c)"
      using write_pages_loc_total [OF assms(2), of "length c" c] c(1) by simp
    have d: "drop (length c) (map Data bs @ rest) = map Data (drop (length c) bs) @ rest" using c(2) by (simp add: drop_map)
    define s1 where "s1 = s\<lparr>s_xfer := (s_xfer s)\<lparr>x_pi := x_pi (s_xfer s) @ c\<rparr>\<rparr>"
    have "add_loop sys s (length bs) (map Data bs @ rest)
        = add_loop sys s1 (length (drop (length c) bs)) (map Data (drop (length c) bs) @ rest)"
      by (subst add_loop.simps)
         (use False r c(1) in \<open>simp add: Let_def n_def [symmetric] r_def [symmetric] ct w d s1_def [symmetric] del: take_eq_Nil drop_append\<close>)
    also have "\<dots> = (0, s1\<lparr>s_xfer := (s_xfer s1)\<lparr>x_pi := x_pi (s_xfer s1) @ drop (length c) bs\<rparr>\<rparr>, rest)"
      by (rule less.hyps) (use c(1,2) less.prems in \<open>auto simp: s1_def length_greater_0_conv [symmetric] simp del: length_greater_0_conv\<close>)
    finally show ?thesis using c(3) by (simp add: s1_def)
  qed (simp add: add_loop.simps)
qed

text \<open>The rest of the network: the pipe of the server exists, the answers are sent, and the connection is closed properly.\<close>

definition net_ok :: "server_sys \<Rightarrow> bool" where
  "net_ok sys \<longleftrightarrow> (\<forall>n. s_send sys n) \<and> (\<exists>n>0. s_pipe sys = Some n) \<and> s_eof sys \<and> s_final sys"

lemma sk_send_ok: "net_ok sys \<Longrightarrow> sk_send sys v s = (True, s\<lparr>s_out := s_out s @ [v]\<rparr>)"
  by (simp add: net_ok_def sk_send_def)

text \<open>Two transfers with the same images and the same parents.\<close>

definition same_images :: "page_xfer \<Rightarrow> page_xfer \<Rightarrow> bool" where
  "same_images a b \<longleftrightarrow> x_pmi a = x_pmi b \<and> x_pi a = x_pi b \<and> x_parent a = x_parent b"

text \<open>Two environments with the same files.\<close>

definition same_files :: "xfer_sys \<Rightarrow> xfer_sys \<Rightarrow> bool" where
  "same_files a b \<longleftrightarrow> x_prs a = x_prs b \<and> x_pb_ok a = x_pb_ok b"

lemma parent_checks_same:
  assumes "parent_checks sys xfer e iov flags = Done (0, xfer')" "same_images a xfer" "same_files sys' sys"
  shows "parent_checks sys' a e iov flags = Done (0, a\<lparr>x_parent := x_parent xfer'\<rparr>)" "xfer' = xfer\<lparr>x_parent := x_parent xfer'\<rparr>"
  using assms
  by (auto simp: parent_checks_def same_images_def same_files_def split: if_splits option.splits)

lemma write_pagemap_loc_same:
  assumes "write_pagemap_loc sys xfer iov flags = Done (0, xfer')" "same_images a xfer" "same_files sys' sys"
  shows "\<exists>a'. write_pagemap_loc sys' a iov flags = Done (0, a') \<and> same_images a' xfer'"
proof -
  define e where "e = \<lparr>pe_vaddr = iov_base iov, nr_pages = iov_len iov div PAGE_SIZE mod 2 ^ 32, pe_flags = flags, has_flags = True,
    pe_in_parent = None\<rparr>"
  obtain x1 where x1: "parent_checks sys xfer e iov flags = Done (0, x1)" "x_pb_ok sys (length (x_pmi x1))" "xfer' = x1\<lparr>x_pmi := x_pmi x1 @ [e]\<rparr>"
    using assms(1) unfolding write_pagemap_loc_def Let_def e_def [symmetric] by (auto simp: bind_run_eq_Done split: if_splits)
  note p = parent_checks_same [OF x1(1) assms(2,3)]
  have pm: "x_pmi x1 = x_pmi xfer" "x_pi x1 = x_pi xfer" by (subst p(2), simp)+
  have "x_pb_ok sys' (length (x_pmi a))" using x1(2) assms(2,3) pm by (simp add: same_images_def same_files_def)
  then have "write_pagemap_loc sys' a iov flags = Done (0, a\<lparr>x_parent := x_parent x1, x_pmi := x_pmi a @ [e]\<rparr>)"
    unfolding write_pagemap_loc_def Let_def e_def [symmetric] p(1) by simp
  then show ?thesis using assms(2) pm x1(3) by (simp add: same_images_def)
qed

text \<open>The messages of one operation, on the server.\<close>

lemma serve_op:
  assumes ok: "op_ok x" and env: "recv_ok ssys" "splice_ok (s_sys ssys)" "0 < s_pipe_size s" "same_files (s_sys ssys) sys"
    and dst: "s_dst_id s = x_dst_id cx" and im: "same_images (s_xfer s) lx"
    and cl: "x_offset cx = x_offset lx" "transfer_lazy cx = transfer_lazy lx" "\<not> x_server lx"
    and run: "run_op sys lx ks x = Done (0, lx', ks')"
  shows "\<exists>sx. same_images sx lx' \<and> (\<forall>rest fl. serve_loop ssys s (Psi (op_psi cx x) # map Data (op_take cx x ks) @ rest) fl
    = serve_loop ssys (s\<lparr>s_xfer := sx\<rparr>) rest False)"
proof -
  from run_op_local [OF run cl(3)] obtain lx1 where l: "write_pagemap_loc sys lx (op_iov lx x) (op_flags lx x) = Done (0, lx1)"
    "lx' = lx1\<lparr>x_pi := x_pi lx @ op_take lx x ks\<rparr>" "length (op_take lx x ks) = (if op_flags lx x AND PE_PRESENT \<noteq> 0 then iov_len (op_range x) else 0)" by metis
  have eq: "op_flags cx x = op_flags lx x" "op_take cx x ks = op_take lx x ks" "op_iov cx x = op_iov lx x"
    using cl by (cases x; simp add: ppb_xfer_flags_def op_iov_def)+
  have fl: "op_flags cx x \<in> xfer_flags" using xfer_flags_ops by (cases x) auto
  from write_pagemap_loc_same [OF l(1) im env(4)] obtain a where
    a: "write_pagemap_loc (s_sys ssys) (s_xfer s) (op_iov lx x) (op_flags lx x) = Done (0, a)" "same_images a lx1" by blast
  have n: "iov_len (op_range x) div PAGE_SIZE * PAGE_SIZE = iov_len (op_range x)" "iov_len (op_range x) < ULONG_MOD"
    using ok by (auto simp: op_ok_def iov_ok_def)
  have psi: "psi2iovec (op_psi cx x) = op_iov lx x"
    using ok n cl(1) by (simp add: psi2iovec_def op_psi_def op_iov_def op_ok_def ul_mul_exact)
  have di: "psi_dst_id (op_psi cx x) = x_dst_id cx" by (simp add: op_psi_def)
  have add: "page_server_add ssys (op_psi cx x) (op_flags lx x) s (map Data (op_take lx x ks) @ rest)
      = Done (0, s\<lparr>s_xfer := a\<lparr>x_pi := x_pi a @ op_take lx x ks\<rparr>\<rparr>, rest)" for rest
  proof (cases "op_flags lx x AND PE_PRESENT = 0")
    case True
    then show ?thesis using l(3) dst a(1) psi by (simp add: page_server_add_def prep_loc_xfer_def di)
  next
    case False
    then have "iov_len (op_iov lx x) = length (op_take lx x ks)" using l(3) by (simp add: op_iov_def)
    then show ?thesis using False dst a(1) add_loop_total [OF env(1,2), of "s\<lparr>s_xfer := a\<rparr>" "op_take lx x ks" rest] env(3)
      by (simp add: page_server_add_def prep_loc_xfer_def psi di Let_def)
  qed
  have cmd: "psi_cmd (op_psi cx x) = encode_ps_cmd PS_IOV_ADD_F (op_flags cx x)" by (simp add: op_psi_def)
  have ne: "PS_IOV_ADD_F \<noteq> PS_IOV_OPEN" "PS_IOV_ADD_F \<noteq> PS_IOV_OPEN2" "PS_IOV_ADD_F \<noteq> PS_IOV_PARENT"
    by (simp_all add: PS_IOV_ADD_F_def PS_IOV_OPEN_def PS_IOV_OPEN2_def PS_IOV_PARENT_def)
  have "serve_cmd ssys (op_psi cx x) s (map Data (op_take cx x ks) @ rest)
      = Done (0, False, s\<lparr>s_xfer := a\<lparr>x_pi := x_pi a @ op_take lx x ks\<rparr>\<rparr>, rest)" for rest
    using add eq(1) decode_ps(1,2) [OF fl] by (simp only: serve_cmd_def Let_def cmd ne eq(2) if_False if_True simp_thms bind_run.simps prod.case)
  then have "serve_loop ssys s (Psi (op_psi cx x) # map Data (op_take cx x ks) @ rest) fl
      = serve_loop ssys (s\<lparr>s_xfer := a\<lparr>x_pi := x_pi a @ op_take lx x ks\<rparr>\<rparr>) rest False" for rest fl
    using decode_ps(3) [OF fl] by (simp add: cmd)
  moreover have "same_images (a\<lparr>x_pi := x_pi a @ op_take lx x ks\<rparr>) lx'"
    using a(2) l(2) write_pagemap_loc_fields [OF l(1)] by (simp add: same_images_def)
  ultimately show ?thesis by blast
qed

lemma serve_ops:
  assumes env: "recv_ok ssys" "splice_ok (s_sys ssys)" "same_files (s_sys ssys) sys"
  shows "\<forall>x\<in>set xs. op_ok x \<Longrightarrow> 0 < s_pipe_size s \<Longrightarrow> s_dst_id s = x_dst_id cx \<Longrightarrow> same_images (s_xfer s) lx \<Longrightarrow>
    x_offset cx = x_offset lx \<Longrightarrow> transfer_lazy cx = transfer_lazy lx \<Longrightarrow> \<not> x_server lx \<Longrightarrow> x_server cx \<Longrightarrow>
    run_ops sys lx ks xs = Done (0, lx', ks1) \<Longrightarrow> run_ops csys cx ks xs = Done (0, cx', ks2) \<Longrightarrow>
    \<exists>sx msgs. same_images sx lx' \<and> x_sk cx' = x_sk cx @ msgs \<and> ks1 = ks2 \<and>
      (\<forall>rest. serve_loop ssys s (msgs @ rest) False = serve_loop ssys (s\<lparr>s_xfer := sx\<rparr>) rest False)"
proof (induction xs arbitrary: s lx cx ks)
  case Nil
  then show ?case by (intro exI [of _ "s_xfer s"] exI [of _ "[]"]) auto
next
  case (Cons x xs)
  obtain lx1 k1 where l: "run_op sys lx ks x = Done (0, lx1, k1)" "run_ops sys lx1 k1 xs = Done (0, lx', ks1)"
    using Cons.prems(9) by (auto simp: bind_run_eq_Done split: if_splits)
  obtain cx1 k2 where c: "run_op csys cx ks x = Done (0, cx1, k2)" "run_ops csys cx1 k2 xs = Done (0, cx', ks2)"
    using Cons.prems(10) by (auto simp: bind_run_eq_Done split: if_splits)
  have ok: "op_ok x" "\<forall>x\<in>set xs. op_ok x" using Cons.prems(1) by auto
  from serve_op [OF ok(1) env(1,2) Cons.prems(2) env(3) Cons.prems(3-7) l(1)] obtain sx where
    sx: "same_images sx lx1" "\<And>rest. serve_loop ssys s (Psi (op_psi cx x) # map Data (op_take cx x ks) @ rest) False = serve_loop ssys (s\<lparr>s_xfer := sx\<rparr>) rest False"
    by blast
  note cs = run_op_server [OF c(1) Cons.prems(8)]
  from run_op_local [OF l(1) Cons.prems(7)] obtain lx2 where
    l2: "write_pagemap_loc sys lx (op_iov lx x) (op_flags lx x) = Done (0, lx2)" "lx1 = lx2\<lparr>x_pi := x_pi lx @ op_take lx x ks\<rparr>" "k1 = op_rest lx x ks" by metis
  have "op_rest lx x ks = op_rest cx x ks" using Cons.prems(6) by (cases x) (simp_all add: ppb_xfer_flags_def)
  then have kk: "k1 = k2" using l2(3) cs(2) by simp
  have "\<exists>sx2 msgs. same_images sx2 lx' \<and> x_sk cx' = x_sk cx1 @ msgs \<and> ks1 = ks2 \<and>
      (\<forall>rest. serve_loop ssys (s\<lparr>s_xfer := sx\<rparr>) (msgs @ rest) False = serve_loop ssys ((s\<lparr>s_xfer := sx\<rparr>)\<lparr>s_xfer := sx2\<rparr>) rest False)"
    using write_pagemap_loc_fields [OF l2(1)] Cons.prems(2-8) cs(1) l2(2) sx(1)
    by (intro Cons.IH [OF ok(2) _ _ _ _ _ _ _ l(2) c(2) [folded kk]]) auto
  then obtain sx2 msgs where m: "same_images sx2 lx'" "x_sk cx' = x_sk cx1 @ msgs" "ks1 = ks2"
    "\<And>rest. serve_loop ssys (s\<lparr>s_xfer := sx\<rparr>) (msgs @ rest) False = serve_loop ssys (s\<lparr>s_xfer := sx2\<rparr>) rest False" by auto
  have "serve_loop ssys s ((Psi (op_psi cx x) # map Data (op_take cx x ks) @ msgs) @ rest) False = serve_loop ssys (s\<lparr>s_xfer := sx2\<rparr>) rest False" for rest
    using sx(2) [of "msgs @ rest"] m(4) [of rest] by simp
  moreover have "x_sk cx' = x_sk cx @ Psi (op_psi cx x) # map Data (op_take cx x ks) @ msgs" using m(2) cs(1) by simp
  ultimately show ?case using m(1,3) by blast
qed

lemma open_local_eq:
  assumes "open_page_local_xfer sys stream True True par xfer type img i = Done (0, lx, j)" "same_files sys' sys"
  shows "open_page_local_xfer sys' stream True True par xfer' type img i =
      Done (0, xfer'\<lparr>x_pmi := [], x_pi := [], x_parent := x_parent lx, x_has_parent := x_has_parent lx, x_server := False\<rparr>, j) \<and> x_pmi lx = [] \<and> x_pi lx = [] \<and> \<not> x_server lx"
proof (cases "type = CR_FD_OTHER \<or> stream \<or> par = None")
  case True
  then show ?thesis
    using assms by (auto simp: open_page_local_xfer_def Let_def)
next
  case False
  then obtain d where d: "par = Some d" by blast
  from assms(1) False d obtain ret prs where al: "xalloc_ok (x_prs sys)" and
    r: "open_page_read_at (x_prs sys) stream False img d i = Done (ret, prs, j)" and
    lx: "lx = (if ret \<le> 0 then xfer\<lparr>x_pmi := [], x_pi := [], x_parent := [], x_has_parent := False, x_server := False\<rparr>
       else xfer\<lparr>x_pmi := [], x_pi := [], x_parent := prs, x_has_parent := True, x_server := False\<rparr>)"
    by (auto simp: open_page_local_xfer_def Let_def bind_run_eq_Done split: if_splits)
  show ?thesis
    using False d al r assms(2) unfolding lx
    by (cases "ret \<le> 0") (simp_all add: open_page_local_xfer_def Let_def same_files_def)
qed

lemmas open_local_same = open_local_eq [THEN conjunct1] open_local_eq [THEN conjunct2, THEN conjunct1]
  open_local_eq [THEN conjunct2, THEN conjunct2, THEN conjunct1] open_local_eq [THEN conjunct2, THEN conjunct2, THEN conjunct2]

lemma close_same:
  assumes "close_page_xfer sys lx = Done (lx', ps)" "same_files sys' sys" "same_images a lx"
  shows "\<exists>a'. close_page_xfer sys' a = Done (a', ps) \<and> x_pmi a' = x_pmi lx \<and> x_pi a' = x_pi lx"
proof (cases "x_parent lx = []")
  case False
  then obtain prs where "close_page_read (x_prs sys) (x_parent lx) = Done prs" "ps = prs"
    using assms(1) by (auto simp: close_page_xfer_def bind_run_eq_Done)
  then show ?thesis using assms(2,3) False by (simp add: close_page_xfer_def same_files_def same_images_def)
qed (use assms in \<open>auto simp: close_page_xfer_def same_images_def\<close>)

lemma encode_pm_not_unset: "encode_pm type i = Ret d \<Longrightarrow> d \<noteq> -1"
proof
  assume "encode_pm type i = Ret d" "d = -1"
  then have "PS_TYPE_MASK \<in> {PS_TYPE_PID, PS_TYPE_SHMEM}"
    using type_bits [of PS_TYPE_PID "of_nat i"] type_bits [of PS_TYPE_SHMEM "of_nat i"]
    by (cases type) (auto simp: encode_pm_def)
  then show False by (simp add: PS_TYPE_MASK_def PS_TYPE_BITS_def PS_TYPE_PID_def PS_TYPE_SHMEM_def)
qed

text \<open>The first message opens the images, the last one makes the server answer.\<close>

lemma serve_open:
  assumes op: "open_page_local_xfer sys stream True True par xfer type img ids = Done (0, lx, j)"
    and env: "same_files (s_sys ssys) sys" "s_stream ssys = stream" "s_images_ok ssys" "s_dirs ssys (type, img) = par" "s_ids s = ids" "s_dst_id s = -1" "net_ok ssys"
    and d: "encode_pm type img = Ret d" "img < 2 ^ 56"
  shows "\<exists>sx. same_images sx lx \<and> (\<forall>rest fl. serve_loop ssys s (Psi \<lparr>psi_cmd = PS_IOV_OPEN2, psi_nr_pages = 0, psi_vaddr = 0, psi_dst_id = d\<rparr> # rest) fl =
    serve_loop ssys (s\<lparr>s_xfer := sx, s_img := Some (type, img), s_ids := j, s_dst_id := d, s_out := s_out s @ [if x_parent lx \<noteq> [] then 1 else 0]\<rparr>) rest False)"
proof -
  note o = open_local_same [OF op env(1)]
  define pi where "pi = \<lparr>psi_cmd = PS_IOV_OPEN2, psi_nr_pages = 0, psi_vaddr = 0, psi_dst_id = d\<rparr>"
  define sx where "sx = (s_xfer s)\<lparr>x_pmi := [], x_pi := [], x_parent := x_parent lx, x_has_parent := x_has_parent lx, x_server := False\<rparr>"
  have c: "decode_ps_cmd (psi_cmd pi) = PS_IOV_OPEN2" "PS_IOV_OPEN2 \<noteq> PS_IOV_OPEN" "psi_cmd pi \<noteq> PS_IOV_FLUSH_N_CLOSE"
    by (simp_all add: pi_def decode_ps_cmd_def PS_IOV_OPEN2_def PS_IOV_OPEN_def PS_IOV_FLUSH_N_CLOSE_def PS_CMD_MASK_def PS_CMD_BITS_def)
  have "page_server_open ssys True pi s = Done (0, s\<lparr>s_xfer := sx, s_img := Some (type, img), s_ids := j, s_dst_id := d, s_out := s_out s @ [if x_parent lx \<noteq> [] then 1 else 0]\<rparr>)"
    using o(1) [of "s_xfer s"] decode_encode_pm [OF d] env
    by (simp add: page_server_open_def page_server_close_def pi_def sx_def Let_def sk_send_ok)
  then have "serve_cmd ssys pi s rest = Done (0, False, s\<lparr>s_xfer := sx, s_img := Some (type, img), s_ids := j, s_dst_id := d, s_out := s_out s @ [if x_parent lx \<noteq> [] then 1 else 0]\<rparr>, rest)" for rest
    by (simp only: serve_cmd_def Let_def c if_False if_True simp_thms bind_run.simps prod.case)
  moreover have "same_images sx lx" using o(2,3) by (simp add: same_images_def sx_def)
  ultimately show ?thesis using c(3) by (intro exI [of _ sx]) (simp add: pi_def [symmetric])
qed

lemma serve_flush:
  assumes "psi_cmd pi = PS_IOV_FLUSH \<or> psi_cmd pi = PS_IOV_FLUSH_N_CLOSE" and net: "net_ok ssys"
  shows "serve_loop ssys s [Psi pi] fl = Done (0, True, s\<lparr>s_out := s_out s @ [0]\<rparr>, [])"
proof -
  have "decode_ps_cmd (psi_cmd pi) = psi_cmd pi" using assms(1)
    by (auto simp: decode_ps_cmd_def PS_CMD_MASK_def PS_CMD_BITS_def PS_IOV_FLUSH_def PS_IOV_FLUSH_N_CLOSE_def)
  moreover have "psi_cmd pi \<notin> {PS_IOV_OPEN, PS_IOV_OPEN2, PS_IOV_PARENT, PS_IOV_ADD_F, PS_IOV_ADD, PS_IOV_HOLE}"
    using assms(1) by (auto simp: PS_IOV_OPEN_def PS_IOV_OPEN2_def PS_IOV_PARENT_def PS_IOV_ADD_F_def PS_IOV_ADD_def PS_IOV_HOLE_def
        PS_IOV_FLUSH_def PS_IOV_FLUSH_N_CLOSE_def)
  ultimately have "serve_cmd ssys pi s [] = Done (0, True, s\<lparr>s_out := s_out s @ [0]\<rparr>, [])"
    using assms(1) by (simp only: serve_cmd_def Let_def insert_iff de_Morgan_disj simp_thms if_False if_True sk_send_ok [OF net] prod.case)
  then show ?thesis using net by (simp add: net_ok_def)
qed

lemma server_xfer_fields:
  "open_page_server_xfer sys answer xfer type img = Ret (0, cx) \<Longrightarrow> x_sk xfer = [] \<Longrightarrow>
     \<exists>d. encode_pm type img = Ret d \<and> x_server cx \<and> x_dst_id cx = d \<and>
       x_sk cx = [Psi \<lparr>psi_cmd = PS_IOV_OPEN2, psi_nr_pages = 0, psi_vaddr = 0, psi_dst_id = d\<rparr>]"
  by (auto simp: open_page_server_xfer_def send_psi_def Let_def split: outcome.splits if_splits option.splits)

text \<open>
  (C4) Dumping to a page server: take a dump over a connection that was opened for the image, whose messages were all sent and
  whose end was announced, and a local dump of the same page pipe, both with result 0. A server that is given the messages, with
  the files of the local dump, system calls that make progress and a connection that works and is closed properly, returns 0, stores under the same name exactly the entries and the
  pages that the local dump has written, has answered whether there is a parent and that all was received, and both dumps
  leave the pipes in the same state.
\<close>

theorem server_dump_equivalence:
  assumes cl: "open_page_server_xfer csys answer cx0 type img = Ret (0, cx)" "x_sk cx0 = []"
      "page_xfer_dump_pages csys (cx\<lparr>x_offset := off, transfer_lazy := lazy\<rparr>) pp ks = Done (0, cx1, ks1)"
      "disconnect_from_page_server csys True True ps_socket status cx1 = (0, cx2)"
    and lo: "open_page_local_xfer sys stream True True par lx0 type img ids = Done (0, lx, j)"
      "page_xfer_dump_pages sys (lx\<lparr>x_offset := off, transfer_lazy := lazy\<rparr>) pp ks = Done (0, lx1, ks2)" "close_page_xfer sys lx1 = Done (lx2, ps)"
    and env: "same_files (s_sys ssys) sys" "s_stream ssys = stream" "s_images_ok ssys" "s_dirs ssys (type, img) = par" "s_ids s = ids" "s_dst_id s = -1"
      "recv_ok ssys" "splice_ok (s_sys ssys)" "net_ok ssys"
    and pp: "segs_ok pp" "holes_ok pp" "parent_holes pp" "small_ranges pp" and img: "img < 2 ^ 56"
  shows "\<exists>s'. page_server_serve ssys s (x_sk cx2) = Done (0, s') \<and> s_files s' (type, img) = Some (x_pmi lx1, x_pi lx1) \<and>
    s_out s' = s_out s @ [if x_parent lx \<noteq> [] then 1 else 0, 0] \<and> ks1 = ks2"
proof -
  from server_xfer_fields [OF cl(1,2)] obtain d where d: "encode_pm type img = Ret d" "x_server cx" "x_dst_id cx = d"
    "x_sk cx = [Psi \<lparr>psi_cmd = PS_IOV_OPEN2, psi_nr_pages = 0, psi_vaddr = 0, psi_dst_id = d\<rparr>]" by blast
  define opn where "opn = Psi \<lparr>psi_cmd = PS_IOV_OPEN2, psi_nr_pages = 0, psi_vaddr = 0, psi_dst_id = d\<rparr>"
  define pi where "pi = \<lparr>psi_cmd = (if ps_socket then PS_IOV_FLUSH_N_CLOSE else PS_IOV_FLUSH), psi_nr_pages = 0, psi_vaddr = 0, psi_dst_id = (0 :: u64)\<rparr>"
  have "x_sk cx2 = x_sk cx1 @ [Psi pi]"
    using cl(4) unfolding disconnect_from_page_server_def pi_def [symmetric] by (auto simp: send_psi_def split: if_splits option.splits)
  note x2 = this and o = open_local_same [OF lo(1) env(1)]
  obtain n where n: "s_pipe ssys = Some n" "0 < n" using env(9) by (auto simp: net_ok_def)
  define s0 where "s0 = s\<lparr>s_pipe_size := n\<rparr>"
  obtain sx where sx: "same_images sx lx" "\<forall>rest fl. serve_loop ssys s0 (opn # rest) fl =
      serve_loop ssys (s0\<lparr>s_xfer := sx, s_img := Some (type, img), s_ids := j, s_dst_id := d, s_out := s_out s0 @ [if x_parent lx \<noteq> [] then 1 else 0]\<rparr>) rest False"
    using serve_open [OF lo(1) env(1-4) _ _ env(9) d(1) img, of s0] env(5,6) unfolding opn_def by (auto simp: s0_def)
  define s1 where "s1 = s0\<lparr>s_xfer := sx, s_img := Some (type, img), s_ids := j, s_dst_id := d, s_out := s_out s0 @ [if x_parent lx \<noteq> [] then 1 else 0]\<rparr>"
  have "\<exists>sx msgs. same_images sx lx1 \<and> x_sk cx1 = x_sk (cx\<lparr>x_offset := off, transfer_lazy := lazy\<rparr>) @ msgs \<and> ks2 = ks1 \<and>
      (\<forall>rest. serve_loop ssys s1 (msgs @ rest) False = serve_loop ssys (s1\<lparr>s_xfer := sx\<rparr>) rest False)"
    using sx(1) d o(4) n(2)
    by (intro serve_ops [OF env(7,8,1) dump_ops_ok [OF pp(1,2,4)] _ _ _ _ _ _ _ lo(2) [unfolded dump_pages_ops [OF pp(2,3)]]
          cl(3) [unfolded dump_pages_ops [OF pp(2,3)]]]) (simp_all add: s1_def s0_def same_images_def)
  then obtain sy msgs where m: "same_images sy lx1" "x_sk cx1 = opn # msgs" "ks2 = ks1"
    "\<And>rest. serve_loop ssys s1 (msgs @ rest) False = serve_loop ssys (s1\<lparr>s_xfer := sy\<rparr>) rest False" using d(4) by (auto simp: opn_def)
  have "serve_loop ssys s0 (x_sk cx2) False = serve_loop ssys s1 (msgs @ [Psi pi]) False"
    using sx(2) by (simp add: x2 m(2) s1_def)
  also have "\<dots> = Done (0, True, s1\<lparr>s_xfer := sy, s_out := s_out s1 @ [0]\<rparr>, [])"
    unfolding m(4) using serve_flush [of pi ssys "s1\<lparr>s_xfer := sy\<rparr>" False] env(9) by (simp add: pi_def)
  finally have l: "serve_loop ssys s0 (x_sk cx2) False = Done (0, True, s1\<lparr>s_xfer := sy, s_out := s_out s1 @ [0]\<rparr>, [])" .
  from close_same [OF lo(3) env(1) m(1)] obtain a where
    a: "close_page_xfer (s_sys ssys) sy = Done (a, ps)" "x_pmi a = x_pmi lx1" "x_pi a = x_pi lx1" by blast
  show ?thesis
    using l a m(3) n(1) encode_pm_not_unset [OF d(1)] env(9)
    by (simp add: page_server_serve_def page_server_close_def close_loc_xfer_def s1_def s0_def net_ok_def)
qed
text \<open>The example, over a connection.\<close>

definition demo_server :: page_server where
  "demo_server = \<lparr>s_dst_id = -1, s_pipe_size = 100, s_xfer = empty_xfer, s_img = None, s_files = (\<lambda>_. None), s_ids = 0, s_out = []\<rparr>"

definition demo_server_sys :: server_sys where
  "demo_server_sys = \<lparr>s_sys = (demo_xfer_sys (demo_pr_sys\<lparr>auto_dedup := False\<rparr>))\<lparr>x_splice := (\<lambda>_ _ n. int (n + 1) div 2)\<rparr>,
     s_stream = False, s_images_ok = True, s_dirs = (\<lambda>_. None), s_stat = (\<lambda>_. Stat_enoent), s_pipe = Some 100, s_recv = (\<lambda>_ n. int n),
     s_send = (\<lambda>_. True), s_eof = True, s_ps_socket = False, s_final = True\<rparr>"

definition demo_stream :: "byte list \<Rightarrow> sk_item list" where
  "demo_stream bs =
     [Psi \<lparr>psi_cmd = PS_IOV_OPEN2, psi_nr_pages = 0, psi_vaddr = 0, psi_dst_id = 1281\<rparr>,
      Psi \<lparr>psi_cmd = encode_ps_cmd PS_IOV_ADD_F PE_PARENT, psi_nr_pages = 1, psi_vaddr = 4096, psi_dst_id = 1281\<rparr>,
      Psi \<lparr>psi_cmd = encode_ps_cmd PS_IOV_ADD_F PE_PRESENT, psi_nr_pages = 1, psi_vaddr = 8192, psi_dst_id = 1281\<rparr>] @ map Data bs"

lemma demo_server_dump:
  assumes "x_sk xfer = take 1 (demo_stream [])" "x_server xfer" "x_dst_id xfer = 1281" "x_offset xfer = 0"
  shows "page_xfer_dump_pages (demo_xfer_sys prs) xfer demo_dump_pp (demo_pipes m)
   = Done (0, xfer\<lparr>x_sk := demo_stream (page_bytes m [8192])\<rparr>, \<lambda>_. [])"
proof -
  have w: "write_pages_to_server (demo_xfer_sys prs) 7 4096 (demo_pipes m 7) sk = (0, [], sk @ map Data (page_bytes m [8192]))" for sk
    using length_demo_pipes [of m]
    by (subst write_pages_to_server.simps) (auto simp: sys_splice_def demo_xfer_sys_def demo_pipes_def write_pages_to_server.simps)
  show ?thesis
    unfolding dump_pages_ops [OF demo_dump_ok(2,3)] demo_dump_ops
    using w assms by (auto simp: page_xfer_dump_hole_def write_pagemap_def write_pagemap_to_server_def send_psi_def write_pages_def
        demo_stream_def demo_xfer_sys_def PAGE_SIZE_def demo_pipes_def fun_eq_iff Let_def)
qed

theorem server_dump_equivalence_witness:
  "\<exists>s'. page_server_serve demo_server_sys demo_server
     (demo_stream (page_bytes (\<lambda>a. of_nat a) [8192]) @ [Psi \<lparr>psi_cmd = PS_IOV_FLUSH, psi_nr_pages = 0, psi_vaddr = 0, psi_dst_id = 0\<rparr>]) = Done (0, s')
   \<and> s_files s' (CR_FD_PAGEMAP, 5) = Some (demo_pagemap, page_bytes (\<lambda>a. of_nat a) [8192]) \<and> s_out s' = [0, 0]"
proof -
  let ?m = "\<lambda>a. of_nat a :: byte"
  let ?sys = "demo_xfer_sys (demo_pr_sys\<lparr>auto_dedup := False\<rparr>)"
  let ?cx = "empty_xfer\<lparr>x_server := True, x_dst_id := 1281, x_sk := take 1 (demo_stream [])\<rparr>"
  let ?cx1 = "?cx\<lparr>x_sk := demo_stream (page_bytes ?m [8192])\<rparr>"
  let ?fl = "\<lparr>psi_cmd = PS_IOV_FLUSH, psi_nr_pages = 0, psi_vaddr = 0, psi_dst_id = 0\<rparr>"
  let ?lx1 = "empty_xfer\<lparr>x_pmi := demo_pagemap, x_pi := page_bytes ?m [8192]\<rparr>"
  have o: "open_page_server_xfer ?sys (Some 0) empty_xfer CR_FD_PAGEMAP 5 = Ret (0, ?cx)" "x_sk empty_xfer = []"
    by (simp_all add: open_page_server_xfer_def encode_pm_def send_psi_def demo_xfer_sys_def demo_stream_def empty_xfer_def PS_TYPE_BITS_def PS_TYPE_PID_def)
  have c: "page_xfer_dump_pages ?sys (?cx\<lparr>x_offset := 0, transfer_lazy := True\<rparr>) demo_dump_pp (demo_pipes ?m) = Done (0, ?cx1, \<lambda>_. [])"
    by (subst demo_server_dump) (simp_all add: empty_xfer_def)
  have f: "disconnect_from_page_server ?sys True True False (Some 0) ?cx1 = (0, ?cx1\<lparr>x_sk := x_sk ?cx1 @ [Psi ?fl]\<rparr>)"
    by (simp add: disconnect_from_page_server_def send_psi_def demo_xfer_sys_def)
  have l: "open_page_local_xfer ?sys False True True None empty_xfer CR_FD_PAGEMAP 5 0 = Done (0, empty_xfer, 0)"
    by (simp add: open_page_local_xfer_def empty_xfer_def)
  have d: "page_xfer_dump_pages ?sys (empty_xfer\<lparr>x_offset := 0, transfer_lazy := True\<rparr>) demo_dump_pp (demo_pipes ?m) = Done (0, ?lx1, \<lambda>_. [])"
    using demo_local_dump [of demo_pr_sys ?m] by (simp add: empty_xfer_def)
  have cl: "close_page_xfer ?sys ?lx1 = Done (?lx1, [])" by (simp add: close_page_xfer_def empty_xfer_def)
  have half: "0 < (1 + int n) div 2" if "0 < n" for n using that by linarith
  have env: "same_files (s_sys demo_server_sys) ?sys" "s_stream demo_server_sys = False" "s_images_ok demo_server_sys"
    "s_dirs demo_server_sys (CR_FD_PAGEMAP, 5) = None" "s_ids demo_server = 0" "s_dst_id demo_server = -1"
    "recv_ok demo_server_sys" "splice_ok (s_sys demo_server_sys)" "net_ok demo_server_sys"
    by (simp_all add: demo_server_sys_def demo_server_def same_files_def recv_ok_def net_ok_def splice_ok_def demo_xfer_sys_def half)
  from server_dump_equivalence [OF o c f l d cl env demo_dump_ok] show ?thesis
    by (simp add: demo_server_def empty_xfer_def)
qed

end
