(* ===== verification/PreDump.thy ===== *)
theory PreDump
  imports PageXferCorrect
begin

text \<open>
  Reading the memory of a running task (\<open>fill_userbuf\<close> in \<open>criu/page-xfer.c\<close>). The pages that are found in the buffer are
  those that the auxiliary array describes, each read at one of the calls of \<open>process_vm_readv\<close>, and a page is
  left out only if it could not be read at one of them.
\<close>

subsection \<open>Attempts\<close>

definition vm_reads :: "vm_sys \<Rightarrow> nat \<Rightarrow> nat \<Rightarrow> bool" where
  "vm_reads sys t a \<longleftrightarrow> vm_mapped sys t a \<and> \<not> vm_gone sys t"

text \<open>A record of attempts: for each page the call that decided about it.\<close>

definition attempts :: "nat \<Rightarrow> nat \<Rightarrow> nat list \<Rightarrow> (nat \<times> nat) list \<Rightarrow> bool" where
  "attempts t0 t1 P L \<longleftrightarrow> map fst L = P \<and> (\<forall>(a, t)\<in>set L. t0 \<le> t \<and> t < t1)"

definition got :: "vm_sys \<Rightarrow> (nat \<times> nat) list \<Rightarrow> nat list" where
  "got sys L = map fst (filter (\<lambda>(a, t). vm_reads sys t a) L)"

definition got_bytes :: "vm_sys \<Rightarrow> (nat \<times> nat) list \<Rightarrow> byte list" where
  "got_bytes sys L = concat (map (\<lambda>(a, t). mem_read (vm_mem sys t) a PAGE_SIZE) (filter (\<lambda>(a, t). vm_reads sys t a) L))"

lemma got_simps [simp]:
  "got sys [] = []" "got_bytes sys [] = []"
  "got sys (L @ M) = got sys L @ got sys M" "got_bytes sys (L @ M) = got_bytes sys L @ got_bytes sys M"
  by (simp_all add: got_def got_bytes_def)

lemma got_all: "\<forall>a\<in>set P. vm_reads sys t a \<Longrightarrow> got sys (map (\<lambda>a. (a, t)) P) = P"
  "\<forall>a\<in>set P. vm_reads sys t a \<Longrightarrow> got_bytes sys (map (\<lambda>a. (a, t)) P) = page_bytes (vm_mem sys t) P"
  by (induction P) (auto simp: got_def got_bytes_def page_bytes_def)

lemma got_none [simp]: "\<not> vm_reads sys t a \<Longrightarrow> got sys [(a, t)] = []" "\<not> vm_reads sys t a \<Longrightarrow> got_bytes sys [(a, t)] = []"
  by (simp_all add: got_def got_bytes_def)

lemma attempts_append:
  "attempts t0 t1 P L \<Longrightarrow> attempts t1' t2 Q M \<Longrightarrow> t0 \<le> t1' \<Longrightarrow> t1 \<le> t2 \<Longrightarrow> attempts t0 t2 (P @ Q) (L @ M)"
  by (fastforce simp: attempts_def)

lemma attempts_now: "t0 \<le> t \<Longrightarrow> t < t1 \<Longrightarrow> attempts t0 t1 P (map (\<lambda>a. (a, t)) P)"
  by (auto simp: attempts_def comp_def)

lemma attempts_Nil [simp]: "attempts t0 t1 [] []"
  by (simp add: attempts_def)

lemma length_got_bytes: "length (got_bytes sys L) = length (got sys L) * PAGE_SIZE"
  by (induction L) (auto simp: got_bytes_def got_def)

lemma length_got: "length (got sys L) \<le> length L"
  by (simp add: got_def)

text \<open>The contract of a loop that reads the pages \<open>P\<close>: the attempts, and what they add to the buffer and the array.\<close>

definition all_pages :: "iovec list \<Rightarrow> nat list" where
  "all_pages vs = concat (map iov_pages vs)"

lemma all_pages_simps [simp]:
  "all_pages [] = []" "all_pages (v # vs) = iov_pages v @ all_pages vs" "all_pages (us @ vs) = all_pages us @ all_pages vs"
  by (simp_all add: all_pages_def)

definition filled :: "vm_sys \<Rightarrow> nat list \<Rightarrow> nat \<Rightarrow> byte list \<Rightarrow> iovec list \<Rightarrow> nat \<Rightarrow> byte list \<Rightarrow> iovec list \<Rightarrow> bool" where
  "filled sys P t buf aux t' buf' aux' \<longleftrightarrow> t \<le> t' \<and>
     (\<exists>L. attempts t t' P L \<and> buf' = buf @ got_bytes sys L \<and> all_pages aux' = all_pages aux @ got sys L) \<and> (\<forall>v\<in>set aux'. iov_ok v)"

lemma filled_refl: "\<forall>v\<in>set aux. iov_ok v \<Longrightarrow> filled sys [] t buf aux t buf aux"
  by (auto simp: filled_def intro!: exI [of _ "[]"])

lemma filled_trans:
  assumes "filled sys P t buf aux t1 buf1 aux1" "filled sys Q t1 buf1 aux1 t2 buf2 aux2"
  shows "filled sys (P @ Q) t buf aux t2 buf2 aux2"
proof -
  obtain L where L: "attempts t t1 P L" "buf1 = buf @ got_bytes sys L" "all_pages aux1 = all_pages aux @ got sys L" "t \<le> t1"
    using assms(1) by (auto simp: filled_def)
  obtain M where M: "attempts t1 t2 Q M" "buf2 = buf1 @ got_bytes sys M" "all_pages aux2 = all_pages aux1 @ got sys M" "t1 \<le> t2"
    "\<forall>v\<in>set aux2. iov_ok v" using assms(2) by (auto simp: filled_def)
  show ?thesis unfolding filled_def using L M attempts_append [OF L(1) M(1)] by (intro conjI exI [of _ "L @ M"]) auto
qed

lemma filled_skip: "\<not> vm_reads sys t a \<Longrightarrow> \<forall>v\<in>set aux. iov_ok v \<Longrightarrow> filled sys [a] t buf aux (t + 1) buf aux"
  by (auto simp: filled_def attempts_def intro!: exI [of _ "[(a, t)]"])

lemma filled_room:
  assumes "filled sys P t buf aux t' buf' aux'"
  shows "length buf' \<le> length buf + length P * PAGE_SIZE"
proof -
  obtain L where "map fst L = P" "buf' = buf @ got_bytes sys L" using assms by (auto simp: filled_def attempts_def)
  then show ?thesis using length_got [of sys L] by (auto simp: length_got_bytes)
qed

subsection \<open>One call\<close>

lemma readv_cases:
  assumes P: "all_pages vs \<noteq> []" and room: "length (all_pages vs) * PAGE_SIZE \<le> room"
  obtains (fail) "process_vm_readv sys t room vs = (-1, [])" "\<not> vm_reads sys t (hd (all_pages vs))"
  | (some) n where "process_vm_readv sys t room vs = (int (n * PAGE_SIZE), page_bytes (vm_mem sys t) (take n (all_pages vs)))"
      "0 < n" "n \<le> length (all_pages vs)" "\<not> vm_gone sys t" "\<forall>a\<in>set (take n (all_pages vs)). vm_reads sys t a"
      "n < length (all_pages vs) \<Longrightarrow> \<not> vm_reads sys t (all_pages vs ! n)"
proof -
  let ?P = "all_pages vs"
  have len: "0 < length ?P" using P by simp
  then have "length ?P \<le> room div PAGE_SIZE" using room by (simp add: less_eq_div_iff_mult_less_eq)
  then have rd: "readable sys t room vs = takeWhile (vm_mapped sys t) ?P" by (simp add: readable_def all_pages_def)
  have pr: "PAGE_SIZE \<le> room" using room len by (cases "length ?P") auto
  define n where "n = length (takeWhile (vm_mapped sys t) ?P)"
  have tk: "takeWhile (vm_mapped sys t) ?P = take n ?P" unfolding n_def by (rule takeWhile_eq_take)
  show ?thesis
  proof (cases "vm_gone sys t \<or> n = 0")
    case True
    have "\<not> vm_reads sys t (hd ?P)"
      using True P by (cases ?P) (auto simp: vm_reads_def n_def split: if_splits)
    then show ?thesis using True fail pr tk by (auto simp: process_vm_readv_def rd Let_def)
  next
    case False
    have "\<forall>a\<in>set (take n ?P). vm_reads sys t a" using False set_takeWhileD unfolding tk [symmetric] by (fastforce simp: vm_reads_def)
    moreover have "n \<le> length ?P" by (simp add: n_def length_takeWhile_le)
    moreover have "\<not> vm_reads sys t (?P ! n)" if "n < length ?P"
      using nth_length_takeWhile [of "vm_mapped sys t" ?P] that by (simp add: n_def vm_reads_def)
    ultimately show ?thesis using False some [of n] P by (auto simp: process_vm_readv_def rd Let_def tk)
  qed
qed

subsection \<open>The auxiliary array\<close>

lemma iov_pages_join:
  assumes "PAGE_SIZE dvd k"
  shows "iov_pages \<lparr>iov_base = b, iov_len = k + n\<rparr> = iov_pages \<lparr>iov_base = b, iov_len = k\<rparr> @ iov_pages \<lparr>iov_base = b + k, iov_len = n\<rparr>"
proof -
  obtain j where k: "k = j * PAGE_SIZE" using assms by (auto simp: dvd_def mult.commute)
  have d: "(k + n) div PAGE_SIZE = j + n div PAGE_SIZE" "k div PAGE_SIZE = j" by (simp_all add: k)
  have "[0..<j + n div PAGE_SIZE] = [0..<j] @ map (\<lambda>i. i + j) [0..<n div PAGE_SIZE]"
    using upt_add_eq_append [of 0 j "n div PAGE_SIZE"] map_add_upt [of j "n div PAGE_SIZE"] by (simp add: add.commute)
  moreover have "map (\<lambda>i. b + i * PAGE_SIZE) (map (\<lambda>i. i + j) [0..<n div PAGE_SIZE]) = map (\<lambda>i. b + k + i * PAGE_SIZE) [0..<n div PAGE_SIZE]"
    by (simp add: k distrib_right)
  ultimately show ?thesis by (simp add: iov_pages_def d del: map_map)
qed

definition junk_ok :: "iovec \<Rightarrow> nat list \<Rightarrow> bool" where
  "junk_ok junk P \<longleftrightarrow> ul_add (iov_base junk) (iov_len junk) \<notin> set P"

lemma aux_add_ok:
  assumes "\<forall>v\<in>set aux. iov_ok v" "iov_ok \<lparr>iov_base = base, iov_len = n\<rparr>" "junk_ok junk (iov_pages \<lparr>iov_base = base, iov_len = n\<rparr>)"
  shows "all_pages (aux_add junk aux base n) = all_pages aux @ iov_pages \<lparr>iov_base = base, iov_len = n\<rparr>"
    "\<forall>v\<in>set (aux_add junk aux base n). iov_ok v"
proof (atomize (full), cases "aux = []")
  case True
  obtain k where k: "n = PAGE_SIZE * k" "0 < k" using assms(2) by (auto simp: iov_ok_def dvd_def)
  then have "base \<in> set (iov_pages \<lparr>iov_base = base, iov_len = n\<rparr>)"
    by (force simp: iov_pages_def image_iff intro: bexI [of _ 0])
  then have "ul_add (iov_base junk) (iov_len junk) \<noteq> base" using assms(3) by (auto simp: junk_ok_def)
  then show "all_pages (aux_add junk aux base n) = all_pages aux @ iov_pages \<lparr>iov_base = base, iov_len = n\<rparr> \<and>
    (\<forall>v\<in>set (aux_add junk aux base n). iov_ok v)" using True assms(2) by (simp add: aux_add_def)
next
  case False
  then obtain us u where u: "aux = us @ [u]" by (cases aux rule: rev_cases) auto
  have ok: "iov_ok u" using assms(1) u by simp
  then have e: "ul_add (iov_base u) (iov_len u) = iov_base u + iov_len u" by (simp add: iov_ok_def ul_add_exact)
  show "all_pages (aux_add junk aux base n) = all_pages aux @ iov_pages \<lparr>iov_base = base, iov_len = n\<rparr> \<and>
    (\<forall>v\<in>set (aux_add junk aux base n). iov_ok v)"
  proof (cases "iov_base u + iov_len u = base")
    case True
    have l: "ul_add (iov_len u) n = iov_len u + n" using assms(2) True by (simp add: iov_ok_def ul_add_exact)
    have "iov_pages (u\<lparr>iov_len := iov_len u + n\<rparr>) = iov_pages u @ iov_pages \<lparr>iov_base = base, iov_len = n\<rparr>"
      using iov_pages_join [of "iov_len u" "iov_base u" n] ok True by (simp add: iov_ok_def iov_pages_def)
    moreover have "iov_ok (u\<lparr>iov_len := iov_len u + n\<rparr>)" using ok assms(2) True by (auto simp: iov_ok_def)
    ultimately show ?thesis using u True e l assms(1) by (simp add: aux_add_def)
  qed (use u e assms(1,2) in \<open>simp add: aux_add_def\<close>)
qed

subsection \<open>The rest of a range with a bad page\<close>

lemma filled_read:
  assumes "\<forall>a\<in>set P. vm_reads sys t a" "all_pages aux' = all_pages aux @ P" "\<forall>v\<in>set aux'. iov_ok v"
  shows "filled sys P t buf aux (t + 1) (buf @ page_bytes (vm_mem sys t) P) aux'"
  unfolding filled_def using assms attempts_now [of t t "t + 1" P] got_all [of P sys t]
  by (intro conjI exI [of _ "map (\<lambda>a. (a, t)) P"]) auto

lemma iov_pages_split:
  assumes "n * PAGE_SIZE \<le> len" 
  shows "iov_pages \<lparr>iov_base = base, iov_len = len\<rparr> =
    iov_pages \<lparr>iov_base = base, iov_len = n * PAGE_SIZE\<rparr> @ iov_pages \<lparr>iov_base = base + n * PAGE_SIZE, iov_len = len - n * PAGE_SIZE\<rparr>"
  using iov_pages_join [of "n * PAGE_SIZE" base "len - n * PAGE_SIZE"] assms by simp

lemma iov_pages_one: "iov_pages \<lparr>iov_base = base, iov_len = PAGE_SIZE\<rparr> = [base]"
  by (simp add: iov_pages_def)

lemma junk_ok_append [simp]: "junk_ok junk (P @ Q) \<longleftrightarrow> junk_ok junk P \<and> junk_ok junk Q"
  by (auto simp: junk_ok_def)

lemma faulty_loop_ok:
  assumes "PAGE_SIZE dvd base" "PAGE_SIZE dvd len" "base + len < ULONG_MOD" "length buf + len \<le> BUFFER_SIZE" "\<forall>v\<in>set aux. iov_ok v"
    "junk_ok junk (iov_pages \<lparr>iov_base = base, iov_len = len\<rparr>)"
  shows "\<exists>t' buf' aux'. faulty_loop sys junk base len t buf aux = Some (t', buf', aux') \<and>
    filled sys (iov_pages \<lparr>iov_base = base, iov_len = len\<rparr>) t buf aux t' buf' aux'"
  using assms
proof (induction len arbitrary: base t buf aux rule: less_induct)
  case (less len)
  let ?v = "\<lparr>iov_base = base, iov_len = len\<rparr>"
  show ?case
  proof (cases "len = 0")
    case True
    then show ?thesis using filled_refl [OF less.prems(5)] by (subst faulty_loop.simps) (simp add: iov_pages_def)
  next
    case False
    obtain k where k: "len = k * PAGE_SIZE" "0 < k" using less.prems(2) False by (auto simp: dvd_def mult.commute)
    have pl: "length (all_pages [?v]) = k" by (simp add: k)
    have ne: "all_pages [?v] \<noteq> []" using pl k(2) by (simp only: length_greater_0_conv [symmetric])
    have room: "length (all_pages [?v]) * PAGE_SIZE \<le> BUFFER_SIZE - length buf" using less.prems(4) pl k by simp
    show ?thesis
    proof (rule readv_cases [OF ne room, of sys t], goal_cases fail some)
      case fail
      have le: "1 * PAGE_SIZE \<le> len" using k by simp
      have sp: "iov_pages ?v = [base] @ iov_pages \<lparr>iov_base = base + PAGE_SIZE, iov_len = len - PAGE_SIZE\<rparr>"
        using iov_pages_split [OF le] by (simp add: iov_pages_one)
      have jk: "junk_ok junk (iov_pages \<lparr>iov_base = base + PAGE_SIZE, iov_len = len - PAGE_SIZE\<rparr>)"
        using less.prems(6) unfolding sp junk_ok_append by blast
      have rm: "length buf + (len - PAGE_SIZE) \<le> BUFFER_SIZE" using less.prems(4) by simp
      have ar: "ul_add base PAGE_SIZE = base + PAGE_SIZE" "ul_sub len PAGE_SIZE = len - PAGE_SIZE"
        using le less.prems(3) by (simp_all add: c_arith)
      obtain t' buf' aux' where r: "faulty_loop sys junk (base + PAGE_SIZE) (len - PAGE_SIZE) (t + 1) buf aux = Some (t', buf', aux')"
        "filled sys (iov_pages \<lparr>iov_base = base + PAGE_SIZE, iov_len = len - PAGE_SIZE\<rparr>) (t + 1) buf aux t' buf' aux'"
        using less.IH [OF _ _ _ _ rm less.prems(5) jk, of "t + 1"] less.prems(1-3) le False by (auto simp: dvd_diff_nat)
      have "filled sys [base] t buf aux (t + 1) buf aux" using fail(2) sp less.prems(5) by (intro filled_skip) simp_all
      from filled_trans [OF this r(2)] show ?thesis
        by (subst faulty_loop.simps) (use r(1) False fail(1) ar sp in simp)
    next
      case (some n)
      have nk: "n \<le> k" using some(3) pl by simp
      have le: "n * PAGE_SIZE \<le> len" using nk k by simp
      note sp = iov_pages_split [OF le, of base]
      have tk: "take n (all_pages [?v]) = iov_pages \<lparr>iov_base = base, iov_len = n * PAGE_SIZE\<rparr>" by (simp add: sp)
      have ar: "ul_add base (n * PAGE_SIZE) = base + n * PAGE_SIZE" "ul_sub len (n * PAGE_SIZE) = len - n * PAGE_SIZE"
        using le less.prems(3) by (simp_all add: c_arith)
      have ok: "iov_ok \<lparr>iov_base = base, iov_len = n * PAGE_SIZE\<rparr>" using less.prems(1,3) le some(2) by (simp add: iov_ok_def)
      let ?aux = "aux_add junk aux base (n * PAGE_SIZE)" and ?buf = "buf @ page_bytes (vm_mem sys t) (iov_pages \<lparr>iov_base = base, iov_len = n * PAGE_SIZE\<rparr>)"
      have jk: "junk_ok junk (iov_pages \<lparr>iov_base = base, iov_len = n * PAGE_SIZE\<rparr>)"
        "junk_ok junk (iov_pages \<lparr>iov_base = base + n * PAGE_SIZE, iov_len = len - n * PAGE_SIZE\<rparr>)" using less.prems(6) sp by auto
      note a = aux_add_ok [OF less.prems(5) ok jk(1)]
      have f1: "filled sys (iov_pages \<lparr>iov_base = base, iov_len = n * PAGE_SIZE\<rparr>) t buf aux (t + 1) ?buf ?aux"
        by (rule filled_read) (use some(5) tk a in auto)
      have rm: "length ?buf + (len - n * PAGE_SIZE) \<le> BUFFER_SIZE" using filled_room [OF f1] less.prems(4) le by simp
      obtain t' buf' aux' where r: "faulty_loop sys junk (base + n * PAGE_SIZE) (len - n * PAGE_SIZE) (t + 1) ?buf ?aux = Some (t', buf', aux')"
        "filled sys (iov_pages \<lparr>iov_base = base + n * PAGE_SIZE, iov_len = len - n * PAGE_SIZE\<rparr>) (t + 1) ?buf ?aux t' buf' aux'"
        using less.IH [OF _ _ _ _ rm a(2) jk(2), of "t + 1"] less.prems(1-3) le some(2) False by (auto simp: dvd_diff_nat)
      have c: "process_vm_readv sys t (BUFFER_SIZE - length buf) [?v] =
          (int (n * PAGE_SIZE), page_bytes (vm_mem sys t) (iov_pages \<lparr>iov_base = base, iov_len = n * PAGE_SIZE\<rparr>))" using some(1) tk by simp
      have "int (n * PAGE_SIZE) \<noteq> -1" using of_nat_0_le_iff [of "n * PAGE_SIZE"] by linarith
      then have "faulty_loop sys junk base len t buf aux = Some (t', buf', aux')"
        by (subst faulty_loop.simps) (use r(1) False c ar in \<open>simp del: of_nat_mult\<close>)
      then show ?thesis using filled_trans [OF f1 r(2)] unfolding sp by blast
    qed
  qed
qed

subsection \<open>Matching what was read with the ranges\<close>

lemma analyze_loop_ok:
  "br \<le> p + iov_bytes vs \<Longrightarrow> \<exists>j\<le>length vs. analyze_loop br vs p i aux = (p + iov_bytes (take j vs), i + j, aux @ take j vs) \<and>
     br \<le> p + iov_bytes (take j vs) \<and> (j = 0 \<or> p + iov_bytes (take (j - 1) vs) < br)"
proof (induction vs arbitrary: p i aux)
  case (Cons v vs)
  show ?case
  proof (cases "p < br")
    case True
    from Cons.IH [of "p + iov_len v" "i + 1" "aux @ [v]"] Cons.prems obtain j where
      j: "j \<le> length vs" "analyze_loop br vs (p + iov_len v) (i + 1) (aux @ [v]) = (p + iov_len v + iov_bytes (take j vs), i + 1 + j, aux @ [v] @ take j vs)"
      "br \<le> p + iov_len v + iov_bytes (take j vs)" "j = 0 \<or> p + iov_len v + iov_bytes (take (j - 1) vs) < br" by auto
    have "p + iov_bytes (take j (v # vs)) < br" using j(4) True by (cases j) (auto simp: add.assoc)
    then show ?thesis using True j by (intro exI [of _ "Suc j"]) (auto simp: add.assoc)
  qed (auto intro!: exI [of _ 0])
qed auto

lemma iov_bytes_all_pages: "\<forall>v\<in>set vs. iov_ok v \<Longrightarrow> iov_bytes vs = length (all_pages vs) * PAGE_SIZE"
  by (simp add: all_pages_def iov_bytes_pages)

lemma analyze_iov_cases:
  assumes ok: "\<forall>v\<in>set vs. iov_ok v" and n: "0 < n" "n \<le> length (all_pages vs)"
  obtains (whole) j where "analyze_iov (n * PAGE_SIZE) vs aux = (j, aux @ take j vs, 0)" "j \<le> length vs" "take n (all_pages vs) = all_pages (take j vs)"
      "length (all_pages (take j vs)) = n"
  | (partial) j k where "analyze_iov (n * PAGE_SIZE) vs aux = (j, aux @ take j vs @ [(vs ! j)\<lparr>iov_len := k * PAGE_SIZE\<rparr>], k * PAGE_SIZE)" "j < length vs"
      "0 < k" "k * PAGE_SIZE < iov_len (vs ! j)" "take n (all_pages vs) = all_pages (take j vs) @ iov_pages \<lparr>iov_base = iov_base (vs ! j), iov_len = k * PAGE_SIZE\<rparr>"
proof -
  have okt: "\<forall>v\<in>set (take j vs). iov_ok v" for j using ok by (auto dest: in_set_takeD)
  have b: "iov_bytes (take j vs) = length (all_pages (take j vs)) * PAGE_SIZE" for j by (rule iov_bytes_all_pages [OF okt])
  have "n * PAGE_SIZE \<le> 0 + iov_bytes vs" using n(2) iov_bytes_all_pages [OF ok] by simp
  from analyze_loop_ok [OF this, of 0 aux] obtain i where i: "i \<le> length vs"
    "analyze_loop (n * PAGE_SIZE) vs 0 0 aux = (iov_bytes (take i vs), i, aux @ take i vs)" "n * PAGE_SIZE \<le> iov_bytes (take i vs)"
    "i = 0 \<or> iov_bytes (take (i - 1) vs) < n * PAGE_SIZE" by auto
  have ap: "all_pages vs = all_pages (take i vs) @ all_pages (drop i vs)" by (metis all_pages_simps(3) append_take_drop_id)
  show ?thesis
  proof (cases "iov_bytes (take i vs) = n * PAGE_SIZE")
    case True
    then have "length (all_pages (take i vs)) = n" using b by simp
    then show ?thesis using whole [of i] i ap True by (simp add: analyze_iov_def)
  next
    case False
    have i0: "i \<noteq> 0" using i(3) n(1) by (cases i) auto
    then obtain j where j: "i = Suc j" by (cases i) auto
    have jl: "j < length vs" using i(1) j by simp
    have ti: "take i vs = take j vs @ [vs ! j]" using jl j by (simp add: take_Suc_conv_app_nth)
    define k where "k = n - length (all_pages (take j vs))"
    have lo: "length (all_pages (take j vs)) < n" using i(4) i0 j b [of j] by simp
    have vj: "iov_ok (vs ! j)" using ok jl by simp
    have tot: "iov_bytes (take i vs) = length (all_pages (take j vs)) * PAGE_SIZE + iov_len (vs ! j)" by (simp add: ti b)
    have nk: "n * PAGE_SIZE = length (all_pages (take j vs)) * PAGE_SIZE + k * PAGE_SIZE"
      using lo by (simp add: k_def diff_mult_distrib)
    have kl: "k * PAGE_SIZE < iov_len (vs ! j)" using i(3) False tot nk by simp
    have part: "iov_len (vs ! j) - (iov_bytes (take i vs) - n * PAGE_SIZE) = k * PAGE_SIZE" using kl tot nk by simp
    have an: "analyze_iov (n * PAGE_SIZE) vs aux = (j, aux @ take j vs @ [(vs ! j)\<lparr>iov_len := k * PAGE_SIZE\<rparr>], k * PAGE_SIZE)"
      using i(2,3) False part j ti by (simp add: analyze_iov_def Let_def butlast_append)
    have pg: "iov_pages (vs ! j) = iov_pages \<lparr>iov_base = iov_base (vs ! j), iov_len = k * PAGE_SIZE\<rparr> @
        iov_pages \<lparr>iov_base = iov_base (vs ! j) + k * PAGE_SIZE, iov_len = iov_len (vs ! j) - k * PAGE_SIZE\<rparr>"
      using iov_pages_split [of k "iov_len (vs ! j)" "iov_base (vs ! j)"] kl by (simp add: iov_pages_def)
    have "take n (all_pages vs) = all_pages (take j vs) @ iov_pages \<lparr>iov_base = iov_base (vs ! j), iov_len = k * PAGE_SIZE\<rparr>"
      unfolding ap ti using lo pg by (simp add: k_def)
    then show ?thesis using partial [OF an jl _ kl] lo by (simp add: k_def)
  qed
qed

subsection \<open>The whole buffer\<close>

lemma iov_ok_nonempty: "iov_ok v \<Longrightarrow> iov_pages v \<noteq> []" "iov_ok v \<Longrightarrow> hd (iov_pages v) = iov_base v"
proof -
  assume "iov_ok v"
  then obtain k where k: "iov_len v = PAGE_SIZE * k" "0 < k" by (auto simp: iov_ok_def dvd_def)
  then have "[0..<iov_len v div PAGE_SIZE] = 0 # [1..<k]" by (simp add: upt_conv_Cons)
  then show "iov_pages v \<noteq> []" "hd (iov_pages v) = iov_base v" by (simp_all add: iov_pages_def)
qed

lemma iov_ok_page_le: "iov_ok v \<Longrightarrow> PAGE_SIZE \<le> iov_len v"
  by (auto simp: iov_ok_def dvd_def)

lemma length_page_bytes: "length (page_bytes m P) = length P * PAGE_SIZE"
  by (induction P) (simp_all add: page_bytes_def)

lemma filled_read_skip:
  assumes "\<forall>a\<in>set P. vm_reads sys t a" "\<not> vm_reads sys t b" "all_pages aux' = all_pages aux @ P" "\<forall>v\<in>set aux'. iov_ok v"
  shows "filled sys (P @ [b]) t buf aux (t + 1) (buf @ page_bytes (vm_mem sys t) P) aux'"
  unfolding filled_def using assms attempts_now [of t t "t + 1" "P @ [b]"] got_all [of P sys t]
  by (intro conjI exI [of _ "map (\<lambda>a. (a, t)) P @ [(b, t)]"]) auto

lemma handle_faulty_ok:
  assumes v: "iov_ok v" and room: "length buf + iov_len v \<le> BUFFER_SIZE + offset"
    and off: "offset = (if partial = 0 then PAGE_SIZE else partial)" "PAGE_SIZE dvd partial" "partial < iov_len v" "partial = 0 \<or> iov_len v \<noteq> PAGE_SIZE"
    and aux: "\<forall>v\<in>set aux. iov_ok v" "junk_ok junk (iov_pages \<lparr>iov_base = iov_base v + offset, iov_len = iov_len v - offset\<rparr>)"
  shows "\<exists>t' buf' aux'. handle_faulty_iov sys junk v t buf aux partial = Some (t', buf', aux') \<and>
    filled sys (iov_pages \<lparr>iov_base = iov_base v + offset, iov_len = iov_len v - offset\<rparr>) t buf aux t' buf' aux'"
proof (cases "iov_len v = PAGE_SIZE")
  case True
  then have "offset = iov_len v" using off by auto
  then show ?thesis using True filled_refl [OF aux(1)] by (simp add: handle_faulty_iov_def iov_pages_def)
next
  case False
  obtain k where "iov_len v = PAGE_SIZE * k" "0 < k" using v by (auto simp: iov_ok_def dvd_def)
  then have "PAGE_SIZE \<le> iov_len v" by simp
  then have le: "offset \<le> iov_len v" using off by auto
  have d: "PAGE_SIZE dvd offset" using off by auto
  have ar: "ul_add (iov_base v) offset = iov_base v + offset" "ul_sub (iov_len v) offset = iov_len v - offset"
    using v le by (simp_all add: iov_ok_def c_arith)
  have "\<exists>t' buf' aux'. faulty_loop sys junk (iov_base v + offset) (iov_len v - offset) t buf aux = Some (t', buf', aux') \<and>
    filled sys (iov_pages \<lparr>iov_base = iov_base v + offset, iov_len = iov_len v - offset\<rparr>) t buf aux t' buf' aux'"
    by (rule faulty_loop_ok) (use v le d room aux in \<open>auto simp: iov_ok_def dvd_diff_nat\<close>)
  then show ?thesis using False off(1) ar by (simp add: handle_faulty_iov_def Let_def split: if_splits)
qed

definition fill_result :: "vm_sys \<Rightarrow> iovec list \<Rightarrow> nat \<Rightarrow> byte list \<Rightarrow> iovec list \<Rightarrow> (int \<times> nat \<times> byte list \<times> iovec list) option \<Rightarrow> bool" where
  "fill_result sys vs t buf aux x \<longleftrightarrow>
     (\<exists>r t' buf' aux'. x = Some (r, t', buf', aux') \<and>
        (r = ESRCH \<and> (\<exists>u\<ge>t. u < t' \<and> vm_gone sys u) \<or> r = int (length buf') \<and> filled sys (all_pages vs) t buf aux t' buf' aux'))"

lemma fill_result_step:
  assumes "filled sys (all_pages us) t buf aux t1 buf1 aux1" "fill_result sys vs t1 buf1 aux1 x"
  shows "fill_result sys (us @ vs) t buf aux x"
proof -
  have le: "t \<le> t1" using assms(1) by (simp add: filled_def)
  obtain r t' buf' aux' where x: "x = Some (r, t', buf', aux')" and
    d: "r = ESRCH \<and> (\<exists>u\<ge>t1. u < t' \<and> vm_gone sys u) \<or> r = int (length buf') \<and> filled sys (all_pages vs) t1 buf1 aux1 t' buf' aux'"
    using assms(2) unfolding fill_result_def by blast
  from d show ?thesis
  proof
    assume "r = ESRCH \<and> (\<exists>u\<ge>t1. u < t' \<and> vm_gone sys u)"
    then show ?thesis using x le order_trans unfolding fill_result_def by blast
  next
    assume "r = int (length buf') \<and> filled sys (all_pages vs) t1 buf1 aux1 t' buf' aux'"
    then show ?thesis using x filled_trans [OF assms(1)] unfolding fill_result_def by simp
  qed
qed

lemma split_at: "j < length vs \<Longrightarrow> vs = take j vs @ [vs ! j] @ drop (Suc j) vs"
  by (simp add: id_take_nth_drop [symmetric])

lemma fill_loop_ok:
  assumes "\<forall>v\<in>set vs. iov_ok v" "length buf + iov_bytes vs \<le> BUFFER_SIZE" "\<forall>v\<in>set aux. iov_ok v" "junk_ok junk (all_pages vs)"
  shows "fill_result sys vs t buf aux (fill_loop sys junk vs t buf aux)"
  using assms
proof (induction "length vs" arbitrary: vs t buf aux rule: less_induct)
  case less
  show ?case
  proof (cases vs)
    case Nil
    then show ?thesis using filled_refl [OF less.prems(3)] by (subst fill_loop.simps) (simp add: fill_result_def)
  next
    case (Cons v ws)
    have ok: "iov_ok v" using less.prems(1) Cons by simp
    have ne: "all_pages vs \<noteq> []" using iov_ok_nonempty [OF ok] Cons by simp
    have room: "length (all_pages vs) * PAGE_SIZE \<le> BUFFER_SIZE - length buf"
      using less.prems(2) iov_bytes_all_pages [OF less.prems(1)] by simp
    have okj: "iov_ok (vs ! j)" if "j < length vs" for j using less.prems(1) that by simp
    have tb: "iov_bytes (take j vs) = length (all_pages (take j vs)) * PAGE_SIZE" for j
      using less.prems(1) by (intro iov_bytes_all_pages) (auto dest: in_set_takeD)
    have tail: "fill_result sys vs t buf aux (fill_loop sys junk (drop (Suc j) vs) t1 buf1 aux1)"
      if j: "j < length vs" and f: "filled sys (all_pages (take j vs) @ iov_pages (vs ! j)) t buf aux t1 buf1 aux1" for j t1 buf1 aux1
    proof -
      let ?us = "take j vs @ [vs ! j]" and ?ws = "drop (Suc j) vs"
      have vs: "vs = ?us @ ?ws" using split_at [OF j] by simp
      have pg: "filled sys (all_pages ?us) t buf aux t1 buf1 aux1" using f by simp
      have oku: "\<forall>v\<in>set ?us. iov_ok v" "\<forall>v\<in>set ?ws. iov_ok v" using less.prems(1) by (subst (asm) vs, simp)+
      have "length buf1 + iov_bytes ?ws \<le> BUFFER_SIZE"
        using filled_room [OF pg] iov_bytes_all_pages [OF oku(1)] less.prems(2) by (subst (asm) (3) vs) simp
      moreover have "junk_ok junk (all_pages ?ws)" using less.prems(4) by (subst (asm) vs) simp
      moreover have "\<forall>v\<in>set aux1. iov_ok v" using f by (simp add: filled_def)
      ultimately have "fill_result sys ?ws t1 buf1 aux1 (fill_loop sys junk ?ws t1 buf1 aux1)"
        using oku(2) j by (intro less.hyps) auto
      from fill_result_step [OF pg this] show ?thesis using vs by simp
    qed
    have faulty: "fill_result sys vs t buf aux (case handle_faulty_iov sys junk (vs ! j) (t + 1) buf1 aux1 partial of None \<Rightarrow> None
        | Some (t, buf, aux) \<Rightarrow> fill_loop sys junk (drop (j + 1) vs) t buf aux)"
      if j: "j < length vs" and off: "offset = (if partial = 0 then PAGE_SIZE else partial)" "PAGE_SIZE dvd partial" "partial < iov_len (vs ! j)"
        "partial = 0 \<or> iov_len (vs ! j) \<noteq> PAGE_SIZE" and rm: "length buf1 + iov_len (vs ! j) \<le> BUFFER_SIZE + offset"
        and f: "filled sys (all_pages (take j vs) @ iov_pages \<lparr>iov_base = iov_base (vs ! j), iov_len = offset\<rparr>) t buf aux (t + 1) buf1 aux1"
      for j partial offset buf1 aux1
    proof -
      have le: "PAGE_SIZE dvd offset" "offset \<le> iov_len (vs ! j)" using off(1,2,3) iov_ok_page_le [OF okj [OF j]] by auto
      have sp: "iov_pages (vs ! j) = iov_pages \<lparr>iov_base = iov_base (vs ! j), iov_len = offset\<rparr> @
          iov_pages \<lparr>iov_base = iov_base (vs ! j) + offset, iov_len = iov_len (vs ! j) - offset\<rparr>"
        using iov_pages_join [OF le(1), of "iov_base (vs ! j)" "iov_len (vs ! j) - offset"] le(2) by (simp add: iov_pages_def)
      have "junk_ok junk (iov_pages (vs ! j))" using less.prems(4) by (subst (asm) split_at [OF j]) simp
      then have jk: "junk_ok junk (iov_pages \<lparr>iov_base = iov_base (vs ! j) + offset, iov_len = iov_len (vs ! j) - offset\<rparr>)" unfolding sp by simp
      have ax: "\<forall>v\<in>set aux1. iov_ok v" using f by (simp add: filled_def)
      from handle_faulty_ok [OF okj [OF j] rm off ax jk, of sys "t + 1"] obtain t2 buf2 aux2 where
        h: "handle_faulty_iov sys junk (vs ! j) (t + 1) buf1 aux1 partial = Some (t2, buf2, aux2)"
        "filled sys (iov_pages \<lparr>iov_base = iov_base (vs ! j) + offset, iov_len = iov_len (vs ! j) - offset\<rparr>) (t + 1) buf1 aux1 t2 buf2 aux2" by blast
      from filled_trans [OF f h(2)] have "filled sys (all_pages (take j vs) @ iov_pages (vs ! j)) t buf aux t2 buf2 aux2" unfolding sp by simp
      from tail [OF j this] show ?thesis using h(1) by simp
    qed
    show ?thesis
    proof (rule readv_cases [OF ne room, of sys t], goal_cases fail some)
      case fail
      have v0: "vs ! 0 = v" "hd (all_pages vs) = iov_base v" using Cons iov_ok_nonempty [OF ok] by simp_all
      have sk: "filled sys [iov_base v] t buf aux (t + 1) buf aux" using fail(2) v0 less.prems(3) by (intro filled_skip) simp_all
      consider "iov_len v = PAGE_SIZE" | "iov_len v \<noteq> PAGE_SIZE" "vm_gone sys t" | "iov_len v \<noteq> PAGE_SIZE" "\<not> vm_gone sys t" by blast
      then show ?case
      proof cases
        case 1
        then have "iov_pages v = [iov_base v]" by (simp add: iov_pages_def)
        then have "fill_result sys vs t buf aux (fill_loop sys junk (drop (Suc 0) vs) (t + 1) buf aux)"
          using sk v0 Cons by (intro tail) simp_all
        then show ?thesis by (subst fill_loop.simps) (use 1 fail(1) Cons in simp)
      next
        case 2
        then show ?thesis by (subst fill_loop.simps) (use fail(1) Cons in \<open>auto simp: fill_result_def\<close>)
      next
        case 3
        have "fill_result sys vs t buf aux (case handle_faulty_iov sys junk (vs ! 0) (t + 1) buf aux 0 of None \<Rightarrow> None
            | Some (t, buf, aux) \<Rightarrow> fill_loop sys junk (drop (0 + 1) vs) t buf aux)"
          by (rule faulty [of 0 PAGE_SIZE 0]) (use Cons sk less.prems(2) ok in \<open>auto simp: iov_pages_one iov_ok_def\<close>)
        then show ?thesis by (subst fill_loop.simps) (use 3 fail(1) Cons in simp)
      qed
    next
      case (some n)
      let ?P = "all_pages vs" and ?r = "n * PAGE_SIZE"
      have r: "process_vm_readv sys t (BUFFER_SIZE - length buf) vs = (int ?r, page_bytes (vm_mem sys t) (take n ?P))" "0 < ?r"
        using some(1,2) by simp_all
      have step: "fill_loop sys junk vs t buf aux = (let (index, aux, partial) = analyze_iov ?r vs aux; buf = buf @ page_bytes (vm_mem sys t) (take n ?P)
         in case (if index < length vs then handle_faulty_iov sys junk (vs ! index) (t + 1) buf aux partial else Some (t + 1, buf, aux)) of
              None \<Rightarrow> None | Some (t, buf, aux) \<Rightarrow> fill_loop sys junk (drop (index + 1) vs) t buf aux)"
        by (subst fill_loop.simps) (use r Cons in \<open>simp del: of_nat_mult add: Let_def\<close>)
      show ?case
      proof (rule analyze_iov_cases [OF less.prems(1) some(2,3), of aux], goal_cases whole partial)
        case (whole j)
        let ?buf = "buf @ page_bytes (vm_mem sys t) (take n ?P)" and ?aux = "aux @ take j vs"
        have ax: "all_pages ?aux = all_pages aux @ take n ?P" "\<forall>v\<in>set ?aux. iov_ok v"
          using whole(3) less.prems(1,3) by (auto dest: in_set_takeD)
        show ?case
        proof (cases "j < length vs")
          case True
          have pv: "?P = all_pages (take j vs) @ iov_pages (vs ! j) @ all_pages (drop (Suc j) vs)" by (subst split_at [OF True]) simp
          have "n < length ?P" "?P ! n = iov_base (vs ! j)"
            unfolding pv whole(4) [symmetric] using iov_ok_nonempty [OF okj [OF True]] length_greater_0_conv [of "iov_pages (vs ! j)"]
            by (simp_all add: nth_append hd_conv_nth)
          then have f: "filled sys (all_pages (take j vs) @ iov_pages \<lparr>iov_base = iov_base (vs ! j), iov_len = PAGE_SIZE\<rparr>) t buf aux (t + 1) ?buf ?aux"
            using filled_read_skip [OF some(5) _ ax, of "iov_base (vs ! j)" buf] some(6) whole(3) by (simp add: iov_pages_one)
          have "iov_bytes (take j vs) + iov_len (vs ! j) \<le> iov_bytes vs" by (subst (3) split_at [OF True]) simp
          then have "length ?buf + iov_len (vs ! j) \<le> BUFFER_SIZE + PAGE_SIZE"
            using less.prems(2) whole(4) tb [of j] some(3) by (simp add: length_page_bytes)
          then show ?thesis unfolding step whole(1) using faulty [OF True _ _ _ _ _ f, of 0] True okj [OF True] by (simp add: iov_ok_def)
        next
          case False
          then have "take n ?P = ?P" "j = length vs" using whole(2,3) by simp_all
          then show ?thesis unfolding step whole(1) using filled_read [OF some(5) ax, of buf] by (simp add: fill_result_def fill_loop.simps)
        qed
      next
        case (partial j k)
        let ?buf = "buf @ page_bytes (vm_mem sys t) (take n ?P)" and ?v = "(vs ! j)\<lparr>iov_len := k * PAGE_SIZE\<rparr>"
        let ?aux = "aux @ take j vs @ [?v]"
        have pv: "iov_pages ?v = iov_pages \<lparr>iov_base = iov_base (vs ! j), iov_len = k * PAGE_SIZE\<rparr>" by (simp add: iov_pages_def)
        have "iov_ok ?v" using okj [OF partial(2)] partial(3,4) by (auto simp: iov_ok_def)
        then have ax: "all_pages ?aux = all_pages aux @ take n ?P" "\<forall>v\<in>set ?aux. iov_ok v"
          using partial(5) pv less.prems(1,3) by (auto dest: in_set_takeD)
        have f: "filled sys (all_pages (take j vs) @ iov_pages \<lparr>iov_base = iov_base (vs ! j), iov_len = k * PAGE_SIZE\<rparr>) t buf aux (t + 1) ?buf ?aux"
          using filled_read [OF some(5) ax, of buf] partial(5) by simp
        have n: "n = length (all_pages (take j vs)) + k" using arg_cong [OF partial(5), of length] some(3) by simp
        have "iov_bytes (take j vs) + iov_len (vs ! j) \<le> iov_bytes vs" by (subst (3) split_at [OF partial(2)]) simp
        then have "length ?buf + iov_len (vs ! j) \<le> BUFFER_SIZE + k * PAGE_SIZE"
          using less.prems(2) tb [of j] some(3) n by (simp add: length_page_bytes distrib_right)
        moreover have "iov_len (vs ! j) \<noteq> PAGE_SIZE" using partial(3,4) by (cases k) auto
        ultimately show ?case unfolding step partial(1)
          using faulty [OF partial(2) _ _ partial(4) _ _ f] partial(2,3,4) by auto
      qed
    qed
  qed
qed

text \<open>
  (C18) Reading the pages of a buffer of the page pipe from a task that keeps running, when they fit the user buffer: \<open>fill_userbuf\<close> always
  returns. Either the task had exited at one of the calls, or for every page of the buffer, in order, there is a call that decided
  about it: the auxiliary array describes exactly the pages that could be read at their call, and the user buffer has the bytes
  they had then. (The array must not happen to be preceded by a range that ends at one of the pages.)
\<close>

theorem fill_userbuf_correct:
  assumes "ppb_ok pp i" "pages_in (store pp i) \<le> PIPE_MAX_SIZE" "junk_ok junk (ppb_pages pp i)"
  shows "\<exists>r t' buf aux. fill_userbuf sys junk pp i t = Some (r, t', buf, aux) \<and>
    (r = ESRCH \<and> (\<exists>u\<ge>t. u < t' \<and> vm_gone sys u) \<or>
     r = int (length buf) \<and> (\<exists>L. attempts t t' (ppb_pages pp i) L \<and> buf = got_bytes sys L \<and> concat (map iov_pages aux) = got sys L))"
proof -
  have ok: "\<forall>v\<in>set (ppb_iovs pp i). iov_ok v" "length (ppb_pages pp i) \<le> PIPE_MAX_SIZE" using assms(1,2) by (auto simp: ppb_ok_def)
  have "iov_bytes (ppb_iovs pp i) \<le> BUFFER_SIZE"
    using iov_bytes_all_pages [OF ok(1)] ok(2) by (simp add: BUFFER_SIZE_def all_pages_def ppb_pages_def)
  then have "fill_result sys (ppb_iovs pp i) t [] [] (fill_userbuf sys junk pp i t)"
    unfolding fill_userbuf_def using ok(1) assms(3) by (intro fill_loop_ok) (simp_all add: all_pages_def ppb_pages_def)
  then show ?thesis unfolding fill_result_def filled_def all_pages_def ppb_pages_def by auto
qed

theorem fill_userbuf_correct_witness:
  "\<exists>r t' buf aux. fill_userbuf \<lparr>vm_mapped = (\<lambda>t a. a = 8192), vm_mem = (\<lambda>t a. of_nat a), vm_gone = (\<lambda>t. False)\<rparr> \<lparr>iov_base = 0, iov_len = 0\<rparr>
     demo_dump_pp 0 3 = Some (r, t', buf, aux) \<and> concat (map iov_pages aux) = [8192] \<and> length buf = 4096"
proof -
  let ?sys = "\<lparr>vm_mapped = (\<lambda>t a. a = 8192), vm_mem = (\<lambda>t a. of_nat a), vm_gone = (\<lambda>t. False)\<rparr>"
  have p: "ppb_pages demo_dump_pp 0 = [8192]" by (rule demo_dump_pages)
  have "ppb_ok demo_dump_pp 0" using demo_dump_ok(1) by (simp add: segs_ok_def)
  moreover have "pages_in (store demo_dump_pp 0) \<le> PIPE_MAX_SIZE" by (simp add: demo_dump_pp_def PIPE_MAX_SIZE_def PAGE_SIZE_def)
  moreover have "junk_ok \<lparr>iov_base = 0, iov_len = 0\<rparr> (ppb_pages demo_dump_pp 0)" by (simp add: p junk_ok_def ul_add_def)
  ultimately obtain r t' buf aux L where f: "fill_userbuf ?sys \<lparr>iov_base = 0, iov_len = 0\<rparr> demo_dump_pp 0 3 = Some (r, t', buf, aux)"
    and L: "attempts 3 t' [8192] L" "buf = got_bytes ?sys L" "concat (map iov_pages aux) = got ?sys L"
    using fill_userbuf_correct [of demo_dump_pp 0 "\<lparr>iov_base = 0, iov_len = 0\<rparr>" ?sys 3] unfolding p by (auto simp: ESRCH_def)
  have "map fst L = [8192]" using L(1) by (simp add: attempts_def)
  then obtain u where "L = [(8192, u)]" by (cases L) auto
  then have "got ?sys L = [8192]" by (simp add: got_def vm_reads_def)
  then show ?thesis using f L(2,3) length_got_bytes [of ?sys L] by (intro exI conjI) (auto simp: PAGE_SIZE_def)
qed

subsection \<open>A full user buffer\<close>

definition stuck :: "vm_sys \<Rightarrow> ulong \<Rightarrow> ulong \<Rightarrow> byte list \<Rightarrow> bool" where
  "stuck sys base len buf \<longleftrightarrow> (\<forall>u. \<not> vm_gone sys u) \<and> BUFFER_SIZE \<le> length buf \<and> base < ULONG_MOD \<and> 0 < len \<and> len < ULONG_MOD"

lemma faulty_loop_full: "stuck sys base len buf \<Longrightarrow> faulty_loop sys junk base len t buf aux = None"
proof (rule ccontr)
  assume s: "stuck sys base len buf" and "faulty_loop sys junk base len t buf aux \<noteq> None"
  then obtain y where y: "faulty_loop sys junk base len t buf aux = Some y" by auto
  have "\<not> stuck sys base len buf"
  proof (rule faulty_loop.raw_induct [OF _ y, where P = "\<lambda>sys junk base len t buf aux y. \<not> stuck sys base len buf"])
    fix loop sys junk base len t buf aux y
    assume IH: "\<And>sys junk base len t buf aux y. loop sys junk base len t buf aux = Some y \<Longrightarrow> \<not> stuck sys base len buf"
      and r: "(if len = 0 then Some (t, buf, aux)
        else let (r, bs) = process_vm_readv sys t (BUFFER_SIZE - length buf) [\<lparr>iov_base = base, iov_len = len\<rparr>]
             in if r = - 1 then loop sys junk (ul_add base PAGE_SIZE) (ul_sub len PAGE_SIZE) (t + 1) buf aux
                else loop sys junk (ul_add base (nat r)) (ul_sub len (nat r)) (t + 1) (buf @ bs) (aux_add junk aux base (nat r))) = Some y"
    show "\<not> stuck sys base len buf"
    proof
      assume s: "stuck sys base len buf"
      then have "process_vm_readv sys t (BUFFER_SIZE - length buf) [\<lparr>iov_base = base, iov_len = len\<rparr>] = (0, [])"
        by (simp add: stuck_def process_vm_readv_def readable_def page_bytes_def)
      moreover have "ul_add base 0 = base" "ul_sub len 0 = len" using s by (simp_all add: stuck_def ul_sub_exact)
      ultimately have "loop sys junk base len (t + 1) (buf @ []) (aux_add junk aux base 0) = Some y" using r s by (simp add: stuck_def)
      then show False using IH s by fastforce
    qed
  qed
  with s show False by blast
qed

text \<open>
  (C36) The user buffer has room for \<open>PIPE_MAX_SIZE\<close> pages while a pipe can have grown to more (\<open>ppb_resize_pipe\<close> doubles
  its size). On a buffer of the page pipe with one run of pages that is longer than the user buffer, of a task that
  stays alive, \<open>process_vm_readv\<close> fills the user buffer and then returns 0, and \<open>fill_userbuf\<close> never ends.
\<close>

theorem predump_full_buffer_loops:
  assumes "ppb_iovs pp i = [v]" "iov_ok v" "BUFFER_SIZE < iov_len v" "\<forall>t a. vm_mapped sys t a \<and> \<not> vm_gone sys t"
  shows "fill_userbuf sys junk pp i t = None"
proof -
  let ?n = PIPE_MAX_SIZE and ?P = "iov_pages v"
  have B: "BUFFER_SIZE div PAGE_SIZE = ?n" "0 < ?n" "BUFFER_SIZE = ?n * PAGE_SIZE" by (simp_all add: BUFFER_SIZE_def PIPE_MAX_SIZE_def PAGE_SIZE_def)
  have Bp: "0 < BUFFER_SIZE" by (simp add: BUFFER_SIZE_def PIPE_MAX_SIZE_def PAGE_SIZE_def)
  have len: "?n \<le> length ?P" using assms(3) B by (simp add: less_eq_div_iff_mult_less_eq)
  have "readable sys t BUFFER_SIZE [v] = take ?n ?P"
    using assms(4) by (simp add: readable_def B(1) takeWhile_eq_all_conv [THEN iffD2])
  moreover have "length (take ?n ?P) = ?n" using len by simp
  moreover have "take ?n ?P \<noteq> []" using len B(2) by (metis length_0_conv calculation(2) less_numeral_extra(3))
  ultimately have rv: "process_vm_readv sys t BUFFER_SIZE [v] = (int BUFFER_SIZE, page_bytes (vm_mem sys t) (take ?n ?P))"
    using assms(4) B(3) by (simp add: process_vm_readv_def Let_def del: length_take take_eq_Nil)
  have an: "analyze_iov BUFFER_SIZE [v] [] = (0, [v\<lparr>iov_len := BUFFER_SIZE\<rparr>], BUFFER_SIZE)"
    using assms(3) Bp by (simp add: analyze_iov_def)
  have "stuck sys (iov_base v + BUFFER_SIZE) (iov_len v - BUFFER_SIZE) (page_bytes (vm_mem sys t) (take ?n ?P))"
    using assms(2,3,4) len B(3) by (auto simp: stuck_def iov_ok_def length_page_bytes)
  moreover have "ul_add (iov_base v) BUFFER_SIZE = iov_base v + BUFFER_SIZE" "ul_sub (iov_len v) BUFFER_SIZE = iov_len v - BUFFER_SIZE"
    using assms(2,3) by (simp_all add: iov_ok_def c_arith)
  moreover have "iov_len v \<noteq> PAGE_SIZE" "BUFFER_SIZE \<noteq> 0" using assms(3) by (simp_all add: BUFFER_SIZE_def PIPE_MAX_SIZE_def PAGE_SIZE_def)
  ultimately have hf: "handle_faulty_iov sys junk v (t + 1) (page_bytes (vm_mem sys t) (take ?n ?P)) [v\<lparr>iov_len := BUFFER_SIZE\<rparr>] BUFFER_SIZE = None"
    by (simp add: handle_faulty_iov_def faulty_loop_full)
  show ?thesis
    unfolding fill_userbuf_def assms(1) by (subst fill_loop.simps) (use rv an hf Bp in \<open>simp add: Let_def\<close>)
qed

theorem predump_full_buffer_loops_witness:
  "fill_userbuf \<lparr>vm_mapped = (\<lambda>t a. True), vm_mem = (\<lambda>t a. 0), vm_gone = (\<lambda>t. False)\<rparr> \<lparr>iov_base = 0, iov_len = 0\<rparr>
     (demo_dump_pp\<lparr>iovs := [\<lparr>iov_base = 8192, iov_len = 1024 * 4096\<rparr>]\<rparr>) 0 0 = None"
  by (rule predump_full_buffer_loops [of _ _ "\<lparr>iov_base = 8192, iov_len = 1024 * 4096\<rparr>"])
     (simp_all add: ppb_iovs_def demo_dump_pp_def iov_ok_def PAGE_SIZE_def ULONG_MOD_def BUFFER_SIZE_def PIPE_MAX_SIZE_def)

end
