(* ===== verification/PageDump.thy ===== *)
theory PageDump
  imports PageXferCorrect PageReadClients
begin

unbundle bit_operations_syntax

text \<open>
  What a local dump leaves in the images. The operations of a dump come in the order of their addresses; each adds its entry to the
  pagemap and the bytes of its pages to the pages image, and a reader of these images gets for every dumped page the
  bytes it had, and for every hole what the parent has.
\<close>

subsection \<open>The order of the operations\<close>

definition before :: "iovec \<Rightarrow> iovec \<Rightarrow> bool" where
  "before a b \<longleftrightarrow> iov_end a \<le> iov_base b"

lemma before_trans: "before a b \<Longrightarrow> before b c \<Longrightarrow> before a c"
  by (simp add: before_def iov_end_def)

definition in_order :: "xop list \<Rightarrow> bool" where
  "in_order xs \<longleftrightarrow> sorted_wrt before (map op_range xs)"

lemma in_order_simps [simp]:
  "in_order []" "in_order (x # xs) \<longleftrightarrow> (\<forall>y\<in>set xs. before (op_range x) (op_range y)) \<and> in_order xs"
  "in_order (xs @ ys) \<longleftrightarrow> in_order xs \<and> in_order ys \<and> (\<forall>x\<in>set xs. \<forall>y\<in>set ys. before (op_range x) (op_range y))"
  by (auto simp: in_order_def sorted_wrt_append)

lemma in_order_holes [simp]: "in_order (map XHole hs) \<longleftrightarrow> sorted_wrt before hs"
  by (simp add: in_order_def comp_def)

lemma merge_ops_order:
  assumes "sorted_wrt before (map snd vs)" "sorted_wrt before hs" "\<forall>v\<in>set (map snd vs). 0 < iov_base v \<and> 0 < iov_len v"
    "\<forall>h\<in>set hs. 0 < iov_len h" "\<forall>v\<in>set (map snd vs). \<forall>h\<in>set hs. before v h \<or> before h v"
  shows "in_order (merge_ops vs hs)"
  using assms
proof (induction vs hs rule: merge_ops.induct)
  case (2 b v vs hs)
  let ?P = "\<lambda>h. iov_base v = 0 \<or> iov_base h < iov_base v"
  let ?l = "takeWhile ?P hs" and ?r = "dropWhile ?P hs"
  have hs: "hs = ?l @ ?r" by simp
  have v: "0 < iov_base v" "0 < iov_len v" using "2.prems"(3) by auto
  have sr: "sorted_wrt before ?l" "sorted_wrt before ?r" "\<forall>x\<in>set ?l. \<forall>y\<in>set ?r. before x y"
    using "2.prems"(2) hs sorted_wrt_append [of before ?l ?r] by simp_all
  have sub: "set ?l \<subseteq> set hs" "set ?r \<subseteq> set hs" by (auto dest: set_takeWhileD set_dropWhileD)
  have lv: "before h v" if "h \<in> set ?l" for h
  proof -
    have "iov_base h < iov_base v" using set_takeWhileD [OF that] v by simp
    moreover have "before v h \<or> before h v" using "2.prems"(5) that sub by auto
    ultimately show ?thesis using v(2) by (auto simp: before_def iov_end_def)
  qed
  have vr: "before v h" if h: "h \<in> set ?r" for h
  proof -
    have ne: "?r \<noteq> []" using length_pos_if_in_set [OF h] by (simp only: length_greater_0_conv not_False_eq_True)
    have "\<not> ?P (hd ?r)" by (rule hd_dropWhile [OF ne])
    moreover have "h = hd ?r \<or> before (hd ?r) h" using sr(2) h ne by (cases ?r) auto
    ultimately have "iov_base v \<le> iov_base h" by (auto simp: before_def iov_end_def)
    moreover have "before v h \<or> before h v" "0 < iov_len h" using "2.prems"(4,5) h sub by auto
    ultimately show ?thesis by (auto simp: before_def iov_end_def)
  qed
  have cross: "\<forall>u\<in>set (map snd vs). \<forall>h\<in>set ?r. before u h \<or> before h u"
  proof (intro ballI)
    fix u h assume "u \<in> set (map snd vs)" "h \<in> set ?r"
    then have "u \<in> set (map snd ((b, v) # vs))" "h \<in> set hs" using sub(2) by auto
    then show "before u h \<or> before h u" using "2.prems"(5) by blast
  qed
  have rest: "in_order (merge_ops vs ?r)" using "2.prems"(1,3,4) sr(2) sub(2) by (intro "2.IH" [OF _ _ _ _ cross]) auto
  have ranges: "op_range y \<in> snd ` set vs \<union> set ?r" if "y \<in> set (merge_ops vs ?r)" for y
    using that by (auto simp: merge_ops_set rev_image_eqI)
  have vy: "before v (op_range y)" if "y \<in> set (merge_ops vs ?r)" for y
    using ranges [OF that] vr "2.prems"(1) by auto
  have ly: "before h (op_range y)" if "h \<in> set ?l" "y \<in> set (merge_ops vs ?r)" for h y
    by (rule before_trans [OF lv [OF that(1)] vy [OF that(2)]])
  show ?case using sr(1) rest lv vy ly by auto
qed simp

text \<open>Ranges are in order when their pages are.\<close>

lemma iov_ok_pages:
  assumes "iov_ok v"
  shows "iov_base v \<in> set (iov_pages v)" "iov_end v - PAGE_SIZE \<in> set (iov_pages v)" "iov_base v + PAGE_SIZE \<le> iov_end v"
proof -
  obtain n where n: "iov_len v = PAGE_SIZE * n" "0 < n" using assms by (auto simp: iov_ok_def dvd_def)
  then have d: "iov_len v div PAGE_SIZE = n" by simp
  have "iov_base v = iov_base v + 0 * PAGE_SIZE" by simp
  then show "iov_base v \<in> set (iov_pages v)" unfolding iov_pages_def d using n(2) by (auto simp: image_iff)
  obtain k where k: "n = Suc k" using n(2) by (cases n) auto
  have "iov_end v - PAGE_SIZE = iov_base v + k * PAGE_SIZE" using n(1) k by (simp add: iov_end_def mult.commute)
  then show "iov_end v - PAGE_SIZE \<in> set (iov_pages v)" unfolding iov_pages_def d using k by auto
  show "iov_base v + PAGE_SIZE \<le> iov_end v" using n k by (simp add: iov_end_def)
qed

lemma before_pages:
  assumes "iov_ok a" "iov_ok b" "\<forall>p\<in>set (iov_pages a). \<forall>q\<in>set (iov_pages b). p < q"
  shows "before a b"
proof -
  have l: "iov_end a - PAGE_SIZE < iov_base b" using assms iov_ok_pages by blast
  have d: "PAGE_SIZE dvd iov_end a" "PAGE_SIZE dvd iov_base b" using assms(1,2) by (auto simp: iov_ok_def iov_end_def)
  then obtain x y where xy: "iov_end a = PAGE_SIZE * x" "iov_base b = PAGE_SIZE * y" by (auto simp: dvd_def)
  have "iov_end a - PAGE_SIZE = PAGE_SIZE * (x - 1)" by (simp add: xy right_diff_distrib')
  then have "x - 1 < y" using l xy by simp
  then show ?thesis using xy by (simp add: before_def)
qed

lemma sorted_pages_before:
  assumes "\<forall>v\<in>set vs. iov_ok v" "sorted_wrt (<) (concat (map iov_pages vs))"
  shows "sorted_wrt before vs"
  using assms
proof (induction vs)
  case (Cons v vs)
  then show ?case by (auto simp: sorted_wrt_append intro!: before_pages)
qed simp

text \<open>An address belongs to a range when its page does.\<close>

definition image_page :: "nat \<Rightarrow> nat" where
  "image_page a = a div PAGE_SIZE * PAGE_SIZE"

lemma image_page_range: "iov_ok v \<Longrightarrow> image_page a \<in> set (iov_pages v) \<longleftrightarrow> iov_base v \<le> a \<and> a < iov_end v"
proof -
  assume v: "iov_ok v"
  obtain b n where b: "iov_base v = b * PAGE_SIZE" and n: "iov_len v = n * PAGE_SIZE"
    using v by (auto simp: iov_ok_def dvd_def mult.commute)
  have "image_page a \<in> set (iov_pages v) \<longleftrightarrow> (\<exists>k<n. a div PAGE_SIZE * PAGE_SIZE = (b + k) * PAGE_SIZE)"
    by (auto simp: iov_pages_def image_page_def b n algebra_simps)
  also have "\<dots> \<longleftrightarrow> (\<exists>k<n. a div PAGE_SIZE = b + k)" by simp
  also have "\<dots> \<longleftrightarrow> b \<le> a div PAGE_SIZE \<and> a div PAGE_SIZE < b + n"
    by (auto intro: exI [of _ "a div PAGE_SIZE - b"])
  also have "\<dots> \<longleftrightarrow> iov_base v \<le> a \<and> a < iov_end v"
    by (simp add: b n iov_end_def less_eq_div_iff_mult_less_eq div_less_iff_less_mult distrib_right [symmetric])
  finally show ?thesis .
qed

lemma disjoint_before:
  assumes "iov_ok a" "iov_ok b" "set (iov_pages a) \<inter> set (iov_pages b) = {}"
  shows "before a b \<or> before b a"
proof (rule ccontr)
  assume "\<not> (before a b \<or> before b a)"
  then have n: "iov_base b < iov_end a" "iov_base a < iov_end b" by (auto simp: before_def)
  define x where "x = max (iov_base a) (iov_base b)"
  have "iov_base a \<le> x" "iov_base b \<le> x" "x < iov_end a" "x < iov_end b"
    using n iov_ok_pages(3) [OF assms(1)] iov_ok_pages(3) [OF assms(2)] by (auto simp: x_def PAGE_SIZE_def)
  then show False using image_page_range [OF assms(1), of x] image_page_range [OF assms(2), of x] assms(3) by blast
qed

text \<open>A page pipe whose pages and holes were added in the order of their addresses.\<close>

definition in_address_order :: "page_pipe \<Rightarrow> bool" where
  "in_address_order pp \<longleftrightarrow> sorted_wrt (<) (map fst (pp_pages pp)) \<and> sorted_wrt (<) (map fst (hole_pages pp)) \<and>
     fst ` set (pp_pages pp) \<inter> fst ` set (hole_pages pp) = {} \<and> (\<forall>a\<in>fst ` set (pp_pages pp). 0 < a)"

lemma pp_pages_segs: "map fst (pp_pages pp) = concat (map iov_pages (map snd (pp_segs pp)))"
proof -
  have "map fst (concat (map (\<lambda>i. map (\<lambda>a. (a, ppb_flags (store pp i))) (ppb_pages pp i)) ns))
      = concat (map iov_pages (map snd (concat (map (\<lambda>i. map (Pair (store pp i)) (ppb_iovs pp i)) ns))))" for ns
    by (induction ns) (simp_all add: ppb_pages_def comp_def)
  then show ?thesis by (simp add: pp_pages_def pp_segs_def)
qed

lemma hole_pages_holes: "holes_ok pp \<Longrightarrow> map fst (hole_pages pp) = concat (map iov_pages (pp_holes pp))"
proof -
  assume "holes_ok pp"
  then have "pp_holes pp = map (\<lambda>k. holes pp ! k) [0..<free_hole pp]"
    by (simp add: pp_holes_def holes_ok_def list_eq_iff_nth_eq)
  then show ?thesis by (simp add: hole_pages_def map_concat comp_def)
qed

lemma dump_ops_order:
  assumes ok: "segs_ok pp" "holes_ok pp" and ord: "in_address_order pp"
  shows "in_order (dump_ops pp)"
proof -
  have sv: "\<forall>v\<in>set (map snd (pp_segs pp)). iov_ok v" using ok(1) by (auto simp: pp_segs_def segs_ok_def ppb_ok_def)
  have hv: "\<forall>v\<in>set (pp_holes pp). iov_ok v" using ok(2) by (auto simp: pp_holes_def holes_ok_def in_set_conv_nth)
  have s: "sorted_wrt before (map snd (pp_segs pp))" "sorted_wrt before (pp_holes pp)"
    using ord sv hv by (auto simp: in_address_order_def pp_pages_segs hole_pages_holes [OF ok(2)] intro!: sorted_pages_before)
  have pg: "fst ` set (pp_pages pp) = (\<Union>v\<in>set (map snd (pp_segs pp)). set (iov_pages v))"
    using arg_cong [OF pp_pages_segs [of pp], of set] by simp
  have hg: "fst ` set (hole_pages pp) = (\<Union>v\<in>set (pp_holes pp). set (iov_pages v))"
    using arg_cong [OF hole_pages_holes [OF ok(2)], of set] by simp
  have x: "\<forall>v\<in>set (map snd (pp_segs pp)). \<forall>h\<in>set (pp_holes pp). before v h \<or> before h v"
  proof (intro ballI)
    fix v h assume vh: "v \<in> set (map snd (pp_segs pp))" "h \<in> set (pp_holes pp)"
    have "set (iov_pages v) \<inter> set (iov_pages h) = {}"
      using ord vh unfolding in_address_order_def pg hg by blast
    then show "before v h \<or> before h v" using vh sv hv by (intro disjoint_before) auto
  qed
  have p: "\<forall>v\<in>set (map snd (pp_segs pp)). 0 < iov_base v \<and> 0 < iov_len v"
  proof
    fix v assume v: "v \<in> set (map snd (pp_segs pp))"
    then have "iov_base v \<in> fst ` set (pp_pages pp)" using iov_ok_pages(1) sv unfolding pg by blast
    then show "0 < iov_base v \<and> 0 < iov_len v" using ord sv v by (auto simp: in_address_order_def iov_ok_def)
  qed
  have h: "\<forall>h\<in>set (pp_holes pp). 0 < iov_len h" using hv by (auto simp: iov_ok_def)
  show ?thesis unfolding dump_ops_merge by (rule merge_ops_order [OF s p h x])
qed

subsection \<open>What the operations write\<close>

definition op_entry :: "page_xfer \<Rightarrow> xop \<Rightarrow> pagemap_entry" where
  "op_entry xfer x = \<lparr>pe_vaddr = iov_base (op_range x) - x_offset xfer, nr_pages = iov_len (op_range x) div PAGE_SIZE,
     pe_flags = op_flags xfer x, has_flags = True, pe_in_parent = None\<rparr>"

text \<open>The bytes that the segments of the operations take from one pipe, and all the bytes that go to the image.\<close>

fun op_bytes :: "mem \<Rightarrow> xop \<Rightarrow> byte list" where
  "op_bytes m (XHole v) = []"
| "op_bytes m (XSeg b v) = mem_read m (iov_base v) (iov_len v)"

fun op_pipe :: "mem \<Rightarrow> nat \<Rightarrow> xop \<Rightarrow> byte list" where
  "op_pipe m p (XHole v) = []"
| "op_pipe m p (XSeg b v) = (if ppb_p b = p then mem_read m (iov_base v) (iov_len v) else [])"

fun op_present :: "page_xfer \<Rightarrow> xop \<Rightarrow> bool" where
  "op_present xfer (XHole v) \<longleftrightarrow> True"
| "op_present xfer (XSeg b v) \<longleftrightarrow> ppb_xfer_flags xfer b AND PE_PRESENT \<noteq> 0"

definition wrote :: "mem \<Rightarrow> xop list \<Rightarrow> page_xfer \<Rightarrow> page_xfer \<Rightarrow> bool" where
  "wrote m xs xfer xfer' \<longleftrightarrow>
     x_pmi xfer' = x_pmi xfer @ map (op_entry xfer) xs \<and> x_pi xfer' = x_pi xfer @ concat (map (op_bytes m) xs) \<and>
     x_offset xfer' = x_offset xfer \<and> transfer_lazy xfer' = transfer_lazy xfer \<and> \<not> x_server xfer' \<and>
     (\<forall>x\<in>set xs. x_offset xfer \<le> iov_base (op_range x))"

lemma wrote_Nil [simp]: "wrote m [] xfer xfer \<longleftrightarrow> \<not> x_server xfer"
  by (simp add: wrote_def)

lemma op_entry_cong: "x_offset a = x_offset b \<Longrightarrow> transfer_lazy a = transfer_lazy b \<Longrightarrow> op_entry a = op_entry b"
proof
  fix x assume "x_offset a = x_offset b" "transfer_lazy a = transfer_lazy b"
  then show "op_entry a x = op_entry b x" by (cases x) (simp_all add: op_entry_def ppb_xfer_flags_def)
qed

lemma wrote_append:
  assumes "wrote m xs a b" "wrote m ys b c"
  shows "wrote m (xs @ ys) a c"
  using assms op_entry_cong [of b a] by (simp add: wrote_def ball_Un)

lemma op_present_cong: "transfer_lazy a = transfer_lazy b \<Longrightarrow> op_present a x = op_present b x"
  by (cases x) (simp_all add: ppb_xfer_flags_def)

lemma write_pagemap_loc_pmi:
  assumes "write_pagemap_loc sys xfer iov flags = Done (0, xfer')"
  shows "x_pmi xfer' = x_pmi xfer @ [\<lparr>pe_vaddr = iov_base iov, nr_pages = iov_len iov div PAGE_SIZE mod 2 ^ 32, pe_flags = flags, has_flags = True,
    pe_in_parent = None\<rparr>]"
  using assms by (auto simp: write_pagemap_loc_def parent_checks_def Let_def bind_run_eq_Done split: if_splits option.splits)

lemma run_op_wrote:
  assumes "run_op sys xfer ks x = Done (0, xfer', ks')" "\<not> x_server xfer" "op_ok x" "op_present xfer x"
    and ks: "\<And>p. ks p = op_pipe m p x @ ext p"
  shows "wrote m [x] xfer xfer'" "ks' = ext"
proof -
  from run_op_local [OF assms(1,2)] obtain x1 where l: "write_pagemap_loc sys xfer (op_iov xfer x) (op_flags xfer x) = Done (0, x1)"
    "xfer' = x1\<lparr>x_pi := x_pi xfer @ op_take xfer x ks\<rparr>" "ks' = op_rest xfer x ks" "x_offset xfer \<le> iov_base (op_range x)" by metis
  have t: "op_take xfer x ks = op_bytes m x" "op_rest xfer x ks = ext" using assms(4) ks by (cases x; auto simp: fun_eq_iff)+
  have n: "iov_len (op_range x) div PAGE_SIZE mod 2 ^ 32 = iov_len (op_range x) div PAGE_SIZE" using assms(3) by (simp add: op_ok_def)
  show "ks' = ext" using l(3) t(2) by simp
  show "wrote m [x] xfer xfer'"
    using write_pagemap_loc_fields [OF l(1)] write_pagemap_loc_pmi [OF l(1)] assms(2) l(2,4)
    unfolding wrote_def by (simp add: t n op_iov_def op_entry_def del: power_numeral)
qed

lemma run_ops_wrote:
  assumes "run_ops sys xfer ks xs = Done (0, xfer', ks')" "\<not> x_server xfer" "\<forall>x\<in>set xs. op_ok x \<and> op_present xfer x"
    and ks: "\<And>p. ks p = concat (map (op_pipe m p) xs) @ ext p"
  shows "wrote m xs xfer xfer' \<and> ks' = ext"
  using assms
proof (induction xs arbitrary: xfer ks)
  case Nil
  then show ?case by (auto simp: fun_eq_iff)
next
  case (Cons x xs)
  obtain x1 k1 where l: "run_op sys xfer ks x = Done (0, x1, k1)" "run_ops sys x1 k1 xs = Done (0, xfer', ks')"
    using Cons.prems(1) by (auto simp: bind_run_eq_Done split: if_splits)
  have k: "ks p = op_pipe m p x @ (concat (map (op_pipe m p) xs) @ ext p)" for p using Cons.prems(4) [of p] by simp
  have w: "wrote m [x] xfer x1" "k1 = (\<lambda>p. concat (map (op_pipe m p) xs) @ ext p)"
    using run_op_wrote [OF l(1) Cons.prems(2) _ _ k] Cons.prems(3) by auto
  have "wrote m xs x1 xfer' \<and> ks' = ext"
    using Cons.prems(3) w op_present_cong [of x1 xfer]
    by (intro Cons.IH [OF l(2)]) (auto simp: wrote_def)
  then show ?case using wrote_append [OF w(1), of xs xfer'] by simp
qed

subsection \<open>Reading it back\<close>

lemma op_entry_range:
  assumes "op_ok x" "x_offset xfer \<le> iov_base (op_range x)"
  shows "pe_end (op_entry xfer x) = iov_end (op_range x) - x_offset xfer" "pagemap_len (op_entry xfer x) = iov_len (op_range x)"
    "covers (op_entry xfer x) a \<longleftrightarrow> iov_base (op_range x) \<le> a + x_offset xfer \<and> a + x_offset xfer < iov_end (op_range x)"
proof -
  have "PAGE_SIZE dvd iov_len (op_range x)" using assms(1) by (simp add: op_ok_def iov_ok_def)
  then show l: "pagemap_len (op_entry xfer x) = iov_len (op_range x)" by (simp add: pagemap_len_def op_entry_def)
  show e: "pe_end (op_entry xfer x) = iov_end (op_range x) - x_offset xfer"
    using assms(2) unfolding pe_end_def l by (simp add: op_entry_def iov_end_def)
  show "covers (op_entry xfer x) a \<longleftrightarrow> iov_base (op_range x) \<le> a + x_offset xfer \<and> a + x_offset xfer < iov_end (op_range x)"
    unfolding covers_def e using assms(2) by (auto simp: op_entry_def iov_end_def)
qed

lemma op_entry_vaddr: "pe_vaddr (op_entry xfer x) = iov_base (op_range x) - x_offset xfer"
  by (simp add: op_entry_def)

lemma op_entry_flags:
  "pagemap_in_parent (op_entry xfer x) \<longleftrightarrow> (\<exists>v. x = XHole v)"
  "op_present xfer x \<Longrightarrow> pagemap_present (op_entry xfer x) \<longleftrightarrow> (\<exists>b v. x = XSeg b v)"
  by (cases x; auto simp: op_entry_def pagemap_in_parent_def pagemap_present_def ppb_xfer_flags_def PE_PARENT_def PE_PRESENT_def PE_LAZY_def)+

definition readable_ops :: "page_xfer \<Rightarrow> xop list \<Rightarrow> bool" where
  "readable_ops xfer xs \<longleftrightarrow> in_order xs \<and> PAGE_SIZE dvd x_offset xfer \<and>
     (\<forall>x\<in>set xs. op_ok x \<and> op_present xfer x \<and> x_offset xfer \<le> iov_base (op_range x))"

lemma op_entries_wf:
  assumes "readable_ops xfer xs"
  shows "wf_pmes (map (op_entry xfer) xs)"
proof -
  have "wf_pe (op_entry xfer x)" if "x \<in> set xs" for x
  proof -
    have x: "op_ok x" "x_offset xfer \<le> iov_base (op_range x)" "op_present xfer x" using assms that by (auto simp: readable_ops_def)
    then have ok: "iov_ok (op_range x)" by (simp add: op_ok_def)
    obtain n where "iov_len (op_range x) = PAGE_SIZE * n" "0 < n" using ok by (auto simp: iov_ok_def dvd_def)
    then have "0 < nr_pages (op_entry xfer x)" by (simp add: op_entry_def)
    moreover have "PAGE_SIZE dvd pe_vaddr (op_entry xfer x)" using assms ok by (simp add: readable_ops_def op_entry_def iov_ok_def dvd_diff_nat)
    moreover have "pe_end (op_entry xfer x) < ULONG_MOD"
      using ok unfolding op_entry_range(1) [OF x(1,2)] by (auto simp: iov_ok_def iov_end_def)
    ultimately show ?thesis using op_entry_flags [of xfer x] x(3) by (auto simp: wf_pe_def)
  qed
  moreover have "sorted_wrt (\<lambda>a b. pe_end a \<le> pe_vaddr b) (map (op_entry xfer) xs)"
  proof -
    have "sorted_wrt (\<lambda>x y. before (op_range x) (op_range y)) xs" using assms by (simp add: readable_ops_def in_order_def sorted_wrt_map)
    then have "sorted_wrt (\<lambda>x y. pe_end (op_entry xfer x) \<le> pe_vaddr (op_entry xfer y)) xs"
      by (rule sorted_wrt_mono_rel [rotated])
         (use assms in \<open>auto simp: readable_ops_def op_entry_range(1) before_def op_entry_vaddr intro: diff_le_mono\<close>)
    then show ?thesis by (simp add: sorted_wrt_map)
  qed
  ultimately show ?thesis by (simp add: wf_pmes_def)
qed

lemma img_off_ops:
  assumes "\<forall>x\<in>set xs. op_ok x \<and> op_present xfer x \<and> x_offset xfer \<le> iov_base (op_range x)"
  shows "img_off (map (op_entry xfer) xs) k = length (concat (map (op_bytes m) (take k xs)))"
proof -
  have "stored (op_entry xfer x) = length (op_bytes m x)" if "x \<in> set xs" for x
    using assms that op_entry_flags(2) [of xfer x] op_entry_range(2) [of x xfer] by (cases x) (auto simp: stored_def)
  then show ?thesis
    by (auto simp: img_off_def take_map length_concat comp_def intro!: arg_cong [of _ _ sum_list] map_cong dest!: in_set_takeD)
qed

lemma nth_concat_take:
  "k < length xs \<Longrightarrow> i < length (f (xs ! k)) \<Longrightarrow> concat (map f xs) ! (length (concat (map f (take k xs))) + i) = f (xs ! k) ! i"
proof -
  assume k: "k < length xs" and i: "i < length (f (xs ! k))"
  have "concat (map f xs) = concat (map f (take k xs)) @ f (xs ! k) @ concat (map f (drop (Suc k) xs))"
    by (subst id_take_nth_drop [OF k]) simp
  then show ?thesis using i by (simp add: nth_append)
qed

lemma length_concat_take:
  "k < length xs \<Longrightarrow> length (concat (map f (take k xs))) + length (f (xs ! k)) \<le> length (concat (map f xs))"
  by (subst (3) id_take_nth_drop [of k xs]) simp_all

text \<open>The images of a list of operations, read as the newest snapshot of a chain.\<close>

lemma ops_byte_at:
  assumes r: "readable_ops xfer xs" and k: "k < length xs" and a: "iov_base (op_range (xs ! k)) \<le> a" "a < iov_end (op_range (xs ! k))"
  shows "byte_at ((map (op_entry xfer) xs, concat (map (op_bytes m) xs)) # ls) (a - x_offset xfer)
    = (case xs ! k of XSeg b v \<Rightarrow> Some (m a) | XHole v \<Rightarrow> byte_at ls (a - x_offset xfer))"
proof -
  let ?es = "map (op_entry xfer) xs" and ?x = "xs ! k"
  have x: "op_ok ?x" "op_present xfer ?x" "x_offset xfer \<le> iov_base (op_range ?x)" using r k by (auto simp: readable_ops_def)
  then have o: "x_offset xfer \<le> a" using a(1) by simp
  then have cov: "covers (?es ! k) (a - x_offset xfer)" using k a x by (simp add: op_entry_range(3))
  have "locate ?es 0 (a - x_offset xfer) = Some (?es ! k, 0 + img_off ?es k + ((a - x_offset xfer) - pe_vaddr (?es ! k)))"
    by (rule locate_nth [OF op_entries_wf [OF r] _ cov]) (simp add: k)
  moreover have "(a - x_offset xfer) - pe_vaddr (?es ! k) = a - iov_base (op_range ?x)"
    using k x(3) a(1) by (simp add: op_entry_def)
  moreover have "img_off ?es k = length (concat (map (op_bytes m) (take k xs)))"
    by (rule img_off_ops) (use r in \<open>simp add: readable_ops_def\<close>)
  ultimately have l: "locate ?es 0 (a - x_offset xfer)
      = Some (op_entry xfer ?x, length (concat (map (op_bytes m) (take k xs))) + (a - iov_base (op_range ?x)))" using k by simp
  show ?thesis
  proof (cases ?x)
    case (XHole v)
    then show ?thesis using l op_entry_flags(1) [of xfer ?x] by (simp del: length_concat)
  next
    case (XSeg b v)
    have i: "a - iov_base v < length (op_bytes m ?x)" using a XSeg by (auto simp: iov_end_def)
    have "op_bytes m ?x ! (a - iov_base v) = m a" using i a(1) XSeg by (simp add: mem_read_def)
    then show ?thesis
      using l op_entry_flags [of xfer ?x] x(2) XSeg nth_concat_take [OF k, of _ "op_bytes m"] length_concat_take [OF k, of "op_bytes m"] i
      by (simp del: length_concat op_bytes.simps)
  qed
qed

lemma ops_unmapped:
  assumes r: "readable_ops xfer xs" and a: "\<forall>x\<in>set xs. \<not> (iov_base (op_range x) \<le> a + x_offset xfer \<and> a + x_offset xfer < iov_end (op_range x))"
  shows "\<not> mapped (map (op_entry xfer) xs) a"
  using assms op_entry_range(3) by (auto simp: mapped_def readable_ops_def)

lemma ops_image_length:
  assumes r: "readable_ops xfer xs"
  shows "img_off (map (op_entry xfer) xs) (length xs) = length (concat (map (op_bytes m) xs))"
  using img_off_ops [of xs xfer "length xs" m] r by (simp add: readable_ops_def)

subsection \<open>Whole dumps\<close>

lemma page_bytes_append [simp]: "page_bytes m [] = []" "page_bytes m (xs @ ys) = page_bytes m xs @ page_bytes m ys"
  by (simp_all add: page_bytes_def)

lemma page_bytes_iov: "PAGE_SIZE dvd iov_len v \<Longrightarrow> page_bytes m (iov_pages v) = mem_read m (iov_base v) (iov_len v)"
proof -
  assume "PAGE_SIZE dvd iov_len v"
  then obtain n where n: "iov_len v = n * PAGE_SIZE" by (auto simp: dvd_def mult.commute)
  have "concat (map (\<lambda>k. mem_read m (iov_base v + k * PAGE_SIZE) PAGE_SIZE) [0..<n]) = mem_read m (iov_base v) (n * PAGE_SIZE)"
  proof (induction n)
    case (Suc n)
    then show ?case using mem_read_add [of m "iov_base v" "n * PAGE_SIZE" PAGE_SIZE] by (simp add: add.commute)
  qed (simp add: mem_read_def)
  then show ?thesis by (simp add: page_bytes_def iov_pages_def n comp_def)
qed

lemma op_pipe_merge: "concat (map (op_pipe m p) (merge_ops vs hs)) = concat (map (\<lambda>(b, v). op_pipe m p (XSeg b v)) vs)"
proof (induction vs hs rule: merge_ops.induct)
  case (2 b v vs hs)
  have "concat (map (op_pipe m p) (map XHole zs)) = []" for zs by (induction zs) auto
  then show ?case using 2 by simp
next
  case (1 hs)
  show ?case by (induction hs) auto
qed

text \<open>When each pipe holds the bytes of its pages, that is what the operations find there.\<close>

lemma dump_ops_pipes:
  assumes "segs_ok pp"
  shows "concat (map (op_pipe m p) (dump_ops pp)) = page_bytes m (pipe_pages pp p)"
proof -
  have "concat (map (\<lambda>(b, v). op_pipe m p (XSeg b v)) (concat (map (\<lambda>i. map (Pair (store pp i)) (ppb_iovs pp i)) ns)))
      = page_bytes m (concat (map (\<lambda>i. if ppb_p (store pp i) = p then ppb_pages pp i else []) ns))" if "set ns \<subseteq> set (bufs pp)" for ns
    using that
  proof (induction ns)
    case (Cons i ns)
    have "\<forall>v\<in>set (ppb_iovs pp i). iov_ok v" using assms Cons.prems by (auto simp: segs_ok_def ppb_ok_def)
    moreover have "concat (map (\<lambda>v. mem_read m (iov_base v) (iov_len v)) vs) = page_bytes m (concat (map iov_pages vs))"
      if "\<forall>v\<in>set vs. iov_ok v" for vs
      using that by (induction vs) (simp_all add: page_bytes_iov iov_ok_def)
    moreover have "concat (map (\<lambda>v. []) (vs :: iovec list)) = []" for vs by (induction vs) auto
    ultimately show ?case using Cons by (simp add: comp_def ppb_pages_def)
  qed simp
  then show ?thesis by (simp add: dump_ops_merge op_pipe_merge pp_segs_def pipe_pages_def)
qed

lemma dump_pages_wrote:
  assumes run: "page_xfer_dump_pages sys xfer pp ks = Done (0, xfer', ks')" and loc: "\<not> x_server xfer"
    and pp: "segs_ok pp" "holes_ok pp" "parent_holes pp" "small_ranges pp"
    and pres: "\<forall>i\<in>set (bufs pp). ppb_xfer_flags xfer (store pp i) AND PE_PRESENT \<noteq> 0"
    and ks: "\<And>p. ks p = page_bytes m (pipe_pages pp p)"
  shows "wrote m (dump_ops pp) xfer xfer'" "ks' = (\<lambda>_. [])" "\<forall>x\<in>set (dump_ops pp). op_ok x \<and> op_present xfer x"
proof -
  show ok: "\<forall>x\<in>set (dump_ops pp). op_ok x \<and> op_present xfer x"
    using dump_ops_ok [OF pp(1,2,4)] pres by (auto simp: dump_ops_set)
  have "ks p = concat (map (op_pipe m p) (dump_ops pp)) @ []" for p using ks by (simp add: dump_ops_pipes [OF pp(1)])
  from run_ops_wrote [OF run [unfolded dump_pages_ops [OF pp(2,3)]] loc ok this]
  show "wrote m (dump_ops pp) xfer xfer'" "ks' = (\<lambda>_. [])" by auto
qed

lemma dump_ops_pages:
  assumes "segs_ok pp" "holes_ok pp"
  shows "image_page a \<in> fst ` set (pp_pages pp) \<longleftrightarrow> (\<exists>b v. XSeg b v \<in> set (dump_ops pp) \<and> iov_base v \<le> a \<and> a < iov_end v)"
    "image_page a \<in> fst ` set (hole_pages pp) \<longleftrightarrow> (\<exists>v. XHole v \<in> set (dump_ops pp) \<and> iov_base v \<le> a \<and> a < iov_end v)"
proof -
  have "fst ` set (pp_pages pp) = (\<Union>v\<in>set (map snd (pp_segs pp)). set (iov_pages v))"
    using arg_cong [OF pp_pages_segs [of pp], of set] by simp
  also have "\<dots> = (\<Union>i\<in>set (bufs pp). \<Union>v\<in>set (ppb_iovs pp i). set (iov_pages v))" by (auto simp: pp_segs_def)
  finally show "image_page a \<in> fst ` set (pp_pages pp) \<longleftrightarrow> (\<exists>b v. XSeg b v \<in> set (dump_ops pp) \<and> iov_base v \<le> a \<and> a < iov_end v)"
    using assms(1) image_page_range by (auto simp: dump_ops_set segs_ok_def ppb_ok_def)
  have "fst ` set (hole_pages pp) = (\<Union>v\<in>set (pp_holes pp). set (iov_pages v))"
    using arg_cong [OF hole_pages_holes [OF assms(2)], of set] by simp
  moreover have "\<forall>v\<in>set (pp_holes pp). iov_ok v" using assms(2) by (auto simp: pp_holes_def holes_ok_def in_set_conv_nth)
  ultimately show "image_page a \<in> fst ` set (hole_pages pp) \<longleftrightarrow> (\<exists>v. XHole v \<in> set (dump_ops pp) \<and> iov_base v \<le> a \<and> a < iov_end v)"
    using image_page_range by (auto simp: dump_ops_set)
qed

text \<open>What a reader gets from the images of a sequence of operations.\<close>

lemma ops_read_back:
  assumes r: "readable_ops xfer xs" and a: "x_offset xfer \<le> a"
  shows "byte_at ((map (op_entry xfer) xs, concat (map (op_bytes m) xs)) # ls) (a - x_offset xfer)
    = (if \<exists>b v. XSeg b v \<in> set xs \<and> iov_base v \<le> a \<and> a < iov_end v then Some (m a)
       else if \<exists>v. XHole v \<in> set xs \<and> iov_base v \<le> a \<and> a < iov_end v then byte_at ls (a - x_offset xfer) else None)"
proof (cases "\<exists>x\<in>set xs. iov_base (op_range x) \<le> a \<and> a < iov_end (op_range x)")
  case True
  then obtain k where k: "k < length xs" "iov_base (op_range (xs ! k)) \<le> a" "a < iov_end (op_range (xs ! k))" by (auto simp: in_set_conv_nth)
  have uniq: "j = k" if "j < length xs" "iov_base (op_range (xs ! j)) \<le> a" "a < iov_end (op_range (xs ! j))" for j
    by (rule covers_unique [OF op_entries_wf [OF r], of j k "a - x_offset xfer"])
       (use that k a r in \<open>auto simp: readable_ops_def op_entry_range(3)\<close>)
  have seg: "(\<exists>b v. XSeg b v \<in> set xs \<and> iov_base v \<le> a \<and> a < iov_end v) \<longleftrightarrow> (\<exists>b v. xs ! k = XSeg b v)"
    using uniq k by (metis in_set_conv_nth op_range.simps(2))
  have hole: "(\<exists>v. XHole v \<in> set xs \<and> iov_base v \<le> a \<and> a < iov_end v) \<longleftrightarrow> (\<exists>v. xs ! k = XHole v)"
    using uniq k by (metis in_set_conv_nth op_range.simps(1))
  show ?thesis unfolding ops_byte_at [OF r k] seg hole by (cases "xs ! k") auto
next
  case False
  then have "\<not> mapped (map (op_entry xfer) xs) (a - x_offset xfer)" using a by (intro ops_unmapped [OF r]) auto
  moreover have "\<not> (\<exists>b v. XSeg b v \<in> set xs \<and> iov_base v \<le> a \<and> a < iov_end v)"
    "\<not> (\<exists>v. XHole v \<in> set xs \<and> iov_base v \<le> a \<and> a < iov_end v)" using False by (force, force)
  ultimately show ?thesis using locate_None [of "map (op_entry xfer) xs" 0 "a - x_offset xfer"]
    by (simp only: byte_at.simps option.case if_False simp_thms)
qed

lemma readable_dump_ops:
  assumes "segs_ok pp" "holes_ok pp" "in_address_order pp" "wrote m (dump_ops pp) xfer xfer'" "PAGE_SIZE dvd x_offset xfer"
    "\<forall>x\<in>set (dump_ops pp). op_ok x \<and> op_present xfer x"
  shows "readable_ops xfer (dump_ops pp)"
  using assms dump_ops_order [OF assms(1-3)] by (simp add: readable_ops_def wrote_def)

text \<open>
  (C2) The images of a local dump: when the pages and holes of the page pipe are in the order of their addresses and the
  kernel pipes hold the bytes of their pages, a dump that returns 0 leaves a well-formed pagemap, and a reader that has
  these images on top of the snapshots \<open>ls\<close> finds the dumped byte in every page of the pipe, the byte of the parent
  in every hole, and nothing elsewhere.
\<close>

theorem dump_images_correct:
  assumes run: "page_xfer_dump_pages sys xfer pp ks = Done (0, xfer', ks')" and loc: "\<not> x_server xfer"
    and empty: "x_pmi xfer = []" "x_pi xfer = []" "PAGE_SIZE dvd x_offset xfer"
    and pp: "segs_ok pp" "holes_ok pp" "parent_holes pp" "small_ranges pp" "in_address_order pp"
    and pres: "\<forall>i\<in>set (bufs pp). ppb_xfer_flags xfer (store pp i) AND PE_PRESENT \<noteq> 0"
    and ks: "\<forall>p. ks p = page_bytes m (pipe_pages pp p)"
  shows "wf_pmes (x_pmi xfer') \<and> img_off (x_pmi xfer') (length (x_pmi xfer')) = length (x_pi xfer') \<and>
    (\<forall>a\<ge>x_offset xfer. byte_at ((x_pmi xfer', x_pi xfer') # ls) (a - x_offset xfer) =
       (if image_page a \<in> fst ` set (pp_pages pp) then Some (m a)
        else if image_page a \<in> fst ` set (hole_pages pp) then byte_at ls (a - x_offset xfer) else None))"
proof -
  note w = dump_pages_wrote [OF run loc pp(1-4) pres ks [rule_format]]
  note r = readable_dump_ops [OF pp(1,2,5) w(1) empty(3) w(3)]
  have x: "x_pmi xfer' = map (op_entry xfer) (dump_ops pp)" "x_pi xfer' = concat (map (op_bytes m) (dump_ops pp))"
    using w(1) empty by (simp_all add: wrote_def)
  show ?thesis unfolding x dump_ops_pages [OF pp(1,2)]
    using op_entries_wf [OF r] ops_image_length [OF r] ops_read_back [OF r] by simp
qed

theorem dump_images_correct_witness:
  "\<exists>xfer'. page_xfer_dump_pages (demo_xfer_sys (demo_pr_sys\<lparr>auto_dedup := False\<rparr>)) empty_xfer demo_dump_pp (demo_pipes (\<lambda>a. of_nat a)) = Done (0, xfer', \<lambda>_. [])
    \<and> byte_at [(x_pmi xfer', x_pi xfer'), (demo_old, replicate 8192 1)] 8195 = Some 3
    \<and> byte_at [(x_pmi xfer', x_pi xfer'), (demo_old, replicate 8192 1)] 4100 = Some 1"
proof -
  let ?m = "\<lambda>a. of_nat a :: byte"
  let ?x = "empty_xfer\<lparr>x_pmi := demo_pagemap, x_pi := page_bytes ?m [8192]\<rparr>"
  have ks: "\<forall>p. demo_pipes ?m p = page_bytes ?m (pipe_pages demo_dump_pp p)"
    by (simp add: demo_pipes_def pipe_pages_def demo_dump_pages)
  have ord: "in_address_order demo_dump_pp" by (simp add: in_address_order_def demo_dump_pages)
  have em: "\<not> x_server empty_xfer" "x_pmi empty_xfer = []" "x_pi empty_xfer = []" "PAGE_SIZE dvd x_offset empty_xfer" "x_offset empty_xfer = 0"
    by (simp_all add: empty_xfer_def)
  have pres: "\<forall>i\<in>set (bufs demo_dump_pp). ppb_xfer_flags empty_xfer (store demo_dump_pp i) AND PE_PRESENT \<noteq> 0" by simp
  note d = demo_local_dump [of demo_pr_sys ?m]
  have b: "byte_at ((x_pmi ?x, x_pi ?x) # ls) a = (if image_page a = 8192 then Some (?m a) else if image_page a = 4096 then byte_at ls a else None)" for ls a
    using dump_images_correct [OF d em(1-4) demo_dump_ok ord pres ks] by (simp add: em(5) demo_dump_pages)
  have "image_page 8195 = 8192" "image_page 4100 = 4096" by (simp_all add: image_page_def PAGE_SIZE_def)
  moreover have "byte_at [(demo_old, replicate 8192 1)] 4100 = Some 1" by (simp add: demo_old_def demo_pe_simps)
  ultimately show ?thesis using d b [of "[(demo_old, replicate 8192 1)]" 8195] b [of "[(demo_old, replicate 8192 1)]" 4100]
    by (intro exI [of _ ?x]) simp
qed

end
