(* ===== verification/DumpBuild.thy ===== *)
theory DumpBuild
  imports PageDump
begin

unbundle bit_operations_syntax

text \<open>
  Dumping while the page pipe is filled. The dumpers of task memory and of shared memory add pages and holes to a page pipe in the
  order of their addresses; when the pipe is full they move its pages into the images and reuse it. \<open>building\<close> is what holds in
  between, for the sets of the pages and holes added so far.
\<close>

subsection \<open>What adding a page leaves alone\<close>

definition holes_of :: "page_pipe \<Rightarrow> u32 \<times> nat \<times> nat \<times> iovec list \<times> u32 list" where
  "holes_of pp = (pp_flags pp, nr_holes pp, free_hole pp, holes pp, hole_flags pp)"

definition pipes_of :: "page_pipe \<Rightarrow> nat set" where
  "pipes_of pp = (\<lambda>i. ppb_p (store pp i)) ` (set (bufs pp) \<union> set (free_bufs pp))"

lemma resize_keeps_pipe:
  assumes "ppb_resize_pipe sys b = Ret (r, b')"
  shows "ppb_p b' = ppb_p b"
  using assms by (auto simp: ppb_resize_pipe_def resize_pipe_def Let_def bind_outcome_eq_Ret split: if_splits)

lemma pipes_set_ppb: "ppb_p b = ppb_p (store pp i) \<Longrightarrow> pipes_of (set_ppb i b pp) = pipes_of pp"
  unfolding pipes_of_def by (rule image_cong) auto

lemma try_add_page_frame:
  assumes "try_add_page sys pp addr flags = Ret (r, pp')"
  shows "holes_of pp' = holes_of pp" "pipes_of pp' = pipes_of pp"
proof (atomize (full))
  let ?i = "last (bufs pp)"
  show "holes_of pp' = holes_of pp \<and> pipes_of pp' = pipes_of pp"
  proof (cases "ppb_flags (store pp ?i) = flags")
    case False
    then show ?thesis using assms by (auto simp: try_add_page_def try_add_page_to_def split: if_splits)
  next
    case True
    then obtain ret b where b: "ppb_resize_pipe sys (store pp ?i) = Ret (ret, b)"
      and r: "ret = 1 \<and> pp' = set_ppb ?i b pp \<or> (\<exists>pp1. add_page_iov (set_ppb ?i b pp) ?i addr = Ret pp1 \<and> pp' = pp1)"
      using assms by (auto simp: try_add_page_def try_add_page_to_def Let_def bind_outcome_eq_Ret split: if_splits)
    note p = pipes_set_ppb [OF resize_keeps_pipe [OF b]]
    from r show ?thesis
    proof
      assume "ret = 1 \<and> pp' = set_ppb ?i b pp"
      then show ?thesis using p by (simp add: holes_of_def)
    next
      assume "\<exists>pp1. add_page_iov (set_ppb ?i b pp) ?i addr = Ret pp1 \<and> pp' = pp1"
      then have a: "add_page_iov (set_ppb ?i b pp) ?i addr = Ret pp'" by blast
      have "pipes_of pp' = pipes_of (set_ppb ?i b pp)"
        unfolding pipes_of_def using add_page_iov_fields [OF a] by simp
      moreover have "holes_of pp' = holes_of pp" using a by (auto simp: add_page_iov_def holes_of_def Let_def split: if_splits)
      ultimately show ?thesis using p by simp
    qed
  qed
qed

lemma pipes_link: "next_ppb pp \<notin> set (bufs pp) \<union> set (free_bufs pp) \<Longrightarrow> ppb_link lazy pp flags b = (Some i, pp') \<Longrightarrow>
    pipes_of pp' = insert (ppb_p b) (pipes_of pp) \<and> holes_of pp' = holes_of pp"
proof -
  let ?A = "set (bufs pp) \<union> set (free_bufs pp)" and ?k = "next_ppb pp"
  assume k: "?k \<notin> ?A" and l: "ppb_link lazy pp flags b = (Some i, pp')"
  have "(\<lambda>j. ppb_p (((store pp)(?k := b)) j)) ` ?A = (\<lambda>j. ppb_p (store pp j)) ` ?A"
    by (rule image_cong) (use k in auto)
  then have "(\<lambda>j. ppb_p (((store pp)(?k := b)) j)) ` insert ?k ?A = insert (ppb_p b) (pipes_of pp)" by (simp add: pipes_of_def)
  moreover have "pp' = pp\<lparr>next_ppb := ?k + 1, store := (store pp)(?k := b), bufs := bufs pp @ [?k],
      prev := (prev pp)(ppb_type lazy flags \<mapsto> ?k)\<rparr>" using l by (auto simp: ppb_link_def pp_update_prev_ppb_def Let_def)
  ultimately show ?thesis by (simp add: pipes_of_def holes_of_def Un_commute)
qed

lemma ppb_alloc_frame:
  assumes a: "ppb_alloc sys lazy pp flags = Ret (p, pp')" and nx: "next_ppb pp \<notin> set (bufs pp) \<union> set (free_bufs pp)" and ok: "pipes_ok pp"
  shows "holes_of pp' = holes_of pp \<and> pipes_of pp' \<subseteq> pipes_of pp \<union> set_option (sys_pipe sys)"
proof (cases "pp' = pp")
  case False
  let ?prv = "pp_prev_ppb lazy pp flags"
  have prv: "i \<in> set (bufs pp)" if "?prv = Some i" for i
    using that ok by (auto simp: pp_prev_ppb_def pipes_ok_def split: if_splits)
  obtain reuse pp1 where r: "ppb_reuse sys pp ?prv = Ret (reuse, pp1)"
    using a False by (cases "ppb_reuse sys pp ?prv") (auto simp: ppb_alloc_def Let_def split: if_splits)
  have same: "pipes_of pp1 = pipes_of pp \<and> holes_of pp1 = holes_of pp \<and> next_ppb pp1 = next_ppb pp \<and> bufs pp1 = bufs pp \<and> free_bufs pp1 = free_bufs pp"
  proof (cases ?prv)
    case (Some i)
    then obtain ret b where "ppb_resize_pipe sys (store pp i) = Ret (ret, b)" "pp1 = set_ppb i b pp"
      using r by (auto simp: ppb_reuse_def bind_outcome_eq_Ret)
    then show ?thesis using resize_keeps_pipe pipes_set_ppb by (simp add: holes_of_def)
  qed (use r in \<open>simp add: ppb_reuse_def\<close>)
  show ?thesis
  proof (cases reuse)
    case True
    then obtain i where i: "?prv = Some i" using r by (auto simp: ppb_reuse_def split: option.splits)
    then have "ppb_p (store pp1 i) \<in> pipes_of pp1" using prv same by (auto simp: pipes_of_def)
    moreover define b where "b = \<lparr>ppb_p = ppb_p (store pp1 i), pipe_size = pipe_size (store pp1 i),
       pipe_off = pages_in (store pp1 i) + pipe_off (store pp1 i), pages_in = 0, nr_segs = 0, ppb_flags = 0, ppb_iov = 0\<rparr>"
    moreover have "ppb_p b = ppb_p (store pp1 i)" "ppb_link lazy pp1 flags b = (p, pp')"
      using a False r True i by (auto simp: ppb_alloc_def b_def Let_def split: if_splits)
    moreover have "\<exists>j. p = Some j" using calculation(4) by (auto simp: ppb_link_def Let_def)
    ultimately show ?thesis using pipes_link [of pp1 lazy flags b] nx same by auto
  next
    case no: False
    have nn: "next_ppb (pp1\<lparr>nr_pipes := k\<rparr>) \<notin> set (bufs (pp1\<lparr>nr_pipes := k\<rparr>)) \<union> set (free_bufs (pp1\<lparr>nr_pipes := k\<rparr>))" for k
      using nx same by simp
    have eq: "pipes_of (pp1\<lparr>nr_pipes := k\<rparr>) = pipes_of pp1" "holes_of (pp1\<lparr>nr_pipes := k\<rparr>) = holes_of pp1" for k
      by (simp_all add: pipes_of_def holes_of_def)
    show ?thesis
    proof (cases "sys_pipe sys")
      case None
      then show ?thesis using a False r no same by (auto simp: ppb_alloc_def Let_def split: if_splits)
    next
      case (Some q)
      define k where "k = nr_pipes pp1 + 1"
      define b where "b = \<lparr>ppb_p = q, pipe_size = nat (sys_getpipe_sz sys q div int PAGE_SIZE), pipe_off = 0, pages_in = 0, nr_segs = 0,
         ppb_flags = 0, ppb_iov = 0\<rparr>"
      have "ppb_p b = q" "ppb_link lazy (pp1\<lparr>nr_pipes := k\<rparr>) flags b = (p, pp')"
        using a False r no Some by (auto simp: ppb_alloc_def b_def k_def Let_def split: if_splits)
      moreover have "\<exists>j. p = Some j" using calculation(2) by (auto simp: ppb_link_def Let_def)
      ultimately show ?thesis using pipes_link [OF nn, of lazy k flags b] same eq Some by auto
    qed
  qed
qed simp

lemma page_pipe_grow_frame:
  assumes g: "page_pipe_grow sys lazy pp flags = Ret (r, pp')"
    and s: "next_ppb pp \<notin> set (bufs pp) \<union> set (free_bufs pp)" "free_bufs pp = [] \<longrightarrow> pipes_ok pp"
  shows "holes_of pp' = holes_of pp" "pipes_of pp' \<subseteq> pipes_of pp \<union> set_option (sys_pipe sys)"
proof (atomize (full), cases "free_bufs pp")
  case (Cons i fs)
  let ?pp = "pp\<lparr>free_bufs := fs, bufs := bufs pp @ [i]\<rparr>"
  have pp': "pp' = set_ppb i (ppb_init (store pp i) 0 0 flags (free_iov pp)) ?pp"
    using g Cons by (simp add: page_pipe_grow_def)
  have "pipes_of pp' = pipes_of ?pp" unfolding pp' by (rule pipes_set_ppb) (simp add: ppb_init_def)
  moreover have "pipes_of ?pp = pipes_of pp" unfolding pipes_of_def using Cons by (intro image_cong) auto
  ultimately show "holes_of pp' = holes_of pp \<and> pipes_of pp' \<subseteq> pipes_of pp \<union> set_option (sys_pipe sys)"
    by (simp add: pp' holes_of_def)
next
  case Nil
  show "holes_of pp' = holes_of pp \<and> pipes_of pp' \<subseteq> pipes_of pp \<union> set_option (sys_pipe sys)"
  proof (cases "pp' = pp")
    case False
    then obtain p pp1 where a: "ppb_alloc sys lazy pp flags = Ret (p, pp1)" and
      r: "(case p of None \<Rightarrow> pp' = pp1 | Some i \<Rightarrow> pp' = set_ppb i (ppb_init (store pp1 i) 0 0 flags (free_iov pp1)) pp1)"
      using g Nil by (auto simp: page_pipe_grow_def bind_outcome_eq_Ret split: if_splits option.splits)
    have "holes_of pp' = holes_of pp1 \<and> pipes_of pp' = pipes_of pp1"
      using r by (auto simp: holes_of_def ppb_init_def intro!: pipes_set_ppb split: option.splits)
    moreover have "holes_of pp1 = holes_of pp \<and> pipes_of pp1 \<subseteq> pipes_of pp \<union> set_option (sys_pipe sys)"
      by (rule ppb_alloc_frame [OF a s(1)]) (use s(2) Nil in simp)
    ultimately show ?thesis by simp
  qed simp
qed

lemma pp_inv_next: "pp_inv pp \<Longrightarrow> next_ppb pp \<notin> set (bufs pp) \<union> set (free_bufs pp)"
  by (auto simp: pp_inv_def segs_ok_def)

lemma add_page_frame:
  assumes a: "page_pipe_add_page sys lazy pp addr flags = Ret (r, pp')" and inv: "pp_inv pp" and sys: "setpipe_ok sys"
    and addr: "PAGE_SIZE dvd addr" "addr + PAGE_SIZE < ULONG_MOD"
  shows "holes_of pp' = holes_of pp" "pipes_of pp' \<subseteq> pipes_of pp \<union> set_option (sys_pipe sys)"
proof (atomize (full))
  obtain r1 pp1 where t: "try_add_page sys pp addr flags = Ret (r1, pp1)"
    using a by (cases "try_add_page sys pp addr flags") (auto simp: page_pipe_add_page_def)
  note f1 = try_add_page_frame [OF t]
  show "holes_of pp' = holes_of pp \<and> pipes_of pp' \<subseteq> pipes_of pp \<union> set_option (sys_pipe sys)"
  proof (cases "r1 \<le> 0")
    case True
    then show ?thesis using a t f1 by (simp add: page_pipe_add_page_def)
  next
    case False
    have room: "free_iov pp < nr_iovs pp \<or> try_add_page sys pp addr flags \<noteq> Bug" using t by simp
    have inv1: "pp_inv pp1"
    proof (cases rule: try_add_page_cases [OF inv sys addr room])
      case (1 n)
      then show ?thesis using t inv resized_size_ok by (auto simp: pp_inv_def)
    qed (use t inv in auto)
    obtain r2 pp2 where g: "page_pipe_grow sys lazy pp1 flags = Ret (r2, pp2)" and
      r: "r2 < 0 \<and> pp' = pp2 \<or> (\<exists>r3. try_add_page sys pp2 addr flags = Ret (r3, pp'))"
      using a t False by (auto simp: page_pipe_add_page_def bind_outcome_eq_Ret split: if_splits)
    note f2 = page_pipe_grow_frame [OF g pp_inv_next [OF inv1]]
    have "holes_of pp2 = holes_of pp \<and> pipes_of pp2 \<subseteq> pipes_of pp \<union> set_option (sys_pipe sys)"
      using f1 f2 inv1 by (simp add: pp_inv_def)
    then show ?thesis using r
    proof (elim disjE exE)
      fix r3 assume "try_add_page sys pp2 addr flags = Ret (r3, pp')"
      from try_add_page_frame [OF this] show ?thesis
        using \<open>holes_of pp2 = holes_of pp \<and> pipes_of pp2 \<subseteq> pipes_of pp \<union> set_option (sys_pipe sys)\<close> by simp
    qed simp
  qed
qed

lemma add_hole_frame:
  assumes "page_pipe_add_hole r1 r2 pad pp addr flags = (r, pp')"
  shows "bufs pp' = bufs pp" "free_bufs pp' = free_bufs pp" "store pp' = store pp" "pp_flags pp' = pp_flags pp" "iovs pp' = iovs pp"
    "free_iov pp' = free_iov pp" "nr_iovs pp' = nr_iovs pp" "prev pp' = prev pp" "next_ppb pp' = next_ppb pp"
proof -
  have pp': "pp' = snd (page_pipe_add_hole r1 r2 pad pp addr flags)" by (simp add: assms)
  note d = page_pipe_add_hole_def add_hole_room_def Let_def
  show "bufs pp' = bufs pp" by (simp add: pp' d)
  show "free_bufs pp' = free_bufs pp" by (simp add: pp' d)
  show "store pp' = store pp" by (simp add: pp' d)
  show "pp_flags pp' = pp_flags pp" by (simp add: pp' d)
  show "iovs pp' = iovs pp" by (simp add: pp' d)
  show "free_iov pp' = free_iov pp" by (simp add: pp' d)
  show "nr_iovs pp' = nr_iovs pp" by (simp add: pp' d)
  show "prev pp' = prev pp" by (simp add: pp' d)
  show "next_ppb pp' = next_ppb pp" by (simp add: pp' d)
qed

lemma add_hole_pages:
  assumes "page_pipe_add_hole r1 r2 pad pp addr flags = (r, pp')"
  shows "pp_pages pp' = pp_pages pp" "pp_inv pp' = pp_inv pp" "pipes_of pp' = pipes_of pp" "ppb_pages pp' i = ppb_pages pp i" "ppb_iovs pp' i = ppb_iovs pp i"
proof -
  note f = add_hole_frame [OF assms]
  show iv: "ppb_iovs pp' i = ppb_iovs pp i" for i by (simp add: ppb_iovs_def f)
  show pg: "ppb_pages pp' i = ppb_pages pp i" for i by (simp add: ppb_pages_def iv)
  show "pp_pages pp' = pp_pages pp" by (simp add: pp_pages_def pg f)
  show "pipes_of pp' = pipes_of pp" by (simp add: pipes_of_def f)
  have "contiguous pp' a ns = contiguous pp a ns" for a ns by (rule contiguous_cong) (simp_all add: f)
  then have "segs_ok pp' = segs_ok pp" by (simp add: segs_ok_def ppb_ok_def iv pg f)
  moreover have "level pp' = level pp" unfolding level_def f(3) ..
  moreover have "off_ok pp' ns = off_ok pp ns" for ns by (rule off_ok_cong) (simp_all add: f)
  ultimately show "pp_inv pp' = pp_inv pp" by (simp add: pp_inv_def size_ok_def pipes_ok_def f)
qed

subsection \<open>The state of a dump\<close>

text \<open>
  Of the kernel: setting and reading the size of a pipe behave as documented at every call, and \<open>pipe\<close> never returns the same pipe
  twice. The calls are numbered.
\<close>

definition pipe_calls_ok :: "(nat \<Rightarrow> pp_sys) \<Rightarrow> bool" where
  "pipe_calls_ok psys \<longleftrightarrow> (\<forall>k. setpipe_ok (psys k)) \<and> (\<forall>k p. int PAGE_SIZE \<le> sys_getpipe_sz (psys k) p) \<and>
     (\<forall>j k p. sys_pipe (psys j) = Some p \<longrightarrow> sys_pipe (psys k) = Some p \<longrightarrow> j = k)"

definition known_pipes :: "(nat \<Rightarrow> pp_sys) \<Rightarrow> nat \<Rightarrow> nat set" where
  "known_pipes psys n = {p. \<exists>k<n. sys_pipe (psys k) = Some p}"

lemma known_pipes_Suc: "known_pipes psys (Suc n) = known_pipes psys n \<union> set_option (sys_pipe (psys n))"
  by (auto simp: known_pipes_def less_Suc_eq)

lemma known_sys_ok: "pipe_calls_ok psys \<Longrightarrow> pipes_of pp \<subseteq> known_pipes psys n \<Longrightarrow> pp_sys_ok (psys n) pp"
proof -
  assume ok: "pipe_calls_ok psys" and k: "pipes_of pp \<subseteq> known_pipes psys n"
  have "ppb_p (store pp i) \<noteq> p" if p: "sys_pipe (psys n) = Some p" and i: "i \<in> set (bufs pp) \<union> set (free_bufs pp)" for p i
  proof
    assume e: "ppb_p (store pp i) = p"
    have "ppb_p (store pp i) \<in> pipes_of pp" unfolding pipes_of_def by (rule imageI [OF i])
    then obtain j where j: "j < n" "sys_pipe (psys j) = Some p" using k e by (auto simp: known_pipes_def)
    have "j = n" using ok p j(2) unfolding pipe_calls_ok_def by blast
    then show False using j(1) by simp
  qed
  then show ?thesis using ok unfolding pp_sys_ok_def pipe_calls_ok_def by blast
qed

definition seg_at :: "xop list \<Rightarrow> nat \<Rightarrow> bool" where
  "seg_at xs a \<longleftrightarrow> (\<exists>b v. XSeg b v \<in> set xs \<and> iov_base v \<le> a \<and> a < iov_end v)"

definition hole_at :: "xop list \<Rightarrow> nat \<Rightarrow> bool" where
  "hole_at xs a \<longleftrightarrow> (\<exists>v. XHole v \<in> set xs \<and> iov_base v \<le> a \<and> a < iov_end v)"

lemma at_simps [simp]:
  "\<not> seg_at [] a" "\<not> hole_at [] a" "seg_at (xs @ ys) a \<longleftrightarrow> seg_at xs a \<or> seg_at ys a" "hole_at (xs @ ys) a \<longleftrightarrow> hole_at xs a \<or> hole_at ys a"
  by (auto simp: seg_at_def hole_at_def)

text \<open>
  \<open>dumped\<close>: the images have the pages \<open>D\<close> and the holes \<open>H\<close>, all below \<open>lim\<close>. \<open>building\<close>: so have the images together with what is in the page pipe, of
  which the images have what is below some address.
\<close>

definition dumped :: "mem \<Rightarrow> page_xfer \<Rightarrow> nat set \<Rightarrow> nat set \<Rightarrow> nat \<Rightarrow> page_xfer \<Rightarrow> bool" where
  "dumped m x0 D H lim xfer \<longleftrightarrow>
     (\<exists>xs. wrote m xs x0 xfer \<and> readable_ops x0 xs \<and> (\<forall>x\<in>set xs. iov_end (op_range x) \<le> lim) \<and>
        (\<forall>a. image_page a \<in> D \<longleftrightarrow> seg_at xs a) \<and> (\<forall>a. image_page a \<in> H \<longleftrightarrow> hole_at xs a))"

definition page_set :: "page_pipe \<Rightarrow> nat set" where
  "page_set pp = fst ` set (pp_pages pp)"

definition hole_set :: "page_pipe \<Rightarrow> nat set" where
  "hole_set pp = fst ` set (hole_pages pp)"

definition pipe_state :: "(nat \<Rightarrow> pp_sys) \<Rightarrow> nat \<Rightarrow> nat \<Rightarrow> nat \<Rightarrow> nat \<Rightarrow> page_pipe \<Rightarrow> bool" where
  "pipe_state psys n c lim cnt pp \<longleftrightarrow>
     pp_inv pp \<and> holes_ok pp \<and> parent_holes pp \<and> pipes_of pp \<subseteq> known_pipes psys n \<and> in_address_order pp \<and>
     (\<forall>a\<in>page_set pp \<union> hole_set pp. c \<le> a \<and> a + PAGE_SIZE \<le> lim) \<and> length (pp_pages pp) \<le> cnt \<and> length (hole_pages pp) \<le> cnt"

definition building :: "(nat \<Rightarrow> pp_sys) \<Rightarrow> mem \<Rightarrow> page_xfer \<Rightarrow> nat set \<Rightarrow> nat set \<Rightarrow> nat \<Rightarrow> nat \<Rightarrow> nat \<Rightarrow> page_pipe \<Rightarrow> page_xfer \<Rightarrow> bool" where
  "building psys m x0 D H lim cnt n pp xfer \<longleftrightarrow>
     (\<exists>c D' H'. c \<le> lim \<and> dumped m x0 D' H' c xfer \<and> pipe_state psys n c lim cnt pp \<and> D = D' \<union> page_set pp \<and> H = H' \<union> hole_set pp)"

lemma pipe_state_bounds:
  assumes "pipe_state psys n c lim cnt pp" "lim \<le> addr"
  shows "\<forall>a\<in>page_set pp \<union> hole_set pp. a < addr \<and> c \<le> a \<and> a + PAGE_SIZE \<le> lim"
proof
  fix a assume "a \<in> page_set pp \<union> hole_set pp"
  then have "c \<le> a" "a + PAGE_SIZE \<le> lim" using assms(1) unfolding pipe_state_def by blast+
  then show "a < addr \<and> c \<le> a \<and> a + PAGE_SIZE \<le> lim" using assms(2) PAGE_SIZE_pos by linarith
qed

lemma pipe_state_mono:
  assumes "pipe_state psys n c lim cnt pp" "lim \<le> lim'"
  shows "pipe_state psys n c lim' cnt pp"
proof -
  have "\<forall>a\<in>page_set pp \<union> hole_set pp. c \<le> a \<and> a + PAGE_SIZE \<le> lim'" using pipe_state_bounds [OF assms(1) order_refl] assms(2) order_trans by blast
  then show ?thesis using assms(1) unfolding pipe_state_def by blast
qed

lemma building_mono: "building psys m x0 D H lim cnt n pp xfer \<Longrightarrow> lim \<le> lim' \<Longrightarrow> building psys m x0 D H lim' cnt n pp xfer"
  unfolding building_def using pipe_state_mono order_trans by blast

lemma in_address_order_snoc:
  assumes "in_address_order pp" "pp_pages pp' = pp_pages pp @ [(addr, f)]" "hole_pages pp' = hole_pages pp"
    "\<forall>a\<in>page_set pp \<union> hole_set pp. a < addr" "0 < addr"
  shows "in_address_order pp'"
  using assms by (auto simp: in_address_order_def sorted_wrt_append page_set_def hole_set_def)

lemma in_address_order_hole:
  assumes "in_address_order pp" "hole_pages pp' = hole_pages pp @ [(addr, f)]" "pp_pages pp' = pp_pages pp"
    "\<forall>a\<in>page_set pp \<union> hole_set pp. a < addr"
  shows "in_address_order pp'"
  using assms by (auto simp: in_address_order_def sorted_wrt_append page_set_def hole_set_def)

lemma holes_of_same: "holes_of pp' = holes_of pp \<Longrightarrow> holes_ok pp' = holes_ok pp \<and> parent_holes pp' = parent_holes pp \<and> hole_pages pp' = hole_pages pp \<and>
    pp_flags pp' = pp_flags pp"
  by (simp add: holes_of_def holes_ok_def parent_holes_def hole_pages_def)

lemma pipe_state_page:
  assumes st: "pipe_state psys n c lim cnt pp" and ok: "pipe_calls_ok psys" and cl: "c \<le> lim"
    and a: "page_pipe_add_page (psys n) lazy pp addr flags = Ret (r, pp')"
    and addr: "lim \<le> addr" "PAGE_SIZE dvd addr" "0 < addr" "addr + PAGE_SIZE < ULONG_MOD"
  shows "r = 0 \<and> pipe_state psys (Suc n) c (addr + PAGE_SIZE) (Suc cnt) pp' \<and> page_set pp' = insert addr (page_set pp) \<and> hole_set pp' = hole_set pp \<or>
    r < 0 \<and> pipe_state psys (Suc n) c lim cnt pp' \<and> page_set pp' = page_set pp \<and> hole_set pp' = hole_set pp"
    "pp_flags pp' = pp_flags pp"
proof -
  have inv: "pp_inv pp" "pipes_of pp \<subseteq> known_pipes psys n" using st by (auto simp: pipe_state_def)
  have sp: "setpipe_ok (psys n)" using ok by (simp add: pipe_calls_ok_def)
  note f = add_page_frame [OF a inv(1) sp addr(2,4)]
  note h = holes_of_same [OF f(1)]
  show "pp_flags pp' = pp_flags pp" using h by simp
  have p: "pp_inv pp' \<and> (r = 0 \<and> pp_pages pp' = pp_pages pp @ [(addr, flags)] \<or> r < 0 \<and> pp_pages pp' = pp_pages pp)"
    using page_pipe_add_page_ok [OF inv(1) known_sys_ok [OF ok inv(2)] addr(2,4), of lazy flags] a by auto
  have k: "pipes_of pp' \<subseteq> known_pipes psys (Suc n)" using f(2) inv(2) by (auto simp: known_pipes_Suc)
  have hs: "hole_set pp' = hole_set pp" using h by (simp add: hole_set_def)
  have lt: "\<forall>a\<in>page_set pp \<union> hole_set pp. a < addr \<and> c \<le> a \<and> a + PAGE_SIZE \<le> lim"
    by (rule pipe_state_bounds [OF st addr(1)])
  show "r = 0 \<and> pipe_state psys (Suc n) c (addr + PAGE_SIZE) (Suc cnt) pp' \<and> page_set pp' = insert addr (page_set pp) \<and> hole_set pp' = hole_set pp \<or>
    r < 0 \<and> pipe_state psys (Suc n) c lim cnt pp' \<and> page_set pp' = page_set pp \<and> hole_set pp' = hole_set pp"
  proof (cases "r = 0")
    case True
    then have pg: "pp_pages pp' = pp_pages pp @ [(addr, flags)]" using p by simp
    then have ps: "page_set pp' = insert addr (page_set pp)" by (simp add: page_set_def)
    have "in_address_order pp'"
      by (rule in_address_order_snoc [OF _ pg]) (use st h lt addr(3) in \<open>auto simp: pipe_state_def\<close>)
    moreover have "\<forall>a\<in>page_set pp' \<union> hole_set pp'. c \<le> a \<and> a + PAGE_SIZE \<le> addr + PAGE_SIZE"
      using lt addr(1) cl unfolding ps hs by (auto intro: less_imp_le)
    moreover have "length (pp_pages pp') \<le> Suc cnt" "length (hole_pages pp') \<le> Suc cnt" using st pg h by (auto simp: pipe_state_def)
    ultimately have "pipe_state psys (Suc n) c (addr + PAGE_SIZE) (Suc cnt) pp'"
      using st p h k by (simp add: pipe_state_def)
    then show ?thesis using True ps hs by blast
  next
    case False
    then have pg: "pp_pages pp' = pp_pages pp" "r < 0" using p by auto
    have ps: "page_set pp' = page_set pp" using pg by (simp add: page_set_def)
    have "in_address_order pp'" using st pg h by (simp add: pipe_state_def in_address_order_def)
    then have "pipe_state psys (Suc n) c lim cnt pp'"
      using st p h k pg unfolding pipe_state_def ps hs by simp
    then show ?thesis using pg ps hs by blast
  qed
qed

lemma parent_holes_add:
  assumes "page_pipe_add_hole r1 r2 pad pp addr PP_HOLE_PARENT = (0, pp')" "parent_holes pp" "holes_ok pp"
    "PP_HOLES_BATCH \<le> length (fst pad)" "PP_HOLES_BATCH \<le> length (snd pad)"
  shows "parent_holes pp'"
  using assms
  by (auto simp: page_pipe_add_hole_def add_hole_room_def parent_holes_def holes_ok_def Let_def nth_append nth_list_update less_Suc_eq PP_HOLES_BATCH_def
      split: if_splits)

lemma pipe_state_hole:
  assumes st: "pipe_state psys n c lim cnt pp" and cl: "c \<le> lim"
    and a: "page_pipe_add_hole r1 r2 pad pp addr PP_HOLE_PARENT = (0, pp')"
    and pad: "PP_HOLES_BATCH \<le> length (fst pad)" "PP_HOLES_BATCH \<le> length (snd pad)"
    and addr: "lim \<le> addr" "PAGE_SIZE dvd addr" "addr + PAGE_SIZE < ULONG_MOD"
  shows "pipe_state psys n c (addr + PAGE_SIZE) (Suc cnt) pp' \<and> page_set pp' = page_set pp \<and> hole_set pp' = insert addr (hole_set pp) \<and> pp_flags pp' = pp_flags pp"
proof -
  have ok: "holes_ok pp" "parent_holes pp" using st by (auto simp: pipe_state_def)
  note h = page_pipe_add_hole_ok [OF ok(1) pad addr(2,3) a] and f = add_hole_frame [OF a] and p = add_hole_pages [OF a]
  have ph: "parent_holes pp'" by (rule parent_holes_add [OF a ok(2,1) pad])
  have lt: "\<forall>a\<in>page_set pp \<union> hole_set pp. a < addr \<and> c \<le> a \<and> a + PAGE_SIZE \<le> lim"
    by (rule pipe_state_bounds [OF st addr(1)])
  have s: "page_set pp' = page_set pp" "hole_set pp' = insert addr (hole_set pp)" using h p by (simp_all add: page_set_def hole_set_def)
  have "in_address_order pp'"
    by (rule in_address_order_hole [OF _ conjunct2 [OF h] p(1)]) (use st lt in \<open>auto simp: pipe_state_def\<close>)
  moreover have "\<forall>a\<in>page_set pp' \<union> hole_set pp'. c \<le> a \<and> a + PAGE_SIZE \<le> addr + PAGE_SIZE"
    using lt addr(1) cl unfolding s by (auto intro: less_imp_le)
  moreover have "length (pp_pages pp') \<le> Suc cnt" "length (hole_pages pp') \<le> Suc cnt" using st p h by (auto simp: pipe_state_def)
  ultimately have "pipe_state psys n c (addr + PAGE_SIZE) (Suc cnt) pp'"
    using st h ph p by (simp add: pipe_state_def)
  then show ?thesis using s f(4) by blast
qed

subsection \<open>Moving the pages into the images\<close>

lemma length_concat_member: "x \<in> set xs \<Longrightarrow> length (f x) \<le> length (concat (map f xs))"
  by (induction xs) auto

lemma small_ranges_count:
  assumes "holes_ok pp" "length (pp_pages pp) < 2 ^ 32" "length (hole_pages pp) < 2 ^ 32"
  shows "small_ranges pp"
  unfolding small_ranges_def
proof (intro conjI ballI allI impI)
  fix k assume "k < free_hole pp"
  then have "holes pp ! k \<in> set (pp_holes pp)" using assms(1) by (auto simp: pp_holes_def holes_ok_def in_set_conv_nth)
  then have "length (iov_pages (holes pp ! k)) \<le> length (concat (map iov_pages (pp_holes pp)))" by (rule length_concat_member)
  also have "\<dots> = length (hole_pages pp)" using arg_cong [OF hole_pages_holes [OF assms(1)], of length] by (simp del: length_concat)
  finally show "iov_len (holes pp ! k) div PAGE_SIZE < 2 ^ 32" using assms(3) by (simp del: length_concat)
next
  fix i v assume "i \<in> set (bufs pp)" "v \<in> set (ppb_iovs pp i)"
  then have "v \<in> set (map snd (pp_segs pp))" by (force simp: pp_segs_def)
  then have "length (iov_pages v) \<le> length (concat (map iov_pages (map snd (pp_segs pp))))" by (rule length_concat_member)
  also have "\<dots> = length (pp_pages pp)" using arg_cong [OF pp_pages_segs [of pp], of length] by (simp del: length_concat)
  finally show "iov_len v div PAGE_SIZE < 2 ^ 32" using assms(2) by (simp del: length_concat)
qed

lemma dump_ops_bounds:
  assumes ok: "segs_ok pp" "holes_ok pp" and b: "\<forall>a\<in>page_set pp \<union> hole_set pp. c \<le> a \<and> a + PAGE_SIZE \<le> lim" and x: "x \<in> set (dump_ops pp)"
  shows "c \<le> iov_base (op_range x)" "iov_end (op_range x) \<le> lim"
proof -
  let ?v = "op_range x"
  have v: "iov_ok ?v \<and> set (iov_pages ?v) \<subseteq> page_set pp \<union> hole_set pp"
  proof -
    consider v where "x = XHole v" "v \<in> set (pp_holes pp)"
      | i v where "x = XSeg (store pp i) v" "i \<in> set (bufs pp)" "v \<in> set (ppb_iovs pp i)" using x by (auto simp: dump_ops_set)
    then show ?thesis
    proof cases
      case 1
      have "iov_ok v" using 1(2) ok(2) by (auto simp: pp_holes_def holes_ok_def in_set_conv_nth)
      moreover have "hole_set pp = (\<Union>v\<in>set (pp_holes pp). set (iov_pages v))"
        using arg_cong [OF hole_pages_holes [OF ok(2)], of set] by (simp add: hole_set_def)
      ultimately show ?thesis using 1 by auto
    next
      case 2
      have "iov_ok v" using 2 ok(1) by (auto simp: segs_ok_def ppb_ok_def)
      moreover have "v \<in> set (map snd (pp_segs pp))" using 2 by (force simp: pp_segs_def)
      moreover have "page_set pp = (\<Union>v\<in>set (map snd (pp_segs pp)). set (iov_pages v))"
        using arg_cong [OF pp_pages_segs [of pp], of set] by (simp add: page_set_def)
      ultimately show ?thesis using 2 by auto
    qed
  qed
  note p = iov_ok_pages [OF conjunct1 [OF v]]
  show "c \<le> iov_base ?v" using v p(1) b by blast
  have "iov_end ?v - PAGE_SIZE + PAGE_SIZE \<le> lim" using v p(2) b by blast
  then show "iov_end ?v \<le> lim" using p(3) by linarith
qed

lemma dumped_flush:
  assumes du: "dumped m x0 D H c xfer" and st: "pipe_state psys n c lim cnt pp" and cl: "c \<le> lim" "cnt < 2 ^ 32" and x0: "transfer_lazy x0"
    and run: "page_xfer_dump_pages sys xfer pp ks = Done (0, xfer', ks')" and ks: "\<And>p. ks p = page_bytes m (pipe_pages pp p)"
  shows "dumped m x0 (D \<union> page_set pp) (H \<union> hole_set pp) lim xfer'" "ks' = (\<lambda>_. [])"
proof -
  obtain xs where xs: "wrote m xs x0 xfer" "readable_ops x0 xs" "\<forall>x\<in>set xs. iov_end (op_range x) \<le> c"
    "\<forall>a. image_page a \<in> D \<longleftrightarrow> seg_at xs a" "\<forall>a. image_page a \<in> H \<longleftrightarrow> hole_at xs a" using du by (auto simp: dumped_def)
  have ok: "segs_ok pp" "holes_ok pp" "parent_holes pp" "in_address_order pp" "\<forall>a\<in>page_set pp \<union> hole_set pp. c \<le> a \<and> a + PAGE_SIZE \<le> lim"
    using st by (auto simp: pipe_state_def pp_inv_def)
  have sm: "small_ranges pp" using st cl(2) by (intro small_ranges_count) (auto simp: pipe_state_def)
  have tl: "transfer_lazy xfer" "x_offset xfer = x_offset x0" "\<not> x_server xfer" using xs(1) x0 by (auto simp: wrote_def)
  have pres: "\<forall>i\<in>set (bufs pp). ppb_xfer_flags xfer (store pp i) AND PE_PRESENT \<noteq> 0"
    using tl(1) by (auto simp: ppb_xfer_flags_def PE_PRESENT_def PE_LAZY_def)
  note w = dump_pages_wrote [OF run tl(3) ok(1-3) sm pres ks]
  show "ks' = (\<lambda>_. [])" by (rule w(2))
  have po: "op_present x0 x = op_present xfer x" for x using tl(1) x0 by (intro op_present_cong) simp
  have "readable_ops x0 (xs @ dump_ops pp)"
    unfolding readable_ops_def
  proof (intro conjI)
    have "before (op_range x) (op_range y)" if "x \<in> set xs" "y \<in> set (dump_ops pp)" for x y
      using xs(3) dump_ops_bounds(1) [OF ok(1,2,5) that(2)] that(1) by (auto simp: before_def)
    then show "in_order (xs @ dump_ops pp)" using xs(2) dump_ops_order [OF ok(1,2,4)] by (simp add: readable_ops_def)
    show "PAGE_SIZE dvd x_offset x0" using xs(2) by (simp add: readable_ops_def)
    show "\<forall>x\<in>set (xs @ dump_ops pp). op_ok x \<and> op_present x0 x \<and> x_offset x0 \<le> iov_base (op_range x)"
      using xs(2) w(1,3) tl(2) po by (auto simp: readable_ops_def wrote_def)
  qed
  moreover have "wrote m (xs @ dump_ops pp) x0 xfer'" by (rule wrote_append [OF xs(1) w(1)])
  moreover have "\<forall>x\<in>set (xs @ dump_ops pp). iov_end (op_range x) \<le> lim"
    using xs(3) cl(1) dump_ops_bounds(2) [OF ok(1,2,5)] order_trans by auto
  moreover have "\<forall>a. image_page a \<in> D \<union> page_set pp \<longleftrightarrow> seg_at (xs @ dump_ops pp) a" "\<forall>a. image_page a \<in> H \<union> hole_set pp \<longleftrightarrow> hole_at (xs @ dump_ops pp) a"
    using xs(4,5) dump_ops_pages [OF ok(1,2), folded seg_at_def hole_at_def page_set_def hole_set_def] by simp_all
  ultimately show "dumped m x0 (D \<union> page_set pp) (H \<union> hole_set pp) lim xfer'" unfolding dumped_def by blast
qed

lemma building_flush:
  assumes "building psys m x0 D H lim cnt n pp xfer" "cnt < 2 ^ 32" "transfer_lazy x0"
    "page_xfer_dump_pages sys xfer pp ks = Done (0, xfer', ks')" "\<And>p. ks p = page_bytes m (pipe_pages pp p)"
  shows "dumped m x0 D H lim xfer'" "ks' = (\<lambda>_. [])"
proof -
  obtain c D' H' where b: "c \<le> lim" "dumped m x0 D' H' c xfer" "pipe_state psys n c lim cnt pp" "D = D' \<union> page_set pp" "H = H' \<union> hole_set pp"
    using assms(1) by (auto simp: building_def)
  from dumped_flush [OF b(2,3,1) assms(2-5)] show "dumped m x0 D H lim xfer'" "ks' = (\<lambda>_. [])" using b(4,5) by simp_all
qed

lemma pipe_state_empty: "pp_inv pp \<Longrightarrow> holes_ok pp \<Longrightarrow> parent_holes pp \<Longrightarrow> pipes_of pp \<subseteq> known_pipes psys n \<Longrightarrow> pp_pages pp = [] \<Longrightarrow> hole_pages pp = [] \<Longrightarrow>
    pipe_state psys n lim lim cnt pp \<and> page_set pp = {} \<and> hole_set pp = {}"
  by (simp add: pipe_state_def page_set_def hole_set_def in_address_order_def)

lemma building_reinit:
  assumes b: "building psys m x0 D H lim cnt n pp xfer" and du: "dumped m x0 D H lim xfer'" and r: "page_pipe_reinit (psys n) lazy pp = Ret pp'"
  shows "building psys m x0 D H lim cnt (Suc n) pp' xfer'" "pp_flags pp' = pp_flags pp"
proof -
  have st: "pp_inv pp" "holes_ok pp" "parent_holes pp" "pipes_of pp \<subseteq> known_pipes psys n" using b by (auto simp: building_def pipe_state_def)
  have ch: "chunk_mode pp" using r by (auto simp: page_pipe_reinit_def split: if_splits)
  let ?pp = "pp\<lparr>free_bufs := rev (bufs pp) @ free_bufs pp, bufs := [], free_hole := 0\<rparr>"
  have g: "page_pipe_grow (psys n) lazy ?pp 0 = Ret (0, pp')"
    using r ch by (auto simp: page_pipe_reinit_def bind_outcome_eq_Ret split: if_splits)
  have ne: "free_bufs ?pp \<noteq> []" using st(1) by (simp add: pp_inv_def segs_ok_def)
  have "next_ppb ?pp \<notin> set (bufs ?pp) \<union> set (free_bufs ?pp)" using pp_inv_next [OF st(1)] by simp
  note f = page_pipe_grow_frame [OF g this]
  have h: "holes_of pp' = holes_of ?pp" "pipes_of pp' \<subseteq> pipes_of ?pp \<union> set_option (sys_pipe (psys n))" using f ne by auto
  have p: "pipes_of ?pp = pipes_of pp" by (simp add: pipes_of_def)
  have hp: "holes_ok pp'" "parent_holes pp'" "hole_pages pp' = []" and fl: "pp_flags pp' = pp_flags pp"
    using h(1) st(2) by (auto simp: holes_of_def holes_ok_def parent_holes_def hole_pages_def)
  show "pp_flags pp' = pp_flags pp" by (rule fl)
  have "pp_inv pp'" "pp_pages pp' = []" using page_pipe_reinit_ok [OF st(1) ch, of "psys n" lazy] r by auto
  moreover have "pipes_of pp' \<subseteq> known_pipes psys (Suc n)" using h(2) p st(4) by (auto simp: known_pipes_Suc)
  ultimately have "pipe_state psys (Suc n) lim lim cnt pp' \<and> page_set pp' = {} \<and> hole_set pp' = {}" using hp by (intro pipe_state_empty) auto
  then show "building psys m x0 D H lim cnt (Suc n) pp' xfer'" unfolding building_def using du by blast
qed

subsection \<open>The steps of a dump\<close>

lemma building_create:
  assumes r: "create_page_pipe (psys n) lazy segs arr junk flags = Ret (Some pp)"
    and len: "segs \<le> length (case arr of None \<Rightarrow> junk | Some l \<Rightarrow> l)" and ok: "pipe_calls_ok psys"
    and x0: "\<not> x_server x0" "PAGE_SIZE dvd x_offset x0"
  shows "building psys m x0 {} {} lim cnt (Suc n) pp x0"
proof -
  have sys: "\<And>p. int PAGE_SIZE \<le> sys_getpipe_sz (psys n) p" using ok by (simp add: pipe_calls_ok_def)
  note c = create_page_pipe_ok [OF r len sys]
  have "pipes_of pp \<subseteq> set_option (sys_pipe (psys n))" "holes pp = []" "hole_flags pp = []" "free_hole pp = 0" "nr_holes pp = 0"
    using r by (auto simp: create_page_pipe_def page_pipe_grow_def ppb_alloc_def ppb_reuse_def pp_prev_ppb_def pipes_of_def
        NR_PIPES_PER_CHUNK_def ppb_link_def pp_update_prev_ppb_def ppb_init_def ppb_type_def Let_def
        split: if_splits option.splits)
  then have "pipe_state psys (Suc n) lim lim cnt pp \<and> page_set pp = {} \<and> hole_set pp = {}"
    using c by (intro pipe_state_empty) (auto simp: known_pipes_Suc holes_ok_def parent_holes_def hole_pages_def)
  moreover have "dumped m x0 {} {} lim x0" using x0 by (auto simp: dumped_def readable_ops_def intro!: exI [of _ "[]"])
  ultimately show ?thesis unfolding building_def by (intro exI [of _ lim] exI [of _ "{}"]) auto
qed

lemma building_page:
  assumes b: "building psys m x0 D H lim cnt n pp xfer" and ok: "pipe_calls_ok psys"
    and a: "page_pipe_add_page (psys n) lazy pp addr flags = Ret (r, pp')"
    and addr: "lim \<le> addr" "PAGE_SIZE dvd addr" "0 < addr" "addr + PAGE_SIZE < ULONG_MOD"
  shows "r = 0 \<and> building psys m x0 (insert addr D) H (addr + PAGE_SIZE) (Suc cnt) (Suc n) pp' xfer \<or>
    r < 0 \<and> building psys m x0 D H lim cnt (Suc n) pp' xfer" "pp_flags pp' = pp_flags pp"
proof -
  obtain c D' H' where c: "c \<le> lim" "dumped m x0 D' H' c xfer" "pipe_state psys n c lim cnt pp" "D = D' \<union> page_set pp" "H = H' \<union> hole_set pp"
    using b by (auto simp: building_def)
  note p = pipe_state_page [OF c(3) ok c(1) a addr]
  show "pp_flags pp' = pp_flags pp" by (rule p(2))
  from p(1) show "r = 0 \<and> building psys m x0 (insert addr D) H (addr + PAGE_SIZE) (Suc cnt) (Suc n) pp' xfer \<or>
    r < 0 \<and> building psys m x0 D H lim cnt (Suc n) pp' xfer"
  proof (elim disjE conjE)
    assume s: "r = 0" "pipe_state psys (Suc n) c (addr + PAGE_SIZE) (Suc cnt) pp'" "page_set pp' = insert addr (page_set pp)" "hole_set pp' = hole_set pp"
    have "c \<le> addr + PAGE_SIZE" using c(1) addr(1) by simp
    then have "building psys m x0 (insert addr D) H (addr + PAGE_SIZE) (Suc cnt) (Suc n) pp' xfer"
      unfolding building_def using c s by (intro exI [of _ c] exI [of _ D'] exI [of _ H']) simp
    then show ?thesis using s(1) by simp
  next
    assume s: "r < 0" "pipe_state psys (Suc n) c lim cnt pp'" "page_set pp' = page_set pp" "hole_set pp' = hole_set pp"
    then have "building psys m x0 D H lim cnt (Suc n) pp' xfer"
      unfolding building_def using c by (intro exI [of _ c] exI [of _ D'] exI [of _ H']) simp
    then show ?thesis using s(1) by simp
  qed
qed

lemma building_hole:
  assumes b: "building psys m x0 D H lim cnt n pp xfer"
    and a: "page_pipe_add_hole r1 r2 pad pp addr PP_HOLE_PARENT = (0, pp')"
    and pad: "PP_HOLES_BATCH \<le> length (fst pad)" "PP_HOLES_BATCH \<le> length (snd pad)"
    and addr: "lim \<le> addr" "PAGE_SIZE dvd addr" "addr + PAGE_SIZE < ULONG_MOD"
  shows "building psys m x0 D (insert addr H) (addr + PAGE_SIZE) (Suc cnt) n pp' xfer" "pp_flags pp' = pp_flags pp"
proof -
  obtain c D' H' where c: "c \<le> lim" "dumped m x0 D' H' c xfer" "pipe_state psys n c lim cnt pp" "D = D' \<union> page_set pp" "H = H' \<union> hole_set pp"
    using b by (auto simp: building_def)
  note p = pipe_state_hole [OF c(3,1) a pad addr]
  show "pp_flags pp' = pp_flags pp" using p by simp
  have "c \<le> addr + PAGE_SIZE" using c(1) addr(1) by simp
  then show "building psys m x0 D (insert addr H) (addr + PAGE_SIZE) (Suc cnt) n pp' xfer"
    unfolding building_def using c p by (intro exI [of _ c] exI [of _ D'] exI [of _ H']) simp
qed

text \<open>Reading a complete dump.\<close>

lemma dumped_read:
  assumes d: "dumped m x0 D H lim xfer" and x0: "x_pmi x0 = []" "x_pi x0 = []" and a: "x_offset x0 \<le> a"
  shows "byte_at ((x_pmi xfer, x_pi xfer) # ls) (a - x_offset x0) =
    (if image_page a \<in> D then Some (m a) else if image_page a \<in> H then byte_at ls (a - x_offset x0) else None)"
proof -
  obtain xs where xs: "wrote m xs x0 xfer" "readable_ops x0 xs" "\<forall>a. image_page a \<in> D \<longleftrightarrow> seg_at xs a" "\<forall>a. image_page a \<in> H \<longleftrightarrow> hole_at xs a"
    using d by (auto simp: dumped_def)
  show ?thesis
    using ops_read_back [OF xs(2) a, folded seg_at_def hole_at_def, of m ls] xs(1,3,4) x0 by (simp add: wrote_def)
qed

lemma dumped_image:
  assumes d: "dumped m x0 D H lim xfer" and x0: "x_pmi x0 = []" "x_pi x0 = []"
  shows "wf_pmes (x_pmi xfer)" "img_off (x_pmi xfer) (length (x_pmi xfer)) = length (x_pi xfer)"
    "\<forall>e\<in>set (x_pmi xfer). pe_end e \<le> lim - x_offset x0 \<and> init_compat_pagemap_entry e = e"
proof -
  obtain xs where xs: "wrote m xs x0 xfer" "readable_ops x0 xs" "\<forall>x\<in>set xs. iov_end (op_range x) \<le> lim" using d by (auto simp: dumped_def)
  have x: "x_pmi xfer = map (op_entry x0) xs" "x_pi xfer = concat (map (op_bytes m) xs)" using xs(1) x0 by (simp_all add: wrote_def)
  show "wf_pmes (x_pmi xfer)" unfolding x by (rule op_entries_wf [OF xs(2)])
  show "img_off (x_pmi xfer) (length (x_pmi xfer)) = length (x_pi xfer)" unfolding x using ops_image_length [OF xs(2)] by simp
  show "\<forall>e\<in>set (x_pmi xfer). pe_end e \<le> lim - x_offset x0 \<and> init_compat_pagemap_entry e = e"
  proof
    fix e assume "e \<in> set (x_pmi xfer)"
    then obtain y where y: "y \<in> set xs" "e = op_entry x0 y" by (auto simp: x)
    then have "pe_end e = iov_end (op_range y) - x_offset x0" using xs(2) by (auto simp: readable_ops_def op_entry_range(1))
    then show "pe_end e \<le> lim - x_offset x0 \<and> init_compat_pagemap_entry e = e"
      using xs(3) y by (auto simp: init_compat_pagemap_entry_def op_entry_def intro: diff_le_mono)
  qed
qed

lemma dumped_mapped:
  assumes d: "dumped m x0 D H lim xfer" and x0: "x_pmi x0 = []"
  shows "mapped (x_pmi xfer) a \<longleftrightarrow> image_page (a + x_offset x0) \<in> D \<union> H"
proof -
  obtain xs where xs: "wrote m xs x0 xfer" "readable_ops x0 xs" "\<forall>a. image_page a \<in> D \<longleftrightarrow> seg_at xs a" "\<forall>a. image_page a \<in> H \<longleftrightarrow> hole_at xs a"
    using d by (auto simp: dumped_def)
  have c: "covers (op_entry x0 x) a \<longleftrightarrow> iov_base (op_range x) \<le> a + x_offset x0 \<and> a + x_offset x0 < iov_end (op_range x)" if "x \<in> set xs" for x
    using op_entry_range(3) [of x x0 a] xs(2) that by (auto simp: readable_ops_def)
  have "mapped (x_pmi xfer) a \<longleftrightarrow> (\<exists>x\<in>set xs. iov_base (op_range x) \<le> a + x_offset x0 \<and> a + x_offset x0 < iov_end (op_range x))"
    using xs(1) x0 c by (auto simp: wrote_def mapped_def)
  also have "\<dots> \<longleftrightarrow> seg_at xs (a + x_offset x0) \<or> hole_at xs (a + x_offset x0)"
  proof
    assume "\<exists>x\<in>set xs. iov_base (op_range x) \<le> a + x_offset x0 \<and> a + x_offset x0 < iov_end (op_range x)"
    then obtain x where x: "x \<in> set xs" "iov_base (op_range x) \<le> a + x_offset x0" "a + x_offset x0 < iov_end (op_range x)" by blast
    show "seg_at xs (a + x_offset x0) \<or> hole_at xs (a + x_offset x0)"
    proof (cases x)
      case (XHole v)
      then have "hole_at xs (a + x_offset x0)" unfolding hole_at_def using x by (intro exI [of _ v]) simp
      then show ?thesis by simp
    next
      case (XSeg b v)
      then have "seg_at xs (a + x_offset x0)" unfolding seg_at_def using x by (intro exI [of _ b] exI [of _ v]) simp
      then show ?thesis by simp
    qed
  qed (force simp: seg_at_def hole_at_def)
  finally show ?thesis using xs(3,4) by simp
qed

lemma stored_room:
  assumes "wf_pmes es" "\<forall>e\<in>set es. lo \<le> pe_vaddr e \<and> pe_end e \<le> hi" "lo \<le> hi"
  shows "sum_list (map stored es) \<le> hi - lo"
  using assms
proof (induction es arbitrary: lo)
  case (Cons e es)
  have s: "stored e \<le> pe_end e - pe_vaddr e" by (simp add: stored_def pe_end_def)
  have "sum_list (map stored es) \<le> hi - pe_end e" using Cons by (intro Cons.IH) (auto simp: wf_pmes_def)
  moreover have "lo \<le> pe_vaddr e" "pe_vaddr e \<le> pe_end e" "pe_end e \<le> hi" using Cons.prems by (auto simp: pe_end_def)
  ultimately show ?case using s by simp
qed simp

lemma dumped_size:
  assumes d: "dumped m x0 D H lim xfer" and x0: "x_pmi x0 = []" "x_pi x0 = []"
  shows "length (x_pi xfer) \<le> lim"
proof -
  note i = dumped_image [OF d x0]
  have "sum_list (map stored (x_pmi xfer)) \<le> lim - x_offset x0 - 0" using i(3) by (intro stored_room [OF i(1)]) auto
  then show ?thesis using i(2) by (simp add: img_off_def)
qed

end
