(* ===== verification/Vma.thy ===== *)
theory Vma
  imports Prelude
begin

unbundle bit_operations_syntax

text \<open>
  Memory areas and the pagemap cache: \<open>criu/include/vma.h\<close>, \<open>criu/include/image.h\<close>, the page predicates of
  \<open>criu/mem.c\<close> and \<open>criu/pagemap-cache.c\<close>.

  A memory area is its \<open>VmaEntry\<close>, the message of \<open>images/vma.proto\<close>. The cache holds the words of
  \<open>/proc/pid/pagemap\<close> for a window of addresses, so that neighbouring small areas cost one \<open>read\<close>.
  \<open>pmc_sys\<close> has the file and the answers of the kernel; the task is stopped, so the file does not change.
\<close>

subsection \<open>Areas\<close>

record vma_entry =
  v_start :: ulong
  v_end :: ulong
  v_pgoff :: ulong
  v_shmid :: ulong
  v_prot :: u32
  v_flags :: u32
  v_status :: u32
  v_fd :: int
  v_fdflags :: "u32 option"

definition VMA_AREA_REGULAR :: u32 where "VMA_AREA_REGULAR = 0x1"
definition VMA_AREA_VSYSCALL :: u32 where "VMA_AREA_VSYSCALL = 0x4"
definition VMA_AREA_VDSO :: u32 where "VMA_AREA_VDSO = 0x8"
definition VMA_FILE_PRIVATE :: u32 where "VMA_FILE_PRIVATE = 0x40"
definition VMA_FILE_SHARED :: u32 where "VMA_FILE_SHARED = 0x80"
definition VMA_ANON_SHARED :: u32 where "VMA_ANON_SHARED = 0x100"
definition VMA_ANON_PRIVATE :: u32 where "VMA_ANON_PRIVATE = 0x200"
definition VMA_AREA_SYSVIPC :: u32 where "VMA_AREA_SYSVIPC = 0x400"
definition VMA_AREA_VVAR :: u32 where "VMA_AREA_VVAR = 0x1000"
definition VMA_AREA_AIORING :: u32 where "VMA_AREA_AIORING = 0x2000"
definition VMA_NO_PROT_WRITE :: u32 where "VMA_NO_PROT_WRITE = 0x20000000"
definition VMA_PREMMAPED :: u32 where "VMA_PREMMAPED = 0x40000000"
definition VMA_UNSUPP :: u32 where "VMA_UNSUPP = 0x80000000"

definition PROT_READ :: u32 where "PROT_READ = 1"
definition PROT_EXEC :: u32 where "PROT_EXEC = 4"
definition MAP_PRIVATE :: u32 where "MAP_PRIVATE = 0x2"
definition MAP_ANONYMOUS :: u32 where "MAP_ANONYMOUS = 0x20"
definition MAP_GROWSDOWN :: u32 where "MAP_GROWSDOWN = 0x100"
definition MAP_LOCKED :: u32 where "MAP_LOCKED = 0x2000"

definition vma_entry_is :: "vma_entry \<Rightarrow> u32 \<Rightarrow> bool" where
  "vma_entry_is vma s \<longleftrightarrow> v_status vma AND s = s"

definition vma_entry_len :: "vma_entry \<Rightarrow> ulong" where
  "vma_entry_len vma = ul_sub (v_end vma) (v_start vma)"

definition in_vma_area :: "vma_entry \<Rightarrow> ulong \<Rightarrow> bool" where
  "in_vma_area vma addr \<longleftrightarrow> v_start vma \<le> addr \<and> addr < v_end vma"

definition vma_entry_is_private :: "vma_entry \<Rightarrow> ulong \<Rightarrow> bool" where
  "vma_entry_is_private entry task_size \<longleftrightarrow>
     vma_entry_is entry VMA_AREA_REGULAR \<and>
       (vma_entry_is entry VMA_ANON_PRIVATE \<or> vma_entry_is entry VMA_FILE_PRIVATE) \<and> v_end entry \<le> task_size \<or>
     vma_entry_is entry VMA_AREA_AIORING"

definition vma_entry_can_be_lazy :: "vma_entry \<Rightarrow> bool" where
  "vma_entry_can_be_lazy e \<longleftrightarrow>
     v_flags e AND MAP_ANONYMOUS \<noteq> 0 \<and> v_flags e AND MAP_PRIVATE \<noteq> 0 \<and> \<not> v_flags e AND MAP_LOCKED \<noteq> 0 \<and>
     \<not> vma_entry_is e VMA_AREA_VDSO \<and> \<not> vma_entry_is e VMA_AREA_VSYSCALL"

text \<open>The options and the facts about the kernel that the page predicates read.\<close>

record mem_opts =
  track_mem :: bool
  img_parent :: bool
  opt_lazy_pages :: bool
  pre_dump_mode :: int
  zero_page_pfn :: u64
  task_size :: ulong
  stack_guard_gap_hidden :: bool

definition vma_has_guard_gap_hidden :: "mem_opts \<Rightarrow> vma_entry \<Rightarrow> bool" where
  "vma_has_guard_gap_hidden opts vma \<longleftrightarrow> stack_guard_gap_hidden opts \<and> v_flags vma AND MAP_GROWSDOWN \<noteq> 0"

text \<open>
  The list of areas of a task with its counters. \<open>vma_list_add\<close> adds an area that was read from \<open>smaps\<close>; \<open>prev_end\<close> is
  the end of the area before. The cached file information of the last area is left out.
\<close>

record vm_area_list =
  vl_areas :: "vma_entry list"
  vl_nr :: nat
  nr_priv_pages :: nat
  nr_priv_pages_longest :: nat
  nr_shared_pages_longest :: nat

definition vm_area_list_init :: vm_area_list where
  "vm_area_list_init = \<lparr>vl_areas = [], vl_nr = 0, nr_priv_pages = 0, nr_priv_pages_longest = 0, nr_shared_pages_longest = 0\<rparr>"

definition vma_list_add :: "mem_opts \<Rightarrow> vma_entry \<Rightarrow> vm_area_list \<Rightarrow> ulong \<Rightarrow> int \<times> vm_area_list \<times> ulong" where
  "vma_list_add opts vma l prev_end =
     (if v_status vma AND VMA_UNSUPP \<noteq> 0 then (-1, l, prev_end)
      else (let vma = (if vma_has_guard_gap_hidden opts vma \<and> prev_end < v_start vma
                       then vma\<lparr>v_start := ul_sub (v_start vma) PAGE_SIZE\<rparr> else vma);
                prev_end = v_end vma;
                l = l\<lparr>vl_areas := vl_areas l @ [vma], vl_nr := vl_nr l + 1\<rparr>;
                pages = vma_entry_len vma div PAGE_SIZE
            in (0, (if vma_entry_is_private vma (task_size opts)
                    then l\<lparr>nr_priv_pages := nr_priv_pages l + pages, nr_priv_pages_longest := max (nr_priv_pages_longest l) pages\<rparr>
                    else if vma_entry_is vma VMA_ANON_SHARED
                    then l\<lparr>nr_shared_pages_longest := max (nr_shared_pages_longest l) pages\<rparr>
                    else l), prev_end)))"

subsection \<open>Page predicates\<close>

definition PME_PRESENT :: u64 where "PME_PRESENT = push_bit 63 1"
definition PME_SWAP :: u64 where "PME_SWAP = push_bit 62 1"
definition PME_FILE :: u64 where "PME_FILE = push_bit 61 1"
definition PME_SOFT_DIRTY :: u64 where "PME_SOFT_DIRTY = push_bit 55 1"
definition PME_PFRAME_MASK :: u64 where "PME_PFRAME_MASK = push_bit 55 1 - 1"

definition page_is_zero :: "mem_opts \<Rightarrow> u64 \<Rightarrow> bool" where
  "page_is_zero opts pme \<longleftrightarrow> pme AND PME_PFRAME_MASK = zero_page_pfn opts"

definition page_in_parent :: "mem_opts \<Rightarrow> bool \<Rightarrow> bool" where
  "page_in_parent opts dirty \<longleftrightarrow> track_mem opts \<and> img_parent opts \<and> \<not> dirty"

definition should_dump_page :: "mem_opts \<Rightarrow> vma_entry \<Rightarrow> u64 \<Rightarrow> bool" where
  "should_dump_page opts vmae pme =
     (if vma_entry_is vmae VMA_AREA_VDSO then True
      else if vma_entry_is vmae VMA_AREA_VVAR then False
      else if vma_entry_is vmae VMA_FILE_PRIVATE \<and> pme AND PME_FILE \<noteq> 0 then False
      else if vma_entry_is vmae VMA_AREA_AIORING then True
      else if pme AND (PME_PRESENT OR PME_SWAP) \<noteq> 0 \<and> \<not> page_is_zero opts pme then True
      else False)"

subsection \<open>The pagemap cache\<close>

definition PMC_SHIFT :: nat where "PMC_SHIFT = 21"
definition PMC_SIZE :: nat where "PMC_SIZE = 2 ^ PMC_SHIFT"
definition PMC_SIZE_GAP :: nat where "PMC_SIZE_GAP = PMC_SIZE div 4"

definition PAGE_PFN :: "ulong \<Rightarrow> nat" where "PAGE_PFN addr = addr div PAGE_SIZE"
definition PAGEMAP_LEN :: "ulong \<Rightarrow> nat" where "PAGEMAP_LEN addr = PAGE_PFN addr * 8"
definition PAGEMAP_NR_PMES :: "nat \<Rightarrow> nat" where "PAGEMAP_NR_PMES sz = sz div 8"
definition PAGEMAP_PFN_OFF :: "ulong \<Rightarrow> nat" where "PAGEMAP_PFN_OFF addr = PAGE_PFN addr * 8"

record pmc =
  pmc_start :: ulong
  pmc_end :: ulong
  pmc_vmas :: "vma_entry list"
  pmc_map :: "u64 list"
  map_len :: nat
  read_map_len :: nat
  nr_pme_read :: nat
  pmc_fd :: bool

text \<open>
  \<open>pm_file\<close> is the file, a word for each page number, and \<open>pm_pread\<close> the result of \<open>pread\<close> for a length at an offset.
  \<open>pm_disabled\<close> stands for \<open>kdat.pmap == PM_DISABLED\<close>, \<open>cache_off\<close> for \<open>pagemap_cache_disabled\<close>.
\<close>

record pmc_sys =
  pm_file :: "nat \<Rightarrow> u64"
  pm_pread :: "nat \<Rightarrow> nat \<Rightarrow> int"
  pm_malloc :: bool
  pm_open :: bool
  pm_disabled :: bool
  cache_off :: bool

definition pmc_reset :: "pmc \<Rightarrow> pmc" where
  "pmc_reset pmc = \<lparr>pmc_start = 0, pmc_end = 0, pmc_vmas = [], pmc_map = [], map_len = 0, read_map_len = 0, nr_pme_read = 0, pmc_fd = False\<rparr>"

definition pmc_zap :: "pmc \<Rightarrow> pmc" where
  "pmc_zap pmc = pmc\<lparr>pmc_start := 0, pmc_end := 0, read_map_len := 0, nr_pme_read := 0\<rparr>"

definition pmc_fini :: "pmc \<Rightarrow> pmc" where
  "pmc_fini pmc = pmc_reset pmc"

definition pmc_init :: "pmc_sys \<Rightarrow> pmc \<Rightarrow> vma_entry list \<Rightarrow> nat \<Rightarrow> int \<times> pmc" where
  "pmc_init sys pmc vma_head sz =
     (let map_size = max sz PMC_SIZE;
          pmc = (pmc_reset pmc)\<lparr>map_len := PAGEMAP_LEN map_size, pmc_vmas := vma_head\<rparr>
      in if \<not> pm_malloc sys \<or> pm_disabled sys \<or> \<not> pm_open sys then (-1, pmc_fini pmc)
         else (0, pmc\<lparr>pmc_fd := True\<rparr>))"

definition pmc_get_pfn_from :: "pmc \<Rightarrow> ulong \<Rightarrow> nat outcome" where
  "pmc_get_pfn_from pmc addr =
     (if addr < pmc_start pmc \<or> pmc_end pmc < addr then Bug else Ret (PAGE_PFN (ul_sub addr (pmc_start pmc))))"

text \<open>A pointer into the array is the word it points to; \<open>None\<close> is \<open>NULL\<close>.\<close>

definition pmc_get_map_at :: "pmc \<Rightarrow> nat \<Rightarrow> u64 option" where
  "pmc_get_map_at pmc pos = (if nr_pme_read pmc \<le> pos then None else Some (pmc_map pmc ! pos))"

definition pmc_get_map_from :: "pmc \<Rightarrow> ulong \<Rightarrow> u64 option outcome" where
  "pmc_get_map_from pmc addr = bind_outcome (pmc_get_pfn_from pmc addr) (\<lambda>pfn. Ret (pmc_get_map_at pmc pfn))"

text \<open>The loop that counts the areas behind the current one that fit the window.\<close>

fun pmc_count :: "ulong \<Rightarrow> ulong \<Rightarrow> vma_entry list \<Rightarrow> nat \<Rightarrow> nat outcome" where
  "pmc_count low high [] nr_vmas = Ret nr_vmas"
| "pmc_count low high (vma # vs) nr_vmas =
     (if high < v_start vma \<or> high < v_end vma then Ret nr_vmas
      else if v_start vma < low then Bug
      else pmc_count low high vs (nr_vmas + 1))"

definition pmc_window :: "mem_opts \<Rightarrow> pmc_sys \<Rightarrow> vma_entry \<Rightarrow> vma_entry list \<Rightarrow> ulong outcome" where
  "pmc_window opts sys vma rest =
     (let low = v_start vma div PMC_SIZE * PMC_SIZE;
          high = ul_add low PMC_SIZE;
          len = vma_entry_len vma;
          high = (if task_size opts < high then task_size opts else high)
      in if \<not> cache_off sys \<and> len < PMC_SIZE \<and> ul_sub (v_start vma) low < PMC_SIZE_GAP
         then bind_outcome (pmc_count low high rest 1) (\<lambda>nr_vmas. Ret (if 1 < nr_vmas then high else v_end vma))
         else Ret (v_end vma))"

text \<open>\<open>pmc_fill_cache\<close> for the area \<open>k\<close> of the list.\<close>

definition pmc_fill_cache :: "mem_opts \<Rightarrow> pmc_sys \<Rightarrow> pmc \<Rightarrow> nat \<Rightarrow> (int \<times> pmc) outcome" where
  "pmc_fill_cache opts sys pmc k =
     (let vma = pmc_vmas pmc ! k
      in bind_outcome (pmc_window opts sys vma (drop (Suc k) (pmc_vmas pmc))) (\<lambda>en.
           let pmc = pmc\<lparr>pmc_start := v_start vma, pmc_end := en\<rparr>;
               len = PAGEMAP_LEN (ul_sub (pmc_end pmc) (pmc_start pmc))
           in if map_len pmc < len \<or> \<not> pmc_fd pmc then Bug
              else if pm_pread sys len (PAGEMAP_PFN_OFF (pmc_start pmc)) \<noteq> int len then Ret (-1, pmc_zap pmc)
              else Ret (0, pmc\<lparr>pmc_map := map (\<lambda>i. pm_file sys (PAGE_PFN (pmc_start pmc) + i)) [0..<PAGEMAP_NR_PMES len],
                              nr_pme_read := PAGEMAP_NR_PMES len, read_map_len := len\<rparr>)))"

definition pmc_get_map :: "mem_opts \<Rightarrow> pmc_sys \<Rightarrow> pmc \<Rightarrow> nat \<Rightarrow> (u64 option \<times> pmc) outcome" where
  "pmc_get_map opts sys pmc k =
     (let vma = pmc_vmas pmc ! k
      in if pmc_start pmc \<le> v_start vma \<and> v_end vma \<le> pmc_end pmc
         then bind_outcome (pmc_get_map_from pmc (v_start vma)) (\<lambda>p. Ret (p, pmc))
         else bind_outcome (pmc_fill_cache opts sys pmc k) (\<lambda>(ret, pmc).
                if ret \<noteq> 0 then Ret (None, pmc)
                else bind_outcome (pmc_get_map_from pmc (v_start vma)) (\<lambda>p. Ret (p, pmc))))"

subsection \<open>The cache holds the words of the file\<close>

text \<open>
  Areas as the kernel lists them: page aligned, not empty, in the order of their addresses and apart. An invariant of the cache: what
  has been read is the part of the file that belongs to the window.
\<close>

definition area_ok :: "vma_entry \<Rightarrow> bool" where
  "area_ok v \<longleftrightarrow> PAGE_SIZE dvd v_start v \<and> PAGE_SIZE dvd v_end v \<and> v_start v < v_end v \<and> v_end v < ULONG_MOD"

definition areas_ok :: "vma_entry list \<Rightarrow> bool" where
  "areas_ok vs \<longleftrightarrow> (\<forall>v\<in>set vs. area_ok v) \<and> sorted_wrt (\<lambda>v w. v_end v \<le> v_start w) vs"

definition pmc_ok :: "pmc_sys \<Rightarrow> pmc \<Rightarrow> bool" where
  "pmc_ok sys pmc \<longleftrightarrow>
     pmc_fd pmc \<and> PAGEMAP_LEN PMC_SIZE \<le> map_len pmc \<and> PAGE_SIZE dvd pmc_start pmc \<and> pmc_start pmc \<le> pmc_end pmc \<and> pmc_end pmc < ULONG_MOD \<and>
     nr_pme_read pmc = (pmc_end pmc - pmc_start pmc) div PAGE_SIZE \<and>
     (\<forall>i<nr_pme_read pmc. pmc_map pmc ! i = pm_file sys (PAGE_PFN (pmc_start pmc) + i))"

definition pmc_covers :: "pmc \<Rightarrow> vma_entry \<Rightarrow> bool" where
  "pmc_covers pmc v \<longleftrightarrow> pmc_start pmc \<le> v_start v \<and> v_end v \<le> pmc_end pmc"

lemma pmc_init_ok: "pmc_init sys pmc vs sz = (0, pmc') \<Longrightarrow>
    pmc_ok sys pmc' \<and> pmc_vmas pmc' = vs \<and> PAGEMAP_LEN sz \<le> map_len pmc' \<and> \<not> pmc_covers pmc' v \<or> v_end v = 0"
  by (auto simp: pmc_init_def pmc_ok_def pmc_covers_def pmc_reset_def PAGEMAP_LEN_def PAGE_PFN_def Let_def intro!: div_le_mono split: if_splits)

lemma vma_entry_len_exact: "area_ok v \<Longrightarrow> vma_entry_len v = v_end v - v_start v"
  by (simp add: vma_entry_len_def area_ok_def c_arith)

lemma pmc_count_ok:
  assumes "\<forall>v\<in>set vs. low \<le> v_start v"
  shows "\<exists>m. pmc_count low high vs nr = Ret m \<and> nr \<le> m \<and> (nr < m \<longrightarrow> (\<exists>v\<in>set vs. v_start v \<le> high))"
  using assms
proof (induction vs arbitrary: nr)
  case (Cons v vs)
  show ?case
  proof (cases "high < v_start v \<or> high < v_end v")
    case False
    then obtain m where "pmc_count low high vs (nr + 1) = Ret m" "nr + 1 \<le> m" using Cons.IH [of "nr + 1"] Cons.prems by auto
    then show ?thesis using False Cons.prems by auto
  qed auto
qed simp

lemma pmc_window_ok:
  assumes v: "area_ok v" and rest: "\<forall>w\<in>set rest. v_end v \<le> v_start w" and ts: "PAGE_SIZE dvd task_size opts"
  shows "\<exists>en. pmc_window opts sys v rest = Ret en \<and> v_end v \<le> en \<and> en < ULONG_MOD \<and> PAGE_SIZE dvd en \<and>
    (en = v_end v \<or> en - v_start v \<le> PMC_SIZE)"
proof -
  define low where "low = v_start v div PMC_SIZE * PMC_SIZE"
  define high where "high = (if task_size opts < ul_add low PMC_SIZE then task_size opts else ul_add low PMC_SIZE)"
  have low: "low \<le> v_start v" "PAGE_SIZE dvd low" "PAGE_SIZE dvd PMC_SIZE"
    by (simp_all add: low_def PMC_SIZE_def PMC_SHIFT_def PAGE_SIZE_def)
  have av: "v_start v < v_end v" "v_end v < ULONG_MOD" using v by (simp_all add: area_ok_def)
  have "PAGE_SIZE dvd ul_add low PMC_SIZE" unfolding ul_add_def using low PAGE_SIZE_dvd_ULONG_MOD by (simp add: dvd_mod)
  then have hd: "PAGE_SIZE dvd high" using ts by (simp add: high_def)
  have hl: "high < ULONG_MOD" "high \<le> low + PMC_SIZE"
  proof -
    have "ul_add low PMC_SIZE < ULONG_MOD" "ul_add low PMC_SIZE \<le> low + PMC_SIZE" by (simp_all add: ul_add_def)
    then show "high < ULONG_MOD" "high \<le> low + PMC_SIZE" by (auto simp: high_def simp del: ul_add_less)
  qed
  have "\<forall>w\<in>set rest. low \<le> v_start w" using rest low(1) av(1) by (meson less_imp_le order_trans)
  from pmc_count_ok [OF this, of high 1] obtain m where m: "pmc_count low high rest 1 = Ret m" "1 < m \<longrightarrow> (\<exists>w\<in>set rest. v_start w \<le> high)" by auto
  have "1 < m \<Longrightarrow> v_end v \<le> high" using m(2) rest by (meson order_trans)
  moreover have "high - v_start v \<le> PMC_SIZE" using hl(2) low(1) by linarith
  ultimately show ?thesis using m(1) hd hl(1) v
    by (auto simp: pmc_window_def Let_def low_def [symmetric] high_def [symmetric] area_ok_def)
qed

lemma pmc_get_map_from_ok: "pmc_ok sys pmc \<Longrightarrow> pmc_covers pmc v \<Longrightarrow> area_ok v \<Longrightarrow> \<exists>w. pmc_get_map_from pmc (v_start v) = Ret (Some w)"
proof -
  assume ok: "pmc_ok sys pmc" and c: "pmc_covers pmc v" and v: "area_ok v"
  have b: "pmc_start pmc \<le> v_start v" "v_start v < pmc_end pmc" "PAGE_SIZE dvd v_start v" "PAGE_SIZE dvd v_end v" "v_end v \<le> pmc_end pmc" "v_start v < ULONG_MOD"
    using c v by (auto simp: pmc_covers_def area_ok_def)
  have "v_start v + PAGE_SIZE \<le> v_end v" using v b(3,4) by (simp add: area_ok_def page_gap)
  then have "v_start v - pmc_start pmc + PAGE_SIZE \<le> pmc_end pmc - pmc_start pmc" using b by linarith
  from div_le_mono [OF this, of PAGE_SIZE] have "(v_start v - pmc_start pmc) div PAGE_SIZE < nr_pme_read pmc" using ok by (simp add: pmc_ok_def div_add_self2)
  then show ?thesis using b by (simp add: pmc_get_map_from_def pmc_get_pfn_from_def pmc_get_map_at_def PAGE_PFN_def c_arith)
qed

lemma pmc_get_map_ok:
  assumes ok: "pmc_ok sys pmc" and areas: "areas_ok (pmc_vmas pmc)" and k: "k < length (pmc_vmas pmc)"
    and len: "PAGEMAP_LEN (vma_entry_len (pmc_vmas pmc ! k)) \<le> map_len pmc" and ts: "PAGE_SIZE dvd task_size opts"
  shows "\<exists>r pmc'. pmc_get_map opts sys pmc k = Ret (r, pmc') \<and> pmc_ok sys pmc' \<and> pmc_vmas pmc' = pmc_vmas pmc \<and> map_len pmc' = map_len pmc \<and>
    (r \<noteq> None \<longrightarrow> pmc_covers pmc' (pmc_vmas pmc ! k))"
proof -
  let ?v = "pmc_vmas pmc ! k"
  have v: "area_ok ?v" using areas k by (simp add: areas_ok_def)
  show ?thesis
  proof (cases "pmc_covers pmc ?v")
    case True
    with pmc_get_map_from_ok [OF ok True v] show ?thesis using ok by (auto simp: pmc_get_map_def pmc_covers_def Let_def)
  next
    case False
    have "\<forall>w\<in>set (drop (Suc k) (pmc_vmas pmc)). v_end ?v \<le> v_start w"
    proof -
      have "sorted_wrt (\<lambda>v w. v_end v \<le> v_start w) (take k (pmc_vmas pmc) @ ?v # drop (Suc k) (pmc_vmas pmc))"
        using areas by (simp only: id_take_nth_drop [OF k, symmetric] areas_ok_def)
      then show ?thesis by (simp add: sorted_wrt_append)
    qed
    from pmc_window_ok [OF v this ts, of sys] obtain en where w: "pmc_window opts sys ?v (drop (Suc k) (pmc_vmas pmc)) = Ret en"
      "v_end ?v \<le> en" "en < ULONG_MOD" "PAGE_SIZE dvd en" "en = v_end ?v \<or> en - v_start ?v \<le> PMC_SIZE" by blast
    let ?pmc = "pmc\<lparr>pmc_start := v_start ?v, pmc_end := en\<rparr>"
    let ?n = "PAGEMAP_LEN (en - v_start ?v)"
    have se: "v_start ?v < v_end ?v" "PAGE_SIZE dvd v_start ?v" using v by (simp_all add: area_ok_def)
    have e: "ul_sub en (v_start ?v) = en - v_start ?v" using w(2,3) se by (simp add: c_arith)
    have "?n \<le> map_len pmc"
    proof (cases "en = v_end ?v")
      case True
      then show ?thesis using len vma_entry_len_exact [OF v] by simp
    next
      case False
      then have "?n \<le> PAGEMAP_LEN PMC_SIZE" using w(5) by (simp add: PAGEMAP_LEN_def PAGE_PFN_def div_le_mono)
      then show ?thesis using ok by (simp add: pmc_ok_def)
    qed
    then consider (zap) "pmc_fill_cache opts sys pmc k = Ret (-1, pmc_zap ?pmc)"
      | (read) "pmc_fill_cache opts sys pmc k = Ret (0, ?pmc\<lparr>pmc_map := map (\<lambda>i. pm_file sys (PAGE_PFN (v_start ?v) + i)) [0..<PAGEMAP_NR_PMES ?n],
                              nr_pme_read := PAGEMAP_NR_PMES ?n, read_map_len := ?n\<rparr>)"
      using w(1) ok by (cases "pm_pread sys ?n (PAGEMAP_PFN_OFF (v_start ?v)) = int ?n") (simp_all add: pmc_fill_cache_def e Let_def pmc_ok_def)
    then show ?thesis
    proof cases
      case zap
      moreover have "pmc_ok sys (pmc_zap ?pmc)" using ok by (simp add: pmc_ok_def pmc_zap_def)
      ultimately show ?thesis using False by (auto simp: pmc_get_map_def pmc_covers_def pmc_zap_def Let_def)
    next
      case read
      define pmc' where "pmc' = ?pmc\<lparr>pmc_map := map (\<lambda>i. pm_file sys (PAGE_PFN (v_start ?v) + i)) [0..<PAGEMAP_NR_PMES ?n],
                              nr_pme_read := PAGEMAP_NR_PMES ?n, read_map_len := ?n\<rparr>"
      have ok': "pmc_ok sys pmc'" "pmc_covers pmc' ?v" "pmc_vmas pmc' = pmc_vmas pmc" "map_len pmc' = map_len pmc"
        using ok w se by (simp_all add: pmc'_def pmc_ok_def pmc_covers_def PAGEMAP_NR_PMES_def PAGEMAP_LEN_def PAGE_PFN_def)
      have "pmc_get_map opts sys pmc k = bind_outcome (pmc_get_map_from pmc' (v_start ?v)) (\<lambda>p. Ret (p, pmc'))"
        using False read unfolding pmc'_def [symmetric] by (auto simp: pmc_get_map_def pmc_covers_def Let_def)
      then show ?thesis using pmc_get_map_from_ok [OF ok'(1,2) v] ok' by auto
    qed
  qed
qed

text \<open>The words of a covered area, as the loops over its pages read them.\<close>

lemma pmc_read_pages:
  assumes ok: "pmc_ok sys pmc" and c: "pmc_covers pmc v" and v: "area_ok v" and a: "v_start v \<le> a" "a \<le> v_end v" "PAGE_SIZE dvd a"
  shows "\<exists>p. pmc_get_pfn_from pmc a = Ret p \<and> (\<forall>j. a + j * PAGE_SIZE < v_end v \<longrightarrow> pmc_get_map_at pmc (p + j) = Some (pm_file sys (PAGE_PFN a + j)))"
proof -
  let ?s = "pmc_start pmc"
  have b: "?s \<le> a" "a \<le> pmc_end pmc" "PAGE_SIZE dvd ?s" "v_end v \<le> pmc_end pmc" "pmc_end pmc < ULONG_MOD" using ok c a by (auto simp: pmc_ok_def pmc_covers_def)
  have p: "pmc_get_pfn_from pmc a = Ret ((a - ?s) div PAGE_SIZE)" using b by (simp add: pmc_get_pfn_from_def PAGE_PFN_def c_arith)
  have d: "(a - ?s) div PAGE_SIZE + PAGE_PFN ?s = PAGE_PFN a" using b(1,3) a(3) by (simp add: PAGE_PFN_def div_plus_div_distrib_dvd_right [symmetric])
  have "pmc_get_map_at pmc ((a - ?s) div PAGE_SIZE + j) = Some (pm_file sys (PAGE_PFN a + j))" if j: "a + j * PAGE_SIZE < v_end v" for j
  proof -
    have "a + j * PAGE_SIZE + PAGE_SIZE \<le> v_end v" using j a(3) v by (intro page_gap) (auto simp: area_ok_def)
    then have "(a - ?s) + Suc j * PAGE_SIZE \<le> pmc_end pmc - ?s" using b by simp
    from div_le_mono [OF this, of PAGE_SIZE] have "(a - ?s) div PAGE_SIZE + j < nr_pme_read pmc"
      using ok b(3) a(3) by (simp add: pmc_ok_def div_plus_div_distrib_dvd_left)
    then show ?thesis using ok d by (simp add: pmc_get_map_at_def pmc_ok_def add.commute add.left_commute)
  qed
  then show ?thesis using p by blast
qed

end
