(* ===== verification/DumpRun.thy ===== *)
theory DumpRun
  imports DumpBuild Vma
begin

unbundle bit_operations_syntax

text \<open>
  What the dumpers of task memory and of shared memory have in common: the system they run on, their state, the system
  call \<open>vmsplice\<close> that puts pages into a pipe, and that a page pipe in chunk mode takes a page after it was reinitialised,
  so that no dumper retries for ever.
\<close>

subsection \<open>System and state\<close>

text \<open>
  The answers of the kernel and of the allocator are functions of the number of the call. \<open>d_img_ok\<close> tells whether the two images of a
  dump can be created and \<open>d_par\<close> what the parent link has for them.
\<close>

record dump_sys =
  d_opts :: mem_opts
  d_mem :: mem
  d_pp :: "nat \<Rightarrow> pp_sys"
  d_realloc :: "nat \<Rightarrow> bool \<times> bool \<times> iovec list \<times> u32 list"
  d_junk :: "nat \<Rightarrow> iovec"
  d_vmsplice :: "nat \<Rightarrow> int"
  d_xfer :: xfer_sys
  d_use_ps :: bool
  d_answer :: "byte option"
  d_stream :: bool
  d_img_ok :: "fd_type \<Rightarrow> ulong \<Rightarrow> bool \<times> bool"
  d_par :: "fd_type \<Rightarrow> ulong \<Rightarrow> image_dir option"

record dump_state =
  ds_n :: nat
  ds_pp :: page_pipe
  ds_xfer :: page_xfer
  ds_ks :: pipes
  ds_ids :: nat

definition add_page :: "dump_sys \<Rightarrow> ulong \<Rightarrow> u32 \<Rightarrow> dump_state \<Rightarrow> (int \<times> dump_state) run" where
  "add_page ds addr flags st =
     (case page_pipe_add_page (d_pp ds (ds_n st)) (opt_lazy_pages (d_opts ds)) (ds_pp st) addr flags of
        Bug \<Rightarrow> Abort
      | Ret (ret, pp) \<Rightarrow> Done (ret, st\<lparr>ds_pp := pp, ds_n := ds_n st + 1\<rparr>))"

definition add_hole :: "dump_sys \<Rightarrow> ulong \<Rightarrow> u32 \<Rightarrow> dump_state \<Rightarrow> (int \<times> dump_state) run" where
  "add_hole ds addr flags st =
     (let (r1, r2, pad) = d_realloc ds (ds_n st);
          (ret, pp) = page_pipe_add_hole r1 r2 pad (ds_pp st) addr flags
      in Done (ret, st\<lparr>ds_pp := pp, ds_n := ds_n st + 1\<rparr>))"

definition reinit :: "dump_sys \<Rightarrow> dump_state \<Rightarrow> dump_state run" where
  "reinit ds st =
     (case page_pipe_reinit (d_pp ds (ds_n st)) (opt_lazy_pages (d_opts ds)) (ds_pp st) of
        Bug \<Rightarrow> Abort
      | Ret pp \<Rightarrow> Done (st\<lparr>ds_pp := pp, ds_n := ds_n st + 1\<rparr>))"

text \<open>\<open>vmsplice\<close> moves at most the bytes of the ranges; the result is the number of bytes moved.\<close>

definition iov_contents :: "mem \<Rightarrow> iovec list \<Rightarrow> byte list" where
  "iov_contents m vs = concat (map (\<lambda>v. mem_read m (iov_base v) (iov_len v)) vs)"

definition sys_vmsplice :: "dump_sys \<Rightarrow> nat \<Rightarrow> iovec list \<Rightarrow> dump_state \<Rightarrow> int \<times> dump_state" where
  "sys_vmsplice ds p vs st =
     (let r = d_vmsplice ds (ds_n st); st = st\<lparr>ds_n := ds_n st + 1\<rparr>
      in if r < 0 then (r, st)
         else (let c = take (nat r) (iov_contents (d_mem ds) vs)
               in (int (length c), st\<lparr>ds_ks := (ds_ks st)(p := ds_ks st p @ c)\<rparr>)))"

definition open_xfer :: "dump_sys \<Rightarrow> fd_type \<Rightarrow> ulong \<Rightarrow> dump_state \<Rightarrow> (int \<times> dump_state) run" where
  "open_xfer ds type img st =
     bind_run (open_page_xfer (d_xfer ds) (d_use_ps ds) (d_answer ds) (d_stream ds) (fst (d_img_ok ds type img)) (snd (d_img_ok ds type img))
         (d_par ds type img) (ds_xfer st) type img (ds_ids st))
       (\<lambda>(ret, xfer, ids). Done (ret, st\<lparr>ds_xfer := xfer, ds_ids := ids\<rparr>))"

definition xfer_dump :: "dump_sys \<Rightarrow> dump_state \<Rightarrow> (int \<times> dump_state) run" where
  "xfer_dump ds st =
     bind_run (page_xfer_dump_pages (d_xfer ds) (ds_xfer st) (ds_pp st) (ds_ks st)) (\<lambda>(ret, xfer, ks).
       Done (ret, st\<lparr>ds_xfer := xfer, ds_ks := ks\<rparr>))"

lemma sys_vmsplice_full:
  assumes "sys_vmsplice ds p vs st = (int (length (iov_contents (d_mem ds) vs)), st')"
  shows "st' = st\<lparr>ds_n := ds_n st + 1, ds_ks := (ds_ks st)(p := ds_ks st p @ iov_contents (d_mem ds) vs)\<rparr>"
proof (cases "d_vmsplice ds (ds_n st) < 0")
  case True
  then show ?thesis using assms by (simp add: sys_vmsplice_def Let_def)
next
  case False
  let ?c = "take (nat (d_vmsplice ds (ds_n st))) (iov_contents (d_mem ds) vs)"
  have "length ?c = length (iov_contents (d_mem ds) vs)" using assms False by (simp add: sys_vmsplice_def Let_def)
  then have "?c = iov_contents (d_mem ds) vs" by (metis length_take min_def take_all nle_le)
  then show ?thesis using assms False by (simp add: sys_vmsplice_def Let_def)
qed

subsection \<open>Chunks\<close>

text \<open>In chunk mode every pipe that was created belongs to a buffer, in use or free.\<close>

definition chunk_ok :: "page_pipe \<Rightarrow> bool" where
  "chunk_ok pp \<longleftrightarrow> chunk_mode pp \<and> nr_pipes pp = length (bufs pp) + length (free_bufs pp)"

lemma add_page_iov_lists:
  assumes "add_page_iov pp i addr = Ret pp'"
  shows "bufs pp' = bufs pp" "free_bufs pp' = free_bufs pp" "nr_pipes pp' = nr_pipes pp" "pp_flags pp' = pp_flags pp"
  using assms by (auto simp: add_page_iov_def Let_def split: if_splits)

lemma try_add_page_lists:
  assumes "try_add_page sys pp addr flags = Ret (r, pp')"
  shows "bufs pp' = bufs pp \<and> free_bufs pp' = free_bufs pp \<and> nr_pipes pp' = nr_pipes pp \<and> pp_flags pp' = pp_flags pp \<and> r \<in> {0, 1}"
proof (cases "ppb_flags (store pp (last (bufs pp))) = flags")
  case True
  let ?i = "last (bufs pp)"
  obtain ret b where b: "ppb_resize_pipe sys (store pp ?i) = Ret (ret, b)"
    and r: "(if ret = 1 then Ret (1, set_ppb ?i b pp) else bind_outcome (add_page_iov (set_ppb ?i b pp) ?i addr) (\<lambda>pp. Ret (0, pp))) = Ret (r, pp')"
    using assms True by (auto simp: try_add_page_def try_add_page_to_def bind_outcome_eq_Ret Let_def split: if_split_asm)
  show ?thesis
  proof (cases "ret = 1")
    case True
    then show ?thesis using r by auto
  next
    case False
    then have a: "add_page_iov (set_ppb ?i b pp) ?i addr = Ret pp'" "r = 0" using r by (auto simp: bind_outcome_eq_Ret)
    show ?thesis using add_page_iov_lists [OF a(1)] a(2) by simp
  qed
qed (use assms in \<open>auto simp: try_add_page_def try_add_page_to_def split: if_split_asm\<close>)

lemma ppb_alloc_chunk:
  assumes "ppb_alloc sys lazy pp flags = Ret (p, pp')" "chunk_mode pp"
  shows "p = None \<and> pp' = pp \<or>
    (\<exists>i. p = Some i \<and> bufs pp' = bufs pp @ [i] \<and> free_bufs pp' = free_bufs pp \<and> nr_pipes pp' = nr_pipes pp + 1 \<and> pp_flags pp' = pp_flags pp)"
  using assms by (auto simp: ppb_alloc_def ppb_reuse_def pp_prev_ppb_def ppb_link_def pp_update_prev_ppb_def Let_def split: if_splits option.splits)

lemma page_pipe_grow_chunk:
  assumes g: "page_pipe_grow sys lazy pp flags = Ret (r, pp')" and c: "chunk_ok pp"
  shows "chunk_ok pp'" "r = - EAGAIN \<Longrightarrow> pp' = pp \<and> free_bufs pp = [] \<and> nr_pipes pp = NR_PIPES_PER_CHUNK"
proof -
  have cm: "chunk_mode pp" using c by (simp add: chunk_ok_def)
  consider (free) i fs where "free_bufs pp = i # fs" "r = 0" "bufs pp' = bufs pp @ [i]" "free_bufs pp' = fs" "nr_pipes pp' = nr_pipes pp" "pp_flags pp' = pp_flags pp"
    | (full) "free_bufs pp = []" "nr_pipes pp = NR_PIPES_PER_CHUNK" "r = - EAGAIN" "pp' = pp"
    | (fail) "r = -1" "pp' = pp"
    | (new) i where "r = 0" "bufs pp' = bufs pp @ [i]" "free_bufs pp' = free_bufs pp" "nr_pipes pp' = nr_pipes pp + 1" "pp_flags pp' = pp_flags pp"
  proof (cases "free_bufs pp")
    case (Cons i fs)
    then have "r = 0 \<and> pp' = set_ppb i (ppb_init (store pp i) 0 0 flags (free_iov pp)) (pp\<lparr>free_bufs := fs, bufs := bufs pp @ [i]\<rparr>)"
      using g by (simp add: page_pipe_grow_def Let_def)
    then show thesis by (intro free [of i fs]) (simp_all add: Cons)
  next
    case Nil
    show thesis
    proof (cases "nr_pipes pp = NR_PIPES_PER_CHUNK")
      case True
      then have "r = - EAGAIN \<and> pp' = pp" using g Nil cm by (simp add: page_pipe_grow_def)
      then show thesis by (intro full) (simp_all add: Nil True)
    next
      case False
      then obtain p pp1 where a: "ppb_alloc sys lazy pp flags = Ret (p, pp1)"
        and r: "(case p of None \<Rightarrow> Ret (-1, pp1) | Some i \<Rightarrow> Ret (0, set_ppb i (ppb_init (store pp1 i) 0 0 flags (free_iov pp1)) pp1)) = Ret (r, pp')"
        using g Nil by (cases "ppb_alloc sys lazy pp flags") (auto simp: page_pipe_grow_def)
      from ppb_alloc_chunk [OF a cm] show thesis
      proof
        assume "p = None \<and> pp1 = pp"
        then show thesis by (intro fail) (use r in simp_all)
      next
        assume "\<exists>i. p = Some i \<and> bufs pp1 = bufs pp @ [i] \<and> free_bufs pp1 = free_bufs pp \<and> nr_pipes pp1 = nr_pipes pp + 1 \<and> pp_flags pp1 = pp_flags pp"
        then obtain i where i: "p = Some i" "bufs pp1 = bufs pp @ [i]" "free_bufs pp1 = free_bufs pp" "nr_pipes pp1 = nr_pipes pp + 1" "pp_flags pp1 = pp_flags pp" by blast
        have "r = 0 \<and> pp' = set_ppb i (ppb_init (store pp1 i) 0 0 flags (free_iov pp1)) pp1" using r i(1) by simp
        then show thesis by (intro new [of i]) (simp_all add: i)
      qed
    qed
  qed
  then have "chunk_ok pp' \<and> (r = - EAGAIN \<longrightarrow> pp' = pp \<and> free_bufs pp = [] \<and> nr_pipes pp = NR_PIPES_PER_CHUNK)"
    using c by cases (auto simp: chunk_ok_def EAGAIN_def)
  then show "chunk_ok pp'" "r = - EAGAIN \<Longrightarrow> pp' = pp \<and> free_bufs pp = [] \<and> nr_pipes pp = NR_PIPES_PER_CHUNK" by auto
qed

lemma add_page_chunk:
  assumes a: "page_pipe_add_page sys lazy pp addr flags = Ret (r, pp')" and c: "chunk_ok pp"
  shows "chunk_ok pp'" "r = - EAGAIN \<Longrightarrow> free_bufs pp' = [] \<and> nr_pipes pp' = NR_PIPES_PER_CHUNK"
proof -
  obtain r1 pp1 where t: "try_add_page sys pp addr flags = Ret (r1, pp1)"
    using a by (cases "try_add_page sys pp addr flags") (auto simp: page_pipe_add_page_def)
  note l1 = try_add_page_lists [OF t]
  have c1: "chunk_ok pp1" using c l1 by (simp add: chunk_ok_def)
  have "chunk_ok pp' \<and> (r = - EAGAIN \<longrightarrow> free_bufs pp' = [] \<and> nr_pipes pp' = NR_PIPES_PER_CHUNK)"
  proof (cases "r1 \<le> 0")
    case True
    then show ?thesis using a t l1 c1 by (auto simp: page_pipe_add_page_def EAGAIN_def)
  next
    case False
    then obtain r2 pp2 where g: "page_pipe_grow sys lazy pp1 flags = Ret (r2, pp2)" and
      r: "r2 < 0 \<and> r = r2 \<and> pp' = pp2 \<or> (try_add_page sys pp2 addr flags = Ret (r, pp'))"
      using a t by (auto simp: page_pipe_add_page_def bind_outcome_eq_Ret split: if_splits)
    note gc = page_pipe_grow_chunk [OF g c1]
    from r show ?thesis
    proof
      assume "try_add_page sys pp2 addr flags = Ret (r, pp')"
      from try_add_page_lists [OF this] show ?thesis using gc(1) by (auto simp: chunk_ok_def EAGAIN_def)
    qed (use gc in auto)
  qed
  then show "chunk_ok pp'" "r = - EAGAIN \<Longrightarrow> free_bufs pp' = [] \<and> nr_pipes pp' = NR_PIPES_PER_CHUNK" by auto
qed

lemma add_hole_chunk: "page_pipe_add_hole r1 r2 pad pp addr flags = (r, pp') \<Longrightarrow> chunk_ok pp \<Longrightarrow> chunk_ok pp'"
  by (auto simp: page_pipe_add_hole_def add_hole_room_def chunk_ok_def Let_def split: if_splits)

lemma create_chunk:
  assumes "create_page_pipe sys lazy segs arr junk flags = Ret (Some pp)" "flags AND PP_CHUNK_MODE \<noteq> 0"
  shows "chunk_ok pp"
proof -
  have f: "(if arr = None then flags OR PP_OWN_IOVS else flags) AND PP_CHUNK_MODE \<noteq> 0"
    using assms(2) by (simp add: PP_CHUNK_MODE_def PP_OWN_IOVS_def word_bw_comms bit.conj_disj_distrib)
  show ?thesis
    using assms(1) f page_pipe_grow_chunk(1)
    by (auto simp: create_page_pipe_def bind_outcome_eq_Ret chunk_ok_def Let_def split: if_splits)
qed

text \<open>After a reinitialisation: an empty buffer without flags, and the other buffers free.\<close>

definition fresh_chunk :: "page_pipe \<Rightarrow> bool" where
  "fresh_chunk pp \<longleftrightarrow> free_bufs pp \<noteq> [] \<and> ppb_flags (store pp (last (bufs pp))) = 0 \<and> pages_in (store pp (last (bufs pp))) = 0"

lemma reinit_chunk:
  assumes r: "page_pipe_reinit sys lazy pp = Ret pp'" and c: "chunk_ok pp" and ne: "bufs pp \<noteq> []"
  shows "chunk_ok pp'" "1 < nr_pipes pp \<Longrightarrow> fresh_chunk pp'"
proof -
  obtain y ys where y: "rev (bufs pp) @ free_bufs pp = y # ys" using ne by (cases "rev (bufs pp) @ free_bufs pp") auto
  have len: "length (bufs pp) + length (free_bufs pp) = Suc (length ys)" using arg_cong [OF y, of length] by simp
  have p: "pp' = pp\<lparr>free_hole := 0, free_bufs := ys, bufs := [y], store := (store pp)(y := ppb_init (store pp y) 0 0 0 (free_iov pp))\<rparr>"
    using r c y by (simp add: page_pipe_reinit_def page_pipe_grow_def chunk_ok_def Let_def)
  show "chunk_ok pp'" using c len by (simp add: p chunk_ok_def)
  show "fresh_chunk pp'" if "1 < nr_pipes pp" using c len that by (auto simp: p chunk_ok_def fresh_chunk_def ppb_init_def)
qed

lemma fresh_chunk_takes:
  assumes f: "fresh_chunk pp" and inv: "pp_inv pp" and c: "chunk_mode pp"
    and a: "page_pipe_add_page sys lazy pp addr flags = Ret (r, pp')"
  shows "r = 0"
proof -
  let ?i = "last (bufs pp)"
  have i: "bufs pp \<noteq> []" "?i \<in> set (bufs pp)" using inv by (auto simp: pp_inv_def segs_ok_def)
  have sz: "pages_in (store pp ?i) + pipe_off (store pp ?i) < pipe_size (store pp ?i)"
    using f inv i(2) chunk_off_zero [OF _ c i(2)] by (auto simp: pp_inv_def size_ok_def fresh_chunk_def)
  show ?thesis
  proof (cases "flags = 0")
    case True
    then have "\<exists>x. try_add_page sys pp addr flags = bind_outcome x (\<lambda>pp. Ret (0, pp))"
      using f i sz by (auto simp: try_add_page_def try_add_page_to_def fresh_chunk_def ppb_resize_pipe_def Let_def)
    then show ?thesis using a by (auto simp: page_pipe_add_page_def bind_outcome_eq_Ret split: if_splits)
  next
    case False
    then have t: "try_add_page sys pp addr flags = Ret (1, pp)" using f i by (simp add: try_add_page_def try_add_page_to_def fresh_chunk_def)
    obtain pp1 where g: "page_pipe_grow sys lazy pp flags = Ret (0, pp1)" using f by (simp add: page_pipe_grow_def fresh_chunk_def Let_def)
    then have "try_add_page sys pp1 addr flags = Ret (r, pp') \<and> r \<le> 0"
      using a t by (auto simp: page_pipe_add_page_def bind_outcome_eq_Ret split: if_splits)
    then show ?thesis using try_add_page_lists [of sys pp1 addr flags r pp'] by auto
  qed
qed

subsection \<open>The state of a dumper\<close>

text \<open>
  \<open>dumping\<close>: between two steps the images and the page pipe together have the pages \<open>D\<close> and the holes \<open>H\<close>, all below \<open>lim\<close>, and the
  kernel pipes are empty. At most \<open>cnt\<close> pages and holes were added.
\<close>

definition dumping :: "dump_sys \<Rightarrow> page_xfer \<Rightarrow> nat set \<Rightarrow> nat set \<Rightarrow> nat \<Rightarrow> nat \<Rightarrow> dump_state \<Rightarrow> bool" where
  "dumping ds x0 D H lim cnt st \<longleftrightarrow>
     building (d_pp ds) (d_mem ds) x0 D H lim cnt (ds_n st) (ds_pp st) (ds_xfer st) \<and> ds_ks st = (\<lambda>_. []) \<and> free_iov (ds_pp st) \<le> cnt"

lemma building_later:
  assumes "building psys m x0 D H lim cnt n pp xfer" "n \<le> n'"
  shows "building psys m x0 D H lim cnt n' pp xfer"
proof -
  have k: "known_pipes psys n \<subseteq> known_pipes psys n'" unfolding known_pipes_def using assms(2) order_less_le_trans by blast
  obtain c D' H' where b: "c \<le> lim" "dumped m x0 D' H' c xfer" "pipe_state psys n c lim cnt pp" "D = D' \<union> page_set pp" "H = H' \<union> hole_set pp"
    using assms(1) by (auto simp: building_def)
  have "pipe_state psys n' c lim cnt pp" using b(3) k by (auto simp: pipe_state_def)
  then show ?thesis using b unfolding building_def by blast
qed

lemma building_cnt:
  assumes "building psys m x0 D H lim cnt n pp xfer" "cnt \<le> cnt'"
  shows "building psys m x0 D H lim cnt' n pp xfer"
proof -
  obtain c D' H' where b: "c \<le> lim" "dumped m x0 D' H' c xfer" "pipe_state psys n c lim cnt pp" "D = D' \<union> page_set pp" "H = H' \<union> hole_set pp"
    using assms(1) by (auto simp: building_def)
  have "pipe_state psys n c lim cnt' pp" using b(3) assms(2) by (auto simp: pipe_state_def)
  then show ?thesis using b unfolding building_def by blast
qed

lemma building_inv: "building psys m x0 D H lim cnt n pp xfer \<Longrightarrow> pp_inv pp \<and> pipes_of pp \<subseteq> known_pipes psys n \<and> \<not> x_server xfer"
  by (auto simp: building_def pipe_state_def dumped_def wrote_def)

lemma dumping_mono: "dumping ds x0 D H lim cnt st \<Longrightarrow> lim \<le> lim' \<Longrightarrow> cnt \<le> cnt' \<Longrightarrow> dumping ds x0 D H lim' cnt' st"
  unfolding dumping_def using building_mono building_cnt by (metis order_trans)

lemma dumping_inv: "dumping ds x0 D H lim cnt st \<Longrightarrow> pp_inv (ds_pp st)"
  using building_inv by (auto simp: dumping_def)

lemma add_page_dumping:
  assumes d: "dumping ds x0 D H lim cnt st" and ok: "pipe_calls_ok (d_pp ds)"
    and a: "add_page ds addr flags st = Done (r, st')"
    and addr: "lim \<le> addr" "PAGE_SIZE dvd addr" "0 < addr" "addr + PAGE_SIZE < ULONG_MOD"
  shows "r = 0 \<and> dumping ds x0 (insert addr D) H (addr + PAGE_SIZE) (Suc cnt) st' \<or> r < 0 \<and> dumping ds x0 D H lim cnt st'"
    "nr_iovs (ds_pp st') = nr_iovs (ds_pp st)" "pp_flags (ds_pp st') = pp_flags (ds_pp st)" "ds_xfer st' = ds_xfer st"
proof -
  obtain pp where p: "page_pipe_add_page (d_pp ds (ds_n st)) (opt_lazy_pages (d_opts ds)) (ds_pp st) addr flags = Ret (r, pp)"
    "st' = st\<lparr>ds_pp := pp, ds_n := ds_n st + 1\<rparr>"
    using a by (auto simp: add_page_def split: outcome.splits)
  have b: "building (d_pp ds) (d_mem ds) x0 D H lim cnt (ds_n st) (ds_pp st) (ds_xfer st)" "ds_ks st = (\<lambda>_. [])" "free_iov (ds_pp st) \<le> cnt"
    using d by (simp_all add: dumping_def)
  note bp = building_page [OF b(1) ok p(1) addr]
  have inv: "pp_inv (ds_pp st)" "pp_sys_ok (d_pp ds (ds_n st)) (ds_pp st)" using building_inv [OF b(1)] known_sys_ok [OF ok] by auto
  have fr: "free_iov pp \<le> free_iov (ds_pp st) + 1 \<and> nr_iovs pp = nr_iovs (ds_pp st) \<and> (r < 0 \<longrightarrow> free_iov pp = free_iov (ds_pp st))"
    using page_pipe_add_page_ok [OF inv addr(2,4), of "opt_lazy_pages (d_opts ds)" flags] p(1) by auto
  show "r = 0 \<and> dumping ds x0 (insert addr D) H (addr + PAGE_SIZE) (Suc cnt) st' \<or> r < 0 \<and> dumping ds x0 D H lim cnt st'"
    using bp(1) b(2,3) fr by (auto simp: dumping_def p(2))
  show "nr_iovs (ds_pp st') = nr_iovs (ds_pp st)" "pp_flags (ds_pp st') = pp_flags (ds_pp st)" "ds_xfer st' = ds_xfer st"
    using fr bp(2) by (simp_all add: p(2))
qed

lemma add_page_no_abort:
  assumes d: "dumping ds x0 D H lim cnt st" and ok: "pipe_calls_ok (d_pp ds)" and room: "cnt < nr_iovs (ds_pp st)"
    and addr: "PAGE_SIZE dvd addr" "addr + PAGE_SIZE < ULONG_MOD"
  shows "\<exists>r st'. add_page ds addr flags st = Done (r, st')"
proof -
  have b: "building (d_pp ds) (d_mem ds) x0 D H lim cnt (ds_n st) (ds_pp st) (ds_xfer st)" "free_iov (ds_pp st) < nr_iovs (ds_pp st)"
    using d room by (simp_all add: dumping_def)
  have inv: "pp_inv (ds_pp st)" "pp_sys_ok (d_pp ds (ds_n st)) (ds_pp st)" using building_inv [OF b(1)] known_sys_ok [OF ok] by auto
  from page_pipe_add_page_ok [OF inv addr, of "opt_lazy_pages (d_opts ds)" flags] b(2) show ?thesis by (auto simp: add_page_def)
qed

definition pads_ok :: "dump_sys \<Rightarrow> bool" where
  "pads_ok ds \<longleftrightarrow> (\<forall>n. PP_HOLES_BATCH \<le> length (fst (snd (snd (d_realloc ds n)))) \<and> PP_HOLES_BATCH \<le> length (snd (snd (snd (d_realloc ds n)))))"

lemma add_hole_dumping:
  assumes d: "dumping ds x0 D H lim cnt st" and pads: "pads_ok ds"
    and a: "add_hole ds addr PP_HOLE_PARENT st = Done (r, st')"
    and addr: "lim \<le> addr" "PAGE_SIZE dvd addr" "addr + PAGE_SIZE < ULONG_MOD"
  shows "r = 0 \<and> dumping ds x0 D (insert addr H) (addr + PAGE_SIZE) (Suc cnt) st' \<or> r = -1"
    "nr_iovs (ds_pp st') = nr_iovs (ds_pp st)" "pp_flags (ds_pp st') = pp_flags (ds_pp st)" "ds_xfer st' = ds_xfer st"
proof -
  obtain r1 r2 pad pp where p: "d_realloc ds (ds_n st) = (r1, r2, pad)" "page_pipe_add_hole r1 r2 pad (ds_pp st) addr PP_HOLE_PARENT = (r, pp)"
    "st' = st\<lparr>ds_pp := pp, ds_n := ds_n st + 1\<rparr>"
    using a by (auto simp: add_hole_def split: prod.splits)
  have pad: "PP_HOLES_BATCH \<le> length (fst pad)" "PP_HOLES_BATCH \<le> length (snd pad)"
    using pads p(1) unfolding pads_ok_def by (metis snd_conv)+
  note f = add_hole_frame [OF p(2)]
  have b: "building (d_pp ds) (d_mem ds) x0 D H lim cnt (ds_n st) (ds_pp st) (ds_xfer st)" "ds_ks st = (\<lambda>_. [])" "free_iov (ds_pp st) \<le> cnt"
    using d by (simp_all add: dumping_def)
  have "r = 0 \<or> r = -1" using p(2) by (auto simp: page_pipe_add_hole_def Let_def split: if_splits)
  then show "r = 0 \<and> dumping ds x0 D (insert addr H) (addr + PAGE_SIZE) (Suc cnt) st' \<or> r = -1"
  proof
    assume "r = 0"
    with p(2) have a0: "page_pipe_add_hole r1 r2 pad (ds_pp st) addr PP_HOLE_PARENT = (0, pp)" by simp
    from building_later [OF building_hole(1) [OF b(1) a0 pad addr], of "ds_n st + 1"] show ?thesis
      using \<open>r = 0\<close> b(2,3) f(6) by (simp add: dumping_def p(3))
  qed simp
  show "nr_iovs (ds_pp st') = nr_iovs (ds_pp st)" "pp_flags (ds_pp st') = pp_flags (ds_pp st)" "ds_xfer st' = ds_xfer st"
    using f by (simp_all add: p(3))
qed

subsection \<open>Filling the kernel pipes\<close>

definition fill_pipes :: "mem \<Rightarrow> page_pipe \<Rightarrow> nat list \<Rightarrow> pipes \<Rightarrow> pipes" where
  "fill_pipes m pp is ks = fold (\<lambda>i ks. ks(ppb_p (store pp i) := ks (ppb_p (store pp i)) @ page_bytes m (ppb_pages pp i))) is ks"

lemma fill_simps [simp]:
  "fill_pipes m pp [] ks = ks"
  "fill_pipes m pp (i # is) ks = fill_pipes m pp is (ks(ppb_p (store pp i) := ks (ppb_p (store pp i)) @ page_bytes m (ppb_pages pp i)))"
  by (simp_all add: fill_pipes_def)

lemma fill_pages: "fill_pipes m pp is ks p = ks p @ page_bytes m (concat (map (\<lambda>i. if ppb_p (store pp i) = p then ppb_pages pp i else []) is))"
  by (induction "is" arbitrary: ks) (auto simp: page_bytes_def)

lemma fill_bufs: "fill_pipes m pp (bufs pp) (\<lambda>_. []) p = page_bytes m (pipe_pages pp p)"
  by (simp add: fill_pages pipe_pages_def)

lemma iov_contents_pages:
  assumes "\<forall>v\<in>set vs. iov_ok v"
  shows "iov_contents m vs = page_bytes m (concat (map iov_pages vs))" "length (iov_contents m vs) = iov_bytes vs"
  using assms by (induction vs) (auto simp: iov_contents_def page_bytes_def page_bytes_iov [unfolded page_bytes_def] iov_ok_def iov_bytes_def)

lemma ppb_contents:
  assumes "pp_inv pp" "i \<in> set (bufs pp)"
  shows "iov_contents m (ppb_iovs pp i) = page_bytes m (ppb_pages pp i)" "length (iov_contents m (ppb_iovs pp i)) = pages_in (store pp i) * PAGE_SIZE"
proof -
  have ok: "ppb_ok pp i" using assms by (auto simp: pp_inv_def segs_ok_def)
  then have v: "\<forall>v\<in>set (ppb_iovs pp i). iov_ok v" by (simp add: ppb_ok_def)
  show "iov_contents m (ppb_iovs pp i) = page_bytes m (ppb_pages pp i)" by (simp add: iov_contents_pages(1) [OF v] ppb_pages_def)
  show "length (iov_contents m (ppb_iovs pp i)) = pages_in (store pp i) * PAGE_SIZE"
    using ok iov_bytes_pages [OF v] by (simp only: iov_contents_pages(2) [OF v]) (simp add: ppb_ok_def ppb_pages_def)
qed

text \<open>Moving full pipes into the images, and reusing the page pipe.\<close>

lemma xfer_dump_dumping:
  assumes d: "dumping ds x0 D H lim cnt st" and x: "cnt < 2 ^ 32" "transfer_lazy x0"
    and same: "ds_pp st1 = ds_pp st" "ds_xfer st1 = ds_xfer st" "ds_ks st1 = fill_pipes (d_mem ds) (ds_pp st) (bufs (ds_pp st)) (\<lambda>_. [])" "ds_n st \<le> ds_n st1"
    and run: "xfer_dump ds st1 = Done (0, st')"
  shows "dumped (d_mem ds) x0 D H lim (ds_xfer st')" "ds_pp st' = ds_pp st" "ds_n st' = ds_n st1" "ds_ks st' = (\<lambda>_. [])"
proof -
  obtain xfer ks where r: "page_xfer_dump_pages (d_xfer ds) (ds_xfer st) (ds_pp st) (ds_ks st1) = Done (0, xfer, ks)"
    "st' = st1\<lparr>ds_xfer := xfer, ds_ks := ks\<rparr>" using run same by (auto simp: xfer_dump_def bind_run_eq_Done)
  have b: "building (d_pp ds) (d_mem ds) x0 D H lim cnt (ds_n st) (ds_pp st) (ds_xfer st)" using d by (simp add: dumping_def)
  have ks: "\<And>p. ds_ks st1 p = page_bytes (d_mem ds) (pipe_pages (ds_pp st) p)" by (simp add: same(3) fill_bufs)
  note f = building_flush [OF b x r(1) ks]
  show "dumped (d_mem ds) x0 D H lim (ds_xfer st')" using f(1) by (simp add: r(2))
  show "ds_pp st' = ds_pp st" "ds_n st' = ds_n st1" "ds_ks st' = (\<lambda>_. [])" using same(1) f(2) by (simp_all add: r(2))
qed

lemma reinit_dumping:
  assumes d: "dumping ds x0 D H lim cnt st" and du: "dumped (d_mem ds) x0 D H lim (ds_xfer st1)"
    and same: "ds_pp st1 = ds_pp st" "ds_n st \<le> ds_n st1" "ds_ks st1 = (\<lambda>_. [])" and r: "reinit ds st1 = Done st'"
  shows "dumping ds x0 D H lim cnt st'" "nr_iovs (ds_pp st') = nr_iovs (ds_pp st)" "pp_flags (ds_pp st') = pp_flags (ds_pp st)" "ds_xfer st' = ds_xfer st1"
proof -
  obtain pp where p: "page_pipe_reinit (d_pp ds (ds_n st1)) (opt_lazy_pages (d_opts ds)) (ds_pp st) = Ret pp" "st' = st1\<lparr>ds_pp := pp, ds_n := ds_n st1 + 1\<rparr>"
    using r same(1) by (auto simp: reinit_def split: outcome.splits)
  have b: "building (d_pp ds) (d_mem ds) x0 D H lim cnt (ds_n st1) (ds_pp st) (ds_xfer st)" "free_iov (ds_pp st) \<le> cnt"
    using d same(2) building_later by (auto simp: dumping_def)
  note ri = building_reinit [OF b(1) du p(1)]
  have c: "chunk_mode (ds_pp st)" using p(1) by (auto simp: page_pipe_reinit_def split: if_splits)
  have f: "free_iov pp = free_iov (ds_pp st)" "nr_iovs pp = nr_iovs (ds_pp st)"
    using page_pipe_reinit_ok [OF dumping_inv [OF d] c, of "d_pp ds (ds_n st1)" "opt_lazy_pages (d_opts ds)"] p(1) by auto
  show "dumping ds x0 D H lim cnt st'" using ri(1) b(2) f(1) same(3) by (simp add: dumping_def p(2))
  show "nr_iovs (ds_pp st') = nr_iovs (ds_pp st)" "pp_flags (ds_pp st') = pp_flags (ds_pp st)" "ds_xfer st' = ds_xfer st1"
    using f(2) ri(2) by (simp_all add: p(2))
qed

end
