(* ===== verification/Shmem.thy ===== *)
theory Shmem
  imports DumpRun Bitmap
begin

unbundle bit_operations_syntax

text \<open>
  Shared memory, \<open>criu/shmem.c\<close>: the table of segments, the states of their pages, the counting of the
  areas of a segment before the restore, the attachments of System V segments, and the dump of the contents.

  The table is an array of chains. A \<open>shmem_info\<close> is found by the id of the segment and changed in place; here the
  first entry of the chain with the id is replaced. The fields that the C union overlays are all kept.
  The steps of the tasks that open the segments on restore are in the theory ShmemOpen.
\<close>

subsection \<open>The table of segments\<close>

definition SHMEM_HASH_SIZE :: nat where "SHMEM_HASH_SIZE = 32"

record shmem_sysv_att =
  att_first :: nat
  prev_end :: ulong

record shmem_info =
  si_shmid :: ulong
  si_pid :: int
  si_size :: ulong
  si_fd :: int
  si_count :: nat
  si_self_count :: nat
  si_att :: "shmem_sysv_att list"
  si_want_write :: bool
  si_start :: ulong
  si_end :: ulong
  si_pstate_map :: "bitmap option"

type_synonym shmems = "nat \<Rightarrow> shmem_info list"

definition SYSVIPC_SHMEM_PID :: int where "SYSVIPC_SHMEM_PID = -1"

definition shmem_chain :: "ulong \<Rightarrow> nat" where
  "shmem_chain shmid = shmid mod SHMEM_HASH_SIZE"

definition shmem_hash_add :: "shmem_info \<Rightarrow> shmems \<Rightarrow> shmems" where
  "shmem_hash_add si tab = (let c = shmem_chain (si_shmid si) in tab(c := si # tab c))"

fun chain_find :: "ulong \<Rightarrow> shmem_info list \<Rightarrow> shmem_info option" where
  "chain_find shmid [] = None"
| "chain_find shmid (si # sis) = (if si_shmid si = shmid then Some si else chain_find shmid sis)"

definition shmem_find :: "shmems \<Rightarrow> ulong \<Rightarrow> shmem_info option" where
  "shmem_find tab shmid = chain_find shmid (tab (shmem_chain shmid))"

fun chain_set :: "shmem_info \<Rightarrow> shmem_info list \<Rightarrow> shmem_info list" where
  "chain_set si [] = []"
| "chain_set si (s # sis) = (if si_shmid s = si_shmid si then si # sis else s # chain_set si sis)"

definition shmem_set :: "shmem_info \<Rightarrow> shmems \<Rightarrow> shmems" where
  "shmem_set si tab = (let c = shmem_chain (si_shmid si) in tab(c := chain_set si (tab c)))"

definition all_shmems :: "shmems \<Rightarrow> shmem_info list" where
  "all_shmems tab = concat (map tab [0..<SHMEM_HASH_SIZE])"

subsection \<open>Page states\<close>

definition PST_DONT_DUMP :: nat where "PST_DONT_DUMP = 0"
definition PST_DUMP :: nat where "PST_DUMP = 1"
definition PST_ZERO :: nat where "PST_ZERO = 2"
definition PST_DIRTY :: nat where "PST_DIRTY = 3"
definition PST_BITS :: nat where "PST_BITS = 2"
definition PST_BIT0_IX :: "nat \<Rightarrow> nat" where "PST_BIT0_IX pfn = pfn * PST_BITS"
definition PST_BIT1_IX :: "nat \<Rightarrow> nat" where "PST_BIT1_IX pfn = PST_BIT0_IX pfn + 1"

definition get_pstate :: "bitmap \<Rightarrow> nat \<Rightarrow> nat" where
  "get_pstate pm pfn =
     (let bit0 = (if test_bit (PST_BIT0_IX pfn) pm then 1 else 0);
          bit1 = (if test_bit (PST_BIT1_IX pfn) pm then 1 else 0)
      in bit1 * 2 + bit0)"

definition set_pstate :: "bitmap \<Rightarrow> nat \<Rightarrow> nat \<Rightarrow> bitmap" where
  "set_pstate pm pfn pstate =
     (let pm = (if odd pstate then set_bit_map (PST_BIT0_IX pfn) pm else pm)
      in if odd (pstate div 2) then set_bit_map (PST_BIT1_IX pfn) pm else pm)"

text \<open>\<open>tracking\<close> is \<open>is_shmem_tracking_en\<close>, \<open>alloc\<close> whether the reallocation succeeds.\<close>

definition expand_shmem :: "bool \<Rightarrow> bool \<Rightarrow> shmem_info \<Rightarrow> ulong \<Rightarrow> (int \<times> shmem_info) outcome" where
  "expand_shmem tracking alloc si new_size =
     (let old_size = si_size si;
          si = si\<lparr>si_size := new_size\<rparr>
      in if \<not> tracking then Ret (0, si)
         else (let nr_map_items = BITS_TO_LONGS (DIV_ROUND_UP old_size PAGE_SIZE * PST_BITS);
                   nr_new_map_items = BITS_TO_LONGS (DIV_ROUND_UP new_size PAGE_SIZE * PST_BITS)
               in if nr_new_map_items < nr_map_items then Bug
                  else if \<not> alloc then Ret (-1, si)
                  else Ret (0, si\<lparr>si_pstate_map := Some (take nr_map_items (case si_pstate_map si of None \<Rightarrow> [] | Some pm \<Rightarrow> pm)
                                     @ replicate (nr_new_map_items - nr_map_items) 0)\<rparr>)))"

text \<open>The loop of \<open>update_shmem_pmaps\<close> over the pages; reading through a null pointer kills the process.\<close>

fun update_pmaps_loop :: "mem_opts \<Rightarrow> pmc \<Rightarrow> vma_entry \<Rightarrow> nat \<Rightarrow> nat list \<Rightarrow> bitmap \<Rightarrow> bitmap outcome" where
  "update_pmaps_loop opts pmc vma off [] pm = Ret pm"
| "update_pmaps_loop opts pmc vma off (vma_pfn # pfns) pm =
     (case pmc_get_map_at pmc (off + vma_pfn) of
        None \<Rightarrow> Bug
      | Some pme \<Rightarrow>
          update_pmaps_loop opts pmc vma off pfns
            (if \<not> should_dump_page opts vma pme then pm
             else (let shmem_pfn = vma_pfn + DIV_ROUND_UP (v_pgoff vma) PAGE_SIZE
                   in if pme AND PME_SOFT_DIRTY \<noteq> 0 then set_pstate pm shmem_pfn PST_DIRTY
                      else if page_is_zero opts pme then set_pstate pm shmem_pfn PST_ZERO
                      else set_pstate pm shmem_pfn PST_DUMP)))"

definition update_shmem_pmaps :: "mem_opts \<Rightarrow> bool \<Rightarrow> shmem_info \<Rightarrow> pmc \<Rightarrow> vma_entry \<Rightarrow> shmem_info outcome" where
  "update_shmem_pmaps opts tracking si pmc vma =
     (if \<not> tracking then Ret si
      else (let vma_pgcnt = DIV_ROUND_UP (ul_sub (si_size si) (v_pgoff vma)) PAGE_SIZE
            in bind_outcome (pmc_get_pfn_from pmc (v_start vma)) (\<lambda>off.
                 case si_pstate_map si of
                   None \<Rightarrow> Bug
                 | Some pm \<Rightarrow> bind_outcome (update_pmaps_loop opts pmc vma off [0..<vma_pgcnt] pm) (\<lambda>pm.
                     Ret (si\<lparr>si_pstate_map := Some pm\<rparr>)))))"

subsection \<open>Collecting segments\<close>

text \<open>
  Before the dump: an area of a shared mapping is added to its segment. \<open>alloc\<close> and \<open>ralloc\<close> tell whether the entry
  and the map of page states can be allocated.
\<close>

definition add_shmem_area :: "mem_opts \<Rightarrow> bool \<Rightarrow> bool \<Rightarrow> bool \<Rightarrow> int \<Rightarrow> vma_entry \<Rightarrow> pmc \<Rightarrow> shmems \<Rightarrow> (int \<times> shmems) outcome" where
  "add_shmem_area opts tracking alloc ralloc pid vma pmc tab =
     (let sz = ul_add (v_pgoff vma) (ul_sub (v_end vma) (v_start vma));
          pid = (if vma_entry_is vma VMA_AREA_SYSVIPC then SYSVIPC_SHMEM_PID else pid)
      in case shmem_find tab (v_shmid vma) of
           Some si \<Rightarrow>
             bind_outcome (if si_size si < sz then expand_shmem tracking ralloc si sz else Ret (0, si)) (\<lambda>(ret, si).
               if ret \<noteq> 0 then Ret (-1, shmem_set si tab)
               else bind_outcome (update_shmem_pmaps opts tracking si pmc vma) (\<lambda>si. Ret (0, shmem_set si tab)))
         | None \<Rightarrow>
             if \<not> alloc then Ret (-1, tab)
             else (let si = \<lparr>si_shmid = v_shmid vma, si_pid = pid, si_size = 0, si_fd = 0, si_count = 0, si_self_count = 0, si_att = [],
                             si_want_write = False, si_start = v_start vma, si_end = v_end vma, si_pstate_map = None\<rparr>;
                       tab = shmem_hash_add si tab
                   in bind_outcome (expand_shmem tracking ralloc si sz) (\<lambda>(ret, si).
                        if ret \<noteq> 0 then Ret (-1, shmem_set si tab)
                        else bind_outcome (update_shmem_pmaps opts tracking si pmc vma) (\<lambda>si. Ret (0, shmem_set si tab)))))"

text \<open>Before the restore: the areas of every task are counted by segment.\<close>

definition pid_rst_prio :: "int \<Rightarrow> int \<Rightarrow> bool" where
  "pid_rst_prio pid_a pid_b \<longleftrightarrow> pid_a mod 2 ^ 32 < pid_b mod 2 ^ 32"

definition collect_shmem :: "bool \<Rightarrow> int \<Rightarrow> vma_entry \<Rightarrow> shmems \<Rightarrow> int \<times> shmems" where
  "collect_shmem alloc pid vi tab =
     (let sz = ul_sub (ul_add (v_pgoff vi) (v_end vi)) (v_start vi)
      in if vma_entry_is vi VMA_AREA_SYSVIPC then (0, tab)
         else case shmem_find tab (v_shmid vi) of
                Some si \<Rightarrow>
                  if si_pid si = SYSVIPC_SHMEM_PID then (-1, tab)
                  else (let si = (if si_size si < sz then si\<lparr>si_size := sz\<rparr> else si);
                            si = si\<lparr>si_count := si_count si + 1\<rparr>;
                            si = (if \<not> pid_rst_prio pid (si_pid si)
                                  then (if si_pid si = pid then si\<lparr>si_self_count := si_self_count si + 1\<rparr> else si)
                                  else si\<lparr>si_pid := pid, si_self_count := 1\<rparr>)
                        in (0, shmem_set si tab))
              | None \<Rightarrow>
                  if \<not> alloc then (-1, tab)
                  else (0, shmem_hash_add \<lparr>si_shmid = v_shmid vi, si_pid = pid, si_size = sz, si_fd = -1, si_count = 1, si_self_count = 1,
                             si_att = [], si_want_write = False, si_start = 0, si_end = 0, si_pstate_map = None\<rparr> tab))"

subsection \<open>System V segments\<close>

definition collect_sysv_shmem :: "bool \<Rightarrow> ulong \<Rightarrow> ulong \<Rightarrow> shmems \<Rightarrow> int \<times> shmems" where
  "collect_sysv_shmem alloc shmid sz tab =
     (if \<not> alloc then (-1, tab)
      else (0, shmem_hash_add \<lparr>si_shmid = shmid, si_pid = SYSVIPC_SHMEM_PID, si_size = sz, si_fd = 0, si_count = 0, si_self_count = 0,
                 si_att = [], si_want_write = False, si_start = 0, si_end = 0, si_pstate_map = None\<rparr> tab))"

definition SYSV_SHMEM_SKIP_FD :: int where "SYSV_SHMEM_SKIP_FD = 0x7fffffff"
definition O_RDWR :: u32 where "O_RDWR = 2"

text \<open>
  The areas live in a store, because an attachment keeps a pointer to its first area. An attachment that is taken from an empty
  list is the memory of the list head itself; \<open>junk\<close> has what is read there.
\<close>

definition open_shmem_sysv :: "bool \<Rightarrow> shmem_sysv_att \<Rightarrow> (nat \<Rightarrow> vma_entry) \<Rightarrow> nat \<Rightarrow> shmems \<Rightarrow> int \<times> (nat \<Rightarrow> vma_entry) \<times> shmems" where
  "open_shmem_sysv alloc junk vs k tab =
     (let vme = vs k
      in case shmem_find tab (v_shmid vme) of
           None \<Rightarrow> (-1, vs, tab)
         | Some si \<Rightarrow>
             if si_pid si \<noteq> SYSVIPC_SHMEM_PID then (-1, vs, tab)
             else if v_pgoff vme = 0 \<and> \<not> alloc then (-1, vs, tab)
             else (let att = (if v_pgoff vme = 0 then junk\<lparr>att_first := k\<rparr> else case si_att si of [] \<Rightarrow> junk | a # _ \<Rightarrow> a);
                       rest = (if v_pgoff vme = 0 then si_att si else tl (si_att si));
                       ret_fd = (if v_pgoff vme = 0 then int (si_shmid si) else SYSV_SHMEM_SKIP_FD)
                   in if v_pgoff vme \<noteq> 0 \<and> prev_end att \<noteq> v_start vme then (-1, vs, tab)
                      else if v_pgoff vme \<noteq> 0 \<and> v_pgoff vme \<noteq> ul_sub (prev_end att) (v_start (vs (att_first att))) then (-1, vs, tab)
                      else (let si = si\<lparr>si_att := att\<lparr>prev_end := v_end vme\<rparr> # rest\<rparr>;
                                si = (if v_fdflags vme = None \<or> v_fdflags vme = Some O_RDWR then si\<lparr>si_want_write := True\<rparr> else si)
                            in (0, vs(k := vme\<lparr>v_fd := ret_fd\<rparr>), shmem_set si tab))))"

fun fixup_atts :: "shmem_info \<Rightarrow> shmem_sysv_att list \<Rightarrow> (nat \<Rightarrow> vma_entry) \<Rightarrow> int \<times> (nat \<Rightarrow> vma_entry)" where
  "fixup_atts si [] vs = (0, vs)"
| "fixup_atts si (att # atts) vs =
     (let first = vs (att_first att)
      in if ul_add (v_start first) (round_up (si_size si) PAGE_SIZE) \<noteq> prev_end att then (-1, vs)
         else fixup_atts si atts (if si_want_write si then vs(att_first att := first\<lparr>v_prot := v_prot first OR PROT_EXEC\<rparr>) else vs))"

fun fixup_shmems :: "shmem_info list \<Rightarrow> (nat \<Rightarrow> vma_entry) \<Rightarrow> int \<times> (nat \<Rightarrow> vma_entry)" where
  "fixup_shmems [] vs = (0, vs)"
| "fixup_shmems (si # sis) vs =
     (if si_pid si \<noteq> SYSVIPC_SHMEM_PID then fixup_shmems sis vs
      else (let (ret, vs) = fixup_atts si (si_att si) vs in if ret \<noteq> 0 then (-1, vs) else fixup_shmems sis vs))"

definition fixup_sysv_shmems :: "shmems \<Rightarrow> (nat \<Rightarrow> vma_entry) \<Rightarrow> int \<times> (nat \<Rightarrow> vma_entry)" where
  "fixup_sysv_shmems tab vs = fixup_shmems (all_shmems tab) vs"

subsection \<open>Dumping a segment\<close>

fun splice_bufs :: "dump_sys \<Rightarrow> nat list \<Rightarrow> dump_state \<Rightarrow> int \<times> dump_state" where
  "splice_bufs ds [] st = (0, st)"
| "splice_bufs ds (i # is) st =
     (let b = store (ds_pp st) i;
          (ret, st) = sys_vmsplice ds (ppb_p b) (ppb_iovs (ds_pp st) i) st
      in if ret \<noteq> int (pages_in b * PAGE_SIZE) then (-1, st) else splice_bufs ds is st)"

definition shmem_dump_pages :: "dump_sys \<Rightarrow> dump_state \<Rightarrow> (int \<times> dump_state) run" where
  "shmem_dump_pages ds st =
     (let (ret, st) = splice_bufs ds (bufs (ds_pp st)) st in if ret \<noteq> 0 then Done (-1, st) else xfer_dump ds st)"

text \<open>\<open>lseek\<close> with \<open>SEEK_DATA\<close> and \<open>SEEK_HOLE\<close> on the file of the segment.\<close>

datatype seek_result = Seek_off nat | Seek_enxio | Seek_error

record seek_sys =
  seek_data :: "nat \<Rightarrow> seek_result"
  seek_hole :: "nat \<Rightarrow> seek_result"

definition next_data_segment :: "seek_sys \<Rightarrow> ulong \<Rightarrow> (ulong \<times> ulong) option" where
  "next_data_segment fs pfn =
     (case seek_data fs (ul_mul pfn PAGE_SIZE) of
        Seek_enxio \<Rightarrow> Some (ULONG_MOD - 1, ULONG_MOD - 1)
      | Seek_error \<Rightarrow> None
      | Seek_off off \<Rightarrow> (case seek_hole fs off of Seek_off h \<Rightarrow> Some (off div PAGE_SIZE, h div PAGE_SIZE) | _ \<Rightarrow> None))"

text \<open>One page, from the label \<open>again\<close> on.\<close>

partial_function (option) shmem_page :: "dump_sys \<Rightarrow> nat \<Rightarrow> ulong \<Rightarrow> dump_state \<Rightarrow> (int \<times> dump_state) run option" where
  "shmem_page ds pgstate pgaddr st =
     (case (if pgstate = PST_ZERO then Done (0, st)
            else if x_has_parent (ds_xfer st) \<and> page_in_parent (d_opts ds) (pgstate = PST_DIRTY) then add_hole ds pgaddr PP_HOLE_PARENT st
            else add_page ds pgaddr 0 st) of
        Abort \<Rightarrow> Some Abort
      | Loops \<Rightarrow> Some Loops
      | Done (ret, st) \<Rightarrow>
          if ret = - EAGAIN
          then (case shmem_dump_pages ds st of
                  Abort \<Rightarrow> Some Abort
                | Loops \<Rightarrow> Some Loops
                | Done (ret, st) \<Rightarrow>
                    if ret \<noteq> 0 then Some (Done (ret, st))
                    else (case reinit ds st of
                            Abort \<Rightarrow> Some Abort
                          | Loops \<Rightarrow> Some Loops
                          | Done st \<Rightarrow> shmem_page ds pgstate pgaddr st))
          else Some (Done (ret, st)))"

definition page_state :: "bool \<Rightarrow> shmem_info \<Rightarrow> nat \<Rightarrow> ulong \<Rightarrow> nat" where
  "page_state tracking si pfn next_data =
     (let mc = (if pfn < next_data then PST_ZERO else PST_DIRTY)
      in case si_pstate_map si of
           None \<Rightarrow> mc
         | Some pm \<Rightarrow>
             if \<not> tracking then mc
             else (let pgstate = get_pstate pm pfn in if pgstate = PST_DONT_DUMP then mc else pgstate))"

text \<open>The loop over the pages; \<open>ret\<close> is the variable that the function returns when it leaves the loop.\<close>

fun shmem_loop :: "dump_sys \<Rightarrow> seek_sys \<Rightarrow> bool \<Rightarrow> shmem_info \<Rightarrow> ulong \<Rightarrow> nat list \<Rightarrow> ulong \<Rightarrow> ulong \<Rightarrow> int \<Rightarrow> dump_state \<Rightarrow>
    (bool \<times> int \<times> dump_state) run" where
  "shmem_loop ds fs tracking si addr [] nd nh ret st = Done (True, ret, st)"
| "shmem_loop ds fs tracking si addr (pfn # pfns) nd nh ret st =
     (case (if nh \<le> pfn then next_data_segment fs pfn else Some (nd, nh)) of
        None \<Rightarrow> Done (False, ret, st)
      | Some (nd, nh) \<Rightarrow>
          (case shmem_page ds (page_state tracking si pfn nd) (ul_add addr (ul_mul pfn PAGE_SIZE)) st of
             None \<Rightarrow> Loops
           | Some x \<Rightarrow> bind_run x (\<lambda>(ret, st).
               if ret \<noteq> 0 then Done (False, ret, st) else shmem_loop ds fs tracking si addr pfns nd nh ret st)))"

definition close_xfer :: "dump_sys \<Rightarrow> dump_state \<Rightarrow> dump_state run" where
  "close_xfer ds st =
     (if x_server (ds_xfer st) then Done st
      else bind_run (close_page_xfer (d_xfer ds) (ds_xfer st)) (\<lambda>(xfer, prs). Done (st\<lparr>ds_xfer := xfer\<rparr>)))"

definition do_dump_one_shmem :: "dump_sys \<Rightarrow> seek_sys \<Rightarrow> bool \<Rightarrow> ulong \<Rightarrow> shmem_info \<Rightarrow> dump_state \<Rightarrow> (int \<times> dump_state) run" where
  "do_dump_one_shmem ds fs tracking addr si st =
     (let nrpages = DIV_ROUND_UP (si_size si) PAGE_SIZE;
          segs = (nrpages + 1) div 2
      in case create_page_pipe (d_pp ds (ds_n st)) (opt_lazy_pages (d_opts ds)) segs None (map (d_junk ds) [0..<segs]) PP_CHUNK_MODE of
           Bug \<Rightarrow> Abort
         | Ret None \<Rightarrow> Done (-1, st)
         | Ret (Some pp) \<Rightarrow>
             bind_run (open_xfer ds CR_FD_SHMEM_PAGEMAP (si_shmid si) (st\<lparr>ds_pp := pp, ds_n := ds_n st + 1\<rparr>)) (\<lambda>(err, st).
               if err \<noteq> 0 then Done (-1, st)
               else bind_run (shmem_loop ds fs tracking si addr [0..<nrpages] 0 0 (-1)
                                (st\<lparr>ds_xfer := (ds_xfer st)\<lparr>x_offset := addr\<rparr>\<rparr>)) (\<lambda>(finished, ret, st).
                      bind_run (if finished then shmem_dump_pages ds st else Done (ret, st)) (\<lambda>(ret, st).
                        bind_run (close_xfer ds st) (\<lambda>st. Done (ret, st))))))"

text \<open>
  The callers: \<open>fd\<close> and \<open>map\<close> tell whether the file of the segment can be opened and where it is mapped. The segment of a task is the
  file of one of its areas, a memfd has a descriptor, and a System V segment is already mapped.
\<close>

definition dump_one_shmem :: "dump_sys \<Rightarrow> seek_sys \<Rightarrow> bool \<Rightarrow> bool \<Rightarrow> ulong option \<Rightarrow> shmem_info \<Rightarrow> dump_state \<Rightarrow> (int \<times> dump_state) run" where
  "dump_one_shmem ds fs tracking fd at si st =
     (if \<not> fd then Done (-1, st)
      else case at of None \<Rightarrow> Done (-1, st) | Some addr \<Rightarrow> do_dump_one_shmem ds fs tracking addr si st)"

definition blank_shmem :: "ulong \<Rightarrow> int \<Rightarrow> ulong \<Rightarrow> shmem_info" where
  "blank_shmem shmid pid sz =
     \<lparr>si_shmid = shmid, si_pid = pid, si_size = sz, si_fd = 0, si_count = 0, si_self_count = 0, si_att = [], si_want_write = False, si_start = 0,
      si_end = 0, si_pstate_map = None\<rparr>"

definition dump_one_memfd_shmem :: "dump_sys \<Rightarrow> seek_sys \<Rightarrow> bool \<Rightarrow> ulong option \<Rightarrow> ulong \<Rightarrow> ulong \<Rightarrow> dump_state \<Rightarrow> (int \<times> dump_state) run" where
  "dump_one_memfd_shmem ds fs tracking at shmid sz st =
     (if sz = 0 then Done (0, st)
      else case at of None \<Rightarrow> Done (-1, st) | Some addr \<Rightarrow> do_dump_one_shmem ds fs tracking addr (blank_shmem shmid 0 sz) st)"

definition dump_one_sysv_shmem :: "dump_sys \<Rightarrow> seek_sys \<Rightarrow> bool \<Rightarrow> bool \<Rightarrow> ulong \<Rightarrow> ulong \<Rightarrow> ulong \<Rightarrow> shmems \<Rightarrow> dump_state \<Rightarrow> (int \<times> dump_state) run" where
  "dump_one_sysv_shmem ds fs tracking fd addr sz shmid tab st =
     (let si = (case shmem_find tab shmid of Some si \<Rightarrow> si | None \<Rightarrow> blank_shmem shmid SYSVIPC_SHMEM_PID (round_up sz PAGE_SIZE))
      in if \<not> fd then Done (-1, st) else do_dump_one_shmem ds fs tracking addr si st)"

fun dump_shmems :: "dump_sys \<Rightarrow> (shmem_info \<Rightarrow> seek_sys \<times> bool \<times> ulong option) \<Rightarrow> bool \<Rightarrow> shmem_info list \<Rightarrow> dump_state \<Rightarrow> (int \<times> dump_state) run" where
  "dump_shmems ds files tracking [] st = Done (0, st)"
| "dump_shmems ds files tracking (si # sis) st =
     (if si_pid si = SYSVIPC_SHMEM_PID then dump_shmems ds files tracking sis st
      else (let (fs, fd, at) = files si
            in bind_run (dump_one_shmem ds fs tracking fd at si st) (\<lambda>(ret, st).
                 if ret \<noteq> 0 then Done (ret, st) else dump_shmems ds files tracking sis st)))"

definition cr_dump_shmem :: "dump_sys \<Rightarrow> (shmem_info \<Rightarrow> seek_sys \<times> bool \<times> ulong option) \<Rightarrow> bool \<Rightarrow> shmems \<Rightarrow> dump_state \<Rightarrow> (int \<times> dump_state) run" where
  "cr_dump_shmem ds files tracking tab st = dump_shmems ds files tracking (all_shmems tab) st"

end
