(* ===== verification/ShmemCorrect.thy ===== *)
theory ShmemCorrect
  imports Shmem PageReadClients
begin

unbundle bit_operations_syntax

text \<open>
  The dump of a shared memory segment is correct and ends: what it writes to the images is, read back by
  \<open>do_restore_shmem_content\<close> into a fresh mapping, the contents of the segment.
\<close>

subsection \<open>One page\<close>

lemma splice_bufs_ok:
  assumes "splice_bufs ds is st = (0, st')" "pp_inv (ds_pp st)" "set is \<subseteq> set (bufs (ds_pp st))"
  shows "ds_ks st' = fill_pipes (d_mem ds) (ds_pp st) is (ds_ks st)" "ds_pp st' = ds_pp st" "ds_xfer st' = ds_xfer st" "ds_n st \<le> ds_n st'"
proof (atomize (full))
  show "(ds_ks st' = fill_pipes (d_mem ds) (ds_pp st) is (ds_ks st) \<and> ds_pp st' = ds_pp st) \<and> ds_xfer st' = ds_xfer st \<and> ds_n st \<le> ds_n st'"
    using assms
  proof (induction "is" arbitrary: st)
    case (Cons i "is")
    let ?b = "store (ds_pp st) i" and ?m = "d_mem ds"
    obtain r st1 where v: "sys_vmsplice ds (ppb_p ?b) (ppb_iovs (ds_pp st) i) st = (r, st1)" "r = int (pages_in ?b * PAGE_SIZE)"
      and rest: "splice_bufs ds is st1 = (0, st')"
      using Cons.prems(1) by (auto simp: Let_def split: prod.splits if_splits)
    have c: "iov_contents ?m (ppb_iovs (ds_pp st) i) = page_bytes ?m (ppb_pages (ds_pp st) i)"
      "length (iov_contents ?m (ppb_iovs (ds_pp st) i)) = pages_in ?b * PAGE_SIZE"
      using ppb_contents [OF Cons.prems(2)] Cons.prems(3) by auto
    have s: "st1 = st\<lparr>ds_n := ds_n st + 1, ds_ks := (ds_ks st)(ppb_p ?b := ds_ks st (ppb_p ?b) @ page_bytes ?m (ppb_pages (ds_pp st) i))\<rparr>"
      using sys_vmsplice_full [of ds "ppb_p ?b" "ppb_iovs (ds_pp st) i" st st1] v c by simp
    then show ?case using Cons.IH [of st1] Cons.prems(2,3) rest by (simp add: fun_upd_def)
  qed simp
qed

lemma shmem_dump_pages_ok:
  assumes d: "dumping ds x0 D H lim cnt st" and x: "cnt < 2 ^ 32" "transfer_lazy x0" and r: "shmem_dump_pages ds st = Done (0, st')"
  shows "dumped (d_mem ds) x0 D H lim (ds_xfer st')" "ds_pp st' = ds_pp st" "ds_n st \<le> ds_n st'" "ds_ks st' = (\<lambda>_. [])"
proof -
  obtain st1 where s: "splice_bufs ds (bufs (ds_pp st)) st = (0, st1)" "xfer_dump ds st1 = Done (0, st')"
    using r by (auto simp: shmem_dump_pages_def split: prod.splits if_splits)
  note f = splice_bufs_ok [OF s(1) dumping_inv [OF d] subset_refl]
  have ks: "ds_ks st1 = fill_pipes (d_mem ds) (ds_pp st) (bufs (ds_pp st)) (\<lambda>_. [])" using f(1) d by (simp add: dumping_def)
  note t = xfer_dump_dumping [OF d x f(2,3) ks f(4) s(2)]
  show "dumped (d_mem ds) x0 D H lim (ds_xfer st')" "ds_pp st' = ds_pp st" "ds_n st \<le> ds_n st'" "ds_ks st' = (\<lambda>_. [])"
    using t f(4) by simp_all
qed

text \<open>A dirty page: the page pipe takes it, at the latest after it was emptied.\<close>

lemma shmem_page_dirty:
  assumes d: "dumping ds x0 D H lim cnt st" and ok: "pipe_calls_ok (d_pp ds)" and x: "cnt < 2 ^ 32" "transfer_lazy x0"
    and c: "chunk_ok (ds_pp st)" and addr: "lim \<le> addr" "PAGE_SIZE dvd addr" "0 < addr" "addr + PAGE_SIZE < ULONG_MOD"
  shows "\<exists>y. shmem_page ds PST_DIRTY addr st = Some y \<and>
    (\<forall>st'. y = Done (0, st') \<longrightarrow> dumping ds x0 (insert addr D) H (addr + PAGE_SIZE) (Suc cnt) st' \<and> chunk_ok (ds_pp st'))"
proof -
  have np: "page_in_parent (d_opts ds) True = False" "PST_DIRTY \<noteq> PST_ZERO" by (simp_all add: page_in_parent_def PST_DIRTY_def PST_ZERO_def)
  show ?thesis
  proof (cases "add_page ds addr 0 st")
    case (Done rs)
    obtain r st1 where rs: "rs = (r, st1)" by (cases rs)
    note a = add_page_dumping [OF d ok Done [unfolded rs] addr]
    have c1: "chunk_ok (ds_pp st1)" and full: "r = - EAGAIN \<Longrightarrow> free_bufs (ds_pp st1) = [] \<and> nr_pipes (ds_pp st1) = NR_PIPES_PER_CHUNK"
      using add_page_chunk [of "d_pp ds (ds_n st)" "opt_lazy_pages (d_opts ds)" "ds_pp st" addr 0 r "ds_pp st1"] c Done rs
      by (auto simp: add_page_def split: outcome.splits)
    show ?thesis
    proof (cases "r = - EAGAIN")
      case False
      then show ?thesis
        using a(1) c1 by (subst shmem_page.simps) (auto simp: np Done rs)
    next
      case again: True
      have d1: "dumping ds x0 D H lim cnt st1" using a(1) again by (simp add: EAGAIN_def)
      have flush: "shmem_page ds PST_DIRTY addr st =
          (case shmem_dump_pages ds st1 of
             Abort \<Rightarrow> Some Abort
           | Loops \<Rightarrow> Some Loops
           | Done (ret, st) \<Rightarrow> if ret \<noteq> 0 then Some (Done (ret, st))
               else (case reinit ds st of Abort \<Rightarrow> Some Abort | Loops \<Rightarrow> Some Loops | Done st \<Rightarrow> shmem_page ds PST_DIRTY addr st))"
        by (subst shmem_page.simps) (simp add: np Done rs again)
      show ?thesis
      proof (cases "\<exists>st2 st3. shmem_dump_pages ds st1 = Done (0, st2) \<and> reinit ds st2 = Done st3")
        case False
        then show ?thesis unfolding flush by (auto split: run.splits prod.splits)
      next
        case True
        then obtain st2 st3 where s: "shmem_dump_pages ds st1 = Done (0, st2)" "reinit ds st2 = Done st3" by blast
        note f = shmem_dump_pages_ok [OF d1 x s(1)]
        note i = reinit_dumping [OF d1 f(1,2,3,4) s(2)]
        have ri: "page_pipe_reinit (d_pp ds (ds_n st2)) (opt_lazy_pages (d_opts ds)) (ds_pp st1) = Ret (ds_pp st3)"
          using s(2) f(2) by (auto simp: reinit_def split: outcome.splits)
        have "bufs (ds_pp st1) \<noteq> []" "1 < nr_pipes (ds_pp st1)"
          using dumping_inv [OF d1] full [OF again] by (auto simp: pp_inv_def segs_ok_def NR_PIPES_PER_CHUNK_def)
        note rc = reinit_chunk [OF ri c1 this(1)] this(2)
        have c3: "chunk_ok (ds_pp st3)" "fresh_chunk (ds_pp st3)" using rc by auto
        have e: "shmem_page ds PST_DIRTY addr st = shmem_page ds PST_DIRTY addr st3" unfolding flush by (simp add: s)
        show ?thesis
        proof (cases "add_page ds addr 0 st3")
          case (Done rs3)
          obtain r3 st4 where rs3: "rs3 = (r3, st4)" by (cases rs3)
          note a3 = add_page_dumping [OF i(1) ok Done [unfolded rs3] addr]
          have pa: "page_pipe_add_page (d_pp ds (ds_n st3)) (opt_lazy_pages (d_opts ds)) (ds_pp st3) addr 0 = Ret (r3, ds_pp st4)"
            using Done rs3 by (auto simp: add_page_def split: outcome.splits)
          have "r3 = 0" by (rule fresh_chunk_takes [OF c3(2) dumping_inv [OF i(1)] _ pa]) (use c3(1) in \<open>simp add: chunk_ok_def\<close>)
          moreover have "chunk_ok (ds_pp st4)" by (rule add_page_chunk(1) [OF pa c3(1)])
          ultimately show ?thesis
            unfolding e using a3(1) by (subst shmem_page.simps) (simp add: np Done rs3 EAGAIN_def)
        qed (simp_all add: e shmem_page.simps [of ds PST_DIRTY addr st3] np)
      qed
    qed
  qed (simp_all add: shmem_page.simps [of ds PST_DIRTY addr st] np)
qed

lemma pst_distinct: "PST_DIRTY \<noteq> PST_ZERO"
  by (simp add: PST_DIRTY_def PST_ZERO_def)

lemma shmem_page_add:
  "add_page ds addr 0 st = Done (0, st') \<Longrightarrow> shmem_page ds PST_DIRTY addr st = Some (Done (0, st'))"
  "add_page ds addr 0 st = Abort \<Longrightarrow> shmem_page ds PST_DIRTY addr st = Some Abort"
  by (simp_all add: shmem_page.simps [of ds PST_DIRTY addr st] page_in_parent_def pst_distinct EAGAIN_def)

subsection \<open>All pages\<close>

text \<open>
  Of \<open>lseek\<close>: with \<open>SEEK_DATA\<close> the bytes from the given offset to the offset that is returned are zero, and all bytes from the given
  offset on when there is no more data.
\<close>

definition seek_ok :: "mem \<Rightarrow> ulong \<Rightarrow> nat \<Rightarrow> seek_sys \<Rightarrow> bool" where
  "seek_ok m addr sz fs \<longleftrightarrow>
     (\<forall>off o'. seek_data fs off = Seek_off o' \<longrightarrow> (\<forall>a. off \<le> a \<and> a < o' \<and> a < sz \<longrightarrow> m (addr + a) = 0)) \<and>
     (\<forall>off. seek_data fs off = Seek_enxio \<longrightarrow> (\<forall>a. off \<le> a \<and> a < sz \<longrightarrow> m (addr + a) = 0))"

definition zero_page :: "mem \<Rightarrow> ulong \<Rightarrow> nat \<Rightarrow> bool" where
  "zero_page m addr k \<longleftrightarrow> (\<forall>i<PAGE_SIZE. m (addr + k * PAGE_SIZE + i) = 0)"

lemma next_data_zero:
  assumes "next_data_segment fs pfn = Some (nd, nh)" "seek_ok m addr (n * PAGE_SIZE) fs" "pfn \<le> k" "k < nd" "k < n" "n * PAGE_SIZE < ULONG_MOD"
  shows "zero_page m addr k"
  unfolding zero_page_def
proof (intro allI impI)
  fix i assume i: "i < PAGE_SIZE"
  have le: "pfn * PAGE_SIZE \<le> k * PAGE_SIZE" using assms(3) by simp
  have "Suc k * PAGE_SIZE \<le> n * PAGE_SIZE" using assms(5) by (intro mult_le_mono1) simp
  then have a: "k * PAGE_SIZE + i < n * PAGE_SIZE" using i by simp
  have "pfn * PAGE_SIZE < ULONG_MOD" using le a assms(6) by linarith
  then have e: "ul_mul pfn PAGE_SIZE = pfn * PAGE_SIZE" by (rule ul_mul_exact)
  show "m (addr + k * PAGE_SIZE + i) = 0"
  proof (cases "seek_data fs (pfn * PAGE_SIZE)")
    case (Seek_off o')
    then have "nd = o' div PAGE_SIZE" using assms(1) by (auto simp: next_data_segment_def e split: seek_result.splits)
    then have "Suc k * PAGE_SIZE \<le> o' div PAGE_SIZE * PAGE_SIZE" using assms(4) by (intro mult_le_mono1) simp
    also have "\<dots> \<le> o'" by (rule div_times_less_eq_dividend)
    finally have "k * PAGE_SIZE + i < o'" using i by simp
    then show ?thesis using assms(2) Seek_off le a unfolding seek_ok_def by (metis add.assoc add_leD1 le_add1 order_trans)
  next
    case Seek_enxio
    then show ?thesis using assms(2) le a unfolding seek_ok_def by (metis add.assoc le_add1 order_trans)
  next
    case Seek_error
    then show ?thesis using assms(1) by (simp add: next_data_segment_def e)
  qed
qed

lemma shmem_page_zero: "shmem_page ds PST_ZERO addr st = Some (Done (0, st))"
  by (subst shmem_page.simps) (simp add: EAGAIN_def)

lemma page_state_untracked: "tracking \<longrightarrow> si_pstate_map si = None \<Longrightarrow> page_state tracking si pfn nd = (if pfn < nd then PST_ZERO else PST_DIRTY)"
  by (auto simp: page_state_def split: option.splits)

definition pages_upto :: "mem \<Rightarrow> ulong \<Rightarrow> nat \<Rightarrow> nat set \<Rightarrow> bool" where
  "pages_upto m addr j D \<longleftrightarrow> (\<forall>k<j. addr + k * PAGE_SIZE \<in> D \<or> zero_page m addr k)"

lemma pages_upto_Suc: "pages_upto m addr j D \<Longrightarrow> D \<subseteq> D' \<Longrightarrow> addr + j * PAGE_SIZE \<in> D' \<or> zero_page m addr j \<Longrightarrow> pages_upto m addr (Suc j) D'"
  by (auto simp: pages_upto_def less_Suc_eq)

lemma shmem_loop_ok:
  assumes ok: "pipe_calls_ok (d_pp ds)" and x: "n < 2 ^ 32" "transfer_lazy x0"
    and addr: "PAGE_SIZE dvd addr" "0 < addr" "addr + n * PAGE_SIZE < ULONG_MOD"
    and sk: "seek_ok (d_mem ds) addr (n * PAGE_SIZE) fs" and tr: "tracking \<longrightarrow> si_pstate_map si = None"
    and run: "shmem_loop ds fs tracking si addr [j..<n] nd nh ret st = Done (True, r, st')"
    and inv: "j \<le> n" "dumping ds x0 D {} (addr + j * PAGE_SIZE) j st" "chunk_ok (ds_pp st)" "pages_upto (d_mem ds) addr j D"
      "\<forall>k. j \<le> k \<and> k < nd \<and> k < n \<longrightarrow> zero_page (d_mem ds) addr k"
  shows "\<exists>D'. dumping ds x0 D' {} (addr + n * PAGE_SIZE) n st' \<and> pages_upto (d_mem ds) addr n D'"
  using run inv
proof (induction "n - j" arbitrary: j nd nh ret st D)
  case 0
  then show ?case by auto
next
  case (Suc i)
  let ?a = "addr + j * PAGE_SIZE" and ?m = "d_mem ds"
  have j: "j < n" "[j..<n] = j # [Suc j..<n]" using Suc.hyps(2) by (simp_all add: upt_conv_Cons)
  have "Suc j * PAGE_SIZE \<le> n * PAGE_SIZE" using j(1) by (intro mult_le_mono1) simp
  then have a: "?a + PAGE_SIZE < ULONG_MOD" "PAGE_SIZE dvd ?a" "0 < ?a" "addr + Suc j * PAGE_SIZE = ?a + PAGE_SIZE" using addr by simp_all
  have e: "ul_add addr (ul_mul j PAGE_SIZE) = ?a" using a(1) by (simp add: c_arith)
  obtain nd' nh' y st1 where nx: "(if nh \<le> j then next_data_segment fs j else Some (nd, nh)) = Some (nd', nh')"
    and y: "shmem_page ds (page_state tracking si j nd') ?a st = Some (Done (0, st1))"
    and rest: "shmem_loop ds fs tracking si addr [Suc j..<n] nd' nh' 0 st1 = Done (True, r, st')"
    using Suc.prems(1) unfolding j(2) by (auto simp: e bind_run_eq_Done split: option.splits if_splits)
  have z: "\<forall>k. j \<le> k \<and> k < nd' \<and> k < n \<longrightarrow> zero_page ?m addr k"
    using nx Suc.prems(6) next_data_zero [OF _ sk] addr(3) by (auto split: if_splits)
  have i: "i = n - Suc j" using Suc.hyps(2) by simp
  show ?case
  proof (cases "j < nd'")
    case True
    then have "st1 = st" using y by (simp add: page_state_untracked [OF tr] shmem_page_zero)
    then show ?thesis
      using Suc.hyps(1) [OF i rest, of D] j(1) Suc.prems(4,5) z True pages_upto_Suc [OF Suc.prems(5) subset_refl]
        dumping_mono [OF Suc.prems(3), of "addr + Suc j * PAGE_SIZE" "Suc j"] by auto
  next
    case False
    have lt: "j < 2 ^ 32" using j(1) x(1) by simp
    from shmem_page_dirty [OF Suc.prems(3) ok lt x(2) Suc.prems(4) order_refl a(2,3,1)] y False
    have p: "dumping ds x0 (insert ?a D) {} (addr + Suc j * PAGE_SIZE) (Suc j) st1" "chunk_ok (ds_pp st1)"
      by (simp_all only: a(4)) (simp_all add: page_state_untracked [OF tr])
    show ?thesis
      by (rule Suc.hyps(1) [OF i rest _ p]) (use j(1) z pages_upto_Suc [OF Suc.prems(5), of "insert ?a D"] in auto)
  qed
qed

subsection \<open>The whole dump\<close>

lemma open_xfer_local:
  assumes "open_xfer ds type img st = Done (0, st')" "\<not> d_use_ps ds"
  shows "\<not> x_server (ds_xfer st')" "x_pmi (ds_xfer st') = []" "x_pi (ds_xfer st') = []" "transfer_lazy (ds_xfer st')" "x_offset (ds_xfer st') = 0"
    "ds_pp st' = ds_pp st" "ds_n st' = ds_n st" "ds_ks st' = ds_ks st"
  using assms
  by (auto simp: open_xfer_def open_page_xfer_def open_page_local_xfer_def bind_run_eq_Done Let_def split: if_splits option.splits)

lemma close_xfer_images:
  assumes "close_xfer ds st = Done st'"
  shows "x_pmi (ds_xfer st') = x_pmi (ds_xfer st)" "x_pi (ds_xfer st') = x_pi (ds_xfer st)"
  using assms by (auto simp: close_xfer_def close_page_xfer_def bind_run_eq_Done split: if_splits)

definition seek_works :: "seek_sys \<Rightarrow> bool" where
  "seek_works fs \<longleftrightarrow> (\<forall>off. seek_data fs off \<noteq> Seek_error \<and> (\<exists>h. seek_hole fs off = Seek_off h))"

lemma shmem_loop_stop:
  "shmem_loop ds fs tracking si addr pfns nd nh ret st = Done (False, r, st') \<Longrightarrow> seek_works fs \<Longrightarrow> r \<noteq> 0"
proof (induction pfns arbitrary: nd nh ret st)
  case (Cons pfn pfns)
  have "next_data_segment fs pfn \<noteq> None" using Cons.prems(2)
    by (auto simp: next_data_segment_def seek_works_def split: seek_result.splits) (metis seek_result.distinct(1,3))+
  then show ?case using Cons by (auto simp: bind_run_eq_Done split: option.splits if_splits)
qed simp

lemma shmem_dumped:
  assumes run: "do_dump_one_shmem ds fs tracking addr si st = Done (0, st')" and ps: "\<not> d_use_ps ds" and ks: "ds_ks st = (\<lambda>_. [])"
    and ok: "pipe_calls_ok (d_pp ds)" and tr: "tracking \<longrightarrow> si_pstate_map si = None"
    and n: "n = DIV_ROUND_UP (si_size si) PAGE_SIZE" "n < 2 ^ 32"
    and addr: "PAGE_SIZE dvd addr" "0 < addr" "addr + n * PAGE_SIZE < ULONG_MOD" and sk: "seek_ok (d_mem ds) addr (n * PAGE_SIZE) fs" "seek_works fs"
  shows "\<exists>x0 D xfer. dumped (d_mem ds) x0 D {} (addr + n * PAGE_SIZE) xfer \<and> pages_upto (d_mem ds) addr n D \<and> x_pmi x0 = [] \<and> x_pi x0 = [] \<and>
    x_offset x0 = addr \<and> x_pmi (ds_xfer st') = x_pmi xfer \<and> x_pi (ds_xfer st') = x_pi xfer"
proof -
  let ?segs = "(n + 1) div 2"
  obtain pp st1 fin r st2 st3 where
    cr: "create_page_pipe (d_pp ds (ds_n st)) (opt_lazy_pages (d_opts ds)) ?segs None (map (d_junk ds) [0..<?segs]) PP_CHUNK_MODE = Ret (Some pp)"
    and op: "open_xfer ds CR_FD_SHMEM_PAGEMAP (si_shmid si) (st\<lparr>ds_pp := pp, ds_n := ds_n st + 1\<rparr>) = Done (0, st1)"
    and lp: "shmem_loop ds fs tracking si addr [0..<n] 0 0 (-1) (st1\<lparr>ds_xfer := (ds_xfer st1)\<lparr>x_offset := addr\<rparr>\<rparr>) = Done (fin, r, st2)"
    and fi: "(if fin then shmem_dump_pages ds st2 else Done (r, st2)) = Done (0, st3)" and cl: "close_xfer ds st3 = Done st'"
    using run unfolding do_dump_one_shmem_def n(1) [symmetric] Let_def
    by (auto simp: bind_run_eq_Done split: outcome.splits option.splits if_splits)
  have "fin" using shmem_loop_stop [of ds fs tracking si addr "[0..<n]" 0 0 "-1" _ r st2] lp fi sk(2) by (cases fin) auto
  then have lp1: "shmem_loop ds fs tracking si addr [0..<n] 0 0 (-1) (st1\<lparr>ds_xfer := (ds_xfer st1)\<lparr>x_offset := addr\<rparr>\<rparr>) = Done (True, r, st2)"
    using lp by (cases fin) auto
  let ?x0 = "(ds_xfer st1)\<lparr>x_offset := addr\<rparr>" and ?st = "st1\<lparr>ds_xfer := (ds_xfer st1)\<lparr>x_offset := addr\<rparr>\<rparr>"
  note o = open_xfer_local [OF op ps]
  have len: "?segs \<le> length (case None of None \<Rightarrow> map (d_junk ds) [0..<?segs] | Some l \<Rightarrow> l)" by simp
  have x0: "\<not> x_server ?x0" "PAGE_SIZE dvd x_offset ?x0" "transfer_lazy ?x0" using o addr(1) by simp_all
  have "dumping ds ?x0 {} {} (addr + 0 * PAGE_SIZE) 0 ?st"
    using building_create [OF cr len ok x0(1,2), of "d_mem ds" addr 0] o ks create_page_pipe_ok [OF cr len] ok
    by (simp add: dumping_def pipe_calls_ok_def)
  moreover have "chunk_ok (ds_pp ?st)" using create_chunk [OF cr] o by (simp add: PP_CHUNK_MODE_def)
  moreover have "pages_upto (d_mem ds) addr 0 {}" by (simp add: pages_upto_def)
  ultimately obtain D where D: "dumping ds ?x0 D {} (addr + n * PAGE_SIZE) n st2" "pages_upto (d_mem ds) addr n D"
    using shmem_loop_ok [OF ok n(2) x0(3) addr sk(1) tr lp1] by auto
  have "shmem_dump_pages ds st2 = Done (0, st3)" using fi \<open>fin\<close> by simp
  note f = shmem_dump_pages_ok [OF D(1) n(2) x0(3) this]
  show ?thesis
    using f(1) D(2) o(2,3) close_xfer_images [OF cl] by (intro exI [of _ ?x0] exI [of _ D] exI [of _ "ds_xfer st3"]) simp
qed

text \<open>
  (C3) Dumping a shared memory segment and restoring it: when the dump of the segment that is mapped at \<open>addr\<close> returns 0, without tracking
  of its pages and with \<open>lseek\<close> behaving as documented, then opening the written images, with whatever parent, and restoring their content
  into a fresh mapping returns 0 and gives every byte of the segment its value at the dump.
\<close>

theorem shmem_roundtrip:
  assumes run: "do_dump_one_shmem ds fs tracking addr si st = Done (0, st')" and loc: "\<not> d_use_ps ds" "ds_ks st = (\<lambda>_. [])" "pipe_calls_ok (d_pp ds)"
    and tr: "tracking \<longrightarrow> si_pstate_map si = None" and n: "n = DIV_ROUND_UP (si_size si) PAGE_SIZE" "n < 2 ^ 32"
    and addr: "PAGE_SIZE dvd addr" "0 < addr" "addr + n * PAGE_SIZE < ULONG_MOD"
    and sk: "seek_ok (d_mem ds) addr (n * PAGE_SIZE) fs" "seek_works fs"
    and op: "open_page_read_at sys False lazy img (Image_dir (Some (fsz, x_pmi (ds_xfer st'), False)) False (Some (x_pi (ds_xfer st'))) par) i = Done (1, prs, j)"
    and par: "\<forall>d. par = Some d \<longrightarrow> snapshots_ok (snapshots d)" and sys: "sys_ok sys"
    and sz: "n * PAGE_SIZE \<le> sz" and fresh: "\<forall>a<n * PAGE_SIZE. m (at + a) = 0"
  shows "\<exists>prs' m'. do_restore_shmem_content sys prs at sz m = Done (0, prs', m') \<and> (\<forall>a<n * PAGE_SIZE. m' (at + a) = d_mem ds (addr + a))"
proof -
  obtain x0 D xfer where du: "dumped (d_mem ds) x0 D {} (addr + n * PAGE_SIZE) xfer" and up: "pages_upto (d_mem ds) addr n D"
    and x0: "x_pmi x0 = []" "x_pi x0 = []" "x_offset x0 = addr" and im: "x_pmi (ds_xfer st') = x_pmi xfer" "x_pi (ds_xfer st') = x_pi xfer"
    using shmem_dumped [OF run loc tr n addr sk] by blast
  define ls where "ls = (case par of None \<Rightarrow> [] | Some d \<Rightarrow> snapshots d)"
  note w = dumped_image [OF du x0(1,2)]
  have "map init_compat_pagemap_entry (x_pmi xfer) = x_pmi xfer" using w(3) by (simp add: map_idI)
  then have s: "snapshots (Image_dir (Some (fsz, x_pmi (ds_xfer st'), False)) False (Some (x_pi (ds_xfer st'))) par) = (x_pmi xfer, x_pi xfer) # ls"
    by (simp add: im ls_def)
  have "length (x_pi xfer) < ULONG_MOD" using dumped_size [OF du x0(1,2)] addr(3) by simp
  then have sok: "snapshots_ok ((x_pmi xfer, x_pi xfer) # ls)" using w(1,2) par by (auto simp: snapshots_ok_def ls_def split: option.splits)
  have rd: "byte_at ((x_pmi xfer, x_pi xfer) # ls) a = (if image_page (a + addr) \<in> D then Some (d_mem ds (a + addr)) else None)" for a
    using dumped_read [OF du x0(1,2), of "a + addr" ls] x0(3) by simp
  have fr: "list_all2 fresh ((x_pmi xfer, x_pi xfer) # ls) prs" using open_page_read_at_fresh [OF op] unfolding s by simp
  have le: "\<forall>e\<in>set (fst (x_pmi xfer, x_pi xfer)). pe_end e \<le> sz" using w(3) sz x0(3) by (auto intro: order_trans)
  have full: "\<forall>a. mapped (fst (x_pmi xfer, x_pi xfer)) a \<longrightarrow> byte_at ((x_pmi xfer, x_pi xfer) # ls) a \<noteq> None"
    using dumped_mapped [OF du x0(1)] x0(3) by (simp add: rd del: byte_at.simps)
  from shmem_ok [OF fr sok sys le full, of at m] obtain prs' where r: "do_restore_shmem_content sys prs at sz m = Done (0, prs', \<lambda>x. if at \<le> x
    then (case byte_at ((x_pmi xfer, x_pi xfer) # ls) (x - at) of Some b \<Rightarrow> b | None \<Rightarrow> m x) else m x)" by blast
  have "(case byte_at ((x_pmi xfer, x_pi xfer) # ls) a of Some b \<Rightarrow> b | None \<Rightarrow> m (at + a)) = d_mem ds (addr + a)" if a: "a < n * PAGE_SIZE" for a
  proof (cases "image_page (a + addr) \<in> D")
    case True
    then show ?thesis by (simp add: rd add.commute del: byte_at.simps)
  next
    case False
    let ?k = "a div PAGE_SIZE"
    have k: "?k < n" using a by (simp add: div_less_iff_less_mult)
    have "image_page (a + addr) = addr + ?k * PAGE_SIZE" using addr(1) by (auto simp: image_page_def div_plus_div_distrib_dvd_right add_mult_distrib)
    then have "zero_page (d_mem ds) addr ?k" using up k False by (auto simp: pages_upto_def)
    then have "d_mem ds (addr + ?k * PAGE_SIZE + a mod PAGE_SIZE) = 0" unfolding zero_page_def using mod_less_divisor [OF PAGE_SIZE_pos] by blast
    moreover have "addr + ?k * PAGE_SIZE + a mod PAGE_SIZE = addr + a" by simp
    ultimately show ?thesis using False fresh a by (simp add: rd del: byte_at.simps)
  qed
  then show ?thesis using r by (auto simp del: byte_at.simps)
qed

text \<open>A segment of one page, dumped and restored.\<close>

definition demo_opts :: mem_opts where
  "demo_opts = \<lparr>track_mem = False, img_parent = False, opt_lazy_pages = False, pre_dump_mode = 1, zero_page_pfn = 0, task_size = 2 ^ 47,
     stack_guard_gap_hidden = False\<rparr>"

definition demo_ds :: dump_sys where
  "demo_ds = \<lparr>d_opts = demo_opts, d_mem = (\<lambda>a. of_nat a), d_pp = demo_pp_sys,
     d_realloc = (\<lambda>_. (True, True, replicate 32 \<lparr>iov_base = 0, iov_len = 0\<rparr>, replicate 32 0)), d_junk = (\<lambda>_. \<lparr>iov_base = 0, iov_len = 0\<rparr>),
     d_vmsplice = (\<lambda>_. 4096), d_xfer = demo_xfer_sys (demo_pr_sys\<lparr>auto_dedup := False\<rparr>), d_use_ps = False, d_answer = None, d_stream = False,
     d_img_ok = (\<lambda>_ _. (True, True)), d_par = (\<lambda>_ _. None)\<rparr>"

definition demo_state :: dump_state where
  "demo_state = \<lparr>ds_n = 0, ds_pp = demo_pp, ds_xfer = empty_xfer, ds_ks = (\<lambda>_. []), ds_ids = 0\<rparr>"

definition demo_seek :: "nat \<Rightarrow> seek_sys" where
  "demo_seek n = \<lparr>seek_data = (\<lambda>off. if off < n then Seek_off off else Seek_enxio), seek_hole = (\<lambda>off. Seek_off n)\<rparr>"

definition demo_chunk :: "nat \<Rightarrow> page_pipe" where
  "demo_chunk n = \<lparr>nr_pipes = 1, bufs = [0], free_bufs = [], prev = (\<lambda>_. None)(False := Some 0), nr_iovs = n, free_iov = 0,
     iovs = replicate n \<lparr>iov_base = 0, iov_len = 0\<rparr>, nr_holes = 0, free_hole = 0, holes = [], hole_flags = [], pp_flags = 5,
     store = (\<lambda>_. \<lparr>ppb_p = 0, pipe_size = 0, pipe_off = 0, pages_in = 0, nr_segs = 0, ppb_flags = 0, ppb_iov = 0\<rparr>)
       (0 := \<lparr>ppb_p = 0, pipe_size = 16, pipe_off = 0, pages_in = 0, nr_segs = 0, ppb_flags = 0, ppb_iov = 0\<rparr>), next_ppb = 1\<rparr>"

lemma demo_create_chunk:
  "create_page_pipe (demo_pp_sys 0) lazy n None (map (d_junk demo_ds) [0..<n]) PP_CHUNK_MODE = Ret (Some (demo_chunk n))"
proof -
  have "map (d_junk demo_ds) [0..<n] = replicate n \<lparr>iov_base = 0, iov_len = 0\<rparr>" by (simp add: demo_ds_def map_replicate_trivial)
  then show ?thesis
    by (simp add: create_page_pipe_def page_pipe_grow_def ppb_alloc_def ppb_reuse_def pp_prev_ppb_def ppb_link_def
        pp_update_prev_ppb_def ppb_init_def ppb_type_def demo_pp_sys_def demo_chunk_def PAGE_SIZE_def PP_CHUNK_MODE_def PP_OWN_IOVS_def
        NR_PIPES_PER_CHUNK_def Let_def)
qed

lemma demo_open_xfer: "open_xfer demo_ds type img st = Done (0, st\<lparr>ds_xfer := (ds_xfer st)\<lparr>x_offset := 0, transfer_lazy := True,
   x_pmi := [], x_pi := [], x_parent := [], x_has_parent := False, x_server := False\<rparr>\<rparr>)"
  by (simp add: open_xfer_def open_page_xfer_def open_page_local_xfer_def demo_ds_def Let_def)

definition demo_chunk1 :: "page_pipe" where
  "demo_chunk1 = (demo_chunk 1)\<lparr>free_iov := 1, iovs := [\<lparr>iov_base = 8192, iov_len = 4096\<rparr>], 
     store := (store (demo_chunk 1))(0 := \<lparr>ppb_p = 0, pipe_size = 16, pipe_off = 0, pages_in = 1, nr_segs = 1, ppb_flags = 0, ppb_iov = 0\<rparr>)\<rparr>"

lemma demo_add_chunk: "page_pipe_add_page (demo_pp_sys k) lazy (demo_chunk 1) 8192 0 = Ret (0, demo_chunk1)"
  by (simp add: page_pipe_add_page_def try_add_page_def try_add_page_to_def ppb_resize_pipe_def add_page_iov_def demo_chunk_def demo_chunk1_def iov_init_def
     PAGE_SIZE_def Let_def)


abbreviation demo_x :: page_xfer where
  "demo_x \<equiv> empty_xfer\<lparr>x_offset := 8192\<rparr>"

lemma demo_loop: "shmem_loop demo_ds (demo_seek n) False si 8192 [0] 0 0 ret (demo_state\<lparr>ds_pp := demo_chunk 1, ds_n := k, ds_xfer := demo_x\<rparr>) =
   (if n = 0 then Done (True, 0, demo_state\<lparr>ds_pp := demo_chunk 1, ds_n := k, ds_xfer := demo_x\<rparr>)
    else Done (True, 0, demo_state\<lparr>ds_pp := demo_chunk1, ds_n := k + 1, ds_xfer := demo_x\<rparr>))"
proof -
  have a: "add_page demo_ds 8192 0 (demo_state\<lparr>ds_pp := demo_chunk 1, ds_n := k, ds_xfer := demo_x\<rparr>)
    = Done (0, demo_state\<lparr>ds_pp := demo_chunk1, ds_n := k + 1, ds_xfer := demo_x\<rparr>)"
    using demo_add_chunk [of k] by (simp add: add_page_def demo_ds_def)
  have p: "shmem_page demo_ds PST_DIRTY 8192 (demo_state\<lparr>ds_pp := demo_chunk 1, ds_n := k, ds_xfer := demo_x\<rparr>)
    = Some (Done (0, demo_state\<lparr>ds_pp := demo_chunk1, ds_n := k + 1, ds_xfer := demo_x\<rparr>))"
    using a by (subst shmem_page.simps) (simp add: page_in_parent_def PST_DIRTY_def PST_ZERO_def EAGAIN_def)
  have "ul_mul 0 PAGE_SIZE = 0" "ul_add 8192 0 = 8192" by (simp_all add: ul_mul_def ul_add_def ULONG_MOD_def)
  then show ?thesis using p by (simp add: next_data_segment_def demo_seek_def page_state_untracked shmem_page_zero ULONG_MOD_def)
qed

lemma demo_dump_shmem:
  "shmem_dump_pages demo_ds (demo_state\<lparr>ds_pp := demo_chunk1, ds_n := k, ds_xfer := demo_x\<rparr>) =
   Done (0, demo_state\<lparr>ds_pp := demo_chunk1, ds_n := k + 1, ds_xfer := demo_x\<lparr>x_pmi := [\<lparr>pe_vaddr = 0, nr_pages = 1, pe_flags = PE_PRESENT, has_flags = True, pe_in_parent = None\<rparr>],
      x_pi := mem_read (\<lambda>a. of_nat a) 8192 4096\<rparr>\<rparr>)"
proof -
  let ?st = "demo_state\<lparr>ds_pp := demo_chunk1, ds_n := k, ds_xfer := demo_x\<rparr>"
  let ?st1 = "?st\<lparr>ds_n := k + 1, ds_ks := (\<lambda>_. [])(0 := mem_read (\<lambda>a. of_nat a) 8192 4096)\<rparr>"
  have iv: "ppb_iovs demo_chunk1 0 = [\<lparr>iov_base = 8192, iov_len = 4096\<rparr>]" by (simp add: ppb_iovs_def demo_chunk1_def)
  have s: "splice_bufs demo_ds (bufs demo_chunk1) ?st = (0, ?st1)"
    using iv by (simp add: demo_chunk1_def demo_chunk_def sys_vmsplice_def demo_ds_def iov_contents_def demo_state_def PAGE_SIZE_def Let_def)
  have w: "write_pages_loc (demo_xfer_sys prs) 0 4096 (mem_read m 8192 4096) img = (0, [], img @ mem_read m 8192 4096)" for prs img m
    by (subst write_pages_loc.simps) (simp add: sys_splice_def demo_xfer_sys_def flip: length_0_conv)
  have "xfer_dump demo_ds ?st1 = Done (0, ?st1\<lparr>ds_ks := (\<lambda>_. []), ds_xfer := demo_x\<lparr>x_pmi := [\<lparr>pe_vaddr = 0, nr_pages = 1, pe_flags = PE_PRESENT, has_flags = True, pe_in_parent = None\<rparr>],
      x_pi := mem_read (\<lambda>a. of_nat a) 8192 4096\<rparr>\<rparr>)"
    using iv w by (simp add: xfer_dump_def page_xfer_dump_pages_def dump_holes.simps demo_chunk1_def demo_chunk_def ppb_xfer_flags_def write_pagemap_def write_pagemap_loc_def
       parent_checks_def write_pages_def demo_ds_def demo_xfer_sys_def PAGE_SIZE_def empty_xfer_def demo_state_def Let_def fun_eq_iff)
  then show ?thesis using s by (simp add: shmem_dump_pages_def demo_state_def)
qed


lemma demo_do_dump:
  "do_dump_one_shmem demo_ds (demo_seek 4096) False 8192 (blank_shmem 5 1 4096) demo_state =
   Done (0, demo_state\<lparr>ds_pp := demo_chunk1, ds_n := 3, ds_xfer := demo_x\<lparr>x_pmi := [\<lparr>pe_vaddr = 0, nr_pages = 1, pe_flags = PE_PRESENT, has_flags = True, pe_in_parent = None\<rparr>],
      x_pi := mem_read (\<lambda>a. of_nat a) 8192 4096\<rparr>\<rparr>)"
proof -
  have n: "DIV_ROUND_UP 4096 PAGE_SIZE = 1" by (simp add: DIV_ROUND_UP_def PAGE_SIZE_def ul_add_def ul_sub_def ULONG_MOD_def)
  have pp: "d_pp demo_ds = demo_pp_sys" by (simp add: demo_ds_def)
  have x: "empty_xfer\<lparr>x_offset := 0, transfer_lazy := True, x_pmi := [], x_pi := [], x_parent := [], x_has_parent := False, x_server := False\<rparr> = empty_xfer"
    by (simp add: empty_xfer_def)
  have fl: "ds_n demo_state = 0" "ds_xfer demo_state = empty_xfer" "x_parent empty_xfer = []" by (simp_all add: demo_state_def empty_xfer_def)
  have cr: "create_page_pipe (demo_pp_sys 0) lazy (Suc 0) None [d_junk demo_ds 0] PP_CHUNK_MODE = Ret (Some (demo_chunk (Suc 0)))" for lazy
    using demo_create_chunk [of lazy "Suc 0"] by simp
  have sz: "si_size (blank_shmem 5 1 4096) = 4096" by (simp add: blank_shmem_def)
  have cl: "close_xfer demo_ds st = Done st" if "x_parent (ds_xfer st) = []" for st
    using that by (simp add: close_xfer_def close_page_xfer_def)
  show ?thesis
    unfolding do_dump_one_shmem_def
    using demo_loop [of 4096 "blank_shmem 5 1 4096" "-1" 1] demo_dump_shmem [of "Suc (Suc 0)"]
    by (simp add: sz n pp cr fl demo_open_xfer x cl upt_rec [of 0] del: shmem_loop.simps)
qed

theorem shmem_roundtrip_witness:
  "\<exists>st' prs prs' m'. do_dump_one_shmem demo_ds (demo_seek 4096) False 8192 (blank_shmem 5 1 4096) demo_state = Done (0, st') \<and>
     open_page_read_at demo_pr_sys False False 5 (Image_dir (Some (64, x_pmi (ds_xfer st'), False)) False (Some (x_pi (ds_xfer st'))) None) 0 = Done (1, prs, 1) \<and>
     do_restore_shmem_content demo_pr_sys prs 4096 4096 (\<lambda>_. 0) = Done (0, prs', m') \<and> m' 4100 = 4"
proof -
  let ?e = "\<lparr>pe_vaddr = 0, nr_pages = 1, pe_flags = PE_PRESENT, has_flags = True, pe_in_parent = None\<rparr>" and ?f = "mem_read (\<lambda>a. of_nat a) 8192 4096"
  have n: "1 = DIV_ROUND_UP (si_size (blank_shmem 5 1 4096)) PAGE_SIZE"
    by (simp add: blank_shmem_def DIV_ROUND_UP_def PAGE_SIZE_def ul_add_def ul_sub_def ULONG_MOD_def)
  have op: "open_page_read_at demo_pr_sys False False 5 (Image_dir (Some (64, [?e], False)) False (Some ?f) None) 0 = Done (1, [new_page_read 0 5 [?e] ?f False False False], 1)"
    by (simp add: demo_pr_sys_def init_pagemaps_def PAGEMAP_ENTRY_SIZE_ESTIMATE_def init_compat_pagemap_entry_def)
  have pk: "pipe_calls_ok (d_pp demo_ds)" by (auto simp: pipe_calls_ok_def demo_ds_def demo_pp_sys_def setpipe_ok_def PAGE_SIZE_def)
  have sk: "seek_ok (d_mem demo_ds) 8192 (1 * PAGE_SIZE) (demo_seek 4096)" "seek_works (demo_seek 4096)"
    by (auto simp: seek_ok_def demo_seek_def seek_works_def PAGE_SIZE_def)
  obtain prs' m' where "do_restore_shmem_content demo_pr_sys [new_page_read 0 5 [?e] ?f False False False] 4096 4096 (\<lambda>_. 0) = Done (0, prs', m')"
    "\<forall>a<1 * PAGE_SIZE. m' (4096 + a) = d_mem demo_ds (8192 + a)"
    using shmem_roundtrip [OF demo_do_dump _ _ pk _ n _ _ _ _ sk, of demo_pr_sys False 5 64 None 0 "[new_page_read 0 5 [?e] ?f False False False]" 1 4096 "\<lambda>_. 0" 4096]
      op demo_pr_sys_ok by (auto simp: demo_ds_def demo_state_def PAGE_SIZE_def ULONG_MOD_def)
  moreover from this(2) have "m' (4096 + 4) = d_mem demo_ds (8192 + 4)" by (simp only: PAGE_SIZE_def)
  moreover have "d_mem demo_ds (8192 + 4) = 4" by (simp add: demo_ds_def)
  ultimately show ?thesis using op by (auto simp: demo_do_dump simp del: open_page_read_at.simps)
qed

text \<open>
  The loop that meets a failing \<open>lseek\<close> behind its first pages. Before the page \<open>k\<close> no segment of data is said to reach beyond it.
\<close>

lemma shmem_loop_seek_error:
  assumes "shmem_loop ds fs tracking si addr pfns nd nh ret st = Done (True, r, st')" "next_data_segment fs k = None"
    and "\<forall>pfn\<in>set pfns. \<forall>nd nh. next_data_segment fs pfn = Some (nd, nh) \<longrightarrow> nh \<le> k" "nh \<le> k"
  shows "shmem_loop ds fs tracking si addr (pfns @ k # ks) nd nh ret st = Done (False, r, st')"
    "r = (if pfns = [] then ret else 0)"
proof -
  have "shmem_loop ds fs tracking si addr (pfns @ k # ks) nd nh ret st = Done (False, r, st') \<and> r = (if pfns = [] then ret else 0)"
    using assms
  proof (induction pfns arbitrary: nd nh ret st)
    case (Cons pfn pfns)
    obtain nd1 nh1 where nx: "(if nh \<le> pfn then next_data_segment fs pfn else Some (nd, nh)) = Some (nd1, nh1)"
      using Cons.prems(1) by (auto split: option.splits)
    have nh1: "nh1 \<le> k" using nx Cons.prems(3,4) by (auto split: if_splits)
    obtain st1 where pg: "shmem_page ds (page_state tracking si pfn nd1) (ul_add addr (ul_mul pfn PAGE_SIZE)) st = Some (Done (0, st1))"
      and rest: "shmem_loop ds fs tracking si addr pfns nd1 nh1 0 st1 = Done (True, r, st')"
      using Cons.prems(1) nx by (auto simp: bind_run_eq_Done split: option.splits if_splits)
    have "shmem_loop ds fs tracking si addr (pfns @ k # ks) nd1 nh1 0 st1 = Done (False, r, st') \<and> r = (if pfns = [] then 0 else 0)"
      by (rule Cons.IH [OF rest assms(2) _ nh1]) (use Cons.prems(3) in simp)
    then show ?case using nx pg by simp
  qed simp
  then show "shmem_loop ds fs tracking si addr (pfns @ k # ks) nd nh ret st = Done (False, r, st')" "r = (if pfns = [] then ret else 0)" by auto
qed

lemma next_data_upto:
  assumes "\<forall>off<k * PAGE_SIZE. \<forall>o' h. seek_data fs off = Seek_off o' \<and> seek_hole fs o' = Seek_off h \<longrightarrow> h \<le> k * PAGE_SIZE"
    "\<forall>off<k * PAGE_SIZE. seek_data fs off \<noteq> Seek_enxio" "pfn < k" "k * PAGE_SIZE < ULONG_MOD" "next_data_segment fs pfn = Some (nd, nh)"
  shows "nh \<le> k"
proof -
  have lt: "pfn * PAGE_SIZE < k * PAGE_SIZE" using assms(3) by simp
  then have e: "ul_mul pfn PAGE_SIZE = pfn * PAGE_SIZE" using assms(4) by (intro ul_mul_exact) (rule less_trans)
  obtain o' h where s: "seek_data fs (pfn * PAGE_SIZE) = Seek_off o'" "seek_hole fs o' = Seek_off h" "nh = h div PAGE_SIZE"
    using assms(2,5) lt by (auto simp: next_data_segment_def e split: seek_result.splits)
  then have "h \<le> k * PAGE_SIZE" using assms(1) lt by blast
  then have "h div PAGE_SIZE \<le> k * PAGE_SIZE div PAGE_SIZE" by (rule div_le_mono)
  then show ?thesis using s(3) by simp
qed

text \<open>
  (C37) When \<open>lseek\<close> fails on a page \<open>k\<close> behind the first, \<open>do_dump_one_shmem\<close> leaves its loop with the result 0 of the page before.
  Whenever the pages in front of \<open>k\<close> could be put in the page pipe, it returns 0, and the images are what they were
  when it stopped: the pages that were still in the page pipe are not written, nor is any page from \<open>k\<close> on.
\<close>

theorem shmem_seek_error_lost:
  assumes n: "n = DIV_ROUND_UP (si_size si) PAGE_SIZE" "0 < k" "k < n" "n * PAGE_SIZE < ULONG_MOD"
    and fs: "seek_data fs (k * PAGE_SIZE) = Seek_error" "\<forall>off<k * PAGE_SIZE. seek_data fs off \<noteq> Seek_enxio"
      "\<forall>off<k * PAGE_SIZE. \<forall>o' h. seek_data fs off = Seek_off o' \<and> seek_hole fs o' = Seek_off h \<longrightarrow> h \<le> k * PAGE_SIZE"
    and cr: "create_page_pipe (d_pp ds (ds_n st)) (opt_lazy_pages (d_opts ds)) ((n + 1) div 2) None (map (d_junk ds) [0..<(n + 1) div 2]) PP_CHUNK_MODE = Ret (Some pp)"
    and op: "open_xfer ds CR_FD_SHMEM_PAGEMAP (si_shmid si) (st\<lparr>ds_pp := pp, ds_n := ds_n st + 1\<rparr>) = Done (0, st1)"
    and pre: "shmem_loop ds fs tracking si addr [0..<k] 0 0 (-1) (st1\<lparr>ds_xfer := (ds_xfer st1)\<lparr>x_offset := addr\<rparr>\<rparr>) = Done (True, r, st2)"
    and cl: "close_xfer ds st2 = Done st3"
  shows "do_dump_one_shmem ds fs tracking addr si st = Done (0, st3) \<and> x_pmi (ds_xfer st3) = x_pmi (ds_xfer st2) \<and> x_pi (ds_xfer st3) = x_pi (ds_xfer st2)"
proof -
  have kn: "k * PAGE_SIZE < ULONG_MOD" using n(3,4) by (meson less_trans mult_less_mono1 PAGE_SIZE_pos)
  then have nk: "next_data_segment fs k = None" using fs(1) by (simp add: next_data_segment_def c_arith)
  have bd: "\<forall>pfn\<in>set [0..<k]. \<forall>nd nh. next_data_segment fs pfn = Some (nd, nh) \<longrightarrow> nh \<le> k"
    using next_data_upto [OF fs(3,2) _ kn] by auto
  have ks: "[0..<n] = [0..<k] @ k # [Suc k..<n]" using n(3) by (metis upt_add_eq_append upt_conv_Cons less_imp_add_positive zero_le)
  have "shmem_loop ds fs tracking si addr [0..<n] 0 0 (-1) (st1\<lparr>ds_xfer := (ds_xfer st1)\<lparr>x_offset := addr\<rparr>\<rparr>) = Done (False, 0, st2)"
    unfolding ks using shmem_loop_seek_error(1) [OF pre nk bd zero_le, of "[Suc k..<n]"] shmem_loop_seek_error(2) [OF pre nk bd zero_le] n(2) by simp
  then have "do_dump_one_shmem ds fs tracking addr si st = Done (0, st3)"
    unfolding do_dump_one_shmem_def n(1) [symmetric] using cr op cl by (simp add: Let_def)
  then show ?thesis using close_xfer_images [OF cl] by simp
qed

theorem shmem_seek_error_lost_witness:
  "\<exists>st'. do_dump_one_shmem demo_ds ((demo_seek 4096)\<lparr>seek_data := \<lambda>off. if off = 0 then Seek_off 0 else Seek_error\<rparr>) False 8192 (blank_shmem 5 1 8192) demo_state = Done (0, st')
     \<and> x_pmi (ds_xfer st') = [] \<and> x_pi (ds_xfer st') = []"
proof -
  let ?fs = "(demo_seek 4096)\<lparr>seek_data := \<lambda>off. if off = 0 then Seek_off 0 else Seek_error\<rparr>"
  let ?st = "\<lambda>n pp. demo_state\<lparr>ds_pp := pp, ds_n := n, ds_xfer := demo_x\<rparr>"
  have ad: "add_page demo_ds 8192 0 (?st 1 (demo_chunk 1)) = Done (0, ?st 2 demo_chunk1)"
    using demo_add_chunk [of 1] by (simp add: add_page_def demo_ds_def)
  have nx: "next_data_segment ?fs 0 = Some (0, 1)"
    by (simp add: next_data_segment_def demo_seek_def ul_mul_def ULONG_MOD_def PAGE_SIZE_def)
  have at: "ul_add 8192 (ul_mul 0 PAGE_SIZE) = 8192" by (simp add: ul_mul_def ul_add_def ULONG_MOD_def)
  have loop: "shmem_loop demo_ds ?fs False (blank_shmem 5 1 8192) 8192 [0..<1] 0 0 (-1) (?st 1 (demo_chunk 1)) = Done (True, 0, ?st 2 demo_chunk1)"
    using nx at by (simp add: page_state_untracked shmem_page_add(1) [OF ad] upt_rec [of 0] del: One_nat_def)
  have n: "2 = DIV_ROUND_UP (si_size (blank_shmem 5 1 8192)) PAGE_SIZE"
    by (simp add: blank_shmem_def DIV_ROUND_UP_def PAGE_SIZE_def ul_add_def ul_sub_def ULONG_MOD_def)
  have xe: "empty_xfer\<lparr>x_offset := 0, transfer_lazy := True, x_pmi := [], x_pi := [], x_parent := [], x_has_parent := False, x_server := False\<rparr> = empty_xfer"
    by (simp add: empty_xfer_def)
  have cr: "create_page_pipe (d_pp demo_ds (ds_n demo_state)) (opt_lazy_pages (d_opts demo_ds)) ((2 + 1) div 2) None (map (d_junk demo_ds) [0..<(2 + 1) div 2]) PP_CHUNK_MODE
     = Ret (Some (demo_chunk 1))"
    using demo_create_chunk [of "opt_lazy_pages (d_opts demo_ds)" 1] by (simp add: demo_ds_def demo_state_def)
  have op: "open_xfer demo_ds CR_FD_SHMEM_PAGEMAP (si_shmid (blank_shmem 5 1 8192)) (demo_state\<lparr>ds_pp := demo_chunk 1, ds_n := ds_n demo_state + 1\<rparr>)
     = Done (0, demo_state\<lparr>ds_pp := demo_chunk 1, ds_n := 1, ds_xfer := empty_xfer\<rparr>)"
    unfolding demo_open_xfer using xe by (simp add: demo_state_def)
  have cl: "close_xfer demo_ds (?st 2 demo_chunk1) = Done (?st 2 demo_chunk1)" by (simp add: close_xfer_def close_page_xfer_def empty_xfer_def)
  have seek: "seek_data ?fs (1 * PAGE_SIZE) = Seek_error" "\<forall>off<1 * PAGE_SIZE. seek_data ?fs off \<noteq> Seek_enxio"
    "\<forall>off<1 * PAGE_SIZE. \<forall>o' h. seek_data ?fs off = Seek_off o' \<and> seek_hole ?fs o' = Seek_off h \<longrightarrow> h \<le> 1 * PAGE_SIZE"
    by (simp_all add: demo_seek_def PAGE_SIZE_def)
  have "do_dump_one_shmem demo_ds ?fs False 8192 (blank_shmem 5 1 8192) demo_state = Done (0, ?st 2 demo_chunk1) \<and>
    x_pmi (ds_xfer (?st 2 demo_chunk1)) = x_pmi (ds_xfer (?st 2 demo_chunk1)) \<and> x_pi (ds_xfer (?st 2 demo_chunk1)) = x_pi (ds_xfer (?st 2 demo_chunk1))"
    by (rule shmem_seek_error_lost [OF n _ _ _ seek cr op _ cl]) (use loop in \<open>simp_all add: PAGE_SIZE_def ULONG_MOD_def del: shmem_loop.simps\<close>)
  then show ?thesis by (auto simp: empty_xfer_def)
qed

end
