(* ===== verification/ShmemOpen.thy ===== *)
theory ShmemOpen
  imports Shmem
begin

text \<open>
  The restore of shared memory segments by several tasks, \<open>collect_shmem\<close>, \<open>open_shmem\<close> and \<open>shmem_wait_and_open\<close> of \<open>criu/shmem.c\<close>.

  Before the tasks are forked, the areas of all of them are counted by segment. Then every task opens its areas in the order of their
  addresses, at the same time as the others. The task with the lowest pid creates the segment; it goes on
  only when every area of another task has been opened. The others wait until the segment is there.
\<close>

subsection \<open>The table as a map\<close>

locale keyed_table =
  fixes find :: "'t \<Rightarrow> 'k \<Rightarrow> 'a option"
    and add :: "'a \<Rightarrow> 't \<Rightarrow> 't"
    and put :: "'a \<Rightarrow> 't \<Rightarrow> 't"
    and key :: "'a \<Rightarrow> 'k"
  assumes find_add: "find (add x t) k = (if k = key x then Some x else find t k)"
    and find_put: "find t (key x) \<noteq> None \<Longrightarrow> find (put x t) k = (if k = key x then Some x else find t k)"
    and key_find: "find t k = Some x \<Longrightarrow> key x = k"
begin

lemma put_found: "find t k = Some x \<Longrightarrow> key y = k \<Longrightarrow> find (put y t) j = (if j = k then Some y else find t j)"
  using find_put [of t y j] by auto

lemma put_keeps: "find t (key y) \<noteq> None \<Longrightarrow> find (put y t) k = None \<longleftrightarrow> find t k = None"
  by (auto simp: find_put)

end

lemma chain_find_set: "chain_find (si_shmid si) sis \<noteq> None \<Longrightarrow> chain_find k (chain_set si sis) = (if k = si_shmid si then Some si else chain_find k sis)"
  by (induction sis) auto

lemma chain_find_key: "chain_find k sis = Some si \<Longrightarrow> si_shmid si = k"
  by (induction sis) (auto split: if_splits)

interpretation shm: keyed_table shmem_find shmem_hash_add shmem_set si_shmid
proof
  fix si tab k
  show "shmem_find (shmem_hash_add si tab) k = (if k = si_shmid si then Some si else shmem_find tab k)"
    by (auto simp: shmem_find_def shmem_hash_add_def Let_def)
  show "shmem_find tab (si_shmid si) \<noteq> None \<Longrightarrow> shmem_find (shmem_set si tab) k = (if k = si_shmid si then Some si else shmem_find tab k)"
    using chain_find_set [of si "tab (shmem_chain (si_shmid si))" k] by (auto simp: shmem_find_def shmem_set_def Let_def)
  show "shmem_find tab k = Some si \<Longrightarrow> si_shmid si = k"
    by (auto simp: shmem_find_def dest: chain_find_key)
qed

subsection \<open>Counting the areas\<close>

text \<open>The calls of \<open>collect_shmem\<close>, in the order of tasks and areas; the first failure ends the series.\<close>

fun collect_calls :: "bool \<Rightarrow> (int \<times> vma_entry) list \<Rightarrow> shmems \<Rightarrow> int \<times> shmems" where
  "collect_calls alloc [] tab = (0, tab)"
| "collect_calls alloc ((pid, v) # cs) tab =
     (let (ret, tab) = collect_shmem alloc pid v tab in if ret \<noteq> 0 then (ret, tab) else collect_calls alloc cs tab)"

definition area_size :: "vma_entry \<Rightarrow> nat" where
  "area_size v = ul_sub (ul_add (v_pgoff v) (v_end v)) (v_start v)"

definition of_seg :: "ulong \<Rightarrow> (int \<times> vma_entry) list \<Rightarrow> (int \<times> vma_entry) list" where
  "of_seg k cs = filter (\<lambda>(p, v). v_shmid v = k) cs"

definition counted :: "(int \<times> vma_entry) list \<Rightarrow> shmem_info \<Rightarrow> bool" where
  "counted cs si \<longleftrightarrow> cs \<noteq> [] \<and> si_pid si = Min (fst ` set cs) \<and> si_count si = length cs \<and>
     si_self_count si = length (filter (\<lambda>(p, v). p = si_pid si) cs) \<and> si_size si = Max (area_size ` snd ` set cs)"

lemma pid_rst_prio_less: "0 \<le> a \<Longrightarrow> a < 2 ^ 31 \<Longrightarrow> 0 \<le> b \<Longrightarrow> b < 2 ^ 31 \<Longrightarrow> pid_rst_prio a b \<longleftrightarrow> a < b"
  by (simp add: pid_rst_prio_def)

text \<open>One more area.\<close>

lemma counted_snoc:
  assumes c: "counted cs si" and p: "0 \<le> p" "p < 2 ^ 31" "\<forall>q\<in>fst ` set cs. 0 \<le> q \<and> q < 2 ^ 31"
  shows "counted (cs @ [(p, v)])
    (let si = (if si_size si < area_size v then si\<lparr>si_size := area_size v\<rparr> else si); si = si\<lparr>si_count := si_count si + 1\<rparr>
     in if \<not> pid_rst_prio p (si_pid si) then (if si_pid si = p then si\<lparr>si_self_count := si_self_count si + 1\<rparr> else si)
        else si\<lparr>si_pid := p, si_self_count := 1\<rparr>)"
proof -
  let ?P = "fst ` set cs" and ?S = "area_size ` snd ` set cs"
  have ne: "?P \<noteq> {}" "?S \<noteq> {}" and c': "si_pid si = Min ?P" "si_count si = length cs" "si_self_count si = length (filter (\<lambda>(p, v). p = si_pid si) cs)" "si_size si = Max ?S"
    using c by (auto simp: counted_def)
  have mn: "Min (fst ` set (cs @ [(p, v)])) = min p (si_pid si)" "Max (area_size ` snd ` set (cs @ [(p, v)])) = max (area_size v) (si_size si)"
    using ne c' by (simp_all add: Min_insert Max_insert)
  have "si_pid si \<in> ?P" using ne(1) c'(1) by (simp add: Min_in)
  then have "0 \<le> si_pid si" "si_pid si < 2 ^ 31" using p(3) by blast+
  note pr = pid_rst_prio_less [OF p(1,2) this]
  show ?thesis
  proof (cases "p < si_pid si")
    case True
    have "filter (\<lambda>(q, v). q = p) cs = []"
    proof (rule ccontr)
      assume "filter (\<lambda>(q, v). q = p) cs \<noteq> []"
      then have "p \<in> ?P" by (force simp: filter_empty_conv)
      then have "Min ?P \<le> p" by simp
      then show False using True c'(1) by simp
    qed
    then show ?thesis using True pr c' unfolding counted_def mn by (auto simp: Let_def max_def min_def)
  next
    case False
    then show ?thesis using pr c' unfolding counted_def mn by (auto simp: Let_def max_def min_def)
  qed
qed

definition table_counts :: "(int \<times> vma_entry) list \<Rightarrow> shmems \<Rightarrow> bool" where
  "table_counts cs tab \<longleftrightarrow> (\<forall>k. case shmem_find tab k of None \<Rightarrow> of_seg k cs = [] | Some si \<Rightarrow> counted (of_seg k cs) si)"

lemma table_countsD:
  "table_counts cs tab \<Longrightarrow> shmem_find tab k = None \<Longrightarrow> of_seg k cs = []"
  "table_counts cs tab \<Longrightarrow> shmem_find tab k = Some si \<Longrightarrow> counted (of_seg k cs) si"
  by (auto simp: table_counts_def dest: spec [of _ k])

definition calls_ok :: "(int \<times> vma_entry) list \<Rightarrow> bool" where
  "calls_ok cs \<longleftrightarrow> (\<forall>(p, v)\<in>set cs. 0 \<le> p \<and> p < 2 ^ 31 \<and> \<not> vma_entry_is v VMA_AREA_SYSVIPC)"

lemma collect_shmem_step:
  assumes t: "table_counts cs tab" and ok: "calls_ok (cs @ [(p, v)])" and r: "collect_shmem alloc p v tab = (0, tab')"
  shows "table_counts (cs @ [(p, v)]) tab'"
proof -
  have pv: "0 \<le> p" "p < 2 ^ 31" "\<not> vma_entry_is v VMA_AREA_SYSVIPC" using ok by (auto simp: calls_ok_def)
  have pcs: "\<forall>q\<in>fst ` set (of_seg k cs). 0 \<le> q \<and> q < 2 ^ 31" for k using ok by (auto simp: calls_ok_def of_seg_def)
  have seg: "of_seg k (cs @ [(p, v)]) = of_seg k cs @ (if v_shmid v = k then [(p, v)] else [])" for k by (simp add: of_seg_def)
  show ?thesis
  proof (cases "shmem_find tab (v_shmid v)")
    case None
    let ?new = "\<lparr>si_shmid = v_shmid v, si_pid = p, si_size = area_size v, si_fd = -1, si_count = 1, si_self_count = 1,
                             si_att = [], si_want_write = False, si_start = 0, si_end = 0, si_pstate_map = None\<rparr>"
    have "tab' = shmem_hash_add ?new tab" using r None pv(3) by (auto simp: collect_shmem_def area_size_def Let_def split: if_splits)
    moreover have "counted [(p, v)] ?new" by (simp add: counted_def)
    ultimately show ?thesis
      unfolding table_counts_def seg using table_countsD [OF t] None by (auto simp: shm.find_add split: option.splits)
  next
    case (Some si)
    let ?si = "let si = (if si_size si < area_size v then si\<lparr>si_size := area_size v\<rparr> else si); si = si\<lparr>si_count := si_count si + 1\<rparr>
     in if \<not> pid_rst_prio p (si_pid si) then (if si_pid si = p then si\<lparr>si_self_count := si_self_count si + 1\<rparr> else si)
        else si\<lparr>si_pid := p, si_self_count := 1\<rparr>"
    have tab': "tab' = shmem_set ?si tab" using r Some pv(3) by (auto simp: collect_shmem_def area_size_def Let_def split: if_splits)
    have k: "si_shmid ?si = v_shmid v" using shm.key_find [OF Some] by (simp add: Let_def)
    note c = table_countsD(2) [OF t Some]
    obtain s where s: "tab' = shmem_set s tab" "si_shmid s = v_shmid v" "counted (of_seg (v_shmid v) cs @ [(p, v)]) s"
      using tab' k counted_snoc [OF c pv(1,2) pcs, of v] by blast
    show ?thesis
      unfolding table_counts_def seg s(1) using s(3) table_countsD [OF t] shm.put_found [OF Some s(2)] by (auto split: option.splits)
  qed
qed

lemma collect_calls_counts:
  assumes "collect_calls alloc cs tab = (0, tab')" "table_counts done_calls tab" "calls_ok (done_calls @ cs)"
  shows "table_counts (done_calls @ cs) tab'"
  using assms
proof (induction cs arbitrary: done_calls tab)
  case (Cons c cs)
  obtain p v where c: "c = (p, v)" by (cases c)
  then obtain tab1 where s: "collect_shmem alloc p v tab = (0, tab1)" "collect_calls alloc cs tab1 = (0, tab')"
    using Cons.prems(1) by (auto simp: Let_def split: prod.splits if_splits)
  have ok: "calls_ok (done_calls @ [(p, v)])" using Cons.prems(3) c by (simp add: calls_ok_def)
  from Cons.IH [OF s(2) collect_shmem_step [OF Cons.prems(2) ok s(1)]] Cons.prems(3) c show ?case by simp
qed simp

lemma collect_shmem_total:
  assumes t: "table_counts cs tab" and ok: "calls_ok (cs @ [(p, v)])"
  shows "\<exists>tab'. collect_shmem True p v tab = (0, tab')"
proof (cases "shmem_find tab (v_shmid v)")
  case (Some si)
  have "si_pid si \<in> fst ` set (of_seg (v_shmid v) cs)" using table_countsD(2) [OF t Some] by (simp add: counted_def Min_in)
  then have "si_pid si \<noteq> SYSVIPC_SHMEM_PID" using ok by (auto simp: calls_ok_def of_seg_def SYSVIPC_SHMEM_PID_def)
  then show ?thesis using Some by (simp add: collect_shmem_def Let_def)
qed (simp add: collect_shmem_def Let_def)

lemma collect_calls_total:
  "table_counts done_calls tab \<Longrightarrow> calls_ok (done_calls @ cs) \<Longrightarrow> \<exists>tab'. collect_calls True cs tab = (0, tab')"
proof (induction cs arbitrary: done_calls tab)
  case (Cons c cs)
  obtain p v where c: "c = (p, v)" by (cases c)
  have ok: "calls_ok (done_calls @ [(p, v)])" using Cons.prems(2) c by (simp add: calls_ok_def)
  obtain tab1 where tab1: "collect_shmem True p v tab = (0, tab1)" using collect_shmem_total [OF Cons.prems(1) ok] by blast
  from Cons.IH [OF collect_shmem_step [OF Cons.prems(1) ok tab1]] Cons.prems(2) c show ?case by (simp add: tab1)
qed simp

lemma table_counts_empty: "table_counts [] (\<lambda>_. [])"
  by (simp add: table_counts_def shmem_find_def of_seg_def)

text \<open>
  (C14) Counting the areas: after any series of successful calls of \<open>collect_shmem\<close> on the empty table, the entry of a segment has the lowest pid
  that maps it as its creator, the number of its areas, the number of those of the creator, and the largest size that an area needs;
  a segment without areas has no entry.
\<close>

theorem collect_shmem_counts:
  assumes "collect_calls alloc cs (\<lambda>_. []) = (0, tab)" "\<forall>(p, v)\<in>set cs. 0 \<le> p \<and> p < 2 ^ 31 \<and> \<not> vma_entry_is v VMA_AREA_SYSVIPC"
  shows "case shmem_find tab k of
      None \<Rightarrow> \<forall>(p, v)\<in>set cs. v_shmid v \<noteq> k
    | Some si \<Rightarrow> si_pid si = Min {p. \<exists>v. (p, v) \<in> set cs \<and> v_shmid v = k} \<and> si_count si = length (filter (\<lambda>(p, v). v_shmid v = k) cs) \<and>
        si_self_count si = length (filter (\<lambda>(p, v). v_shmid v = k \<and> p = si_pid si) cs) \<and>
        si_size si = Max {ul_sub (ul_add (v_pgoff v) (v_end v)) (v_start v) |p v. (p, v) \<in> set cs \<and> v_shmid v = k}"
proof -
  from collect_calls_counts [OF assms(1) table_counts_empty] have t: "table_counts cs tab" using assms(2) by (simp add: calls_ok_def)
  have e: "{p. \<exists>v. (p, v) \<in> set cs \<and> v_shmid v = k} = fst ` set (of_seg k cs)"
    "{ul_sub (ul_add (v_pgoff v) (v_end v)) (v_start v) |p v. (p, v) \<in> set cs \<and> v_shmid v = k} = area_size ` snd ` set (of_seg k cs)"
    by (force simp: of_seg_def area_size_def)+
  show ?thesis
  proof (cases "shmem_find tab k")
    case None
    note table_countsD(1) [OF t None]
    then show ?thesis using None by (auto simp: of_seg_def filter_empty_conv)
  next
    case (Some si)
    note c = table_countsD(2) [OF t Some]
    have "filter (\<lambda>(p, v). p = si_pid si) (of_seg k cs) = filter (\<lambda>(p, v). v_shmid v = k \<and> p = si_pid si) cs"
      by (simp add: of_seg_def case_prod_unfold conj_commute)
    then show ?thesis using Some c unfolding e by (simp add: counted_def) (simp add: of_seg_def)
  qed
qed

definition shm_area :: "ulong \<Rightarrow> ulong \<Rightarrow> ulong \<Rightarrow> vma_entry" where
  "shm_area k start len = \<lparr>v_start = start, v_end = start + len, v_pgoff = 0, v_shmid = k, v_prot = 3, v_flags = 1, v_status = VMA_AREA_REGULAR OR VMA_ANON_SHARED,
     v_fd = -1, v_fdflags = None\<rparr>"

lemma v_shmid_shm_area [simp]: "v_shmid (shm_area k start len) = k"
  by (simp add: shm_area_def)

theorem collect_shmem_counts_witness:
  "\<exists>tab si. collect_calls True [(7, shm_area 33 4096 8192), (5, shm_area 33 4096 4096), (5, shm_area 33 16384 4096), (5, shm_area 1 4096 4096)] (\<lambda>_. []) = (0, tab)
     \<and> shmem_find tab 33 = Some si \<and> si_pid si = 5 \<and> si_count si = 3 \<and> si_self_count si = 2"
proof -
  let ?cs = "[(7 :: int, shm_area 33 4096 8192), (5, shm_area 33 4096 4096), (5, shm_area 33 16384 4096), (5, shm_area 1 4096 4096)]"
  have ok: "\<forall>(p, v)\<in>set ?cs. 0 \<le> p \<and> p < 2 ^ 31 \<and> \<not> vma_entry_is v VMA_AREA_SYSVIPC"
    by (simp add: shm_area_def vma_entry_is_def VMA_AREA_SYSVIPC_def VMA_AREA_REGULAR_def VMA_ANON_SHARED_def)
  obtain tab where tab: "collect_calls True ?cs (\<lambda>_. []) = (0, tab)"
    using collect_calls_total [OF table_counts_empty, of ?cs] ok by (auto simp: calls_ok_def)
  note c = collect_shmem_counts [OF tab ok, of 33]
  obtain si where si: "shmem_find tab 33 = Some si"
  proof (cases "shmem_find tab 33")
    case None
    then have "\<forall>(p, v)\<in>set ?cs. v_shmid v \<noteq> 33" using c by (simp only: option.case)
    then show ?thesis by simp
  qed
  have pid: "si_pid si = Min {p. \<exists>v. (p, v) \<in> set ?cs \<and> v_shmid v = 33}" and cnt: "si_count si = length (filter (\<lambda>(p, v). v_shmid v = 33) ?cs)"
    and self: "si_self_count si = length (filter (\<lambda>(p, v). v_shmid v = 33 \<and> p = si_pid si) ?cs)"
    using c unfolding si option.case by (rule conjunct1, rule conjunct2 [THEN conjunct1], rule conjunct2 [THEN conjunct2, THEN conjunct1])
  have "{p. \<exists>v. (p, v) \<in> set ?cs \<and> v_shmid v = 33} = {7, 5}" by auto
  then have p5: "si_pid si = 5" using pid by simp
  have "si_count si = 3" unfolding cnt by simp
  moreover have "si_self_count si = 2" unfolding self p5 by simp
  ultimately show ?thesis using si tab p5 by blast
qed

subsection \<open>Opening the segments\<close>

text \<open>
  The state of the restore: for every task the segments of the areas it has still to open, in order, and whether it waits for the others
  after creating the first of them; for every segment whether its descriptor is there and the value of its futex. A step is what
  a task does between two waits. The system calls succeed.
\<close>

record shm_tasks =
  t_todo :: "int \<Rightarrow> ulong list"
  t_wait :: "int \<Rightarrow> bool"
  t_fd :: "ulong \<Rightarrow> bool"
  t_lock :: "ulong \<Rightarrow> nat"

inductive open_step :: "shmems \<Rightarrow> shm_tasks \<Rightarrow> shm_tasks \<Rightarrow> bool" for tab where
  wait_and_open: "t_todo s p = k # r \<Longrightarrow> shmem_find tab k = Some si \<Longrightarrow> si_pid si \<noteq> p \<Longrightarrow> t_lock s k \<noteq> 0 \<Longrightarrow>
    open_step tab s (s\<lparr>t_todo := (t_todo s)(p := r), t_lock := (t_lock s)(k := t_lock s k + 1)\<rparr>)"
| dup: "t_todo s p = k # r \<Longrightarrow> shmem_find tab k = Some si \<Longrightarrow> si_pid si = p \<Longrightarrow> t_fd s k \<Longrightarrow> \<not> t_wait s p \<Longrightarrow>
    open_step tab s (s\<lparr>t_todo := (t_todo s)(p := r)\<rparr>)"
| create: "t_todo s p = k # r \<Longrightarrow> shmem_find tab k = Some si \<Longrightarrow> si_pid si = p \<Longrightarrow> \<not> t_fd s k \<Longrightarrow>
    open_step tab s (s\<lparr>t_fd := (t_fd s)(k := True), t_lock := (t_lock s)(k := t_lock s k + 1), t_wait := (t_wait s)(p := True)\<rparr>)"
| all_open: "t_todo s p = k # r \<Longrightarrow> shmem_find tab k = Some si \<Longrightarrow> t_wait s p \<Longrightarrow> t_lock s k = si_count si - si_self_count si + 1 \<Longrightarrow>
    open_step tab s (s\<lparr>t_todo := (t_todo s)(p := r), t_wait := (t_wait s)(p := False)\<rparr>)"

definition open_start :: "(int \<times> vma_entry) list \<Rightarrow> shm_tasks" where
  "open_start cs = \<lparr>t_todo = (\<lambda>p. map (v_shmid \<circ> snd) (filter (\<lambda>(q, v). q = p) cs)), t_wait = (\<lambda>_. False), t_fd = (\<lambda>_. False), t_lock = (\<lambda>_. 0)\<rparr>"

text \<open>How many areas of a segment are still to be opened by tasks other than its creator.\<close>

definition slaves_left :: "int set \<Rightarrow> shm_tasks \<Rightarrow> ulong \<Rightarrow> int \<Rightarrow> nat" where
  "slaves_left P s k m = (\<Sum>p\<in>P - {m}. count_list (t_todo s p) k)"

definition open_inv :: "int set \<Rightarrow> shmems \<Rightarrow> shm_tasks \<Rightarrow> bool" where
  "open_inv P tab s \<longleftrightarrow>
     (\<forall>p. p \<notin> P \<longrightarrow> t_todo s p = []) \<and>
     (\<forall>p. t_wait s p \<longrightarrow> (\<exists>k r si. t_todo s p = k # r \<and> shmem_find tab k = Some si \<and> si_pid si = p \<and> t_fd s k)) \<and>
     (\<forall>p. \<forall>k\<in>set (t_todo s p). shmem_find tab k \<noteq> None) \<and>
     (\<forall>k si. shmem_find tab k = Some si \<longrightarrow>
        (if t_fd s k then 0 < t_lock s k \<and> t_lock s k + slaves_left P s k (si_pid si) = si_count si - si_self_count si + 1
         else t_lock s k = 0 \<and> k \<in> set (t_todo s (si_pid si)) \<and> slaves_left P s k (si_pid si) = si_count si - si_self_count si))"

lemma slaves_left_other: "t_todo s' p = t_todo s p \<Longrightarrow> (\<And>q. q \<noteq> p \<Longrightarrow> t_todo s' q = t_todo s q) \<Longrightarrow> slaves_left P s' k m = slaves_left P s k m"
  unfolding slaves_left_def by (rule sum.cong) metis+

lemma slaves_left_open:
  assumes "finite P" "t_todo s p = k # r" "p \<in> P"
  shows "slaves_left P (s\<lparr>t_todo := (t_todo s)(p := r)\<rparr>) j m + (if j = k \<and> p \<noteq> m then 1 else 0) = slaves_left P s j m"
proof (cases "p = m")
  case True
  then show ?thesis unfolding slaves_left_def by (auto intro!: sum.cong)
next
  case False
  then have p: "p \<in> P - {m}" "finite (P - {m})" using assms by auto
  have "(\<Sum>q\<in>P - {m} - {p}. count_list (((t_todo s)(p := r)) q) j) = (\<Sum>q\<in>P - {m} - {p}. count_list (t_todo s q) j)"
    by (rule sum.cong) auto
  then show ?thesis using False assms(2) unfolding slaves_left_def sum.remove [OF p(2,1)] by simp
qed

lemma open_inv_pop:
  assumes inv: "open_inv P tab s" and fin: "finite P" and td: "t_todo s p = k # r" and si: "shmem_find tab k = Some si" and fd: "t_fd s k"
  shows "open_inv P tab (s\<lparr>t_todo := (t_todo s)(p := r), t_wait := (t_wait s)(p := False), t_lock := (t_lock s)(k := t_lock s k + (if si_pid si \<noteq> p then 1 else 0))\<rparr>)"
    (is "open_inv P tab ?s")
proof -
  have pP: "p \<in> P" using inv td by (auto simp: open_inv_def)
  have sl: "slaves_left P ?s j m = slaves_left P (s\<lparr>t_todo := (t_todo s)(p := r)\<rparr>) j m" for j m by (simp add: slaves_left_def)
  note so = slaves_left_open [OF fin td pP]
  show ?thesis
    unfolding open_inv_def
  proof (intro conjI allI ballI impI)
    fix q assume "q \<notin> P"
    then show "t_todo ?s q = []" using inv pP by (auto simp: open_inv_def)
  next
    fix q assume "t_wait ?s q"
    then have "t_wait s q" "q \<noteq> p" by (auto split: if_splits)
    then show "\<exists>k r si. t_todo ?s q = k # r \<and> shmem_find tab k = Some si \<and> si_pid si = q \<and> t_fd ?s k" using inv by (auto simp: open_inv_def)
  next
    fix q j assume "j \<in> set (t_todo ?s q)"
    then have "j \<in> set (t_todo s q)" using td by (auto split: if_splits)
    then show "shmem_find tab j \<noteq> None" using inv by (auto simp: open_inv_def)
  next
    fix j sj assume j: "shmem_find tab j = Some sj"
    let ?m = "si_pid sj"
    have old: "if t_fd s j then 0 < t_lock s j \<and> t_lock s j + slaves_left P s j ?m = si_count sj - si_self_count sj + 1
         else t_lock s j = 0 \<and> j \<in> set (t_todo s ?m) \<and> slaves_left P s j ?m = si_count sj - si_self_count sj"
      using inv j unfolding open_inv_def by blast
    have sum: "slaves_left P ?s j ?m + (if j = k \<and> p \<noteq> ?m then 1 else 0) = slaves_left P s j ?m" unfolding sl by (rule so)
    show "if t_fd ?s j then 0 < t_lock ?s j \<and> t_lock ?s j + slaves_left P ?s j ?m = si_count sj - si_self_count sj + 1
         else t_lock ?s j = 0 \<and> j \<in> set (t_todo ?s ?m) \<and> slaves_left P ?s j ?m = si_count sj - si_self_count sj"
    proof (cases "j = k")
      case True
      then have "sj = si" using si j by simp
      then show ?thesis using True fd old sum by (auto split: if_splits)
    next
      case False
      then show ?thesis using old sum td by (auto split: if_splits)
    qed
  qed
qed

lemma open_inv_step:
  assumes "open_step tab s s'" "open_inv P tab s" "finite P"
  shows "open_inv P tab s'"
  using assms
proof (cases rule: open_step.cases)
  case (wait_and_open p k r si)
  have "t_fd s k" using assms(2) wait_and_open unfolding open_inv_def by metis
  moreover have "\<not> t_wait s p" using assms(2) wait_and_open unfolding open_inv_def by (metis list.inject option.inject)
  then have "(t_wait s)(p := False) = t_wait s" by (simp add: fun_upd_idem_iff)
  ultimately show ?thesis using open_inv_pop [OF assms(2,3) wait_and_open(2,3)] wait_and_open by simp
next
  case (dup p k r si)
  then have "(t_wait s)(p := False) = t_wait s" by (simp add: fun_upd_idem_iff)
  then show ?thesis using open_inv_pop [OF assms(2,3) dup(2,3)] dup by simp
next
  case (all_open p k r si)
  have "si_pid si = p" "t_fd s k" using assms(2) all_open unfolding open_inv_def by (metis list.inject option.inject)+
  moreover have "(t_lock s)(k := t_lock s k) = t_lock s" by simp
  ultimately show ?thesis using open_inv_pop [OF assms(2,3) all_open(2,3)] all_open(1) by simp
next
  case (create p k r si)
  have sl: "slaves_left P s' j m = slaves_left P s j m" for j m by (simp add: slaves_left_def create)
  have old: "if t_fd s j then 0 < t_lock s j \<and> t_lock s j + slaves_left P s j (si_pid sj) = si_count sj - si_self_count sj + 1
         else t_lock s j = 0 \<and> j \<in> set (t_todo s (si_pid sj)) \<and> slaves_left P s j (si_pid sj) = si_count sj - si_self_count sj"
    if "shmem_find tab j = Some sj" for j sj
    using assms(2) that unfolding open_inv_def by blast
  have w: "\<exists>k r si. t_todo s q = k # r \<and> shmem_find tab k = Some si \<and> si_pid si = q \<and> t_fd s k" if "t_wait s q" for q
    using assms(2) that unfolding open_inv_def by blast
  show ?thesis
    unfolding open_inv_def sl
  proof (intro conjI allI ballI impI)
    fix q assume "t_wait s' q"
    then show "\<exists>k r si. t_todo s' q = k # r \<and> shmem_find tab k = Some si \<and> si_pid si = q \<and> t_fd s' k"
      using w [of q] create by (cases "q = p") auto
  next
    fix j sj assume "shmem_find tab j = Some sj"
    from old [OF this] show "if t_fd s' j then 0 < t_lock s' j \<and> t_lock s' j + slaves_left P s j (si_pid sj) = si_count sj - si_self_count sj + 1
         else t_lock s' j = 0 \<and> j \<in> set (t_todo s' (si_pid sj)) \<and> slaves_left P s j (si_pid sj) = si_count sj - si_self_count sj"
      using create by (cases "j = k") auto
  qed (use assms(2) create in \<open>auto simp: open_inv_def\<close>)
qed

text \<open>Every step takes an area off a list or begins a wait, of which there is one per area at most.\<close>

definition steps_left :: "int set \<Rightarrow> shm_tasks \<Rightarrow> nat" where
  "steps_left P s = (\<Sum>p\<in>P. 2 * length (t_todo s p) - (if t_wait s p then 1 else 0))"

lemma open_step_decreases:
  assumes step: "open_step tab s s'" and inv: "open_inv P tab s" and fin: "finite P"
  shows "steps_left P s' < steps_left P s"
proof -
  have w: "\<exists>k r si. t_todo s q = k # r \<and> shmem_find tab k = Some si \<and> si_pid si = q \<and> t_fd s k" if "t_wait s q" for q
    using inv that unfolding open_inv_def by blast
  from step obtain p where p: "t_todo s p \<noteq> []" "\<And>q. q \<noteq> p \<Longrightarrow> t_todo s' q = t_todo s q \<and> t_wait s' q = t_wait s q"
    "2 * length (t_todo s' p) - (if t_wait s' p then 1 else 0) < 2 * length (t_todo s p) - (if t_wait s p then 1 else (0 :: nat))"
  proof cases
    case (wait_and_open p k r si)
    then have "\<not> t_wait s p" using w [of p] by auto
    then show ?thesis using wait_and_open by (intro that [of p]) auto
  next
    case (dup p k r si)
    then show ?thesis by (intro that [of p]) auto
  next
    case (create p k r si)
    then have "\<not> t_wait s p" using w [of p] by auto
    then show ?thesis using create by (intro that [of p]) auto
  next
    case (all_open p k r si)
    then show ?thesis by (intro that [of p]) auto
  qed
  have "p \<in> P" using inv p(1) by (auto simp: open_inv_def)
  moreover have "2 * length (t_todo s' q) - (if t_wait s' q then 1 else 0) \<le> 2 * length (t_todo s q) - (if t_wait s q then 1 else 0)" for q
    using p(2) [of q] p(3) by (cases "q = p") simp_all
  ultimately show ?thesis unfolding steps_left_def using p(3) by (intro sum_strict_mono_ex1 [OF fin] ballI bexI [of _ p])
qed

subsection \<open>The start\<close>

lemma count_others:
  "finite P \<Longrightarrow> fst ` set cs \<subseteq> P \<Longrightarrow>
   (\<Sum>p\<in>P - {m}. count_list (map (v_shmid \<circ> snd) (filter (\<lambda>(q, v). q = p) cs)) k) = length (filter (\<lambda>(p, v). v_shmid v = k \<and> p \<noteq> m) cs)"
proof (induction cs)
  case (Cons c cs)
  obtain q v where c: "c = (q, v)" by (cases c)
  have "(\<Sum>p\<in>P - {m}. count_list (map (v_shmid \<circ> snd) (filter (\<lambda>(q, v). q = p) (c # cs))) k) =
      (\<Sum>p\<in>P - {m}. (if q = p then (if v_shmid v = k then 1 else 0) else 0) + count_list (map (v_shmid \<circ> snd) (filter (\<lambda>(q, v). q = p) cs)) k)"
    unfolding c by (intro sum.cong) auto
  also have "\<dots> = (if q \<in> P - {m} then (if v_shmid v = k then 1 else 0) else 0) + length (filter (\<lambda>(p, v). v_shmid v = k \<and> p \<noteq> m) cs)"
    using Cons by (simp add: sum.distrib sum.delta' comp_def)
  also have "\<dots> = length (filter (\<lambda>(p, v). v_shmid v = k \<and> p \<noteq> m) (c # cs))"
    using Cons.prems c by auto
  finally show ?case .
qed simp

lemma open_start_inv:
  assumes t: "table_counts cs tab"
  shows "open_inv (fst ` set cs) tab (open_start cs)"
proof -
  let ?s = "open_start cs" and ?P = "fst ` set cs"
  have td: "t_todo ?s p = map (v_shmid \<circ> snd) (filter (\<lambda>(q, v). q = p) cs)" for p by (simp add: open_start_def)
  have "k \<in> set (t_todo ?s (si_pid si)) \<and> slaves_left ?P ?s k (si_pid si) = si_count si - si_self_count si" if "shmem_find tab k = Some si" for k si
  proof -
    note c = table_countsD(2) [OF t that]
    have "si_pid si \<in> fst ` set (of_seg k cs)" using c by (simp add: counted_def Min_in)
    then have k: "k \<in> set (t_todo ?s (si_pid si))" by (force simp: td of_seg_def)
    have "length (filter (\<lambda>(p, v). v_shmid v = k \<and> p \<noteq> m) cs) + length (filter (\<lambda>(p, v). p = m) (of_seg k cs)) = length (of_seg k cs)" for m
      unfolding of_seg_def by (induction cs) auto
    from this [of "si_pid si"] have "length (filter (\<lambda>(p, v). v_shmid v = k \<and> p \<noteq> si_pid si) cs) = si_count si - si_self_count si"
      using c unfolding counted_def by simp
    then show ?thesis using k unfolding slaves_left_def td by (simp add: count_others)
  qed
  moreover have "shmem_find tab k \<noteq> None" if "k \<in> set (t_todo ?s p)" for k p
  proof
    assume "shmem_find tab k = None"
    note table_countsD(1) [OF t this]
    then show False using that by (force simp: td of_seg_def filter_empty_conv)
  qed
  moreover have "t_todo ?s p = []" if "p \<notin> ?P" for p using that by (force simp: td filter_empty_conv)
  ultimately show ?thesis unfolding open_inv_def by (simp add: open_start_def)
qed

subsection \<open>Progress\<close>

lemma open_step_todo: "open_step tab s s' \<Longrightarrow> t_todo s' p = t_todo s p \<or> t_todo s' p = tl (t_todo s p)"
  by (cases rule: open_step.cases) auto

lemma open_progress:
  assumes inv: "open_inv P tab s" and fin: "finite P" and inj: "inj (rank :: ulong \<Rightarrow> nat)"
    and srt: "\<And>p. sorted (map rank (t_todo s p))" and ne: "t_todo s p0 \<noteq> []"
  shows "\<exists>s'. open_step tab s s'"
proof -
  let ?U = "{p. t_todo s p \<noteq> []}"
  have "?U \<subseteq> P" using inv by (auto simp: open_inv_def)
  then have "finite ?U" using fin finite_subset by blast
  then obtain p where p: "p \<in> ?U" and least: "\<And>q. q \<in> ?U \<Longrightarrow> rank (hd (t_todo s p)) \<le> rank (hd (t_todo s q))"
    using arg_min_if_finite [of ?U "\<lambda>q. rank (hd (t_todo s q))"] ne by (metis (lifting) empty_iff linorder_not_less mem_Collect_eq)
  then obtain k r where k: "t_todo s p = k # r" by (cases "t_todo s p") auto
  have head: "\<exists>r. t_todo s q = k # r" if kq: "k \<in> set (t_todo s q)" for q
  proof -
    obtain j r' where j: "t_todo s q = j # r'" using kq by (cases "t_todo s q") auto
    have "rank k \<le> rank j" using least [of q] j k by simp
    moreover have "rank j \<le> rank k" using srt [of q] that j by auto
    ultimately show ?thesis using j injD [OF inj, of j k] by simp
  qed
  have "\<forall>p. \<forall>k\<in>set (t_todo s p). shmem_find tab k \<noteq> None" using inv unfolding open_inv_def by (elim conjE)
  from bspec [OF spec [OF this, of p], of k] obtain si where si: "shmem_find tab k = Some si" using k by auto
  have seg: "if t_fd s k then 0 < t_lock s k \<and> t_lock s k + slaves_left P s k (si_pid si) = si_count si - si_self_count si + 1
         else t_lock s k = 0 \<and> k \<in> set (t_todo s (si_pid si)) \<and> slaves_left P s k (si_pid si) = si_count si - si_self_count si"
    using inv si unfolding open_inv_def by blast
  show ?thesis
  proof (cases "t_fd s k")
    case False
    then obtain r where "t_todo s (si_pid si) = k # r" using seg head by auto
    from create [OF this si refl False] show ?thesis by blast
  next
    case fd: True
    show ?thesis
    proof (cases "si_pid si = p \<and> t_wait s p \<and> slaves_left P s k p \<noteq> 0")
      case True
      then obtain q where "q \<noteq> p" "k \<in> set (t_todo s q)" unfolding slaves_left_def
        by (metis (no_types, lifting) Diff_iff count_list_0_iff insertI1 sum.neutral)
      then obtain r where r: "t_todo s q = k # r" using head by blast
      from wait_and_open [OF r si] seg fd True \<open>q \<noteq> p\<close> show ?thesis by auto
    next
      case False
      consider "si_pid si \<noteq> p" | "si_pid si = p" "\<not> t_wait s p" | "si_pid si = p" "t_wait s p" "slaves_left P s k p = 0" using False by blast
      then show ?thesis
      proof cases
        case 1
        from wait_and_open [OF k si 1] seg fd show ?thesis by auto
      next
        case 2
        from dup [OF k si 2(1) fd 2(2)] show ?thesis by blast
      next
        case 3
        from all_open [OF k si 3(2)] seg fd 3 show ?thesis by auto
      qed
    qed
  qed
qed

lemma steps_left_start:
  "finite P \<Longrightarrow> fst ` set cs \<subseteq> P \<Longrightarrow> steps_left P (open_start cs) = 2 * length cs"
proof (induction cs)
  case (Cons c cs)
  obtain q v where c: "c = (q, v)" by (cases c)
  have "steps_left P (open_start (c # cs)) = (\<Sum>p\<in>P. (if q = p then 2 else 0) + 2 * length (t_todo (open_start cs) p))"
    unfolding steps_left_def c by (intro sum.cong) (auto simp: open_start_def)
  also have "\<dots> = 2 + steps_left P (open_start cs)" using Cons.prems c by (simp add: sum.distrib sum.delta' steps_left_def open_start_def)
  finally show ?case using Cons by simp
qed (simp add: steps_left_def open_start_def)

lemma open_run:
  assumes "(open_step tab ^^ n) s0 s" "open_inv P tab s0" "finite P" "\<And>p. sorted (map rank (t_todo s0 p))"
  shows "open_inv P tab s \<and> n + steps_left P s \<le> steps_left P s0 \<and> (\<forall>p. sorted (map rank (t_todo s p)))"
  using assms(1)
proof (induction n arbitrary: s)
  case (Suc n)
  then obtain s1 where s1: "(open_step tab ^^ n) s0 s1" "open_step tab s1 s" by (auto simp: OO_def)
  note IH = Suc.IH [OF s1(1)]
  have "sorted (map rank (t_todo s p))" for p using open_step_todo [OF s1(2), of p] IH by (auto simp: map_tl sorted_tl)
  then show ?case using IH open_inv_step [OF s1(2) _ assms(3)] open_step_decreases [OF s1(2) _ assms(3)] by fastforce
qed (use assms in simp)

text \<open>
  (C13) No deadlock: when every task has its shared areas in the order of one common ranking of the segments, as forked tasks with one
  layout have, then the tasks never block each other for ever. Whatever the interleaving, after any number of steps from the start
  either every area is open or some task can go on, and no run is longer than two steps per area.
\<close>

theorem shmem_open_no_deadlock:
  assumes "collect_calls alloc cs (\<lambda>_. []) = (0, tab)" "\<forall>(p, v)\<in>set cs. 0 \<le> p \<and> p < 2 ^ 31 \<and> \<not> vma_entry_is v VMA_AREA_SYSVIPC"
    and "inj (rank :: ulong \<Rightarrow> nat)" "\<forall>p. sorted (map (rank \<circ> v_shmid \<circ> snd) (filter (\<lambda>(q, v). q = p) cs))"
    and "(open_step tab ^^ n) (open_start cs) s"
  shows "n \<le> 2 * length cs \<and> ((\<forall>p. t_todo s p = []) \<or> (\<exists>s'. open_step tab s s'))"
proof -
  let ?P = "fst ` set cs"
  have inv: "open_inv ?P tab (open_start cs)"
    using collect_calls_counts [OF assms(1) table_counts_empty] assms(2) by (intro open_start_inv) (simp add: calls_ok_def)
  have "sorted (map rank (t_todo (open_start cs) p))" for p using assms(4) by (simp add: open_start_def comp_def)
  from open_run [OF assms(5) inv _ this]
  have r: "open_inv ?P tab s" "n + steps_left ?P s \<le> steps_left ?P (open_start cs)" "\<And>p. sorted (map rank (t_todo s p))" by simp_all
  then show ?thesis using open_progress [OF r(1) _ assms(3) r(3)] steps_left_start [of ?P cs] by auto
qed

theorem shmem_open_no_deadlock_witness:
  "\<exists>tab. collect_calls True [(1, shm_area 1 4096 4096), (1, shm_area 2 8192 4096), (2, shm_area 1 4096 4096), (2, shm_area 2 8192 4096)] (\<lambda>_. []) = (0, tab) \<and>
     (\<exists>s'. open_step tab (open_start [(1, shm_area 1 4096 4096), (1, shm_area 2 8192 4096), (2, shm_area 1 4096 4096), (2, shm_area 2 8192 4096)]) s')"
proof -
  let ?cs = "[(1 :: int, shm_area 1 4096 4096), (1, shm_area 2 8192 4096), (2, shm_area 1 4096 4096), (2, shm_area 2 8192 4096)]"
  have ok: "\<forall>(p, v)\<in>set ?cs. 0 \<le> p \<and> p < 2 ^ 31 \<and> \<not> vma_entry_is v VMA_AREA_SYSVIPC"
    by (simp add: shm_area_def vma_entry_is_def VMA_AREA_SYSVIPC_def VMA_AREA_REGULAR_def VMA_ANON_SHARED_def)
  obtain tab where tab: "collect_calls True ?cs (\<lambda>_. []) = (0, tab)"
    using collect_calls_total [OF table_counts_empty, of ?cs] ok by (auto simp: calls_ok_def)
  have "\<forall>p. sorted (map (id \<circ> v_shmid \<circ> snd) (filter (\<lambda>(q, v). q = p) ?cs))" by (auto simp: shm_area_def)
  moreover have "(open_step tab ^^ 0) (open_start ?cs) (open_start ?cs)" by simp
  ultimately have "(\<forall>p. t_todo (open_start ?cs) p = []) \<or> (\<exists>s'. open_step tab (open_start ?cs) s')"
    using shmem_open_no_deadlock [OF tab ok inj_on_id] by blast
  moreover have "t_todo (open_start ?cs) 1 \<noteq> []" by (simp add: open_start_def)
  ultimately show ?thesis using tab by blast
qed

definition crossed_areas :: "(int \<times> vma_entry) list" where
  "crossed_areas = [(1, shm_area 1 4096 4096), (1, shm_area 2 8192 4096), (2, shm_area 2 4096 4096), (2, shm_area 3 8192 4096),
     (3, shm_area 3 4096 4096), (3, shm_area 1 8192 4096)]"

lemma crossed_ok: "calls_ok crossed_areas"
  by (simp add: calls_ok_def crossed_areas_def shm_area_def vma_entry_is_def VMA_AREA_SYSVIPC_def VMA_AREA_REGULAR_def VMA_ANON_SHARED_def)

lemma crossed_table:
  assumes "table_counts crossed_areas tab"
  obtains s1 s2 s3 where "shmem_find tab 1 = Some s1" "si_pid s1 = 1" "si_count s1 - si_self_count s1 = 1"
    "shmem_find tab 2 = Some s2" "si_pid s2 = 1" "shmem_find tab 3 = Some s3" "si_pid s3 = 2"
proof -
  have seg: "of_seg 1 crossed_areas = [(1, shm_area 1 4096 4096), (3, shm_area 1 8192 4096)]"
     "of_seg 2 crossed_areas = [(1, shm_area 2 8192 4096), (2, shm_area 2 4096 4096)]"
     "of_seg 3 crossed_areas = [(2, shm_area 3 8192 4096), (3, shm_area 3 4096 4096)]"
    by (simp_all add: of_seg_def crossed_areas_def shm_area_def)
  have "\<exists>si. shmem_find tab k = Some si \<and> counted (of_seg k crossed_areas) si" if "of_seg k crossed_areas \<noteq> []" for k
    using table_countsD [OF assms, of k] that by (cases "shmem_find tab k") auto
  from this [of 1] this [of 2] this [of 3] show ?thesis unfolding seg by (auto simp: counted_def intro: that)
qed

text \<open>
  Three tasks that wait in a circle: \<open>p1\<close> has created \<open>k1\<close> and waits for \<open>p3\<close> to open it, \<open>p3\<close> waits for \<open>p2\<close> to create \<open>k3\<close>, and \<open>p2\<close> for \<open>p1\<close> to create \<open>k2\<close>.
\<close>

definition circle :: "int \<Rightarrow> ulong list \<Rightarrow> int \<Rightarrow> ulong list \<Rightarrow> int \<Rightarrow> ulong list \<Rightarrow> shm_tasks \<Rightarrow> bool" where
  "circle p1 l1 p2 l2 p3 l3 s \<longleftrightarrow> t_todo s p1 = l1 \<and> t_wait s p1 \<and> t_todo s p2 = l2 \<and> t_todo s p3 = l3 \<and> \<not> t_fd s (hd l2) \<and> \<not> t_fd s (hd l3)"

lemma slaves_left_pos: "finite P \<Longrightarrow> p \<in> P \<Longrightarrow> p \<noteq> m \<Longrightarrow> k \<in> set (t_todo s p) \<Longrightarrow> 0 < slaves_left P s k m"
  unfolding slaves_left_def by (intro sum_pos2 [of _ p]) (auto simp: count_list_0_iff neq0_conv [symmetric] simp del: neq0_conv)

lemma circle_step:
  assumes c: "circle p1 (k1 # r1) p2 (k2 # r2) p3 (k3 # r3) s" and inv: "open_inv P tab s" and fin: "finite P"
    and m: "shmem_find tab k1 = Some s1" "si_pid s1 = p1" "shmem_find tab k2 = Some s2" "si_pid s2 = p1" "shmem_find tab k3 = Some s3" "si_pid s3 = p2"
    and ne: "k1 \<in> set r3" "p1 \<noteq> p2" "p1 \<noteq> p3" "p2 \<noteq> p3" and step: "open_step tab s s'"
  shows "circle p1 (k1 # r1) p2 (k2 # r2) p3 (k3 # r3) s'"
proof -
  have td: "t_todo s p1 = k1 # r1" "t_todo s p2 = k2 # r2" "t_todo s p3 = k3 # r3" "t_wait s p1" "\<not> t_fd s k2" "\<not> t_fd s k3"
    using c by (auto simp: circle_def)
  have seg: "if t_fd s j then 0 < t_lock s j \<and> t_lock s j + slaves_left P s j (si_pid sj) = si_count sj - si_self_count sj + 1
         else t_lock s j = 0 \<and> j \<in> set (t_todo s (si_pid sj)) \<and> slaves_left P s j (si_pid sj) = si_count sj - si_self_count sj"
    if "shmem_find tab j = Some sj" for j sj
    using inv that unfolding open_inv_def by blast
  have w: "\<exists>k r si. t_todo s q = k # r \<and> shmem_find tab k = Some si \<and> si_pid si = q \<and> t_fd s k" if "t_wait s q" for q
    using inv that unfolding open_inv_def by blast
  have lk: "t_lock s k2 = 0" "t_lock s k3 = 0" using seg [OF m(3)] seg [OF m(5)] td by auto
  have fd1: "t_fd s k1" using w [OF td(4)] td(1) by auto
  have "p3 \<in> P" using inv td(3) by (auto simp: open_inv_def)
  then have "0 < slaves_left P s k1 (si_pid s1)" using fin ne td(3) m(2) by (intro slaves_left_pos [of _ p3]) auto
  then have full: "t_lock s k1 \<noteq> si_count s1 - si_self_count s1 + 1" using seg [OF m(1)] fd1 by auto
  from step show ?thesis
  proof cases
    case (wait_and_open p k r si)
    then have "p \<noteq> p1" "p \<noteq> p2" "p \<noteq> p3" using td m lk by auto
    then show ?thesis using wait_and_open c by (simp add: circle_def)
  next
    case (dup p k r si)
    then have "p \<noteq> p1" "p \<noteq> p2" "p \<noteq> p3" using td m ne by auto
    then show ?thesis using dup c by (simp add: circle_def)
  next
    case (create p k r si)
    then have "p \<noteq> p1" "p \<noteq> p2" "p \<noteq> p3" using td m ne fd1 by auto
    moreover from this have "k \<noteq> k2" "k \<noteq> k3" using create m by auto
    ultimately show ?thesis using create c by (simp add: circle_def)
  next
    case (all_open p k r si)
    then have "p \<noteq> p1" "p \<noteq> p2" "p \<noteq> p3" using td m full w [of p] ne by auto
    then show ?thesis using all_open c by (simp add: circle_def)
  qed
qed

text \<open>
  (C38) Without a common order of the segments the restore can block for ever, although the task with the lowest pid creates each segment. Let the first area of
  task \<open>p1\<close> be of segment \<open>k1\<close>, that of \<open>p2\<close> of \<open>k2\<close> and that of \<open>p3\<close> of \<open>k3\<close>, let \<open>p1\<close> be the creator of \<open>k1\<close> and \<open>k2\<close> and \<open>p2\<close> that of \<open>k3\<close>, and let \<open>p3\<close> have a later area
  of \<open>k1\<close>. Then there is a run after which, whatever the other tasks do, none of the three ever opens an area.
\<close>

theorem shmem_open_deadlock:
  assumes "collect_calls alloc cs (\<lambda>_. []) = (0, tab)" "\<forall>(p, v)\<in>set cs. 0 \<le> p \<and> p < 2 ^ 31 \<and> \<not> vma_entry_is v VMA_AREA_SYSVIPC"
    and td: "t_todo (open_start cs) p1 = k1 # r1" "t_todo (open_start cs) p2 = k2 # r2" "t_todo (open_start cs) p3 = k3 # r3"
    and m: "shmem_find tab k1 = Some s1" "si_pid s1 = p1" "shmem_find tab k2 = Some s2" "si_pid s2 = p1" "shmem_find tab k3 = Some s3" "si_pid s3 = p2"
    and ne: "k1 \<in> set r3" "k1 \<noteq> k2" "p1 \<noteq> p2" "p1 \<noteq> p3" "p2 \<noteq> p3"
  shows "\<exists>s. (open_step tab)\<^sup>*\<^sup>* (open_start cs) s \<and>
     (\<forall>t. (open_step tab)\<^sup>*\<^sup>* s t \<longrightarrow> t_todo t p1 = k1 # r1 \<and> t_todo t p2 = k2 # r2 \<and> t_todo t p3 = k3 # r3)"
proof -
  let ?a = "open_start cs" and ?P = "fst ` set cs"
  let ?s = "?a\<lparr>t_fd := (t_fd ?a)(k1 := True), t_lock := (t_lock ?a)(k1 := t_lock ?a k1 + 1), t_wait := (t_wait ?a)(p1 := True)\<rparr>"
  have inv0: "open_inv ?P tab ?a"
    using collect_calls_counts [OF assms(1) table_counts_empty] assms(2) by (intro open_start_inv) (simp add: calls_ok_def)
  have st: "open_step tab ?a ?s" by (rule create [OF td(1) m(1,2)]) (simp add: open_start_def)
  have inv: "open_inv ?P tab ?s" by (rule open_inv_step [OF st inv0]) simp
  have "k3 \<noteq> k1" using m ne(3) by auto
  then have c: "circle p1 (k1 # r1) p2 (k2 # r2) p3 (k3 # r3) ?s" using td ne(2) by (simp add: circle_def) (simp add: open_start_def)
  have "open_inv ?P tab t \<and> circle p1 (k1 # r1) p2 (k2 # r2) p3 (k3 # r3) t" if "(open_step tab)\<^sup>*\<^sup>* ?s t" for t
    using that
  proof (induction rule: rtranclp_induct)
    case (step t u)
    then show ?case using open_inv_step [OF step(2), of ?P] circle_step [OF _ _ _ m ne(1,3,4,5) step(2), of r1 r2 ?P] by simp
  qed (use inv c in simp)
  then show ?thesis using st by (intro exI [of _ ?s]) (auto simp: circle_def)
qed

theorem shmem_open_deadlock_witness:
  "\<exists>tab s. collect_calls True crossed_areas (\<lambda>_. []) = (0, tab) \<and> (open_step tab)\<^sup>*\<^sup>* (open_start crossed_areas) s \<and>
     (\<forall>t. (open_step tab)\<^sup>*\<^sup>* s t \<longrightarrow> t_todo t 1 = [1, 2] \<and> t_todo t 2 = [2, 3] \<and> t_todo t 3 = [3, 1])"
proof -
  obtain tab where tab: "collect_calls True crossed_areas (\<lambda>_. []) = (0, tab)"
    using collect_calls_total [OF table_counts_empty] crossed_ok by fastforce
  have "table_counts crossed_areas tab" using collect_calls_counts [OF tab table_counts_empty] crossed_ok by simp
  then obtain s1 s2 s3 where t: "shmem_find tab 1 = Some s1" "si_pid s1 = 1" "si_count s1 - si_self_count s1 = 1"
    "shmem_find tab 2 = Some s2" "si_pid s2 = 1" "shmem_find tab 3 = Some s3" "si_pid s3 = 2" by (rule crossed_table)
  have todo: "t_todo (open_start crossed_areas) 1 = [1, 2]" "t_todo (open_start crossed_areas) 2 = [2, 3]" "t_todo (open_start crossed_areas) 3 = [3, 1]"
    by (simp_all add: open_start_def crossed_areas_def)
  have ok: "\<forall>(p, v)\<in>set crossed_areas. 0 \<le> p \<and> p < 2 ^ 31 \<and> \<not> vma_entry_is v VMA_AREA_SYSVIPC" using crossed_ok by (simp add: calls_ok_def)
  show ?thesis using shmem_open_deadlock [OF tab ok todo t(1,2,4-7)] tab by auto
qed

end
