(* ===== verification/Spec2Isabelle.thy ===== *)
theory Spec2Isabelle
  imports Prelude KList Bitmap RstMalloc Bfd ServiceFd PagePipe PageRead PageReadCorrect PageReadClients
    UffdLimits PageServer PreDump ShmemCorrect ShmemOpen
begin

text \<open>
  Verification development for CRIU, which checkpoints a tree of processes into image files and restores it from them.

  \<^bold>\<open>The program.\<close> A dump stops the tasks, finds the pages of their memory that have to be saved, and describes them in page pipes
  (\<open>criu/page-pipe.c\<close>), whose kernel pipes take the contents. The transfer (\<open>criu/page-xfer.c\<close>) moves the pages from the pipes into a pagemap image
  and a pages image, here or, over a connection, on another machine with a page server. Shared memory (\<open>criu/shmem.c\<close>) is dumped once for all
  the tasks that map it, with the pagemap cache (\<open>criu/pagemap-cache.c\<close>) telling which pages exist. A series of dumps forms a chain of snapshots,
  in which an image has holes for what its parent has. A restore reads pages through a chain of page readers (\<open>criu/pagemap.c\<close>), which can also
  deduplicate old snapshots (\<open>criu/cr-dedup.c\<close>), or leaves them to the lazy pages daemon (\<open>criu/uffd.c\<close>), which fills them in while the task runs.
  Below these are intrusive lists (\<open>include/common/list.h\<close>), bitmaps (\<open>criu/bitmap.c\<close>), an allocator whose memory moves with the restorer
  (\<open>criu/rst-malloc.c\<close>), buffered descriptors for the images (\<open>criu/bfd.c\<close>) and the descriptors that the tool keeps for itself
  (\<open>criu/servicefd.c\<close>).

  \<^bold>\<open>The model.\<close> Each C function is a HOL function of the same name on records with the fields of its structures; a loop is a
  recursion of its own, named in the text beside it. Values of \<open>unsigned long\<close> are natural numbers with the wrap-around written out (\<open>ul_add\<close>,
  \<open>ul_sub\<close>, \<open>ul_mul\<close>, in Prelude), flags and messages are words, and conversions to \<open>int\<close> that can truncate are explicit. A routine that can die in a
  \<open>BUG()\<close>, or that writes outside its array or frees memory twice, has the result type \<open>outcome\<close>, or \<open>run\<close> where it can also run for ever. Loops
  without a bound are \<open>partial_function (option)\<close>, where \<open>None\<close> is an endless run, and the properties show that they return, or on which inputs they do not; only
  \<open>read_lines\<close>, the loop of a client of \<open>breadline\<close>, has fuel, and its property gives enough of it. What the kernel, the allocator and the files answer are arguments, collected in
  one record for each component (\<open>mm_sys\<close>, \<open>file_sys\<close>, \<open>fd_sys\<close>, \<open>pp_sys\<close>, \<open>pr_sys\<close>, \<open>xfer_sys\<close>, \<open>vm_sys\<close>, \<open>server_sys\<close>, \<open>pmc_sys\<close>, \<open>seek_sys\<close>, \<open>dump_sys\<close>);
  the documented behaviour that a property needs of them is a named predicate in its hypotheses, such as \<open>read_law\<close>, \<open>setpipe_ok\<close> or \<open>splice_ok\<close>.

  \<^bold>\<open>The theories.\<close>

  \<^item> Prelude: machine arithmetic, \<open>outcome\<close>, byte memory, and the rule collections \<open>c_arith\<close> and \<open>flag_simps\<close>.
  \<^item> KList: \<open>list.h\<close>, store by store on a heap of two pointer fields. \<open>dlist h l xs\<close> relates a head to the list it carries; every operation implements the one on
    lists that its name promises and leaves other lists alone. The locale \<open>intrusive_list\<close> has these laws, and the other theories use HOL lists for the lists of the code on their strength.
  \<^item> Bitmap: the operations on single bits and on ranges, word by word, and \<open>find_next_bit\<close>, as operations on the bits (locale \<open>bit_set\<close>).
  \<^item> RstMalloc: the three arenas. In every sequence of calls live blocks are disjoint and inside their arena, \<open>rst_mem_remap\<close> lays them out disjointly in the
    announced length, and a cookie finds its block after the arena has moved.
  \<^item> Bfd: reading through a page of buffer gives the bytes of the file however \<open>read\<close> splits them; what \<open>breadchr\<close> returns in every case; reading text by lines;
    written images are complete when no failure was reported; buffers do not overlap.
  \<^item> ServiceFd: the choice of the base, installation, and the move of all descriptors to another base, with overlapping ranges.
  \<^item> PagePipe: the invariant \<open>pp_inv\<close> (runs of iovecs, page counts, places in shared kernel pipes), kept by every operation; a page pipe describes exactly the pages
    and holes that were added (\<open>pp_pages\<close>, \<open>hole_pages\<close>), and reading one gives the pages asked for.
  \<^item> PageRead, PageReadCorrect, PageReadClients: readers, and the specification \<open>byte_at\<close>, the byte that a chain of snapshots has for an address. Seeking, synchronous and queued
    reads, streams, \<open>punch_hole\<close>, deduplication and the restore of shared memory refine it. The locale \<open>sync_reader\<close> is the contract of a read for its clients.
  \<^item> Uffd, UffdCorrect, UffdRun, UffdCollect, UffdLimits: the lists of the daemon are abstracted to the map from addresses to image addresses that is still owed
    (\<open>remaining\<close>), the handlers to operations on this map; \<open>lz_run\<close> are the runs of a task and the daemon, as sequences of steps of the relation \<open>lz_step\<close>. Then how the
    lists are made at the start, how much is asked for, and the inputs on which handlers fail.
  \<^item> PageXfer, PageXferCorrect, PageServer, PageDump, PreDump: the transfer, the server and the pre-dump of running tasks. A dump is a list of operations in the order of addresses
    (\<open>dump_ops\<close>); a server that receives its messages has the images of a local dump, and a reader of these images finds the bytes that were in the pipes and, under holes, those of the parent.
  \<^item> Vma, DumpBuild, DumpRun, Shmem, ShmemCorrect, ShmemOpen: memory areas and the pagemap cache; what holds while a page pipe is filled, moved to the images and reused
    (\<open>building\<close>, \<open>dumping\<close>); the table of segments (locale \<open>keyed_table\<close>), their page states and their dump, whose images the restore turns back into the
    contents; and \<open>open_step\<close>, the steps of tasks that open segments at the same time, with the condition under which they never block.

  \<^bold>\<open>Bounds and conditions.\<close> Each property states its own. Those of the environment: addresses and lengths are below \<open>2 ^ 64\<close> and pages are aligned; system calls return at most what was asked
  for; where a property is about success, calls make progress. Those of the program, which it does not check itself: the runs of the lazy pages daemon unmap less than 2 GB at once
  and unmap or move memory only while the requests in flight are in the order of addresses; the lines of text files are shorter than a page, and a \<open>read\<close> is short only behind a whole
  line; a buffer of a pre-dump has at most \<open>PIPE_MAX_SIZE\<close> pages; the ranges of a dump over a connection fit the 32-bit page counts of its messages. The properties of kind error show what happens outside of them.

  \<^bold>\<open>Not modelled.\<close> The drivers of dump and restore, the parasite and the code injection by ptrace, and the re-creation of files, sockets, mounts, namespaces, terminals and other
  kernel objects, whose behaviour is that of the kernel. The encoding of the images: protobuf code is generated by the build, so images are lists of entries here. Of the modelled
  files: TLS, statistics, log messages, the sockets and the event loop of the lazy pages daemon, reads from a remote page server and the thread of the server that sends pages to such a daemon, and
  the mappings and memfds that carry the contents of a segment.
\<close>

end
